(* ===== verification/Prelude.thy ===== *)
theory Prelude
  imports Main "HOL-Library.Word" "HOL-Library.Monad_Syntax"
begin

unbundle bit_operations_syntax

text \<open>
  Shared vocabulary of the development: bytes, C pointers, the conversions to the
  fixed-width unsigned types, list slices, and the collections the component theories
  add their facts to.

  Undefined behaviour and non-termination of the C code are the value \<^term>\<open>None\<close> of a
  result in \<open>'a option\<close>; a statement that an operation returns \<^term>\<open>Some\<close> of a value
  therefore says that the code returns and stays inside the memory it may touch.
\<close>

section \<open>Types of the models\<close>

type_synonym byte = "8 word"

text \<open>An address. Pointer arithmetic is on unbounded integers; where the code tests for a
  wrap-around of the 64-bit address, the test is written with \<open>U64\<close>.\<close>

type_synonym ptr = int

definition NULL :: ptr where
  "NULL = 0"

definition U16 :: "int \<Rightarrow> int" where
  "U16 x = x mod 2 ^ 16"

definition U32 :: "int \<Rightarrow> int" where
  "U32 x = x mod 2 ^ 32"

definition U64 :: "int \<Rightarrow> int" where
  "U64 x = x mod 2 ^ 64"

text \<open>The constants \<open>KB\<close>, \<open>MB\<close> and \<open>GB\<close> of lz4.c.\<close>

abbreviation KB :: int where "KB \<equiv> 1024"
abbreviation GB :: int where "GB \<equiv> 1024 * 1024 * 1024"

named_theorems mem_simps "facts about reading and writing the flat memory"
named_theorems copy_laws "what each copy routine leaves in memory"

section \<open>Truncation\<close>

lemma U16_id [simp]: "0 \<le> x \<Longrightarrow> x < 65536 \<Longrightarrow> U16 x = x"
  by (simp add: U16_def)

lemma U32_id [simp]: "0 \<le> x \<Longrightarrow> x < 4294967296 \<Longrightarrow> U32 x = x"
  by (simp add: U32_def)

lemma U64_id [simp]: "0 \<le> x \<Longrightarrow> x < 18446744073709551616 \<Longrightarrow> U64 x = x"
  by (simp add: U64_def)

lemma U16_range: "0 \<le> U16 x" "U16 x < 65536"
  by (simp_all add: U16_def)

lemma U32_range: "0 \<le> U32 x" "U32 x < 4294967296"
  by (simp_all add: U32_def)

lemma uint_byte_of_nat: "n < 256 \<Longrightarrow> uint (word_of_nat n :: byte) = int n"
  by (simp add: unsigned_of_nat take_bit_nat_eq_self)

lemma unat_byte_of_nat: "n < 256 \<Longrightarrow> unat (word_of_nat n :: byte) = n"
  by (simp add: unsigned_of_nat take_bit_nat_eq_self)

lemma uint_byte_lt: "uint (b :: byte) < 256"
  using uint_bounded [of b] by simp

lemma unat_byte_lt: "unat (b :: byte) < 256"
  using unsigned_less [of b, where ?'a = nat] by simp

lemma unat_byte_255: "unat (b :: byte) = 255 \<longleftrightarrow> b = 255"
  by (simp add: word_unat_eq_iff)

lemma byte_of_nat_255: "n < 255 \<Longrightarrow> (word_of_nat n :: byte) \<noteq> 255"
  by (simp add: word_unat_eq_iff unat_byte_of_nat)

lemma mod8_shift: "(x - (d + 8)) mod 8 = (x - d) mod (8 :: int)"
  by (simp only: diff_diff_eq [symmetric] minus_mod_self2)

section \<open>Lists\<close>

lemma map_upt_eqI:
  "length xs = n \<Longrightarrow> (\<And>i. i < n \<Longrightarrow> f i = xs ! i) \<Longrightarrow> map f [0..<n] = xs"
  by (rule nth_equalityI) auto

lemma nth_append_take_drop:
  "i < length xs \<Longrightarrow> (take k xs @ drop k xs) ! i = xs ! i"
  by simp

lemma take_map_upt: "k \<le> n \<Longrightarrow> take k (map f [0..<n]) = map f [0..<k]"
  by (simp add: take_map)

lemma concat_map_snoc: "concat (map f (xs @ [x])) = concat (map f xs) @ f x"
  by simp

section \<open>Byte arrays\<close>

text \<open>\<open>std::memcpy\<close> from one array to another and \<open>std::memset\<close> on an array, as the C++ code uses
  them on its fixed-size buffers. A copy that leaves an array is undefined.\<close>

definition array_copy :: "byte list \<Rightarrow> nat \<Rightarrow> byte list \<Rightarrow> nat \<Rightarrow> nat \<Rightarrow> byte list option" where
  "array_copy dst d src s n =
     (if d + n \<le> length dst \<and> s + n \<le> length src
      then Some (take d dst @ take n (drop s src) @ drop (d + n) dst) else None)"

definition array_fill :: "byte list \<Rightarrow> byte \<Rightarrow> nat \<Rightarrow> byte list option" where
  "array_fill dst b n = (if n \<le> length dst then Some (replicate n b @ drop n dst) else None)"

lemma array_copy_Some [simp]:
  "d + n \<le> length dst \<Longrightarrow> s + n \<le> length src \<Longrightarrow>
     array_copy dst d src s n = Some (take d dst @ take n (drop s src) @ drop (d + n) dst)"
  by (simp add: array_copy_def)

lemma array_copy_length: "array_copy dst d src s n = Some r \<Longrightarrow> length r = length dst"
  by (auto simp: array_copy_def split: if_splits)

lemma array_fill_Some [simp]: "n \<le> length dst \<Longrightarrow> array_fill dst b n = Some (replicate n b @ drop n dst)"
  by (simp add: array_fill_def)

section \<open>Options\<close>

lemma bind_eq_SomeI: "x = Some a \<Longrightarrow> f a = Some b \<Longrightarrow> Option.bind x f = Some b"
  by simp

section \<open>The interface of a block codec\<close>

text \<open>What a client of a compressor of blocks of \<open>n\<close> bytes relies on: every block is encoded, and what
  an encoding stands for is what it is decoded to.\<close>

locale block_codec =
  fixes n :: nat
    and enc :: "byte list \<Rightarrow> 'b option"
    and stands_for :: "'b \<Rightarrow> byte list \<Rightarrow> bool"
    and dec :: "'b \<Rightarrow> byte list \<Rightarrow> (bool \<times> byte list) option"
  assumes enc_stands: "length block = n \<Longrightarrow> \<exists>b. enc block = Some b \<and> stands_for b block"
    and dec_stands: "stands_for b block \<Longrightarrow> length dest = n \<Longrightarrow> dec b dest = Some (True, block)"
begin

lemma roundtrip:
  assumes "length block = n" and "length dest = n"
  shows "\<exists>b. enc block = Some b \<and> dec b dest = Some (True, block)"
  using enc_stands [OF assms(1)] dec_stands [OF _ assms(2)] by blast

lemma stands_for_unique: "stands_for b p \<Longrightarrow> stands_for b q \<Longrightarrow> p = q"
  using dec_stands [of b p "replicate n 0"] dec_stands [of b q "replicate n 0"] by simp

lemma enc_inject:
  assumes "length p = n" and "length q = n" and "enc p = enc q"
  shows "p = q"
  using enc_stands [OF assms(1)] enc_stands [OF assms(2)] assms(3) stands_for_unique by auto

end

end
