(* ===== verification/Lz4_Memory.thy ===== *)
theory Lz4_Memory
  imports Prelude
begin

text \<open>
  The memory routines of src/lz4.c: unaligned little-endian reads and writes, the copy
  loops that may write past their end (\<open>LZ4_wildCopy8\<close>, \<open>LZ4_wildCopy32\<close>) and the
  offset-aware match copies (\<open>LZ4_memcpy_using_offset\<close>). The memory is one flat
  address space; an address outside the allocated cells is \<^term>\<open>None\<close>, so a load or a
  store there makes the whole operation \<^term>\<open>None\<close>.

  The configuration modelled is the one CMakeLists.txt builds on x86-64 with gcc or clang:
  little-endian, \<open>reg_t\<close> of 64 bits, \<open>LZ4_FORCE_MEMORY_ACCESS = 1\<close>,
  \<open>LZ4_FAST_DEC_LOOP = 1\<close>.
\<close>

section \<open>The flat memory\<close>

type_synonym mem = "ptr \<rightharpoonup> byte"

definition mapped :: "mem \<Rightarrow> ptr \<Rightarrow> nat \<Rightarrow> bool" where
  "mapped m a n = list_all (\<lambda>i. m (a + int i) \<noteq> None) [0..<n]"

text \<open>The bytes of a stretch of memory, and the memory with a stretch replaced.\<close>

definition bytes :: "mem \<Rightarrow> ptr \<Rightarrow> nat \<Rightarrow> byte list" where
  "bytes m a n = map (\<lambda>i. the (m (a + int i))) [0..<n]"

definition put :: "mem \<Rightarrow> ptr \<Rightarrow> byte list \<Rightarrow> mem" where
  "put m a bs = (\<lambda>x. if a \<le> x \<and> x < a + int (length bs) then Some (bs ! nat (x - a)) else m x)"

definition load_bytes :: "mem \<Rightarrow> ptr \<Rightarrow> nat \<Rightarrow> byte list option" where
  "load_bytes m a n = (if mapped m a n then Some (bytes m a n) else None)"

definition store_bytes :: "mem \<Rightarrow> ptr \<Rightarrow> byte list \<Rightarrow> mem option" where
  "store_bytes m a bs = (if mapped m a (length bs) then Some (put m a bs) else None)"

text \<open>C's \<open>memcpy\<close> is undefined on areas that overlap without being the same area;
  \<open>memmove\<close> is defined on all.\<close>

definition LZ4_memcpy :: "mem \<Rightarrow> ptr \<Rightarrow> ptr \<Rightarrow> nat \<Rightarrow> mem option" where
  "LZ4_memcpy m d s n =
     (if d \<noteq> s \<and> \<bar>d - s\<bar> < int n then None
      else do { bs \<leftarrow> load_bytes m s n; store_bytes m d bs })"

definition LZ4_memmove :: "mem \<Rightarrow> ptr \<Rightarrow> ptr \<Rightarrow> nat \<Rightarrow> mem option" where
  "LZ4_memmove m d s n = do { bs \<leftarrow> load_bytes m s n; store_bytes m d bs }"

section \<open>Little-endian words\<close>

fun le_word :: "byte list \<Rightarrow> 'a::len word" where
  "le_word [] = 0"
| "le_word (b # bs) = ucast b OR push_bit 8 (le_word bs)"

definition le_bytes :: "nat \<Rightarrow> 'a::len word \<Rightarrow> byte list" where
  "le_bytes n w = map (\<lambda>i. ucast (drop_bit (8 * i) w)) [0..<n]"

definition LZ4_read16 :: "mem \<Rightarrow> ptr \<Rightarrow> 16 word option" where
  "LZ4_read16 m p = map_option le_word (load_bytes m p 2)"

definition LZ4_read32 :: "mem \<Rightarrow> ptr \<Rightarrow> 32 word option" where
  "LZ4_read32 m p = map_option le_word (load_bytes m p 4)"

definition LZ4_read_ARCH :: "mem \<Rightarrow> ptr \<Rightarrow> 64 word option" where
  "LZ4_read_ARCH m p = map_option le_word (load_bytes m p 8)"

definition LZ4_write16 :: "mem \<Rightarrow> ptr \<Rightarrow> 16 word \<Rightarrow> mem option" where
  "LZ4_write16 m p v = store_bytes m p (le_bytes 2 v)"

definition LZ4_write32 :: "mem \<Rightarrow> ptr \<Rightarrow> 32 word \<Rightarrow> mem option" where
  "LZ4_write32 m p v = store_bytes m p (le_bytes 4 v)"

text \<open>\<open>LZ4_isLittleEndian\<close> holds in the modelled configuration, so the first branch of
  \<open>LZ4_readLE16\<close> and of \<open>LZ4_writeLE16\<close> is taken.\<close>

definition LZ4_readLE16 :: "mem \<Rightarrow> ptr \<Rightarrow> int option" where
  "LZ4_readLE16 m p = map_option uint (LZ4_read16 m p)"

definition LZ4_writeLE16 :: "mem \<Rightarrow> ptr \<Rightarrow> int \<Rightarrow> mem option" where
  "LZ4_writeLE16 m p v = LZ4_write16 m p (word_of_int v)"

section \<open>Copy loops\<close>

text \<open>\<open>do { memcpy(d,s,8); d+=8; s+=8; } while (d<e)\<close>.\<close>

function LZ4_wildCopy8 :: "mem \<Rightarrow> ptr \<Rightarrow> ptr \<Rightarrow> ptr \<Rightarrow> mem option" where
  "LZ4_wildCopy8 m d s e =
     do { m' \<leftarrow> LZ4_memcpy m d s 8;
          if d + 8 < e then LZ4_wildCopy8 m' (d + 8) (s + 8) e else Some m' }"
  by pat_completeness auto
termination
  by (relation "measure (\<lambda>(m, d, s, e). nat (e - d))") auto

declare LZ4_wildCopy8.simps [simp del]

function LZ4_wildCopy32 :: "mem \<Rightarrow> ptr \<Rightarrow> ptr \<Rightarrow> ptr \<Rightarrow> mem option" where
  "LZ4_wildCopy32 m d s e =
     do { m1 \<leftarrow> LZ4_memcpy m d s 16;
          m2 \<leftarrow> LZ4_memcpy m1 (d + 16) (s + 16) 16;
          if d + 32 < e then LZ4_wildCopy32 m2 (d + 32) (s + 32) e else Some m2 }"
  by pat_completeness auto
termination
  by (relation "measure (\<lambda>(m, d, s, e). nat (e - d))") auto

declare LZ4_wildCopy32.simps [simp del]

definition inc32table :: "int list" where
  "inc32table = [0, 1, 2, 1, 0, 4, 4, 4]"

definition dec64table :: "int list" where
  "dec64table = [0, 0, 0, -1, -4, 1, 2, 3]"

definition LZ4_memcpy_using_offset_base ::
  "mem \<Rightarrow> ptr \<Rightarrow> ptr \<Rightarrow> ptr \<Rightarrow> int \<Rightarrow> mem option" where
  "LZ4_memcpy_using_offset_base m dstPtr srcPtr dstEnd offset =
     (if offset < 8 then
        do { m \<leftarrow> LZ4_write32 m dstPtr 0;
             m \<leftarrow> LZ4_memcpy m dstPtr srcPtr 2;
             m \<leftarrow> LZ4_memcpy m (dstPtr + 2) (srcPtr + 2) 2;
             let srcPtr = srcPtr + inc32table ! nat offset;
             m \<leftarrow> LZ4_memcpy m (dstPtr + 4) srcPtr 4;
             let srcPtr = srcPtr - dec64table ! nat offset;
             LZ4_wildCopy8 m (dstPtr + 8) srcPtr dstEnd }
      else
        do { m \<leftarrow> LZ4_memcpy m dstPtr srcPtr 8;
             LZ4_wildCopy8 m (dstPtr + 8) (srcPtr + 8) dstEnd })"

text \<open>The stores of the eight-byte pattern: \<open>memcpy(dstPtr, v, 8)\<close> and then the loop
  \<open>while (dstPtr < dstEnd)\<close>.\<close>

function write_pattern :: "mem \<Rightarrow> ptr \<Rightarrow> ptr \<Rightarrow> byte list \<Rightarrow> mem option" where
  "write_pattern m dstPtr dstEnd v =
     (if dstPtr < dstEnd then
        do { m' \<leftarrow> store_bytes m dstPtr v; write_pattern m' (dstPtr + 8) dstEnd v }
      else Some m)"
  by pat_completeness auto
termination
  by (relation "measure (\<lambda>(m, d, e, v). nat (e - d))") auto

declare write_pattern.simps [simp del]

definition LZ4_memcpy_using_offset ::
  "mem \<Rightarrow> ptr \<Rightarrow> ptr \<Rightarrow> ptr \<Rightarrow> int \<Rightarrow> mem option" where
  "LZ4_memcpy_using_offset m dstPtr srcPtr dstEnd offset =
     (if offset = 1 then
        do { b \<leftarrow> load_bytes m srcPtr 1;
             let v = replicate 8 (b ! 0);
             m \<leftarrow> store_bytes m dstPtr v;
             write_pattern m (dstPtr + 8) dstEnd v }
      else if offset = 2 then
        do { b \<leftarrow> load_bytes m srcPtr 2;
             let v = b @ b @ b @ b;
             m \<leftarrow> store_bytes m dstPtr v;
             write_pattern m (dstPtr + 8) dstEnd v }
      else if offset = 4 then
        do { b \<leftarrow> load_bytes m srcPtr 4;
             let v = b @ b;
             m \<leftarrow> store_bytes m dstPtr v;
             write_pattern m (dstPtr + 8) dstEnd v }
      else LZ4_memcpy_using_offset_base m dstPtr srcPtr dstEnd offset)"

text \<open>The byte loop \<open>while (op < end) { *op++ = *match++; }\<close> of the decoder.\<close>

function copy_loop :: "mem \<Rightarrow> ptr \<Rightarrow> ptr \<Rightarrow> ptr \<Rightarrow> mem option" where
  "copy_loop m op match endOfCopy =
     (if op < endOfCopy then
        do { b \<leftarrow> load_bytes m match 1;
             m' \<leftarrow> store_bytes m op b;
             copy_loop m' (op + 1) (match + 1) endOfCopy }
      else Some m)"
  by pat_completeness auto
termination
  by (relation "measure (\<lambda>(m, d, s, e). nat (e - d))") auto

declare copy_loop.simps [simp del]

end
