(* ===== verification/Lz4_Format.thy ===== *)
theory Lz4_Format
  imports Prelude
begin

text \<open>
  The LZ4 block format as an abstract object: a block is a list of sequences (literals and a
  match) followed by the last literals. \<open>enc_block\<close> is its encoding as bytes and
  \<open>exec_seqs\<close> the bytes it stands for, given the history the matches may refer to. The
  encoder of src/lz4.c is shown to produce such encodings and the decoder to execute them.
\<close>

section \<open>Sequences and their meaning\<close>

record lz_seq =
  sq_lits :: "byte list"
  sq_off :: nat
  sq_mlen :: nat

text \<open>A match appends \<open>n\<close> bytes, each the one \<open>off\<close> before the end of what is there so far.
  The distance 0 does not occur in a legal block; the decoder of lz4.c takes it as zeros.\<close>

fun lz_copy :: "byte list \<Rightarrow> nat \<Rightarrow> nat \<Rightarrow> byte list" where
  "lz_copy h off 0 = h"
| "lz_copy h off (Suc n) =
     lz_copy (h @ [if off = 0 then 0 else h ! (length h - off)]) off n"

definition exec_seq :: "byte list \<Rightarrow> lz_seq \<Rightarrow> byte list" where
  "exec_seq h q = lz_copy (h @ sq_lits q) (sq_off q) (sq_mlen q)"

fun exec_seqs :: "byte list \<Rightarrow> lz_seq list \<Rightarrow> byte list" where
  "exec_seqs h [] = h"
| "exec_seqs h (q # qs) = exec_seqs (exec_seq h q) qs"

text \<open>The offsets a decoder can follow.\<close>

fun offsets_ok :: "byte list \<Rightarrow> lz_seq list \<Rightarrow> bool" where
  "offsets_ok h [] = True"
| "offsets_ok h (q # qs) =
     (sq_off q \<le> length (h @ sq_lits q) \<and> offsets_ok (exec_seq h q) qs)"

section \<open>Encoding\<close>

function ext_len :: "nat \<Rightarrow> byte list" where
  "ext_len n = (if n < 255 then [word_of_nat n] else 255 # ext_len (n - 255))"
  by pat_completeness auto
termination
  by (relation "measure id") auto

declare ext_len.simps [simp del]

definition lit_header :: "nat \<Rightarrow> byte list" where
  "lit_header ll = (if 15 \<le> ll then ext_len (ll - 15) else [])"

definition match_header :: "nat \<Rightarrow> byte list" where
  "match_header mcode = (if 15 \<le> mcode then ext_len (mcode - 15) else [])"

definition token_byte :: "nat \<Rightarrow> nat \<Rightarrow> byte" where
  "token_byte ll mcode = word_of_nat (min 15 ll * 16 + min 15 mcode)"

definition offset_bytes :: "nat \<Rightarrow> byte list" where
  "offset_bytes off = [word_of_nat (off mod 256), word_of_nat (off div 256)]"

definition enc_seq :: "lz_seq \<Rightarrow> byte list" where
  "enc_seq q =
     token_byte (length (sq_lits q)) (sq_mlen q - 4) #
     lit_header (length (sq_lits q)) @ sq_lits q @
     offset_bytes (sq_off q) @ match_header (sq_mlen q - 4)"

definition enc_last :: "byte list \<Rightarrow> byte list" where
  "enc_last l = token_byte (length l) 0 # lit_header (length l) @ l"

definition enc_block :: "lz_seq list \<Rightarrow> byte list \<Rightarrow> byte list" where
  "enc_block qs l = concat (map enc_seq qs) @ enc_last l"

text \<open>The shape every sequence of a block has.\<close>

definition seq_ok :: "lz_seq \<Rightarrow> bool" where
  "seq_ok q \<longleftrightarrow> 4 \<le> sq_mlen q \<and> sq_off q < 65536"

text \<open>The restrictions at the end of a block that the format document states: the last match
  starts at least 12 bytes before the end of the block and ends at least 5 bytes before it.\<close>

fun end_ok :: "byte list \<Rightarrow> lz_seq list \<Rightarrow> nat \<Rightarrow> bool" where
  "end_ok h [] n = True"
| "end_ok h (q # qs) n =
     (length (h @ sq_lits q) + 12 \<le> n \<and> length (exec_seq h q) + 5 \<le> n \<and>
      end_ok (exec_seq h q) qs n)"

text \<open>A legal block for some content, after a history its matches may refer to.\<close>

definition legal_after :: "byte list \<Rightarrow> byte list \<Rightarrow> byte list \<Rightarrow> bool" where
  "legal_after h xs content \<longleftrightarrow>
     (\<exists>qs l. xs = enc_block qs l \<and> list_all seq_ok qs \<and> list_all (\<lambda>q. 0 < sq_off q) qs \<and>
        offsets_ok h qs \<and> end_ok h qs (length (h @ content)) \<and> exec_seqs h qs @ l = h @ content)"

section \<open>Facts about the meaning\<close>

lemma length_lz_copy [simp]: "length (lz_copy h off n) = length h + n"
  by (induction n arbitrary: h) auto

lemma length_exec_seq [simp]: "length (exec_seq h q) = length h + length (sq_lits q) + sq_mlen q"
  by (simp add: exec_seq_def)

lemma exec_seqs_append: "exec_seqs h (qs @ rs) = exec_seqs (exec_seqs h qs) rs"
  by (induction qs arbitrary: h) auto

lemma offsets_ok_append:
  "offsets_ok h (qs @ rs) \<longleftrightarrow> offsets_ok h qs \<and> offsets_ok (exec_seqs h qs) rs"
  by (induction qs arbitrary: h) auto

lemma end_ok_append:
  "end_ok h (qs @ rs) n \<longleftrightarrow> end_ok h qs n \<and> end_ok (exec_seqs h qs) rs n"
  by (induction qs arbitrary: h) auto

lemma length_exec_seqs_mono: "length h \<le> length (exec_seqs h qs)"
proof (induction qs arbitrary: h)
  case (Cons q qs)
  have "length h \<le> length (exec_seq h q)"
    by simp
  also have "\<dots> \<le> length (exec_seqs (exec_seq h q) qs)"
    by (rule Cons.IH)
  finally show ?case
    by simp
qed simp

lemma exec_seqs_prefix: "take (length h) (exec_seqs h qs) = h"
proof -
  have copy: "take (length h) (lz_copy h off n) = h" for h off n
  proof (induction n arbitrary: h)
    case (Suc n)
    have "take (length h) (lz_copy h off (Suc n)) =
        take (length h) (take (Suc (length h)) (lz_copy h off (Suc n)))"
      by (simp add: min_def)
    also have "\<dots> = h"
      using Suc.IH [of "h @ [if off = 0 then 0 else h ! (length h - off)]"] by simp
    finally show ?case .
  qed simp
  have seq: "take (length h) (exec_seq h q) = h" for h q
    using copy [of "h @ sq_lits q" "sq_off q" "sq_mlen q"]
    by (metis append_eq_conv_conj exec_seq_def append_assoc append_take_drop_id)
  show ?thesis
  proof (induction qs arbitrary: h)
    case (Cons q qs)
    have "take (length (exec_seq h q)) (exec_seqs (exec_seq h q) qs) = exec_seq h q"
      by (rule Cons.IH)
    then have "take (length h) (exec_seqs (exec_seq h q) qs) = take (length h) (exec_seq h q)"
      by (metis length_exec_seq min.absorb2 le_add1 take_take add.assoc min.commute)
    then show ?case
      by (simp add: seq)
  qed simp
qed

text \<open>A match copy is determined by what each of its bytes is.\<close>

lemma lz_copy_eqI:
  assumes "length xs = length h + n" and "take (length h) xs = h"
    and "\<And>i. length h \<le> i \<Longrightarrow> i < length xs \<Longrightarrow> xs ! i = (if off = 0 then 0 else xs ! (i - off))"
    and "off \<le> length h"
  shows "xs = lz_copy h off n"
  using assms
proof (induction n arbitrary: h)
  case 0
  then show ?case by simp
next
  case (Suc n)
  have lt: "length h < length xs"
    using Suc.prems(1) by simp
  have hd: "xs ! length h = (if off = 0 then 0 else h ! (length h - off))"
  proof (cases "off = 0")
    case True
    then show ?thesis using Suc.prems(3) [of "length h"] lt by simp
  next
    case False
    have "xs ! (length h - off) = take (length h) xs ! (length h - off)"
      using False Suc.prems(4) by simp
    then show ?thesis
      using Suc.prems(2) Suc.prems(3) [of "length h"] lt False by simp
  qed
  have "xs = lz_copy (h @ [if off = 0 then 0 else h ! (length h - off)]) off n"
  proof (rule Suc.IH)
    show "take (length (h @ [if off = 0 then 0 else h ! (length h - off)])) xs =
        h @ [if off = 0 then 0 else h ! (length h - off)]"
      using Suc.prems(2) lt hd by (simp add: take_Suc_conv_app_nth)
  qed (use Suc.prems in auto)
  then show ?case
    by simp
qed

text \<open>Bytes in front of the history do not matter, and a match that ends where it started copies a
  piece of the history.\<close>

lemma lz_copy_history: "off \<le> length h \<Longrightarrow> lz_copy (g @ h) off n = g @ lz_copy h off n"
proof (induction n arbitrary: h)
  case (Suc n)
  have nth: "off \<noteq> 0 \<Longrightarrow> (g @ h) ! (length (g @ h) - off) = h ! (length h - off)"
    using nth_append_length_plus [of g h "length h - off"] Suc.prems by simp
  have "lz_copy (g @ (h @ [if off = 0 then 0 else h ! (length h - off)])) off n =
      g @ lz_copy (h @ [if off = 0 then 0 else h ! (length h - off)]) off n"
    by (rule Suc.IH) (use Suc.prems in simp)
  with nth show ?case
    by (cases "off = 0") simp_all
qed simp

lemma lz_copy_add: "lz_copy h off (a + b) = lz_copy (lz_copy h off a) off b"
  by (induction a arbitrary: h) auto

lemma lz_copy_apart:
  assumes "n \<le> off" and "off \<le> length h"
  shows "lz_copy h off n = h @ take n (drop (length h - off) h)"
  using assms(2)
proof (intro lz_copy_eqI [symmetric])
  fix i
  assume "length h \<le> i" and "i < length (h @ take n (drop (length h - off) h))"
  then show "(h @ take n (drop (length h - off) h)) ! i =
      (if off = 0 then 0 else (h @ take n (drop (length h - off) h)) ! (i - off))"
    using assms by (auto simp: nth_append)
qed (use assms in auto)

lemma exec_seq_history:
  "sq_off q \<le> length (h @ sq_lits q) \<Longrightarrow> exec_seq (g @ h) q = g @ exec_seq h q"
  using lz_copy_history [of "sq_off q" "h @ sq_lits q" g "sq_mlen q"] by (simp add: exec_seq_def)

lemma exec_seqs_history:
  "offsets_ok h qs \<Longrightarrow> exec_seqs (g @ h) qs = g @ exec_seqs h qs"
  by (induction qs arbitrary: h) (simp_all add: exec_seq_history)

lemma offsets_ok_history: "offsets_ok h qs \<Longrightarrow> offsets_ok (g @ h) qs"
  by (induction qs arbitrary: h) (simp_all add: exec_seq_history)

lemma end_ok_history: "offsets_ok h qs \<Longrightarrow> end_ok (g @ h) qs (length g + n) \<longleftrightarrow> end_ok h qs n"
  by (induction qs arbitrary: h) (simp_all add: exec_seq_history add.assoc)

lemma legal_after_history:
  assumes "legal_after h xs content"
  shows "legal_after (g @ h) xs content"
proof -
  obtain qs l where "xs = enc_block qs l" "list_all seq_ok qs" "list_all (\<lambda>q. 0 < sq_off q) qs"
      and ok: "offsets_ok h qs" "end_ok h qs (length (h @ content))" "exec_seqs h qs @ l = h @ content"
    using assms by (auto simp: legal_after_def)
  moreover have "end_ok (g @ h) qs (length ((g @ h) @ content))"
    using end_ok_history [OF ok(1), of g "length (h @ content)"] ok(2) by simp
  moreover have "exec_seqs (g @ h) qs @ l = (g @ h) @ content"
    using exec_seqs_history [OF ok(1), of g] ok(3) by simp
  ultimately show ?thesis
    unfolding legal_after_def using offsets_ok_history [OF ok(1), of g] by blast
qed

text \<open>Distances are below 64 KB, so the last 65535 bytes of the history are enough.\<close>

lemma offsets_ok_recent:
  "offsets_ok (g @ h) qs \<Longrightarrow> list_all seq_ok qs \<Longrightarrow> g = [] \<or> 65535 \<le> length h \<Longrightarrow> offsets_ok h qs"
proof (induction qs arbitrary: h)
  case (Cons q qs)
  then have off: "sq_off q \<le> length (h @ sq_lits q)"
    by (auto simp: seq_ok_def)
  then have step: "exec_seq (g @ h) q = g @ exec_seq h q"
    by (rule exec_seq_history)
  have "offsets_ok (exec_seq h q) qs"
  proof (rule Cons.IH)
    show "offsets_ok (g @ exec_seq h q) qs"
      using Cons.prems(1) by (simp add: step)
    show "g = [] \<or> 65535 \<le> length (exec_seq h q)"
      using Cons.prems(3) by auto
  qed (use Cons.prems(2) in simp)
  with off show ?case
    by simp
qed simp

section \<open>Facts about the encoding\<close>

lemma ext_len_small: "n < 255 \<Longrightarrow> ext_len n = [word_of_nat n]"
  by (subst ext_len.simps) simp

lemma ext_len_large: "255 \<le> n \<Longrightarrow> ext_len n = 255 # ext_len (n - 255)"
  by (subst ext_len.simps) simp

lemma length_ext_len: "length (ext_len n) = n div 255 + 1"
proof (induction n rule: ext_len.induct)
  case (1 n)
  show ?case
  proof (cases "n < 255")
    case True
    then show ?thesis by (simp add: ext_len_small)
  next
    case False
    then have "n div 255 = (n - 255) div 255 + 1"
      using div_add_self1 [of 255 "n - 255"] by simp
    with False "1.IH" show ?thesis
      by (simp add: ext_len_large)
  qed
qed

lemma ext_len_replicate: "ext_len n = replicate (n div 255) 255 @ [word_of_nat (n mod 255)]"
proof (induction n rule: ext_len.induct)
  case (1 n)
  show ?case
  proof (cases "n < 255")
    case True
    then show ?thesis by (simp add: ext_len_small)
  next
    case False
    then have "n div 255 = Suc ((n - 255) div 255)" and "n mod 255 = (n - 255) mod 255"
      using div_add_self1 [of 255 "n - 255"] mod_add_self1 [of 255 "n - 255"] by simp_all
    with False "1.IH" show ?thesis
      by (simp add: ext_len_large)
  qed
qed

lemma token_nibbles:
  "uint (token_byte ll mcode) = int (min 15 ll * 16 + min 15 mcode)"
proof -
  have "min 15 ll * 16 + min 15 mcode < 256"
    by (simp add: min_def)
  from uint_byte_of_nat [OF this] show ?thesis
    by (simp only: token_byte_def)
qed

lemma unat_token_byte:
  "unat (token_byte ll mcode) = min 15 ll * 16 + min 15 mcode"
proof -
  have "min 15 ll * 16 + min 15 mcode < 256"
    by (simp add: min_def)
  from unat_byte_of_nat [OF this] show ?thesis
    by (simp only: token_byte_def)
qed

lemma token_div [simp]: "unat (token_byte ll mcode) div 16 = min 15 ll"
  unfolding unat_token_byte by (simp add: min_def)

lemma token_mod [simp]: "unat (token_byte ll mcode) mod 16 = min 15 mcode"
  unfolding unat_token_byte by (simp add: min_def)

lemma token_of_nibbles:
  assumes "unat t div 16 = min 15 ll" and "unat t mod 16 = min 15 mcode"
  shows "t = token_byte ll mcode"
proof -
  have "unat t = unat t div 16 * 16 + unat t mod 16"
    by simp
  also have "\<dots> = unat (token_byte ll mcode)"
    unfolding assms unat_token_byte ..
  finally show ?thesis
    by (simp only: word_unat_eq_iff)
qed

lemma length_offset_bytes [simp]: "length (offset_bytes off) = 2"
  by (simp add: offset_bytes_def)

text \<open>The end of a block holds at least the token and five literals.\<close>

lemma length_enc_seq: "3 \<le> length (enc_seq q)"
  by (simp add: enc_seq_def)

text \<open>The last sequence as the decoder reads it: it does not look at the match nibble of the
  token.\<close>

definition enc_last_nib :: "byte list \<Rightarrow> nat \<Rightarrow> byte list" where
  "enc_last_nib l nib = token_byte (length l) nib # lit_header (length l) @ l"

lemma enc_last_nib_0: "enc_last l = enc_last_nib l 0"
  by (simp add: enc_last_def enc_last_nib_def)

end
