(* ===== verification/Lz4_Copy.thy ===== *)
theory Lz4_Copy
  imports Lz4_Memory Lz4_Format
begin

text \<open>
  What the copy routines of src/lz4.c leave in memory. \<open>copied\<close> is the law of a forward
  copy (the destination equals the source after the copy, nothing before the destination
  or from \<open>hi\<close> on changes); \<open>match_copied\<close> is the law of a match copy at a distance, the
  self-overlapping copy of an LZ77 decoder. Every routine is shown to return and to obey
  its law on areas that are allocated as far as the routine overshoots.
\<close>

section \<open>Loads and stores\<close>

definition region :: "mem \<Rightarrow> ptr \<Rightarrow> ptr \<Rightarrow> bool" where
  "region m lo hi \<longleftrightarrow> (\<forall>x. lo \<le> x \<and> x < hi \<longrightarrow> x \<in> dom m)"

lemma mapped_region: "mapped m a n = region m a (a + int n)"
proof
  assume "mapped m a n"
  then have all: "m (a + int i) \<noteq> None" if "i < n" for i
    using that by (auto simp: mapped_def list_all_iff)
  show "region m a (a + int n)"
    unfolding region_def
  proof (intro allI impI)
    fix x
    assume "a \<le> x \<and> x < a + int n"
    then show "x \<in> dom m"
      using all [of "nat (x - a)"] by auto
  qed
next
  assume "region m a (a + int n)"
  then show "mapped m a n"
    by (auto simp: mapped_def region_def list_all_iff dom_def)
qed

lemma region_sub: "region m lo hi \<Longrightarrow> lo \<le> a \<Longrightarrow> b \<le> hi \<Longrightarrow> region m a b"
  by (auto simp: region_def)

lemma region_dom: "dom m' = dom m \<Longrightarrow> region m' lo hi = region m lo hi"
  by (simp add: region_def)

lemma length_bytes [simp]: "length (bytes m a n) = n"
  by (simp add: bytes_def)

lemma nth_bytes [simp]: "i < n \<Longrightarrow> bytes m a n ! i = the (m (a + int i))"
  by (simp add: bytes_def)

lemma bytes_0 [simp]: "bytes m a 0 = []"
  by (simp add: bytes_def)

lemma bytes_cong: "(\<And>x. a \<le> x \<Longrightarrow> x < a + int n \<Longrightarrow> m x = m' x) \<Longrightarrow> bytes m a n = bytes m' a n"
  by (simp add: bytes_def)

lemma bytes_add: "bytes m a (n + k) = bytes m a n @ bytes m (a + int n) k"
  by (rule nth_equalityI) (auto simp: nth_append)

lemma bytes_Suc: "bytes m a (Suc n) = the (m a) # bytes m (a + 1) n"
  using bytes_add [of m a 1 n] by (simp add: bytes_def)

lemma put_apply: "put m a bs x = (if a \<le> x \<and> x < a + int (length bs) then Some (bs ! nat (x - a)) else m x)"
  by (simp add: put_def)

lemma put_outside [simp]: "x < a \<or> a + int (length bs) \<le> x \<Longrightarrow> put m a bs x = m x"
  by (auto simp: put_def)

lemma put_nil [simp]: "put m a [] = m"
  by (rule ext) (auto simp: put_def)

lemma dom_put: "region m a (a + int (length bs)) \<Longrightarrow> dom (put m a bs) = dom m"
  by (auto simp: put_def region_def split: if_splits)

lemma bytes_put_same [simp]: "bytes (put m a bs) a (length bs) = bs"
  by (rule nth_equalityI) (auto simp: put_apply)

lemma load_bytes_Some: "region m a (a + int n) \<Longrightarrow> load_bytes m a n = Some (bytes m a n)"
  by (simp add: load_bytes_def mapped_region)

lemma store_bytes_Some:
  "region m a (a + int (length bs)) \<Longrightarrow> store_bytes m a bs = Some (put m a bs)"
  by (simp add: store_bytes_def mapped_region)

lemma LZ4_memcpy_Some:
  assumes "region m s (s + int n)" and "region m d (d + int n)"
    and "d = s \<or> int n \<le> \<bar>d - s\<bar>"
  shows "LZ4_memcpy m d s n = Some (put m d (bytes m s n))"
  using assms by (auto simp: LZ4_memcpy_def load_bytes_Some store_bytes_Some)

lemma LZ4_memmove_Some:
  assumes "region m s (s + int n)" and "region m d (d + int n)"
  shows "LZ4_memmove m d s n = Some (put m d (bytes m s n))"
  using assms by (simp add: LZ4_memmove_def load_bytes_Some store_bytes_Some)

section \<open>The law of a forward copy\<close>

definition copied :: "mem \<Rightarrow> mem \<Rightarrow> ptr \<Rightarrow> ptr \<Rightarrow> ptr \<Rightarrow> ptr \<Rightarrow> bool" where
  "copied m m' d s e hi \<longleftrightarrow>
     dom m' = dom m \<and>
     (\<forall>x. d \<le> x \<and> x < e \<longrightarrow> m' x = m' (s + (x - d))) \<and>
     (\<forall>x. x < d \<or> hi \<le> x \<longrightarrow> m' x = m x)"

lemma copied_dom: "copied m m' d s e hi \<Longrightarrow> dom m' = dom m"
  by (simp add: copied_def)

lemma copied_at: "copied m m' d s e hi \<Longrightarrow> d \<le> x \<Longrightarrow> x < e \<Longrightarrow> m' x = m' (s + (x - d))"
  by (simp add: copied_def)

lemma copied_frame: "copied m m' d s e hi \<Longrightarrow> x < d \<or> hi \<le> x \<Longrightarrow> m' x = m x"
  by (auto simp: copied_def)

lemma copied_weaken:
  "copied m m' d s e hi \<Longrightarrow> e' \<le> e \<Longrightarrow> hi \<le> hi' \<Longrightarrow> copied m m' d s e' hi'"
  unfolding copied_def by (metis order_less_le_trans order_trans)

text \<open>Two copies in a row are one copy, as the second does not touch what the first read.\<close>

lemma copied_trans:
  assumes c1: "copied m m1 d s e e" and c2: "copied m1 m2 e (s + (e - d)) e2 hi"
    and "d \<le> e" and "e \<le> hi" and src: "s \<le> d \<or> hi \<le> s"
  shows "copied m m2 d s e2 hi"
  unfolding copied_def
proof (intro conjI allI impI)
  show "dom m2 = dom m"
    using c1 c2 by (simp add: copied_def)
next
  fix x
  assume x: "d \<le> x \<and> x < e2"
  show "m2 x = m2 (s + (x - d))"
  proof (cases "x < e")
    case True
    have "m2 x = m1 x"
      using copied_frame [OF c2] True by blast
    also have "\<dots> = m1 (s + (x - d))"
      using copied_at [OF c1] x True by blast
    also have "\<dots> = m2 (s + (x - d))"
      using src True x copied_frame [OF c2, of "s + (x - d)"] by fastforce
    finally show ?thesis .
  next
    case False
    then have "m2 x = m2 (s + (e - d) + (x - e))"
      using copied_at [OF c2] x by (metis not_le)
    then show ?thesis
      by (simp add: algebra_simps)
  qed
next
  fix x
  assume "x < d \<or> hi \<le> x"
  then show "m2 x = m x"
    using copied_frame [OF c1] copied_frame [OF c2] assms(3,4) by (metis order_less_le_trans order_trans)
qed

lemma LZ4_memcpy_copied [copy_laws]:
  assumes "region m s (s + int n)" and "region m d (d + int n)" and "int n \<le> \<bar>d - s\<bar>"
  shows "\<exists>m'. LZ4_memcpy m d s n = Some m' \<and> copied m m' d s (d + int n) (d + int n)"
proof -
  have "copied m (put m d (bytes m s n)) d s (d + int n) (d + int n)"
    unfolding copied_def
  proof (intro conjI allI impI)
    show "dom (put m d (bytes m s n)) = dom m"
      using assms(2) by (simp add: dom_put)
  next
    fix x
    assume x: "d \<le> x \<and> x < d + int n"
    have "s + (x - d) \<in> dom m"
      using assms(1) x by (auto simp: region_def)
    moreover have "s + (x - d) < d \<or> d + int n \<le> s + (x - d)"
      using assms(3) x by linarith
    ultimately show "put m d (bytes m s n) x = put m d (bytes m s n) (s + (x - d))"
      using x by (auto simp: put_apply)
  qed (auto simp: put_apply)
  then show ?thesis
    using LZ4_memcpy_Some [OF assms(1,2)] assms(3) by blast
qed

lemma LZ4_wildCopy8_copied [copy_laws]:
  assumes "region m d hi" and "region m s (s + (hi - d))" and "e + 7 \<le> hi" and "d + 8 \<le> hi"
    and "8 \<le> d - s \<or> hi \<le> s"
  shows "\<exists>m'. LZ4_wildCopy8 m d s e = Some m' \<and> copied m m' d s e hi"
  using assms
proof (induction m d s e rule: LZ4_wildCopy8.induct)
  case (1 m d s e)
  have "\<exists>m'. LZ4_memcpy m d s 8 = Some m' \<and> copied m m' d s (d + int 8) (d + int 8)"
    using "1.prems"(3-)
    by (intro LZ4_memcpy_copied)
      (auto intro: region_sub [OF "1.prems"(1)] region_sub [OF "1.prems"(2)])
  then obtain m1 where m1: "LZ4_memcpy m d s 8 = Some m1" and c1: "copied m m1 d s (d + 8) (d + 8)"
    by auto
  show ?case
  proof (cases "d + 8 < e")
    case True
    have "\<exists>m'. LZ4_wildCopy8 m1 (d + 8) (s + 8) e = Some m' \<and> copied m1 m' (d + 8) (s + 8) e hi"
    proof (rule "1.IH" [OF m1 True])
      show "region m1 (d + 8) hi" "region m1 (s + 8) (s + 8 + (hi - (d + 8)))"
        by (auto simp: region_dom [OF copied_dom [OF c1]]
            intro: region_sub [OF "1.prems"(1)] region_sub [OF "1.prems"(2)])
    qed (use "1.prems" True in auto)
    then obtain m2 where m2: "LZ4_wildCopy8 m1 (d + 8) (s + 8) e = Some m2"
      and c2: "copied m1 m2 (d + 8) (s + 8) e hi"
      by blast
    have "copied m m2 d s e hi"
      by (rule copied_trans [OF c1]) (use c2 "1.prems" in auto)
    then show ?thesis
      using m1 m2 True by (subst LZ4_wildCopy8.simps) simp
  next
    case False
    then have "copied m m1 d s e hi"
      using copied_weaken [OF c1] "1.prems" by simp
    then show ?thesis
      using m1 False by (subst LZ4_wildCopy8.simps) simp
  qed
qed

lemma LZ4_wildCopy32_copied [copy_laws]:
  assumes "region m d hi" and "region m s (s + (hi - d))" and "e + 31 \<le> hi" and "d + 32 \<le> hi"
    and "16 \<le> d - s \<or> hi \<le> s"
  shows "\<exists>m'. LZ4_wildCopy32 m d s e = Some m' \<and> copied m m' d s e hi"
  using assms
proof (induction m d s e rule: LZ4_wildCopy32.induct)
  case (1 m d s e)
  have "\<exists>m'. LZ4_memcpy m d s 16 = Some m' \<and> copied m m' d s (d + int 16) (d + int 16)"
    using "1.prems"(3-)
    by (intro LZ4_memcpy_copied)
      (auto intro: region_sub [OF "1.prems"(1)] region_sub [OF "1.prems"(2)])
  then obtain m1 where m1: "LZ4_memcpy m d s 16 = Some m1" and c1: "copied m m1 d s (d + 16) (d + 16)"
    by auto
  have r1: "region m1 lo h = region m lo h" for lo h
    by (rule region_dom [OF copied_dom [OF c1]])
  have "\<exists>m'. LZ4_memcpy m1 (d + 16) (s + 16) 16 = Some m' \<and>
          copied m1 m' (d + 16) (s + 16) (d + 16 + int 16) (d + 16 + int 16)"
    using "1.prems"(3-)
    by (intro LZ4_memcpy_copied)
      (auto simp: r1 intro: region_sub [OF "1.prems"(1)] region_sub [OF "1.prems"(2)])
  then obtain m2 where m2: "LZ4_memcpy m1 (d + 16) (s + 16) 16 = Some m2"
    and c2: "copied m1 m2 (d + 16) (s + 16) (d + 32) (d + 32)"
    by (auto simp: add.commute)
  have c12: "copied m m2 d s (d + 32) (d + 32)"
    by (rule copied_trans [OF c1]) (use c2 "1.prems" in auto)
  have r2: "region m2 lo h = region m lo h" for lo h
    by (rule region_dom [OF copied_dom [OF c12]])
  show ?case
  proof (cases "d + 32 < e")
    case True
    have "\<exists>m'. LZ4_wildCopy32 m2 (d + 32) (s + 32) e = Some m' \<and> copied m2 m' (d + 32) (s + 32) e hi"
    proof (rule "1.IH" [OF m1 m2 True])
      show "region m2 (d + 32) hi" "region m2 (s + 32) (s + 32 + (hi - (d + 32)))"
        by (auto simp: r2 intro: region_sub [OF "1.prems"(1)] region_sub [OF "1.prems"(2)])
    qed (use "1.prems" True in auto)
    then obtain m3 where m3: "LZ4_wildCopy32 m2 (d + 32) (s + 32) e = Some m3"
      and c3: "copied m2 m3 (d + 32) (s + 32) e hi"
      by blast
    have "copied m m3 d s e hi"
      by (rule copied_trans [OF c12]) (use c3 "1.prems" in auto)
    then show ?thesis
      using m1 m2 m3 True by (subst LZ4_wildCopy32.simps) simp
  next
    case False
    then have "copied m m2 d s e hi"
      using copied_weaken [OF c12] "1.prems" by simp
    then show ?thesis
      using m1 m2 False by (subst LZ4_wildCopy32.simps) simp
  qed
qed

section \<open>The law of a match copy\<close>

text \<open>
  After a match copy at distance \<open>off\<close> every byte equals the one \<open>off\<close> before it. The
  decoder does not reject the distance 0, which the block format forbids; the bytes it then
  produces are zeros, and the law says so.
\<close>

definition match_copied :: "mem \<Rightarrow> mem \<Rightarrow> ptr \<Rightarrow> int \<Rightarrow> ptr \<Rightarrow> ptr \<Rightarrow> bool" where
  "match_copied m m' d off e hi \<longleftrightarrow>
     dom m' = dom m \<and>
     (\<forall>x. d \<le> x \<and> x < e \<longrightarrow> m' x = (if off = 0 then Some 0 else m' (x - off))) \<and>
     (\<forall>x. x < d \<or> hi \<le> x \<longrightarrow> m' x = m x)"

lemma match_copied_dom: "match_copied m m' d off e hi \<Longrightarrow> dom m' = dom m"
  by (simp add: match_copied_def)

lemma match_copied_weaken:
  "match_copied m m' d off e hi \<Longrightarrow> e' \<le> e \<Longrightarrow> hi \<le> hi' \<Longrightarrow> match_copied m m' d off e' hi'"
  unfolding match_copied_def by (metis order_less_le_trans order_trans)

lemma copied_match: "copied m m' d (d - off) e hi \<Longrightarrow> off \<noteq> 0 \<Longrightarrow> match_copied m m' d off e hi"
  by (simp add: copied_def match_copied_def algebra_simps)

text \<open>A step before the copy that stays inside its area does not show.\<close>

lemma match_copied_after:
  assumes "dom m0 = dom m" and "\<And>x. x < d \<or> hi \<le> x \<Longrightarrow> m0 x = m x"
    and "match_copied m0 m' d off e hi"
  shows "match_copied m m' d off e hi"
  using assms by (simp add: match_copied_def)

lemma period_iter:
  assumes per: "\<And>z. d \<le> z \<Longrightarrow> z < y \<Longrightarrow> f z = f (z - off)" and "0 < (off :: int)"
    and "z < y" and "d - off \<le> z - int j * off"
  shows "f z = f (z - int j * off)"
  using assms(4)
proof (induction j)
  case 0
  then show ?case by simp
next
  case (Suc j)
  have lo: "d \<le> z - int j * off"
    using Suc.prems by (simp add: algebra_simps)
  have nonneg: "0 \<le> int j * off"
    using assms(2) by simp
  have "f z = f (z - int j * off)"
    using Suc.IH lo assms(2) by simp
  also have "\<dots> = f (z - int j * off - off)"
    using per [OF lo] assms(3) nonneg by simp
  finally show ?case
    by (simp add: algebra_simps)
qed

text \<open>Going on with a plain copy from a distance that is a multiple of the offset.\<close>

lemma match_copied_widen:
  assumes c1: "match_copied m m1 d off c c" and c2: "copied m1 m2 c (c - int k * off) e hi"
    and off: "0 < off" and k: "0 < k" and start: "int k * off - off \<le> c - d"
    and "d \<le> c" and "c \<le> hi"
  shows "match_copied m m2 d off e hi"
proof -
  have per: "m2 x = m2 (x - off)" if "d \<le> x" and "x < e" for x
    using that
  proof (induction "nat (x - d)" arbitrary: x rule: less_induct)
    case less
    show ?case
    proof (cases "x < c")
      case True
      then have "m2 x = m1 x" "m2 (x - off) = m1 (x - off)"
        using copied_frame [OF c2] off by auto
      then show ?thesis
        using c1 less.prems(1) True off by (simp add: match_copied_def)
    next
      case False
      then have copy: "m2 x = m2 (x - int k * off)"
        using copied_at [OF c2, of x] less.prems by (simp add: algebra_simps)
      have *: "m2 z = m2 (z - off)" if "d \<le> z" and "z < x" for z
        using less.hyps [of z] that less.prems by simp
      have eq: "x - off - int (k - 1) * off = x - int k * off"
        using k by (simp add: of_nat_diff algebra_simps)
      have "m2 (x - off) = m2 (x - int k * off)"
        unfolding eq [symmetric]
        by (rule period_iter [where d = d and y = x]) (use * off start False eq in auto)
      with copy show ?thesis
        by simp
    qed
  qed
  show ?thesis
    unfolding match_copied_def
    using c1 c2 per off assms(6,7) by (auto simp: match_copied_def copied_def)
qed

lemma match_copied_widen_0:
  assumes c1: "match_copied m m1 d 0 c c" and c2: "copied m1 m2 c (c - D) e hi"
    and "0 < D" and "D \<le> c - d" and "c \<le> hi"
  shows "match_copied m m2 d 0 e hi"
proof -
  have zero: "m2 x = Some 0" if "d \<le> x" and "x < e" for x
    using that
  proof (induction "nat (x - d)" arbitrary: x rule: less_induct)
    case less
    show ?case
    proof (cases "x < c")
      case True
      then show ?thesis
        using c1 less.prems(1) copied_frame [OF c2] by (simp add: match_copied_def)
    next
      case False
      then have "m2 x = m2 (x - D)"
        using copied_at [OF c2, of x] less.prems by (simp add: algebra_simps)
      also have "\<dots> = Some 0"
        using False less.prems assms(3,4) by (intro less.hyps) auto
      finally show ?thesis .
    qed
  qed
  show ?thesis
    unfolding match_copied_def
    using c1 c2 zero assms(3-) by (auto simp: match_copied_def copied_def)
qed

section \<open>The byte loop and the first eight bytes of a close match\<close>

lemma copy_loop_copied [copy_laws]:
  assumes "region m d e" and "region m s (s + (e - d))" and "s \<le> d \<or> e \<le> s" and "d \<le> e"
  shows "\<exists>m'. copy_loop m d s e = Some m' \<and> copied m m' d s e e"
  using assms
proof (induction m d s e rule: copy_loop.induct)
  case (1 m d s e)
  show ?case
  proof (cases "d < e")
    case False
    with "1.prems" have "copied m m d s e e"
      by (auto simp: copied_def)
    with False show ?thesis
      by (subst copy_loop.simps) simp
  next
    case True
    define bs where "bs = bytes m s 1"
    have len: "length bs = 1"
      by (simp add: bs_def)
    have b0: "bs ! 0 = the (m s)"
      by (simp add: bs_def)
    have load: "load_bytes m s 1 = Some bs"
      unfolding bs_def
      by (rule load_bytes_Some) (use "1.prems" True in \<open>auto intro: region_sub [OF "1.prems"(2)]\<close>)
    have reg: "region m d (d + int (length bs))"
      using True by (auto simp: len intro: region_sub [OF "1.prems"(1)])
    define m1 where "m1 = put m d bs"
    have store: "store_bytes m d bs = Some m1"
      unfolding m1_def by (rule store_bytes_Some [OF reg])
    have "s \<in> dom m"
      using "1.prems"(2) True by (auto simp: region_def)
    then have c1: "copied m m1 d s (d + 1) (d + 1)"
      using dom_put [OF reg] b0 by (auto simp: copied_def put_apply m1_def len)
    have r1: "region m1 lo h = region m lo h" for lo h
      by (rule region_dom [OF copied_dom [OF c1]])
    have "\<exists>m'. copy_loop m1 (d + 1) (s + 1) e = Some m' \<and> copied m1 m' (d + 1) (s + 1) e e"
    proof (rule "1.IH" [OF True load store])
      show "region m1 (d + 1) e" "region m1 (s + 1) (s + 1 + (e - (d + 1)))"
        by (auto simp: r1 intro: region_sub [OF "1.prems"(1)] region_sub [OF "1.prems"(2)])
    qed (use "1.prems" True in auto)
    then obtain m2 where m2: "copy_loop m1 (d + 1) (s + 1) e = Some m2"
      and c2: "copied m1 m2 (d + 1) (s + 1) e e"
      by blast
    have "copied m m2 d s e e"
      by (rule copied_trans [OF c1]) (use c2 "1.prems" True in auto)
    with True load store m2 show ?thesis
      by (subst copy_loop.simps) simp
  qed
qed

lemma LZ4_memcpy_same:
  assumes "region m d (d + int n)"
  shows "LZ4_memcpy m d d n = Some m"
proof -
  have "put m d (bytes m d n) = m"
  proof (rule ext)
    fix x
    show "put m d (bytes m d n) x = m x"
      using assms by (fastforce simp: put_apply region_def)
  qed
  then show ?thesis
    using LZ4_memcpy_Some [OF assms assms] by simp
qed

lemma le_bytes_zero [simp]: "le_bytes n (0 :: 'a::len word) = replicate n 0"
  by (simp add: le_bytes_def map_replicate_const)

lemma LZ4_write32_zero:
  assumes "region m d (d + 4)"
  shows "LZ4_write32 m d 0 = Some (put m d (replicate 4 0))"
  using store_bytes_Some [of m d "replicate 4 0"] assms by (simp add: LZ4_write32_def)

text \<open>The distances from which the rest of a close match is copied are multiples of the
  offset, four for the second half of the first eight bytes, eight for the rest.\<close>

lemma close_offset_tables:
  assumes "0 < off" and "off < 8"
  shows "\<exists>k. 0 < k \<and> 4 + off - inc32table ! nat off = int k * off \<and> 4 \<le> int k * off \<and>
              int k * off - off \<le> 4"
    and "\<exists>k. 0 < k \<and> 8 + off - inc32table ! nat off + dec64table ! nat off = int k * off \<and>
              8 \<le> int k * off \<and> int k * off - off \<le> 8"
proof -
  have "off = 1 \<or> off = 2 \<or> off = 3 \<or> off = 4 \<or> off = 5 \<or> off = 6 \<or> off = 7"
    using assms by linarith
  then show "\<exists>k. 0 < k \<and> 4 + off - inc32table ! nat off = int k * off \<and> 4 \<le> int k * off \<and>
              int k * off - off \<le> 4"
    by (elim disjE; simp add: inc32table_def; presburger)
  from \<open>off = 1 \<or> off = 2 \<or> off = 3 \<or> off = 4 \<or> off = 5 \<or> off = 6 \<or> off = 7\<close>
  show "\<exists>k. 0 < k \<and> 8 + off - inc32table ! nat off + dec64table ! nat off = int k * off \<and>
              8 \<le> int k * off \<and> int k * off - off \<le> 8"
    by (elim disjE; simp add: inc32table_def dec64table_def; presburger)
qed

section \<open>The match copy routines\<close>

text \<open>The rest of a close match, once its first four bytes are in place.\<close>

lemma close_match_start:
  assumes first: "match_copied m m1 d off (d + 4) (d + 4)" and "0 < off" and "off < 8"
    and reg: "region m (d - off) (d + 8)"
  shows "\<exists>m2. LZ4_memcpy m1 (d + 4) (d - off + inc32table ! nat off) 4 = Some m2 \<and>
           match_copied m m2 d off (d + 8) (d + 8)"
proof -
  obtain k where k: "0 < k" "4 + off - inc32table ! nat off = int k * off" "4 \<le> int k * off"
    "int k * off - off \<le> 4"
    using close_offset_tables(1) [OF assms(2,3)] by blast
  define s where "s = d - off + inc32table ! nat off"
  have s: "s = d + 4 - int k * off"
    using k(2) by (simp add: s_def)
  have r1: "region m1 lo h = region m lo h" for lo h
    by (rule region_dom [OF match_copied_dom [OF first]])
  have "\<exists>m'. LZ4_memcpy m1 (d + 4) s 4 = Some m' \<and>
          copied m1 m' (d + 4) s (d + 4 + int 4) (d + 4 + int 4)"
    by (rule LZ4_memcpy_copied)
      (use k assms(2) in \<open>auto simp: r1 s intro!: region_sub [OF reg]\<close>)
  then obtain m2 where m2: "LZ4_memcpy m1 (d + 4) s 4 = Some m2"
    and c2: "copied m1 m2 (d + 4) s (d + 8) (d + 8)"
    by (auto simp: add.commute)
  have "match_copied m m2 d off (d + 8) (d + 8)"
    by (rule match_copied_widen [OF first]) (use c2 k assms(2) in \<open>auto simp: s\<close>)
  with m2 show ?thesis
    by (simp add: s_def)
qed

lemma close_match_rest:
  assumes first: "match_copied m m1 d off (d + 8) (d + 8)" and "0 < off" and "off < 8"
    and reg: "region m (d - off) hi" and "e + 7 \<le> hi" and "d + 16 \<le> hi"
  shows "\<exists>m2. LZ4_wildCopy8 m1 (d + 8) (d - off + inc32table ! nat off - dec64table ! nat off) e = Some m2 \<and>
           match_copied m m2 d off e hi"
proof -
  obtain k where k: "0 < k" "8 + off - inc32table ! nat off + dec64table ! nat off = int k * off"
    "8 \<le> int k * off" "int k * off - off \<le> 8"
    using close_offset_tables(2) [OF assms(2,3)] by blast
  define s where "s = d - off + inc32table ! nat off - dec64table ! nat off"
  have s: "s = d + 8 - int k * off"
    using k(2) by (simp add: s_def)
  have r1: "region m1 lo h = region m lo h" for lo h
    by (rule region_dom [OF match_copied_dom [OF first]])
  have "\<exists>m'. LZ4_wildCopy8 m1 (d + 8) s e = Some m' \<and> copied m1 m' (d + 8) s e hi"
    by (rule LZ4_wildCopy8_copied)
      (use k assms(2,5,6) in \<open>auto simp: r1 s intro!: region_sub [OF reg]\<close>)
  then obtain m2 where m2: "LZ4_wildCopy8 m1 (d + 8) s e = Some m2"
    and c2: "copied m1 m2 (d + 8) s e hi"
    by blast
  have "match_copied m m2 d off e hi"
    by (rule match_copied_widen [OF first]) (use c2 k assms in \<open>auto simp: s\<close>)
  with m2 show ?thesis
    by (simp add: s_def)
qed

lemma write32_zero_frame:
  assumes "region m d (d + 4)"
  shows "\<exists>m1. LZ4_write32 m d 0 = Some m1 \<and> dom m1 = dom m \<and>
           (\<forall>x. d \<le> x \<and> x < d + 4 \<longrightarrow> m1 x = Some 0) \<and> (\<forall>x. x < d \<or> d + 4 \<le> x \<longrightarrow> m1 x = m x)"
proof -
  have "dom (put m d (replicate 4 0)) = dom m"
    by (rule dom_put) (use assms in simp)
  moreover have "put m d (replicate 4 0) x = Some 0" if "d \<le> x" "x < d + 4" for x
    using that by (simp add: put_apply)
  moreover have "put m d (replicate 4 0) x = m x" if "x < d \<or> d + 4 \<le> x" for x
    using that by (auto simp: put_apply)
  ultimately show ?thesis
    using LZ4_write32_zero [OF assms] by blast
qed

lemma zero_match_start:
  assumes "region m d (d + 8)"
  shows "\<exists>m1 m2. LZ4_write32 m d 0 = Some m1 \<and> LZ4_memcpy m1 (d + 4) d 4 = Some m2 \<and>
           dom m1 = dom m \<and> match_copied m m1 d 0 (d + 4) (d + 4) \<and>
           match_copied m m2 d 0 (d + 8) (d + 8)"
proof -
  obtain m1 where m1: "LZ4_write32 m d 0 = Some m1" and dom1: "dom m1 = dom m"
    and z: "\<forall>x. d \<le> x \<and> x < d + 4 \<longrightarrow> m1 x = Some 0" and f: "\<forall>x. x < d \<or> d + 4 \<le> x \<longrightarrow> m1 x = m x"
    using write32_zero_frame [of m d] region_sub [OF assms, of d "d + 4"] by auto
  have first: "match_copied m m1 d 0 (d + 4) (d + 4)"
    using dom1 z f by (simp add: match_copied_def)
  have r1: "region m1 lo h = region m lo h" for lo h
    by (rule region_dom [OF dom1])
  have "\<exists>m'. LZ4_memcpy m1 (d + 4) d 4 = Some m' \<and>
          copied m1 m' (d + 4) d (d + 4 + int 4) (d + 4 + int 4)"
    by (rule LZ4_memcpy_copied) (auto simp: r1 intro!: region_sub [OF assms])
  then obtain m2 where m2: "LZ4_memcpy m1 (d + 4) d 4 = Some m2"
    and c2: "copied m1 m2 (d + 4) d (d + 8) (d + 8)"
    by (auto simp: add.commute)
  have "match_copied m m2 d 0 (d + 8) (d + 8)"
    by (rule match_copied_widen_0 [OF first, where D = 4]) (use c2 in auto)
  with m1 m2 dom1 first show ?thesis
    by blast
qed

lemma zero_match_rest:
  assumes first: "match_copied m m1 d 0 (d + 8) (d + 8)"
    and reg: "region m d hi" and "e + 7 \<le> hi" and "d + 16 \<le> hi"
  shows "\<exists>m2. LZ4_wildCopy8 m1 (d + 8) d e = Some m2 \<and> match_copied m m2 d 0 e hi"
proof -
  have r1: "region m1 lo h = region m lo h" for lo h
    by (rule region_dom [OF match_copied_dom [OF first]])
  have "\<exists>m'. LZ4_wildCopy8 m1 (d + 8) d e = Some m' \<and> copied m1 m' (d + 8) d e hi"
    by (rule LZ4_wildCopy8_copied) (use assms in \<open>auto simp: r1 intro!: region_sub [OF reg]\<close>)
  then obtain m2 where m2: "LZ4_wildCopy8 m1 (d + 8) d e = Some m2"
    and c2: "copied m1 m2 (d + 8) d e hi"
    by blast
  have "match_copied m m2 d 0 e hi"
    by (rule match_copied_widen_0 [OF first, where D = 8]) (use c2 assms in auto)
  with m2 show ?thesis
    by blast
qed

lemma memcpy_using_offset_base_far:
  assumes "8 \<le> off" and reg: "region m (d - off) hi" and "e + 7 \<le> hi" and "d + 16 \<le> hi"
  shows "\<exists>m'. LZ4_memcpy_using_offset_base m d (d - off) e off = Some m' \<and> match_copied m m' d off e hi"
proof -
  have "\<exists>m'. LZ4_memcpy m d (d - off) 8 = Some m' \<and> copied m m' d (d - off) (d + int 8) (d + int 8)"
    by (rule LZ4_memcpy_copied) (use assms in \<open>auto intro!: region_sub [OF reg]\<close>)
  then obtain m1 where m1: "LZ4_memcpy m d (d - off) 8 = Some m1"
    and c1: "copied m m1 d (d - off) (d + 8) (d + 8)"
    by auto
  have r1: "region m1 lo h = region m lo h" for lo h
    by (rule region_dom [OF copied_dom [OF c1]])
  have "\<exists>m'. LZ4_wildCopy8 m1 (d + 8) (d - off + 8) e = Some m' \<and>
          copied m1 m' (d + 8) (d - off + 8) e hi"
    by (rule LZ4_wildCopy8_copied) (use assms in \<open>auto simp: r1 intro!: region_sub [OF reg]\<close>)
  then obtain m2 where m2: "LZ4_wildCopy8 m1 (d + 8) (d - off + 8) e = Some m2"
    and c2: "copied m1 m2 (d + 8) (d - off + 8) e hi"
    by blast
  have "copied m m2 d (d - off) e hi"
    by (rule copied_trans [OF c1]) (use c2 assms in auto)
  then have "match_copied m m2 d off e hi"
    by (rule copied_match) (use assms(1) in auto)
  with m1 m2 assms(1) show ?thesis
    by (simp add: LZ4_memcpy_using_offset_base_def)
qed

lemma memcpy_using_offset_base_close:
  assumes "off = 3 \<or> 5 \<le> off" and "off < 8" and reg: "region m (d - off) hi"
    and "e + 7 \<le> hi" and "d + 16 \<le> hi"
  shows "\<exists>m'. LZ4_memcpy_using_offset_base m d (d - off) e off = Some m' \<and> match_copied m m' d off e hi"
proof -
  obtain m1 where m1: "LZ4_write32 m d 0 = Some m1" and dom1: "dom m1 = dom m"
    and f: "\<forall>x. x < d \<or> d + 4 \<le> x \<longrightarrow> m1 x = m x"
    using write32_zero_frame [of m d] region_sub [OF reg, of d "d + 4"] assms by auto
  have r1: "region m1 lo h = region m lo h" for lo h
    by (rule region_dom [OF dom1])
  have "\<exists>m'. LZ4_memcpy m1 d (d - off) 2 = Some m' \<and> copied m1 m' d (d - off) (d + int 2) (d + int 2)"
    by (rule LZ4_memcpy_copied) (use assms in \<open>auto simp: r1 intro!: region_sub [OF reg]\<close>)
  then obtain m2 where m2: "LZ4_memcpy m1 d (d - off) 2 = Some m2"
    and c2: "copied m1 m2 d (d - off) (d + 2) (d + 2)"
    by auto
  have r2: "region m2 lo h = region m lo h" for lo h
    using region_dom [OF copied_dom [OF c2]] r1 by simp
  have "\<exists>m'. LZ4_memcpy m2 (d + 2) (d - off + 2) 2 = Some m' \<and>
          copied m2 m' (d + 2) (d - off + 2) (d + 2 + int 2) (d + 2 + int 2)"
    by (rule LZ4_memcpy_copied) (use assms in \<open>auto simp: r2 intro!: region_sub [OF reg]\<close>)
  then obtain m3 where m3: "LZ4_memcpy m2 (d + 2) (d - off + 2) 2 = Some m3"
    and c3: "copied m2 m3 (d + 2) (d - off + 2) (d + 4) (d + 4)"
    by (auto simp: add.commute)
  have "copied m1 m3 d (d - off) (d + 4) (d + 4)"
    by (rule copied_trans [OF c2]) (use c3 assms in auto)
  then have "match_copied m1 m3 d off (d + 4) (d + 4)"
    by (rule copied_match) (use assms(1) in auto)
  then have first: "match_copied m m3 d off (d + 4) (d + 4)"
    by (rule match_copied_after [OF dom1, rotated]) (use f in auto)
  obtain m4 where m4: "LZ4_memcpy m3 (d + 4) (d - off + inc32table ! nat off) 4 = Some m4"
    and c4: "match_copied m m4 d off (d + 8) (d + 8)"
    using close_match_start [OF first] assms region_sub [OF reg, of "d - off" "d + 8"] by auto
  obtain m5 where "LZ4_wildCopy8 m4 (d + 8) (d - off + inc32table ! nat off - dec64table ! nat off) e = Some m5"
    and "match_copied m m5 d off e hi"
    using close_match_rest [OF c4 _ assms(2) reg assms(4,5)] assms(1) by auto
  with m1 m2 m3 m4 assms(2) show ?thesis
    by (simp add: LZ4_memcpy_using_offset_base_def)
qed

lemma memcpy_using_offset_base_zero:
  assumes reg: "region m d hi" and "e + 7 \<le> hi" and "d + 16 \<le> hi"
  shows "\<exists>m'. LZ4_memcpy_using_offset_base m d d e 0 = Some m' \<and> match_copied m m' d 0 e hi"
proof -
  obtain m1 m2 where m1: "LZ4_write32 m d 0 = Some m1" and m2: "LZ4_memcpy m1 (d + 4) d 4 = Some m2"
    and dom1: "dom m1 = dom m" and c2: "match_copied m m2 d 0 (d + 8) (d + 8)"
    using zero_match_start [of m d] region_sub [OF reg, of d "d + 8"] assms by auto
  have r1: "region m1 lo h = region m lo h" for lo h
    by (rule region_dom [OF dom1])
  have same: "LZ4_memcpy m1 a a 2 = Some m1" if "d \<le> a" "a + 2 \<le> d + 16" for a
    using that assms by (intro LZ4_memcpy_same) (auto simp: r1 intro!: region_sub [OF reg])
  obtain m3 where "LZ4_wildCopy8 m2 (d + 8) d e = Some m3" and "match_copied m m3 d 0 e hi"
    using zero_match_rest [OF c2 reg assms(2,3)] by blast
  with m1 m2 same [of d] same [of "d + 2"] show ?thesis
    by (simp add: LZ4_memcpy_using_offset_base_def inc32table_def dec64table_def)
qed

lemma write_pattern_law:
  assumes "length v = 8" and "region m d hi" and "e + 7 \<le> hi"
  shows "\<exists>m'. write_pattern m d e v = Some m' \<and> dom m' = dom m \<and>
           (\<forall>x. d \<le> x \<and> x < e \<longrightarrow> m' x = Some (v ! nat ((x - d) mod 8))) \<and>
           (\<forall>x. x < d \<or> hi \<le> x \<longrightarrow> m' x = m x)"
  using assms
proof (induction m d e v rule: write_pattern.induct)
  case (1 m d e v)
  show ?case
  proof (cases "d < e")
    case False
    then show ?thesis
      by (subst write_pattern.simps) auto
  next
    case True
    have reg: "region m d (d + int (length v))"
      using "1.prems" True by (auto intro: region_sub [OF "1.prems"(2)])
    define m1 where "m1 = put m d v"
    have store: "store_bytes m d v = Some m1"
      unfolding m1_def by (rule store_bytes_Some [OF reg])
    have dom1: "dom m1 = dom m"
      unfolding m1_def by (rule dom_put [OF reg])
    have "\<exists>m'. write_pattern m1 (d + 8) e v = Some m' \<and> dom m' = dom m1 \<and>
        (\<forall>x. d + 8 \<le> x \<and> x < e \<longrightarrow> m' x = Some (v ! nat ((x - (d + 8)) mod 8))) \<and>
        (\<forall>x. x < d + 8 \<or> hi \<le> x \<longrightarrow> m' x = m1 x)"
    proof (rule "1.IH" [OF True store "1.prems"(1)])
      show "region m1 (d + 8) hi"
        using region_dom [OF dom1] by (auto intro: region_sub [OF "1.prems"(2)])
    qed (use "1.prems" in auto)
    then obtain m2 where m2: "write_pattern m1 (d + 8) e v = Some m2" and dom2: "dom m2 = dom m1"
      and pat: "\<And>x. d + 8 \<le> x \<Longrightarrow> x < e \<Longrightarrow> m2 x = Some (v ! nat ((x - (d + 8)) mod 8))"
      and frame: "\<And>x. x < d + 8 \<or> hi \<le> x \<Longrightarrow> m2 x = m1 x"
      by blast
    have "m2 x = Some (v ! nat ((x - d) mod 8))" if "d \<le> x" and "x < e" for x
    proof (cases "x < d + 8")
      case True
      then show ?thesis
        using that frame [of x] "1.prems"(1) by (simp add: m1_def put_apply)
    next
      case False
      then have "m2 x = Some (v ! nat ((x - (d + 8)) mod 8))"
        using pat that(2) by (metis not_le)
      then show ?thesis
        by (simp only: mod8_shift)
    qed
    moreover have "m2 x = m x" if "x < d \<or> hi \<le> x" for x
      using that frame [of x] "1.prems" True by (auto simp: m1_def put_apply)
    ultimately show ?thesis
      using True store m2 dom1 dom2 by (subst write_pattern.simps) auto
  qed
qed

lemma memcpy_using_offset_pattern:
  assumes off: "off = 1 \<or> off = 2 \<or> off = 4" and v: "length v = 8"
    and vi: "\<And>j. 0 \<le> j \<Longrightarrow> j < 8 \<Longrightarrow> v ! nat j = the (m (d - off + j mod off))"
    and reg: "region m (d - off) hi" and "e + 7 \<le> hi" and "d + 8 \<le> hi"
  shows "\<exists>m1 m'. store_bytes m d v = Some m1 \<and> write_pattern m1 (d + 8) e v = Some m' \<and>
           match_copied m m' d off e hi"
proof -
  have regv: "region m d (d + int (length v))"
    by (rule region_sub [OF reg]) (use off v assms(6) in auto)
  define m1 where "m1 = put m d v"
  have store: "store_bytes m d v = Some m1"
    unfolding m1_def by (rule store_bytes_Some [OF regv])
  have dom1: "dom m1 = dom m"
    unfolding m1_def by (rule dom_put [OF regv])
  have "region m1 (d + 8) hi"
    using region_dom [OF dom1] off by (auto intro: region_sub [OF reg])
  from write_pattern_law [OF v this assms(5)]
  obtain m2 where m2: "write_pattern m1 (d + 8) e v = Some m2" and dom2: "dom m2 = dom m1"
    and pat: "\<And>x. d + 8 \<le> x \<Longrightarrow> x < e \<Longrightarrow> m2 x = Some (v ! nat ((x - (d + 8)) mod 8))"
    and frame: "\<And>x. x < d + 8 \<or> hi \<le> x \<Longrightarrow> m2 x = m1 x"
    by blast
  have dvd: "off dvd 8"
    using off by auto
  have val: "m2 x = m (d - off + (x - d) mod off)" if "d - off \<le> x" and "x < e" for x
  proof (cases "x < d")
    case True
    have "(x - d) mod off = (x - d + off) mod off"
      by simp
    also have "\<dots> = x - d + off"
      using True that off by (intro mod_pos_pos_trivial) auto
    finally show ?thesis
      using True frame [of x] by (simp add: m1_def)
  next
    case False
    have "m2 x = Some (v ! nat ((x - d) mod 8))"
    proof (cases "x < d + 8")
      case True
      then show ?thesis
        using False frame [of x] v by (simp add: m1_def put_apply)
    next
      case far: False
      then have "m2 x = Some (v ! nat ((x - (d + 8)) mod 8))"
        using pat that(2) by (metis not_le)
      then show ?thesis
        by (simp only: mod8_shift)
    qed
    also have "\<dots> = Some (the (m (d - off + (x - d) mod 8 mod off)))"
      by (subst vi) auto
    also have "(x - d) mod 8 mod off = (x - d) mod off"
      by (rule mod_mod_cancel [OF dvd])
    also have "Some (the (m (d - off + (x - d) mod off))) = m (d - off + (x - d) mod off)"
    proof -
      have "0 \<le> (x - d) mod off" "(x - d) mod off < off"
        using off by auto
      then have "d - off + (x - d) mod off \<in> dom m"
        using reg assms(6) by (auto simp: region_def)
      then show ?thesis
        by auto
    qed
    finally show ?thesis .
  qed
  have "m2 x = m2 (x - off)" if "d \<le> x" and "x < e" for x
  proof -
    have shift: "(x - off - d) mod off = (x - d) mod off"
      by (simp only: diff_right_commute [of x off d] minus_mod_self2)
    have "0 < off"
      using off by auto
    then have "m2 (x - off) = m (d - off + (x - off - d) mod off)"
      using that by (intro val) simp_all
    moreover have "m2 x = m (d - off + (x - d) mod off)"
      using that \<open>0 < off\<close> by (intro val) simp_all
    ultimately show ?thesis
      by (simp only: shift)
  qed
  note per = this
  have "match_copied m m2 d off e hi"
    unfolding match_copied_def
  proof (intro conjI allI impI)
    show "dom m2 = dom m"
      using dom1 dom2 by simp
    show "m2 x = (if off = 0 then Some 0 else m2 (x - off))" if "d \<le> x \<and> x < e" for x
    proof -
      have "m2 x = m2 (x - off)"
        by (rule per) (use that in auto)
      moreover have "off \<noteq> 0"
        using off by auto
      ultimately show ?thesis
        by (simp only: if_False)
    qed
    show "m2 x = m x" if "x < d \<or> hi \<le> x" for x
      using frame [of x] that assms(6) v by (auto simp: m1_def put_apply)
  qed
  with store m2 show ?thesis
    by blast
qed

section \<open>The interface of the match copies\<close>

text \<open>
  What the decoder relies on: a routine \<open>cp\<close> that is called with the end of the copy and the
  offset, may overshoot the end by \<open>slack\<close> bytes, and is used for the offsets \<open>good\<close>. The
  copy is then the match of the block format.
\<close>

locale match_copier =
  fixes cp :: "mem \<Rightarrow> ptr \<Rightarrow> ptr \<Rightarrow> ptr \<Rightarrow> int \<Rightarrow> mem option"
    and slack :: int
    and good :: "int \<Rightarrow> bool"
  assumes slack_nonneg: "0 \<le> slack"
    and good_nonneg: "good off \<Longrightarrow> 0 \<le> off"
    and law: "good off \<Longrightarrow> region m (d - off) hi \<Longrightarrow> d + 4 \<le> e \<Longrightarrow> e + slack \<le> hi \<Longrightarrow>
      \<exists>m'. cp m d (d - off) e off = Some m' \<and> match_copied m m' d off e hi"

lemma match_copied_bytes:
  assumes mc: "match_copied m m' d (int off) e hi" and "lo + int off \<le> d" and "d \<le> e" and reg: "region m lo e"
  shows "bytes m' lo (nat (e - lo)) = lz_copy (bytes m lo (nat (d - lo))) off (nat (e - d))"
proof (rule lz_copy_eqI)
  show "length (bytes m' lo (nat (e - lo))) = length (bytes m lo (nat (d - lo))) + nat (e - d)"
    using assms(2,3) by simp
  have "bytes m' lo (nat (d - lo)) = bytes m lo (nat (d - lo))"
    by (rule bytes_cong) (use mc assms(2) in \<open>auto simp: match_copied_def\<close>)
  then show "take (length (bytes m lo (nat (d - lo)))) (bytes m' lo (nat (e - lo))) =
      bytes m lo (nat (d - lo))"
    using assms(2,3) by (simp add: bytes_def take_map_upt)
  show "off \<le> length (bytes m lo (nat (d - lo)))"
    using assms(2) by simp
next
  fix i
  assume i: "length (bytes m lo (nat (d - lo))) \<le> i" "i < length (bytes m' lo (nat (e - lo)))"
  then have "d \<le> lo + int i" and "lo + int i < e"
    by (simp_all add: nat_le_iff zless_nat_eq_int_zless)
  with mc have "m' (lo + int i) = (if int off = 0 then Some 0 else m' (lo + int i - int off))"
    by (simp only: match_copied_def)
  then show "bytes m' lo (nat (e - lo)) ! i =
      (if off = 0 then 0 else bytes m' lo (nat (e - lo)) ! (i - off))"
    using i assms(2,3) by (auto simp: of_nat_diff algebra_simps)
qed

context match_copier
begin

lemma copies_match:
  assumes "good (int off)" and "region m lo hi" and "lo + int off \<le> d" and "d + 4 \<le> e" and "e + slack \<le> hi"
  shows "\<exists>m'. cp m d (d - int off) e (int off) = Some m' \<and> dom m' = dom m \<and>
           bytes m' lo (nat (e - lo)) = lz_copy (bytes m lo (nat (d - lo))) off (nat (e - d)) \<and>
           (\<forall>x. x < d \<or> hi \<le> x \<longrightarrow> m' x = m x)"
proof -
  have "region m (d - int off) hi"
    by (rule region_sub [OF assms(2)]) (use assms(3) in auto)
  from law [OF assms(1) this assms(4,5)]
  obtain m' where m': "cp m d (d - int off) e (int off) = Some m'"
    and mc: "match_copied m m' d (int off) e hi"
    by blast
  have "region m lo e"
    by (rule region_sub [OF assms(2)]) (use assms(5) slack_nonneg in auto)
  from match_copied_bytes [OF mc assms(3) _ this] assms(4) m' mc show ?thesis
    by (auto simp: match_copied_def)
qed

end

lemma memcpy_using_offset_law:
  assumes off: "0 \<le> off" "off < 16" and reg: "region m (d - off) hi"
    and "d + 4 \<le> e" and "e + 12 \<le> hi"
  shows "\<exists>m'. LZ4_memcpy_using_offset m d (d - off) e off = Some m' \<and> match_copied m m' d off e hi"
proof -
  have load: "load_bytes m (d - off) (nat off) = Some (bytes m (d - off) (nat off))"
    by (rule load_bytes_Some) (use assms in \<open>auto intro: region_sub [OF reg]\<close>)
  have hi: "e + 7 \<le> hi" "d + 8 \<le> hi" "d + 16 \<le> hi"
    using assms(4,5) by auto
  consider "off = 0" | "off = 1" | "off = 2" | "off = 4" | "off = 3 \<or> 5 \<le> off \<and> off < 8" | "8 \<le> off"
    using off by linarith
  then show ?thesis
  proof cases
    case 1
    with memcpy_using_offset_base_zero [of m d hi e] reg hi show ?thesis
      by (simp add: LZ4_memcpy_using_offset_def)
  next
    case 2
    have "\<exists>m1 m'. store_bytes m d (replicate 8 (the (m (d - 1)))) = Some m1 \<and>
        write_pattern m1 (d + 8) e (replicate 8 (the (m (d - 1)))) = Some m' \<and> match_copied m m' d off e hi"
      by (rule memcpy_using_offset_pattern)
        (use 2 reg hi in \<open>auto simp: nth_replicate simp del: replicate.simps\<close>)
    with 2 load show ?thesis
      by (auto simp: LZ4_memcpy_using_offset_def Let_def)
  next
    case 3
    define b where "b = bytes m (d - 2) 2"
    have b: "b = [the (m (d - 2)), the (m (d - 1))]"
      by (simp add: b_def bytes_def numeral_2_eq_2)
    have "\<exists>m1 m'. store_bytes m d (b @ b @ b @ b) = Some m1 \<and>
        write_pattern m1 (d + 8) e (b @ b @ b @ b) = Some m' \<and> match_copied m m' d off e hi"
    proof (rule memcpy_using_offset_pattern)
      fix j :: int
      assume "0 \<le> j" and "j < 8"
      then have "j = 0 \<or> j = 1 \<or> j = 2 \<or> j = 3 \<or> j = 4 \<or> j = 5 \<or> j = 6 \<or> j = 7"
        by linarith
      then show "(b @ b @ b @ b) ! nat j = the (m (d - off + j mod off))"
        using 3 by (elim disjE) (simp_all add: b)
    qed (use 3 reg hi in \<open>auto simp: b\<close>)
    with 3 load show ?thesis
      by (auto simp: LZ4_memcpy_using_offset_def Let_def b_def)
  next
    case 4
    define b where "b = bytes m (d - 4) 4"
    have b: "b = [the (m (d - 4)), the (m (d - 3)), the (m (d - 2)), the (m (d - 1))]"
      by (simp add: b_def bytes_def eval_nat_numeral)
    have "\<exists>m1 m'. store_bytes m d (b @ b) = Some m1 \<and>
        write_pattern m1 (d + 8) e (b @ b) = Some m' \<and> match_copied m m' d off e hi"
    proof (rule memcpy_using_offset_pattern)
      fix j :: int
      assume "0 \<le> j" and "j < 8"
      then have "j = 0 \<or> j = 1 \<or> j = 2 \<or> j = 3 \<or> j = 4 \<or> j = 5 \<or> j = 6 \<or> j = 7"
        by linarith
      then show "(b @ b) ! nat j = the (m (d - off + j mod off))"
        using 4 by (elim disjE) (simp_all add: b)
    qed (use 4 reg hi in \<open>auto simp: b\<close>)
    with 4 load show ?thesis
      by (auto simp: LZ4_memcpy_using_offset_def Let_def b_def)
  next
    case 5
    with memcpy_using_offset_base_close [of off m d hi e] reg hi show ?thesis
      by (auto simp: LZ4_memcpy_using_offset_def)
  next
    case 6
    with memcpy_using_offset_base_far [of off m d hi e] reg hi show ?thesis
      by (auto simp: LZ4_memcpy_using_offset_def)
  qed
qed

interpretation copy_offset: match_copier LZ4_memcpy_using_offset 12 "\<lambda>off. 0 \<le> off \<and> off < 16"
  by unfold_locales (auto intro: memcpy_using_offset_law)

interpretation copy_wild32: match_copier "\<lambda>m d s e off. LZ4_wildCopy32 m d s e" 31 "\<lambda>off. 16 \<le> off"
proof unfold_locales
  fix off d e hi :: int and m
  assume "16 \<le> off" and reg: "region m (d - off) hi" and "d + 4 \<le> e" and "e + 31 \<le> hi"
  then have "\<exists>m'. LZ4_wildCopy32 m d (d - off) e = Some m' \<and> copied m m' d (d - off) e hi"
    by (intro LZ4_wildCopy32_copied) (auto intro: region_sub [OF reg])
  then show "\<exists>m'. LZ4_wildCopy32 m d (d - off) e = Some m' \<and> match_copied m m' d off e hi"
    using \<open>16 \<le> off\<close> by (auto dest: copied_match)
qed auto

end
