(* ===== verification/Lz4_History.thy ===== *)
theory Lz4_History
  imports Lz4_Copy
begin

text \<open>
  The history a decoder's matches refer to, as it lies in memory: an external dictionary, then the
  bytes in front of the output pointer. The lemmas say how the history grows when bytes are
  stored at the output pointer and when a match is copied from the prefix or from the
  dictionary; both decoders of src/lz4.c are verified with them.
\<close>

definition history :: "mem \<Rightarrow> ptr \<Rightarrow> nat \<Rightarrow> ptr \<Rightarrow> ptr \<Rightarrow> byte list" where
  "history m ds dn low op = bytes m ds dn @ bytes m low (nat (op - low))"

lemma length_history: "low \<le> op \<Longrightarrow> int (length (history m ds dn low op)) = int dn + (op - low)"
  by (simp add: history_def)

text \<open>A memory that differs only at and behind the output pointer, and not in the dictionary.\<close>

definition behind :: "mem \<Rightarrow> mem \<Rightarrow> ptr \<Rightarrow> nat \<Rightarrow> ptr \<Rightarrow> bool" where
  "behind m m' ds dn op \<longleftrightarrow>
     (\<forall>x < op. m' x = m x) \<and> (\<forall>x. ds \<le> x \<and> x < ds + int dn \<longrightarrow> m' x = m x)"

lemma behind_refl [simp]: "behind m m ds dn op"
  by (simp add: behind_def)

lemma behindI:
  assumes "\<And>x. x < op \<or> hi \<le> x \<Longrightarrow> m' x = m x" and "dn = 0 \<or> ds + int dn \<le> op \<or> hi \<le> ds"
  shows "behind m m' ds dn op"
  using assms by (auto simp: behind_def)

lemma history_behind:
  assumes "behind m m' ds dn op"
  shows "history m' ds dn low op = history m ds dn low op"
proof -
  have "bytes m' ds dn = bytes m ds dn" "bytes m' low (nat (op - low)) = bytes m low (nat (op - low))"
    by (rule bytes_cong; use assms in \<open>auto simp: behind_def split: if_splits\<close>)+
  then show ?thesis
    by (simp add: history_def)
qed

lemma history_add:
  "low \<le> op \<Longrightarrow> history m ds dn low (op + int n) = history m ds dn low op @ bytes m op n"
proof -
  assume "low \<le> op"
  then have "nat (op + int n - low) = nat (op - low) + n" "low + int (nat (op - low)) = op"
    by auto
  then show ?thesis
    by (simp add: history_def bytes_add)
qed

lemma history_append:
  assumes "behind m m' ds dn op" and "low \<le> op" and "bytes m' op n = xs"
  shows "history m' ds dn low (op + int n) = history m ds dn low op @ xs"
  using assms by (simp add: history_add history_behind)

lemma history_store:
  assumes "behind m (put m op xs) ds dn op" and "low \<le> op"
  shows "history (put m op xs) ds dn low (op + int (length xs)) = history m ds dn low op @ xs"
  by (rule history_append [OF assms]) simp

text \<open>A match at a distance inside the prefix.\<close>

lemma history_match:
  assumes mc: "match_copied m m' op (int off) (op + int n) hi" and "behind m m' ds dn op"
    and "low + int off \<le> op" and reg: "region m low (op + int n)"
  shows "history m' ds dn low (op + int n) = lz_copy (history m ds dn low op) off n"
proof -
  have "bytes m' low (nat (op + int n - low)) = lz_copy (bytes m low (nat (op - low))) off n"
    using match_copied_bytes [OF mc assms(3) _ reg] by simp
  moreover have "bytes m' ds dn = bytes m ds dn"
    by (rule bytes_cong) (use assms(2) in \<open>simp add: behind_def\<close>)
  ultimately show ?thesis
    unfolding history_def by (subst lz_copy_history) (use assms(3) in auto)
qed

text \<open>A match, or the first part of one, that lies in the dictionary.\<close>

lemma history_dict:
  assumes "bytes m' op n = bytes m (ds + int dn - (int off - (op - low))) n" and "behind m m' ds dn op"
    and "low \<le> op" and "op - low + int n \<le> int off" and "int off \<le> op - low + int dn"
  shows "history m' ds dn low (op + int n) = lz_copy (history m ds dn low op) off n"
proof -
  define h where "h = history m ds dn low op"
  define k where "k = nat (int dn - (int off - (op - low)))"
  have len: "int (length h) = int dn + (op - low)"
    unfolding h_def by (rule length_history [OF assms(3)])
  have k: "length h - off = k" "k + n \<le> dn"
    using len assms(3-5) by (auto simp: k_def)
  have src: "ds + int dn - (int off - (op - low)) = ds + int k"
    using assms(5) by (simp add: k_def)
  have "bytes m ds dn = bytes m ds k @ bytes m (ds + int k) n @ bytes m (ds + int k + int n) (dn - k - n)"
    using bytes_add [of m ds k "dn - k"] bytes_add [of m "ds + int k" n "dn - k - n"] k(2) by simp
  then have "take n (drop k h) = bytes m (ds + int k) n"
    by (simp add: h_def history_def)
  moreover have "lz_copy h off n = h @ take n (drop (length h - off) h)"
    by (rule lz_copy_apart) (use len assms(3-5) in auto)
  ultimately have "lz_copy h off n = h @ bytes m' op n"
    using assms(1) by (simp add: k(1) src)
  then show ?thesis
    using history_append [OF assms(2,3) refl] by (simp add: h_def)
qed

text \<open>A match that begins in the dictionary and goes on at the start of the prefix.\<close>

lemma history_across:
  assumes first: "history m1 ds dn low (op + int k) = lz_copy (history m ds dn low op) off k"
    and rest: "history m2 ds dn low (op + int k + int (n - k)) =
      lz_copy (history m1 ds dn low (op + int k)) off (n - k)"
    and "k \<le> n"
  shows "history m2 ds dn low (op + int n) = lz_copy (history m ds dn low op) off n"
  using lz_copy_add [of "history m ds dn low op" off k "n - k"] assms by simp

end
