(* ===== verification/Lz4_Decode.thy ===== *)
theory Lz4_Decode
  imports Lz4_Memory
begin

text \<open>
  The decoder of src/lz4.c, \<open>LZ4_decompress_generic\<close>, and the entry points that
  instantiate it. The C function is two loops (a fast loop for output positions at least 64
  bytes from the end, and a safe loop) joined by labels that one loop jumps to in the middle
  of the other. The model has a control point for each loop head and each label and one step
  function per control point, which says what the code does from there to the next control
  point; \<open>dec_run\<close> is the code run from a control point.

  \<open>assert\<close>, \<open>DEBUGLOG\<close> and branch hints have no effect in the configuration built. Lengths
  and offsets are unbounded integers: a length read by \<open>read_variable_length\<close> is at most
  255 times the input size plus 15, far below \<open>2 ^ 64\<close>, so \<open>size_t\<close> does not wrap.
\<close>

datatype earlyEnd_directive = decode_full_block | partial_decode

datatype dict_directive = noDict | withPrefix64k | usingExtDict | usingDictCtx

abbreviation MINMATCH :: int where "MINMATCH \<equiv> 4"
abbreviation LASTLITERALS :: int where "LASTLITERALS \<equiv> 5"
abbreviation MFLIMIT :: int where "MFLIMIT \<equiv> 12"
abbreviation WILDCOPYLENGTH :: int where "WILDCOPYLENGTH \<equiv> 8"
abbreviation MATCH_SAFEGUARD_DISTANCE :: int where
  "MATCH_SAFEGUARD_DISTANCE \<equiv> 2 * WILDCOPYLENGTH - MINMATCH"
abbreviation FASTLOOP_SAFE_DISTANCE :: int where "FASTLOOP_SAFE_DISTANCE \<equiv> 64"
abbreviation ML_MASK :: int where "ML_MASK \<equiv> 15"
abbreviation RUN_MASK :: int where "RUN_MASK \<equiv> 15"

section \<open>Variable-length numbers\<close>

text \<open>The result is the length, or \<^term>\<open>None\<close> for \<open>rvl_error\<close>, with the advanced input
  pointer.\<close>

function rvl_loop :: "mem \<Rightarrow> ptr \<Rightarrow> ptr \<Rightarrow> int \<Rightarrow> (int option \<times> ptr) option" where
  "rvl_loop m ip ilimit acc =
     (if ip \<ge> ilimit then Some (None, ip)
      else do { s \<leftarrow> m ip;
                if s = 255 then rvl_loop m (ip + 1) ilimit (acc + uint s)
                else Some (Some (acc + uint s), ip + 1) })"
  by pat_completeness auto
termination
  by (relation "measure (\<lambda>(m, ip, ilimit, acc). nat (ilimit - ip))") auto

declare rvl_loop.simps [simp del]

definition read_variable_length :: "mem \<Rightarrow> ptr \<Rightarrow> ptr \<Rightarrow> (int option \<times> ptr) option" where
  "read_variable_length m ip ilimit =
     (if ip \<ge> ilimit then Some (None, ip)
      else do { s \<leftarrow> m ip;
                if s \<noteq> 255 then Some (Some (uint s), ip + 1)
                else rvl_loop m (ip + 1) ilimit (uint s) })"

section \<open>Arguments, state and control points\<close>

record dec_cfg =
  c_src :: ptr
  c_dst :: ptr
  c_srcSize :: int
  c_outputSize :: int
  c_partialDecoding :: earlyEnd_directive
  c_dict :: dict_directive
  c_lowPrefix :: ptr
  c_dictStart :: ptr
  c_dictSize :: int

definition c_iend :: "dec_cfg \<Rightarrow> ptr" where
  "c_iend c = c_src c + c_srcSize c"

definition c_oend :: "dec_cfg \<Rightarrow> ptr" where
  "c_oend c = c_dst c + c_outputSize c"

definition c_dictEnd :: "dec_cfg \<Rightarrow> ptr" where
  "c_dictEnd c = (if c_dictStart c = NULL then NULL else c_dictStart c + c_dictSize c)"

definition c_checkOffset :: "dec_cfg \<Rightarrow> bool" where
  "c_checkOffset c \<longleftrightarrow> c_dictSize c < 64 * KB"

definition c_partial :: "dec_cfg \<Rightarrow> bool" where
  "c_partial c \<longleftrightarrow> c_partialDecoding c = partial_decode"

record dec_state =
  d_mem :: mem
  d_ip :: ptr
  d_op :: ptr
  d_token :: int
  d_length :: int
  d_offset :: int
  d_match :: ptr

datatype dec_pc =
  FastLoop | FastMatch | SafeDecode | SafeLiteralCopyEarly | SafeLiteralCopy
| CopyMatch | SafeMatchCopy | EndOfDecoding | OutputError

section \<open>The fast loop\<close>

definition dec_fast_loop :: "dec_cfg \<Rightarrow> dec_state \<Rightarrow> (dec_pc \<times> dec_state) option" where
  "dec_fast_loop c s =
     do { b \<leftarrow> d_mem s (d_ip s);
          let token = uint b;
          let ip = d_ip s + 1;
          let op = d_op s;
          let length = token div 16;
          let s = s\<lparr>d_token := token, d_ip := ip, d_length := length\<rparr>;
          if ip > c_iend c - (16 + 1) then Some (SafeLiteralCopyEarly, s)
          else if length = RUN_MASK then
            do { (r, ip) \<leftarrow> read_variable_length (d_mem s) ip (c_iend c - RUN_MASK);
                 case r of
                   None \<Rightarrow> Some (OutputError, s\<lparr>d_ip := ip\<rparr>)
                 | Some addl \<Rightarrow>
                     let length = length + addl;
                         cpy = op + length;
                         s = s\<lparr>d_ip := ip, d_length := length\<rparr>
                     in if U64 cpy < U64 op then Some (OutputError, s)
                        else if U64 (ip + length) < U64 ip then Some (OutputError, s)
                        else if cpy > c_oend c - 32 \<or> ip + length > c_iend c - 32
                        then Some (SafeLiteralCopy, s)
                        else do { m \<leftarrow> LZ4_wildCopy32 (d_mem s) op ip cpy;
                                  Some (FastMatch, s\<lparr>d_mem := m, d_ip := ip + length, d_op := cpy\<rparr>) } }
          else do { m \<leftarrow> LZ4_memcpy (d_mem s) op ip 16;
                    Some (FastMatch, s\<lparr>d_mem := m, d_ip := ip + length, d_op := op + length\<rparr>) } }"

text \<open>A match that starts in the external dictionary; \<open>next\<close> is the loop it is in.\<close>

definition dec_ext_dict_match ::
  "dec_cfg \<Rightarrow> dec_pc \<Rightarrow> dec_state \<Rightarrow> (dec_pc \<times> dec_state) option" where
  "dec_ext_dict_match c next s =
     (let m = d_mem s; op = d_op s; match = d_match s in
      if op + d_length s > c_oend c - LASTLITERALS \<and> \<not> c_partial c then Some (OutputError, s)
      else
        let length = (if op + d_length s > c_oend c - LASTLITERALS
                      then min (d_length s) (c_oend c - op) else d_length s)
        in if length \<le> c_lowPrefix c - match then
             do { m \<leftarrow> LZ4_memmove m op (c_dictEnd c - (c_lowPrefix c - match)) (nat length);
                  Some (next, s\<lparr>d_mem := m, d_op := op + length\<rparr>) }
           else
             let copySize = c_lowPrefix c - match; restSize = length - copySize in
             do { m \<leftarrow> LZ4_memcpy m op (c_dictEnd c - copySize) (nat copySize);
                  let op = op + copySize;
                  m \<leftarrow> (if restSize > op - c_lowPrefix c
                        then copy_loop m op (c_lowPrefix c) (op + restSize)
                        else LZ4_memcpy m op (c_lowPrefix c) (nat restSize));
                  Some (next, s\<lparr>d_mem := m, d_op := op + restSize\<rparr>) })"

definition dec_fast_match_copy :: "dec_cfg \<Rightarrow> dec_state \<Rightarrow> (dec_pc \<times> dec_state) option" where
  "dec_fast_match_copy c s =
     (if c_checkOffset c \<and> d_match s + c_dictSize c < c_lowPrefix c then Some (OutputError, s)
      else if c_dict c = usingExtDict \<and> d_match s < c_lowPrefix c
      then dec_ext_dict_match c FastLoop s
      else
        let cpy = d_op s + d_length s in
        do { m \<leftarrow> (if d_offset s < 16
                   then LZ4_memcpy_using_offset (d_mem s) (d_op s) (d_match s) cpy (d_offset s)
                   else LZ4_wildCopy32 (d_mem s) (d_op s) (d_match s) cpy);
             Some (FastLoop, s\<lparr>d_mem := m, d_op := cpy\<rparr>) })"

text \<open>The copy of 18 bytes for a match of at most that length at a distance of 8 or more.\<close>

definition copy18 :: "mem \<Rightarrow> ptr \<Rightarrow> ptr \<Rightarrow> mem option" where
  "copy18 m op match =
     do { m \<leftarrow> LZ4_memcpy m op match 8;
          m \<leftarrow> LZ4_memcpy m (op + 8) (match + 8) 8;
          LZ4_memcpy m (op + 16) (match + 16) 2 }"

definition dec_fast_match :: "dec_cfg \<Rightarrow> dec_state \<Rightarrow> (dec_pc \<times> dec_state) option" where
  "dec_fast_match c s =
     do { offset \<leftarrow> LZ4_readLE16 (d_mem s) (d_ip s);
          let ip = d_ip s + 2;
          let op = d_op s;
          let match = op - offset;
          let length = d_token s mod 16;
          let s = s\<lparr>d_ip := ip, d_offset := offset, d_match := match\<rparr>;
          if length = ML_MASK then
            do { (r, ip) \<leftarrow> read_variable_length (d_mem s) ip (c_iend c - (1 + LASTLITERALS));
                 case r of
                   None \<Rightarrow> Some (OutputError, s\<lparr>d_ip := ip\<rparr>)
                 | Some addl \<Rightarrow>
                     let length = length + addl + MINMATCH;
                         s = s\<lparr>d_ip := ip, d_length := length\<rparr>
                     in if U64 (op + length) < U64 op then Some (OutputError, s)
                        else if op + length \<ge> c_oend c - FASTLOOP_SAFE_DISTANCE
                        then Some (SafeMatchCopy, s)
                        else dec_fast_match_copy c s }
          else
            let length = length + MINMATCH; s = s\<lparr>d_length := length\<rparr> in
            if op + length \<ge> c_oend c - FASTLOOP_SAFE_DISTANCE then Some (SafeMatchCopy, s)
            else if (c_dict c = withPrefix64k \<or> match \<ge> c_lowPrefix c) \<and> offset \<ge> 8
            then do { m \<leftarrow> copy18 (d_mem s) op match;
                      Some (FastLoop, s\<lparr>d_mem := m, d_op := op + length\<rparr>) }
            else dec_fast_match_copy c s }"

section \<open>The safe loop\<close>

definition dec_safe_decode :: "dec_cfg \<Rightarrow> dec_state \<Rightarrow> (dec_pc \<times> dec_state) option" where
  "dec_safe_decode c s =
     do { b \<leftarrow> d_mem s (d_ip s);
          let token = uint b;
          let ip = d_ip s + 1;
          let op = d_op s;
          let length = token div 16;
          let shortiend = c_iend c - 14 - 2;
          let shortoend = c_oend c - 14 - 18;
          let s = s\<lparr>d_token := token, d_ip := ip, d_length := length\<rparr>;
          if length \<noteq> RUN_MASK \<and> ip < shortiend \<and> op \<le> shortoend then
            do { m \<leftarrow> LZ4_memcpy (d_mem s) op ip 16;
                 let op = op + length;
                 let ip = ip + length;
                 let length = token mod 16;
                 offset \<leftarrow> LZ4_readLE16 m ip;
                 let ip = ip + 2;
                 let match = op - offset;
                 let s = s\<lparr>d_mem := m, d_ip := ip, d_op := op, d_length := length,
                           d_offset := offset, d_match := match\<rparr>;
                 if length \<noteq> ML_MASK \<and> offset \<ge> 8 \<and>
                    (c_dict c = withPrefix64k \<or> match \<ge> c_lowPrefix c)
                 then do { m \<leftarrow> copy18 m op match;
                           Some (SafeDecode, s\<lparr>d_mem := m, d_op := op + length + MINMATCH\<rparr>) }
                 else Some (CopyMatch, s) }
          else Some (SafeLiteralCopyEarly, s) }"

definition dec_safe_literal_copy_early :: "dec_cfg \<Rightarrow> dec_state \<Rightarrow> (dec_pc \<times> dec_state) option" where
  "dec_safe_literal_copy_early c s =
     (if d_length s = RUN_MASK then
        do { (r, ip) \<leftarrow> read_variable_length (d_mem s) (d_ip s) (c_iend c - RUN_MASK);
             case r of
               None \<Rightarrow> Some (OutputError, s\<lparr>d_ip := ip\<rparr>)
             | Some addl \<Rightarrow>
                 let length = d_length s + addl; s = s\<lparr>d_ip := ip, d_length := length\<rparr> in
                 if U64 (d_op s + length) < U64 (d_op s) then Some (OutputError, s)
                 else if U64 (ip + length) < U64 ip then Some (OutputError, s)
                 else Some (SafeLiteralCopy, s) }
      else Some (SafeLiteralCopy, s))"

text \<open>The offset and the match length nibble, read after the literals of the safe loop.\<close>

definition dec_get_offset :: "dec_state \<Rightarrow> (dec_pc \<times> dec_state) option" where
  "dec_get_offset s =
     do { offset \<leftarrow> LZ4_readLE16 (d_mem s) (d_ip s);
          Some (CopyMatch, s\<lparr>d_ip := d_ip s + 2, d_offset := offset,
                             d_match := d_op s - offset, d_length := d_token s mod 16\<rparr>) }"

definition dec_safe_literal_copy :: "dec_cfg \<Rightarrow> dec_state \<Rightarrow> (dec_pc \<times> dec_state) option" where
  "dec_safe_literal_copy c s =
     (let ip = d_ip s; op = d_op s; length = d_length s; cpy = op + length in
      if cpy > c_oend c - MFLIMIT \<or> ip + length > c_iend c - (2 + 1 + LASTLITERALS) then
        if \<not> c_partial c \<and> (ip + length \<noteq> c_iend c \<or> cpy > c_oend c) then Some (OutputError, s)
        else
          let length = (if c_partial c \<and> ip + length > c_iend c then c_iend c - ip else length);
              cpy = op + length;
              length = (if c_partial c \<and> cpy > c_oend c then c_oend c - op else length);
              cpy = (if c_partial c \<and> cpy > c_oend c then c_oend c else cpy)
          in do { m \<leftarrow> LZ4_memmove (d_mem s) op ip (nat length);
                  let ip = ip + length;
                  let op = op + length;
                  let s = s\<lparr>d_mem := m, d_ip := ip, d_op := op, d_length := length\<rparr>;
                  if \<not> c_partial c \<or> cpy = c_oend c \<or> ip \<ge> c_iend c - 2
                  then Some (EndOfDecoding, s)
                  else dec_get_offset s }
      else
        do { m \<leftarrow> LZ4_wildCopy8 (d_mem s) op ip cpy;
             dec_get_offset (s\<lparr>d_mem := m, d_ip := ip + length, d_op := cpy\<rparr>) })"

definition dec_copy_match :: "dec_cfg \<Rightarrow> dec_state \<Rightarrow> (dec_pc \<times> dec_state) option" where
  "dec_copy_match c s =
     (if d_length s = ML_MASK then
        do { (r, ip) \<leftarrow> read_variable_length (d_mem s) (d_ip s) (c_iend c - (1 + LASTLITERALS));
             case r of
               None \<Rightarrow> Some (OutputError, s\<lparr>d_ip := ip\<rparr>)
             | Some addl \<Rightarrow>
                 let length = d_length s + addl; s = s\<lparr>d_ip := ip, d_length := length\<rparr> in
                 if U64 (d_op s + length) < U64 (d_op s) then Some (OutputError, s)
                 else Some (SafeMatchCopy, s\<lparr>d_length := length + MINMATCH\<rparr>) }
      else Some (SafeMatchCopy, s\<lparr>d_length := d_length s + MINMATCH\<rparr>))"

text \<open>The first eight bytes of a match in the safe loop: the memory and the advanced match
  pointer.\<close>

definition copy_first8 :: "mem \<Rightarrow> ptr \<Rightarrow> ptr \<Rightarrow> int \<Rightarrow> (mem \<times> ptr) option" where
  "copy_first8 m op match offset =
     (if offset < 8 then
        do { m \<leftarrow> LZ4_write32 m op 0;
             m \<leftarrow> copy_loop m op match (op + 4);
             let match = match + inc32table ! nat offset;
             m \<leftarrow> LZ4_memcpy m (op + 4) match 4;
             Some (m, match - dec64table ! nat offset) }
      else
        do { m \<leftarrow> LZ4_memcpy m op match 8;
             Some (m, match + 8) })"

definition dec_safe_match_copy :: "dec_cfg \<Rightarrow> dec_state \<Rightarrow> (dec_pc \<times> dec_state) option" where
  "dec_safe_match_copy c s =
     (let op = d_op s; match = d_match s; length = d_length s in
      if c_checkOffset c \<and> match + c_dictSize c < c_lowPrefix c then Some (OutputError, s)
      else if c_dict c = usingExtDict \<and> match < c_lowPrefix c
      then dec_ext_dict_match c SafeDecode s
      else
        let cpy = op + length in
        if c_partial c \<and> cpy > c_oend c - MATCH_SAFEGUARD_DISTANCE then
          let mlen = min length (c_oend c - op);
              matchEnd = match + mlen;
              copyEnd = op + mlen
          in do { m \<leftarrow> (if matchEnd > op then copy_loop (d_mem s) op match copyEnd
                        else LZ4_memcpy (d_mem s) op match (nat mlen));
                  let s = s\<lparr>d_mem := m, d_op := copyEnd\<rparr>;
                  if copyEnd = c_oend c then Some (EndOfDecoding, s) else Some (SafeDecode, s) }
        else
          do { (m, match) \<leftarrow> copy_first8 (d_mem s) op match (d_offset s);
               let op = op + 8;
               if cpy > c_oend c - MATCH_SAFEGUARD_DISTANCE then
                 let oCopyLimit = c_oend c - (WILDCOPYLENGTH - 1) in
                 if cpy > c_oend c - LASTLITERALS then Some (OutputError, s\<lparr>d_mem := m\<rparr>)
                 else if op < oCopyLimit then
                   do { m \<leftarrow> LZ4_wildCopy8 m op match oCopyLimit;
                        m \<leftarrow> copy_loop m oCopyLimit (match + (oCopyLimit - op)) cpy;
                        Some (SafeDecode, s\<lparr>d_mem := m, d_op := cpy\<rparr>) }
                 else
                   do { m \<leftarrow> copy_loop m op match cpy;
                        Some (SafeDecode, s\<lparr>d_mem := m, d_op := cpy\<rparr>) }
               else
                 do { m \<leftarrow> LZ4_memcpy m op match 8;
                      m \<leftarrow> (if length > 16 then LZ4_wildCopy8 m (op + 8) (match + 8) cpy else Some m);
                      Some (SafeDecode, s\<lparr>d_mem := m, d_op := cpy\<rparr>) } })"

section \<open>The whole function\<close>

fun dec_step :: "dec_cfg \<Rightarrow> dec_pc \<Rightarrow> dec_state \<Rightarrow> (dec_pc \<times> dec_state) option" where
  "dec_step c FastLoop s = dec_fast_loop c s"
| "dec_step c FastMatch s = dec_fast_match c s"
| "dec_step c SafeDecode s = dec_safe_decode c s"
| "dec_step c SafeLiteralCopyEarly s = dec_safe_literal_copy_early c s"
| "dec_step c SafeLiteralCopy s = dec_safe_literal_copy c s"
| "dec_step c CopyMatch s = dec_copy_match c s"
| "dec_step c SafeMatchCopy s = dec_safe_match_copy c s"
| "dec_step c EndOfDecoding s = Some (EndOfDecoding, s)"
| "dec_step c OutputError s = Some (OutputError, s)"

text \<open>Running from a control point: \<^term>\<open>None\<close> is undefined behaviour or a loop that does
  not end.\<close>

partial_function (option) dec_run :: "dec_cfg \<Rightarrow> dec_pc \<Rightarrow> dec_state \<Rightarrow> (int \<times> mem) option" where
  "dec_run c pc s =
     (if pc = EndOfDecoding then Some (d_op s - c_dst c, d_mem s)
      else if pc = OutputError then Some (- (d_ip s - c_src c) - 1, d_mem s)
      else Option.bind (dec_step c pc s) (\<lambda>r. dec_run c (fst r) (snd r)))"

declare dec_run.simps [code]

definition LZ4_decompress_generic :: "mem \<Rightarrow> dec_cfg \<Rightarrow> (int \<times> mem) option" where
  "LZ4_decompress_generic m c =
     (if c_src c = NULL \<or> c_outputSize c < 0 then Some (-1, m)
      else if c_outputSize c = 0 then
        if c_partial c then Some (0, m)
        else if c_srcSize c = 1 then
          do { b \<leftarrow> m (c_src c); Some (if b = 0 then 0 else -1, m) }
        else Some (-1, m)
      else if c_srcSize c = 0 then Some (-1, m)
      else
        dec_run c (if c_outputSize c < FASTLOOP_SAFE_DISTANCE then SafeDecode else FastLoop)
          \<lparr>d_mem = m, d_ip = c_src c, d_op = c_dst c, d_token = 0, d_length = 0,
           d_offset = 0, d_match = 0\<rparr>)"

section \<open>The entry points\<close>

definition LZ4_decompress_safe :: "mem \<Rightarrow> ptr \<Rightarrow> ptr \<Rightarrow> int \<Rightarrow> int \<Rightarrow> (int \<times> mem) option" where
  "LZ4_decompress_safe m source dest compressedSize maxDecompressedSize =
     LZ4_decompress_generic m
       \<lparr>c_src = source, c_dst = dest, c_srcSize = compressedSize,
        c_outputSize = maxDecompressedSize, c_partialDecoding = decode_full_block,
        c_dict = noDict, c_lowPrefix = dest, c_dictStart = NULL, c_dictSize = 0\<rparr>"

definition LZ4_decompress_safe_partial ::
  "mem \<Rightarrow> ptr \<Rightarrow> ptr \<Rightarrow> int \<Rightarrow> int \<Rightarrow> int \<Rightarrow> (int \<times> mem) option" where
  "LZ4_decompress_safe_partial m src dst compressedSize targetOutputSize dstCapacity =
     LZ4_decompress_generic m
       \<lparr>c_src = src, c_dst = dst, c_srcSize = compressedSize,
        c_outputSize = min targetOutputSize dstCapacity, c_partialDecoding = partial_decode,
        c_dict = noDict, c_lowPrefix = dst, c_dictStart = NULL, c_dictSize = 0\<rparr>"

definition LZ4_decompress_safe_withPrefix64k ::
  "mem \<Rightarrow> ptr \<Rightarrow> ptr \<Rightarrow> int \<Rightarrow> int \<Rightarrow> (int \<times> mem) option" where
  "LZ4_decompress_safe_withPrefix64k m source dest compressedSize maxOutputSize =
     LZ4_decompress_generic m
       \<lparr>c_src = source, c_dst = dest, c_srcSize = compressedSize,
        c_outputSize = maxOutputSize, c_partialDecoding = decode_full_block,
        c_dict = withPrefix64k, c_lowPrefix = dest - 64 * KB, c_dictStart = NULL, c_dictSize = 0\<rparr>"

definition LZ4_decompress_safe_partial_withPrefix64k ::
  "mem \<Rightarrow> ptr \<Rightarrow> ptr \<Rightarrow> int \<Rightarrow> int \<Rightarrow> int \<Rightarrow> (int \<times> mem) option" where
  "LZ4_decompress_safe_partial_withPrefix64k m source dest compressedSize targetOutputSize dstCapacity =
     LZ4_decompress_generic m
       \<lparr>c_src = source, c_dst = dest, c_srcSize = compressedSize,
        c_outputSize = min targetOutputSize dstCapacity, c_partialDecoding = partial_decode,
        c_dict = withPrefix64k, c_lowPrefix = dest - 64 * KB, c_dictStart = NULL, c_dictSize = 0\<rparr>"

definition LZ4_decompress_safe_withSmallPrefix ::
  "mem \<Rightarrow> ptr \<Rightarrow> ptr \<Rightarrow> int \<Rightarrow> int \<Rightarrow> int \<Rightarrow> (int \<times> mem) option" where
  "LZ4_decompress_safe_withSmallPrefix m source dest compressedSize maxOutputSize prefixSize =
     LZ4_decompress_generic m
       \<lparr>c_src = source, c_dst = dest, c_srcSize = compressedSize,
        c_outputSize = maxOutputSize, c_partialDecoding = decode_full_block,
        c_dict = noDict, c_lowPrefix = dest - prefixSize, c_dictStart = NULL, c_dictSize = 0\<rparr>"

definition LZ4_decompress_safe_partial_withSmallPrefix ::
  "mem \<Rightarrow> ptr \<Rightarrow> ptr \<Rightarrow> int \<Rightarrow> int \<Rightarrow> int \<Rightarrow> int \<Rightarrow> (int \<times> mem) option" where
  "LZ4_decompress_safe_partial_withSmallPrefix m source dest compressedSize targetOutputSize
       dstCapacity prefixSize =
     LZ4_decompress_generic m
       \<lparr>c_src = source, c_dst = dest, c_srcSize = compressedSize,
        c_outputSize = min targetOutputSize dstCapacity, c_partialDecoding = partial_decode,
        c_dict = noDict, c_lowPrefix = dest - prefixSize, c_dictStart = NULL, c_dictSize = 0\<rparr>"

definition LZ4_decompress_safe_forceExtDict ::
  "mem \<Rightarrow> ptr \<Rightarrow> ptr \<Rightarrow> int \<Rightarrow> int \<Rightarrow> ptr \<Rightarrow> int \<Rightarrow> (int \<times> mem) option" where
  "LZ4_decompress_safe_forceExtDict m source dest compressedSize maxOutputSize dictStart dictSize =
     LZ4_decompress_generic m
       \<lparr>c_src = source, c_dst = dest, c_srcSize = compressedSize,
        c_outputSize = maxOutputSize, c_partialDecoding = decode_full_block,
        c_dict = usingExtDict, c_lowPrefix = dest, c_dictStart = dictStart, c_dictSize = dictSize\<rparr>"

definition LZ4_decompress_safe_partial_forceExtDict ::
  "mem \<Rightarrow> ptr \<Rightarrow> ptr \<Rightarrow> int \<Rightarrow> int \<Rightarrow> int \<Rightarrow> ptr \<Rightarrow> int \<Rightarrow> (int \<times> mem) option" where
  "LZ4_decompress_safe_partial_forceExtDict m source dest compressedSize targetOutputSize
       dstCapacity dictStart dictSize =
     LZ4_decompress_generic m
       \<lparr>c_src = source, c_dst = dest, c_srcSize = compressedSize,
        c_outputSize = min targetOutputSize dstCapacity, c_partialDecoding = partial_decode,
        c_dict = usingExtDict, c_lowPrefix = dest, c_dictStart = dictStart, c_dictSize = dictSize\<rparr>"

definition LZ4_decompress_safe_doubleDict ::
  "mem \<Rightarrow> ptr \<Rightarrow> ptr \<Rightarrow> int \<Rightarrow> int \<Rightarrow> int \<Rightarrow> ptr \<Rightarrow> int \<Rightarrow> (int \<times> mem) option" where
  "LZ4_decompress_safe_doubleDict m source dest compressedSize maxOutputSize prefixSize
       dictStart dictSize =
     LZ4_decompress_generic m
       \<lparr>c_src = source, c_dst = dest, c_srcSize = compressedSize,
        c_outputSize = maxOutputSize, c_partialDecoding = decode_full_block,
        c_dict = usingExtDict, c_lowPrefix = dest - prefixSize, c_dictStart = dictStart,
        c_dictSize = dictSize\<rparr>"

definition LZ4_decompress_safe_usingDict ::
  "mem \<Rightarrow> ptr \<Rightarrow> ptr \<Rightarrow> int \<Rightarrow> int \<Rightarrow> ptr \<Rightarrow> int \<Rightarrow> (int \<times> mem) option" where
  "LZ4_decompress_safe_usingDict m source dest compressedSize maxOutputSize dictStart dictSize =
     (if dictSize = 0 then LZ4_decompress_safe m source dest compressedSize maxOutputSize
      else if dictStart + dictSize = dest then
        if dictSize \<ge> 64 * KB - 1
        then LZ4_decompress_safe_withPrefix64k m source dest compressedSize maxOutputSize
        else LZ4_decompress_safe_withSmallPrefix m source dest compressedSize maxOutputSize dictSize
      else LZ4_decompress_safe_forceExtDict m source dest compressedSize maxOutputSize dictStart dictSize)"

definition LZ4_decompress_safe_partial_usingDict ::
  "mem \<Rightarrow> ptr \<Rightarrow> ptr \<Rightarrow> int \<Rightarrow> int \<Rightarrow> int \<Rightarrow> ptr \<Rightarrow> int \<Rightarrow> (int \<times> mem) option" where
  "LZ4_decompress_safe_partial_usingDict m source dest compressedSize targetOutputSize
       dstCapacity dictStart dictSize =
     (if dictSize = 0
      then LZ4_decompress_safe_partial m source dest compressedSize targetOutputSize dstCapacity
      else if dictStart + dictSize = dest then
        if dictSize \<ge> 64 * KB - 1
        then LZ4_decompress_safe_partial_withPrefix64k m source dest compressedSize
               targetOutputSize dstCapacity
        else LZ4_decompress_safe_partial_withSmallPrefix m source dest compressedSize
               targetOutputSize dstCapacity dictSize
      else LZ4_decompress_safe_partial_forceExtDict m source dest compressedSize
             targetOutputSize dstCapacity dictStart dictSize)"

definition LZ4_uncompress_unknownOutputSize ::
  "mem \<Rightarrow> ptr \<Rightarrow> ptr \<Rightarrow> int \<Rightarrow> int \<Rightarrow> (int \<times> mem) option" where
  "LZ4_uncompress_unknownOutputSize m source dest isize maxOutputSize =
     LZ4_decompress_safe m source dest isize maxOutputSize"

end
