(* ===== verification/Lz4_Match.thy ===== *)
theory Lz4_Match
  imports Lz4_History Lz4_Decode
begin

text \<open>
  The match copies of the decoder's two loops, each with the law of a match copy: the copy of
  18 bytes (\<open>copy18\<close>), the first eight bytes of the safe loop (\<open>copy_first8\<close>, with the
  tables for close matches) and the three ways the safe loop goes on from there.
\<close>

section \<open>Eighteen bytes\<close>

lemma copied_trans_over:
  assumes c1: "copied m m1 d s e hi" and c2: "copied m1 m2 e (s + (e - d)) e2 hi"
    and "d \<le> e" and "e \<le> hi" and "s \<le> d"
  shows "copied m m2 d s e2 hi"
  unfolding copied_def
proof (intro conjI allI impI)
  show "dom m2 = dom m"
    using c1 c2 by (simp add: copied_def)
next
  fix x
  assume x: "d \<le> x \<and> x < e2"
  show "m2 x = m2 (s + (x - d))"
  proof (cases "x < e")
    case True
    then have "m2 x = m1 x" "m2 (s + (x - d)) = m1 (s + (x - d))"
      using copied_frame [OF c2] x assms(5) by auto
    then show ?thesis
      using copied_at [OF c1] x True by simp
  next
    case False
    then have "m2 x = m2 (s + (e - d) + (x - e))"
      using copied_at [OF c2] x by simp
    then show ?thesis
      by (simp add: algebra_simps)
  qed
next
  fix x
  assume "x < d \<or> hi \<le> x"
  then show "m2 x = m x"
    using copied_frame [OF c1, of x] copied_frame [OF c2, of x] assms(3) by auto
qed

lemma copy18_law:
  assumes "8 \<le> off" and reg: "region m (d - off) (d + 18)"
  shows "\<exists>m'. copy18 m d (d - off) = Some m' \<and> match_copied m m' d off (d + 18) (d + 18)"
proof -
  have "\<exists>m'. LZ4_memcpy m d (d - off) 8 = Some m' \<and> copied m m' d (d - off) (d + int 8) (d + int 8)"
    by (rule LZ4_memcpy_copied) (use assms in \<open>auto intro!: region_sub [OF reg]\<close>)
  then obtain m1 where m1: "LZ4_memcpy m d (d - off) 8 = Some m1"
    and c1: "copied m m1 d (d - off) (d + 8) (d + 8)"
    by auto
  have r1: "region m1 lo h = region m lo h" for lo h
    by (rule region_dom [OF copied_dom [OF c1]])
  have "\<exists>m'. LZ4_memcpy m1 (d + 8) (d - off + 8) 8 = Some m' \<and>
      copied m1 m' (d + 8) (d - off + 8) (d + 8 + int 8) (d + 8 + int 8)"
    by (rule LZ4_memcpy_copied) (use assms in \<open>auto simp: r1 intro!: region_sub [OF reg]\<close>)
  then obtain m2 where m2: "LZ4_memcpy m1 (d + 8) (d - off + 8) 8 = Some m2"
    and c2: "copied m1 m2 (d + 8) (d - off + 8) (d + 16) (d + 16)"
    by (auto simp: add.commute)
  have r2: "region m2 lo h = region m lo h" for lo h
    by (simp add: region_dom [OF copied_dom [OF c2]] r1)
  have "\<exists>m'. LZ4_memcpy m2 (d + 16) (d - off + 16) 2 = Some m' \<and>
      copied m2 m' (d + 16) (d - off + 16) (d + 16 + int 2) (d + 16 + int 2)"
    by (rule LZ4_memcpy_copied) (use assms in \<open>auto simp: r2 intro!: region_sub [OF reg]\<close>)
  then obtain m3 where m3: "LZ4_memcpy m2 (d + 16) (d - off + 16) 2 = Some m3"
    and c3: "copied m2 m3 (d + 16) (d - off + 16) (d + 18) (d + 18)"
    by (auto simp: add.commute)
  have "copied m m2 d (d - off) (d + 16) (d + 16)"
    by (rule copied_trans [OF c1]) (use c2 assms(1) in \<open>auto simp: algebra_simps\<close>)
  then have "copied m m3 d (d - off) (d + 18) (d + 18)"
    by (rule copied_trans) (use c3 assms(1) in \<open>auto simp: algebra_simps\<close>)
  then have "match_copied m m3 d off (d + 18) (d + 18)"
    by (rule copied_match) (use assms in simp)
  then show ?thesis
    using m1 m2 m3 by (simp add: copy18_def)
qed

section \<open>The first eight bytes\<close>

text \<open>Where the rest of the match can be copied from, once the first eight bytes are there.\<close>

definition rest_start :: "ptr \<Rightarrow> int \<Rightarrow> ptr \<Rightarrow> bool" where
  "rest_start d off s \<longleftrightarrow>
     (off = 0 \<and> s = d) \<or>
     (0 < off \<and> (\<exists>k. 0 < k \<and> s = d + 8 - int k * off \<and> 8 \<le> int k * off \<and> int k * off - off \<le> 8))"

lemma rest_start_bounds:
  "rest_start d off s \<Longrightarrow> s \<le> d \<and> d - off \<le> s"
  by (auto simp: rest_start_def)

lemma rest_start_match:
  assumes "rest_start d off s" and "match_copied m m1 d off (d + 8) (d + 8)"
    and "copied m1 m2 (d + 8) s e hi" and "d + 8 \<le> hi"
  shows "match_copied m m2 d off e hi"
proof (cases "off = 0")
  case True
  with assms(1) have "s = d" by (simp add: rest_start_def)
  have "match_copied m m2 d 0 e hi"
    by (rule match_copied_widen_0 [where c = "d + 8" and D = 8])
      (use True \<open>s = d\<close> assms in auto)
  with True show ?thesis by simp
next
  case False
  with assms(1) obtain k where k: "0 < off" "0 < k" "s = d + 8 - int k * off" "int k * off - off \<le> 8"
    by (auto simp: rest_start_def)
  have "copied m1 m2 (d + 8) (d + 8 - int k * off) e hi"
    using assms(3) by (simp only: k(3))
  from match_copied_widen [OF assms(2) this k(1,2)] show ?thesis
    using k(4) assms(4) by simp
qed

lemma copy_first8_law:
  assumes "0 \<le> off" and reg: "region m (d - off) (d + 8)"
  shows "\<exists>m1 s. copy_first8 m d (d - off) off = Some (m1, s) \<and>
           match_copied m m1 d off (d + 8) (d + 8) \<and> rest_start d off s"
proof -
  consider "off = 0" | "0 < off" "off < 8" | "8 \<le> off"
    using assms(1) by linarith
  then show ?thesis
  proof cases
    case 1
    with reg obtain m1 m2 where m: "LZ4_write32 m d 0 = Some m1" "LZ4_memcpy m1 (d + 4) d 4 = Some m2"
        "dom m1 = dom m" "match_copied m m2 d 0 (d + 8) (d + 8)"
      using zero_match_start [of m d] by auto
    have r1: "region m1 lo h = region m lo h" for lo h
      by (rule region_dom [OF m(3)])
    have "copy_loop m1 d d (d + 4) = Some m1"
    proof -
      have "copy_loop m1 a a e = Some m1" if "d \<le> a" "e \<le> d + 8" for a e
        using that
      proof (induction "nat (e - a)" arbitrary: a)
        case 0
        then show ?case by (subst copy_loop.simps) simp
      next
        case (Suc n)
        have "LZ4_memcpy m1 a a 1 = Some m1"
          by (rule LZ4_memcpy_same) (use Suc 1 in \<open>auto simp: r1 intro!: region_sub [OF reg]\<close>)
        then have "(do { b \<leftarrow> load_bytes m1 a 1; store_bytes m1 a b }) = Some m1"
          by (simp add: LZ4_memcpy_def)
        then obtain b where "load_bytes m1 a 1 = Some b" "store_bytes m1 a b = Some m1"
          by (auto simp: bind_eq_Some_conv)
        moreover have "copy_loop m1 (a + 1) (a + 1) e = Some m1"
          by (rule Suc.hyps(1)) (use Suc in auto)
        ultimately show ?case
          by (subst copy_loop.simps) simp
      qed
      then show ?thesis by simp
    qed
    with m 1 show ?thesis
      by (auto simp: copy_first8_def rest_start_def inc32table_def dec64table_def)
  next
    case 2
    obtain m1 where m1: "LZ4_write32 m d 0 = Some m1" and dom1: "dom m1 = dom m"
      and f: "\<forall>x. x < d \<or> d + 4 \<le> x \<longrightarrow> m1 x = m x"
      using write32_zero_frame [of m d] region_sub [OF reg, of d "d + 4"] 2 by auto
    have r1: "region m1 lo h = region m lo h" for lo h
      by (rule region_dom [OF dom1])
    have "\<exists>m'. copy_loop m1 d (d - off) (d + 4) = Some m' \<and> copied m1 m' d (d - off) (d + 4) (d + 4)"
      by (rule copy_loop_copied) (use 2 in \<open>auto simp: r1 intro!: region_sub [OF reg]\<close>)
    then obtain m2 where m2: "copy_loop m1 d (d - off) (d + 4) = Some m2"
      and c2: "copied m1 m2 d (d - off) (d + 4) (d + 4)"
      by blast
    have "match_copied m1 m2 d off (d + 4) (d + 4)"
      by (rule copied_match [OF c2]) (use 2 in simp)
    then have first: "match_copied m m2 d off (d + 4) (d + 4)"
      by (rule match_copied_after [rotated 2]) (use dom1 f in auto)
    obtain m3 where m3: "LZ4_memcpy m2 (d + 4) (d - off + inc32table ! nat off) 4 = Some m3"
      and c3: "match_copied m m3 d off (d + 8) (d + 8)"
      using close_match_start [OF first 2 reg] by blast
    have "rest_start d off (d - off + inc32table ! nat off - dec64table ! nat off)"
      using close_offset_tables(2) [OF 2] 2 by (auto simp: rest_start_def algebra_simps)
    with m1 m2 m3 c3 2 show ?thesis
      by (simp add: copy_first8_def)
  next
    case 3
    have "\<exists>m'. LZ4_memcpy m d (d - off) 8 = Some m' \<and> copied m m' d (d - off) (d + int 8) (d + int 8)"
      by (rule LZ4_memcpy_copied) (use 3 in \<open>auto intro!: region_sub [OF reg]\<close>)
    then obtain m1 where "LZ4_memcpy m d (d - off) 8 = Some m1"
      and "copied m m1 d (d - off) (d + 8) (d + 8)"
      by auto
    moreover have "rest_start d off (d - off + 8)"
      unfolding rest_start_def using 3 by (intro disjI2 conjI exI [of _ 1]) auto
    ultimately show ?thesis
      using 3 copied_match [of m m1 d off "d + 8" "d + 8"] by (simp add: copy_first8_def)
  qed
qed

section \<open>The rest of the match in the safe loop\<close>

text \<open>Near the end of the output: with \<open>LZ4_wildCopy8\<close> as far as it cannot overrun, then
  byte by byte.\<close>

lemma rest_near_end_law:
  assumes start: "rest_start d off s" and first: "match_copied m m1 d off (d + 8) (d + 8)"
    and reg: "region m (d - off) hi" and "d + 12 \<le> hi" and "hi - 12 < e" and "e + 5 \<le> hi"
  shows "\<exists>m'. (if d + 8 < hi - 7
               then do { m2 \<leftarrow> LZ4_wildCopy8 m1 (d + 8) s (hi - 7);
                         copy_loop m2 (hi - 7) (s + (hi - 7 - (d + 8))) e }
               else copy_loop m1 (d + 8) s e) = Some m' \<and> match_copied m m' d off e hi"
proof -
  have sd: "s \<le> d" "d - off \<le> s"
    using rest_start_bounds [OF start] by auto
  have r1: "region m1 lo h = region m lo h" for lo h
    by (rule region_dom [OF match_copied_dom [OF first]])
  have loop: "\<exists>m'. copy_loop m2 a (s + (a - (d + 8))) e = Some m' \<and> copied m1 m' (d + 8) s e hi"
    if c2: "copied m1 m2 (d + 8) s a hi" and a: "d + 8 \<le> a" "a \<le> hi" for m2 a
  proof (cases "a \<le> e")
    case True
    have r2: "region m2 lo h = region m lo h" for lo h
      by (simp add: region_dom [OF copied_dom [OF c2]] r1)
    have "\<exists>m'. copy_loop m2 a (s + (a - (d + 8))) e = Some m' \<and>
        copied m2 m' a (s + (a - (d + 8))) e e"
      by (rule copy_loop_copied)
        (use sd a assms(6) True in \<open>auto simp: r2 intro!: region_sub [OF reg]\<close>)
    then obtain m' where m': "copy_loop m2 a (s + (a - (d + 8))) e = Some m'"
      and c3: "copied m2 m' a (s + (a - (d + 8))) e e"
      by blast
    have "copied m2 m' a (s + (a - (d + 8))) e hi"
      by (rule copied_weaken [OF c3]) (use assms(6) in auto)
    then have "copied m1 m' (d + 8) s e hi"
      by (rule copied_trans_over [OF c2]) (use a sd in auto)
    with m' show ?thesis by blast
  next
    case False
    then have "copied m1 m2 (d + 8) s e hi"
      using copied_weaken [OF c2, of e hi] by simp
    with False show ?thesis
      by (subst copy_loop.simps) simp
  qed
  have "\<exists>m'. (if d + 8 < hi - 7
               then do { m2 \<leftarrow> LZ4_wildCopy8 m1 (d + 8) s (hi - 7);
                         copy_loop m2 (hi - 7) (s + (hi - 7 - (d + 8))) e }
               else copy_loop m1 (d + 8) s e) = Some m' \<and> copied m1 m' (d + 8) s e hi"
  proof (cases "d + 8 < hi - 7")
    case True
    have "\<exists>m'. LZ4_wildCopy8 m1 (d + 8) s (hi - 7) = Some m' \<and> copied m1 m' (d + 8) s (hi - 7) hi"
      by (rule LZ4_wildCopy8_copied)
        (use sd True in \<open>auto simp: r1 intro!: region_sub [OF reg]\<close>)
    then obtain m2 where "LZ4_wildCopy8 m1 (d + 8) s (hi - 7) = Some m2"
      and c2: "copied m1 m2 (d + 8) s (hi - 7) hi"
      by blast
    with loop [OF c2] True show ?thesis
      by simp
  next
    case False
    have "copied m1 m1 (d + 8) s (d + 8) hi"
      by (auto simp: copied_def)
    from loop [OF this] False assms(4) show ?thesis
      by simp
  qed
  then show ?thesis
    using rest_start_match [OF start first] assms(4) by fastforce
qed

text \<open>Farther from the end, eight bytes and then \<open>LZ4_wildCopy8\<close> if the match is longer.\<close>

lemma rest_far_law:
  assumes start: "rest_start d off s" and first: "match_copied m m1 d off (d + 8) (d + 8)"
    and reg: "region m (d - off) hi" and "d + 4 \<le> e" and "e + 12 \<le> hi"
  shows "\<exists>m'. (do { m2 \<leftarrow> LZ4_memcpy m1 (d + 8) s 8;
                   if e - d > 16 then LZ4_wildCopy8 m2 (d + 8 + 8) (s + 8) e else Some m2 }) = Some m' \<and>
           match_copied m m' d off e hi"
proof -
  have sd: "s \<le> d" "d - off \<le> s"
    using rest_start_bounds [OF start] by auto
  have r1: "region m1 lo h = region m lo h" for lo h
    by (rule region_dom [OF match_copied_dom [OF first]])
  have "\<exists>m'. LZ4_memcpy m1 (d + 8) s 8 = Some m' \<and> copied m1 m' (d + 8) s (d + 8 + int 8) (d + 8 + int 8)"
    by (rule LZ4_memcpy_copied) (use sd assms(4,5) in \<open>auto simp: r1 intro!: region_sub [OF reg]\<close>)
  then obtain m2 where m2: "LZ4_memcpy m1 (d + 8) s 8 = Some m2"
    and c2: "copied m1 m2 (d + 8) s (d + 16) (d + 16)"
    by (auto simp: add.commute)
  have r2: "region m2 lo h = region m lo h" for lo h
    by (simp add: region_dom [OF copied_dom [OF c2]] r1)
  have "\<exists>m'. (if e - d > 16 then LZ4_wildCopy8 m2 (d + 8 + 8) (s + 8) e else Some m2) = Some m' \<and>
      copied m1 m' (d + 8) s e hi"
  proof (cases "e - d > 16")
    case True
    have "\<exists>m'. LZ4_wildCopy8 m2 (d + 16) (s + 8) e = Some m' \<and> copied m2 m' (d + 16) (s + 8) e hi"
      by (rule LZ4_wildCopy8_copied)
        (use sd assms(4,5) True in \<open>auto simp: r2 intro!: region_sub [OF reg]\<close>)
    then obtain m3 where m3: "LZ4_wildCopy8 m2 (d + 16) (s + 8) e = Some m3"
      and c3: "copied m2 m3 (d + 16) (s + 8) e hi"
      by blast
    have "copied m1 m3 (d + 8) s e hi"
      by (rule copied_trans [OF c2]) (use c3 sd assms(4,5) in auto)
    with m3 True show ?thesis
      by (auto simp: add.commute)
  next
    case False
    then show ?thesis
      using copied_weaken [OF c2, of e hi] assms(4,5) by auto
  qed
  with m2 show ?thesis
    using rest_start_match [OF start first] assms(4,5) by fastforce
qed

section \<open>The whole copy of the safe loop\<close>

lemma dec_safe_match_copy_law:
  assumes full: "\<not> c_partial c"
    and checked: "\<not> (c_checkOffset c \<and> d_match s + c_dictSize c < c_lowPrefix c)"
    and near: "\<not> (c_dict c = usingExtDict \<and> d_match s < c_lowPrefix c)"
    and reg: "region (d_mem s) (d_match s) (c_oend c)" and room: "d_op s + 12 \<le> c_oend c"
    and "d_match s = d_op s - d_offset s" and "0 \<le> d_offset s" and "4 \<le> d_length s"
  shows "c_oend c < d_op s + d_length s + 5 \<Longrightarrow>
      \<exists>m. dec_safe_match_copy c s = Some (OutputError, s\<lparr>d_mem := m\<rparr>) \<and>
          match_copied (d_mem s) m (d_op s) (d_offset s) (d_op s + 8) (d_op s + 8)"
    and "d_op s + d_length s + 5 \<le> c_oend c \<Longrightarrow>
      \<exists>m. dec_safe_match_copy c s = Some (SafeDecode, s\<lparr>d_mem := m, d_op := d_op s + d_length s\<rparr>) \<and>
          match_copied (d_mem s) m (d_op s) (d_offset s) (d_op s + d_length s) (c_oend c)"
proof -
  define d e where "d = d_op s" and "e = d + d_length s"
  have reg': "region (d_mem s) (d - d_offset s) (c_oend c)"
    using reg assms(6) by (simp add: d_def)
  have "region (d_mem s) (d - d_offset s) (d + 8)"
    by (rule region_sub [OF reg']) (use room in \<open>simp_all add: d_def\<close>)
  from copy_first8_law [OF assms(7) this] obtain m1 p where
    first: "copy_first8 (d_mem s) d (d_match s) (d_offset s) = Some (m1, p)"
    and mc: "match_copied (d_mem s) m1 d (d_offset s) (d + 8) (d + 8)"
    and start: "rest_start d (d_offset s) p"
    using assms(6) by (auto simp: d_def)
  have step: "dec_safe_match_copy c s =
      (if e > c_oend c - 12 then
         if e > c_oend c - 5 then Some (OutputError, s\<lparr>d_mem := m1\<rparr>)
         else do { m \<leftarrow> (if d + 8 < c_oend c - 7
                      then do { m2 \<leftarrow> LZ4_wildCopy8 m1 (d + 8) p (c_oend c - 7);
                                copy_loop m2 (c_oend c - 7) (p + (c_oend c - 7 - (d + 8))) e }
                      else copy_loop m1 (d + 8) p e);
                   Some (SafeDecode, s\<lparr>d_mem := m, d_op := e\<rparr>) }
       else do { m \<leftarrow> (do { m2 \<leftarrow> LZ4_memcpy m1 (d + 8) p 8;
                           if e - d > 16 then LZ4_wildCopy8 m2 (d + 8 + 8) (p + 8) e else Some m2 });
                 Some (SafeDecode, s\<lparr>d_mem := m, d_op := e\<rparr>) })"
    using full first
    unfolding dec_safe_match_copy_def Let_def if_not_P [OF checked] if_not_P [OF near] e_def
    by (simp add: d_def [symmetric] cong: if_cong)
  show "\<exists>m. dec_safe_match_copy c s = Some (OutputError, s\<lparr>d_mem := m\<rparr>) \<and>
          match_copied (d_mem s) m (d_op s) (d_offset s) (d_op s + 8) (d_op s + 8)"
    if "c_oend c < d_op s + d_length s + 5"
    using step that mc by (intro exI [of _ m1]) (simp add: e_def d_def)
  show "\<exists>m. dec_safe_match_copy c s = Some (SafeDecode, s\<lparr>d_mem := m, d_op := d_op s + d_length s\<rparr>) \<and>
          match_copied (d_mem s) m (d_op s) (d_offset s) (d_op s + d_length s) (c_oend c)"
    if "d_op s + d_length s + 5 \<le> c_oend c"
  proof (cases "e > c_oend c - 12")
    case True
    have bounds: "d + 12 \<le> c_oend c" "c_oend c - 12 < e" "e + 5 \<le> c_oend c"
      using True that room by (simp_all add: e_def d_def)
    obtain m where m: "(if d + 8 < c_oend c - 7
        then do { m2 \<leftarrow> LZ4_wildCopy8 m1 (d + 8) p (c_oend c - 7);
                  copy_loop m2 (c_oend c - 7) (p + (c_oend c - 7 - (d + 8))) e }
        else copy_loop m1 (d + 8) p e) = Some m"
      and law: "match_copied (d_mem s) m d (d_offset s) e (c_oend c)"
      using rest_near_end_law [OF start mc reg' bounds] by blast
    have "\<not> e > c_oend c - 5"
      using that by (simp add: e_def d_def)
    with True have "dec_safe_match_copy c s = Some (SafeDecode, s\<lparr>d_mem := m, d_op := e\<rparr>)"
      by (simp only: step m if_True if_False Option.bind.bind_lunit)
    with law show ?thesis
      by (intro exI [of _ m]) (simp add: e_def d_def)
  next
    case False
    have bounds: "d + 4 \<le> e" "e + 12 \<le> c_oend c"
      using False assms(8) by (simp_all add: e_def)
    obtain m where m: "(do { m2 \<leftarrow> LZ4_memcpy m1 (d + 8) p 8;
        if e - d > 16 then LZ4_wildCopy8 m2 (d + 8 + 8) (p + 8) e else Some m2 }) = Some m"
      and law: "match_copied (d_mem s) m d (d_offset s) e (c_oend c)"
      using rest_far_law [OF start mc reg' bounds] by blast
    from False have "dec_safe_match_copy c s = Some (SafeDecode, s\<lparr>d_mem := m, d_op := e\<rparr>)"
      by (simp only: step m if_False Option.bind.bind_lunit)
    with law show ?thesis
      by (intro exI [of _ m]) (simp add: e_def d_def)
  qed
qed

section \<open>Matches in the external dictionary\<close>

text \<open>The end of a match that began in the dictionary: the bytes come from the start of the prefix,
  in a block if the match does not reach its own output.\<close>

lemma ext_rest_law:
  assumes reg: "region m low (op + int n)" and "low \<le> op" and pos: "low < op \<or> n = 0"
  shows "\<exists>m'. (if int n > op - low then copy_loop m op low (op + int n)
               else LZ4_memcpy m op low n) = Some m' \<and>
           match_copied m m' op (op - low) (op + int n) (op + int n)"
proof (cases "n = 0")
  case True
  have "LZ4_memcpy m op low 0 = Some (put m op (bytes m low 0))"
    by (rule LZ4_memcpy_Some) (auto simp: region_def)
  with True assms(2) show ?thesis
    by (auto simp: match_copied_def)
next
  case False
  have "\<exists>m'. (if int n > op - low then copy_loop m op low (op + int n) else LZ4_memcpy m op low n) = Some m' \<and>
      copied m m' op low (op + int n) (op + int n)"
  proof (cases "int n > op - low")
    case True
    have "\<exists>m'. copy_loop m op low (op + int n) = Some m' \<and> copied m m' op low (op + int n) (op + int n)"
      by (rule copy_loop_copied) (use assms in \<open>auto intro: region_sub [OF reg]\<close>)
    with True show ?thesis
      by simp
  next
    case far: False
    have "\<exists>m'. LZ4_memcpy m op low n = Some m' \<and> copied m m' op low (op + int n) (op + int n)"
      by (rule LZ4_memcpy_copied) (use far assms in \<open>auto intro: region_sub [OF reg]\<close>)
    with far show ?thesis
      by simp
  qed
  moreover have "copied m m' op low (op + int n) (op + int n) \<Longrightarrow>
      match_copied m m' op (op - low) (op + int n) (op + int n)" for m'
    by (rule copied_match) (use pos False in auto)
  ultimately show ?thesis
    by blast
qed

lemma dec_ext_dict_match_law:
  fixes ds :: ptr and dn :: nat
  assumes full: "\<not> c_partial c" and dict: "c_dictStart c \<noteq> NULL"
    and fields: "d_length s = int n" "d_match s = d_op s - int off"
    and low: "c_lowPrefix c \<le> d_op s" "d_match s < c_lowPrefix c"
    and off: "int off \<le> d_op s - c_lowPrefix c + int dn"
    and room: "d_op s + int n + 5 \<le> c_oend c"
    and reg: "region (d_mem s) (c_lowPrefix c) (c_oend c)"
    and dreg: "region (d_mem s) ds (ds + int dn)"
    and apart: "ds + int dn \<le> d_op s \<or> c_oend c \<le> ds"
    and ds: "ds + int dn = c_dictStart c + c_dictSize c"
  defines "lo \<equiv> c_lowPrefix c"
  shows "\<exists>m'. dec_ext_dict_match c pc s = Some (pc, s\<lparr>d_mem := m', d_op := d_op s + int n\<rparr>) \<and>
           dom m' = dom (d_mem s) \<and> (\<forall>x. x < d_op s \<or> c_oend c \<le> x \<longrightarrow> m' x = d_mem s x) \<and>
           history m' ds dn lo (d_op s + int n) = lz_copy (history (d_mem s) ds dn lo (d_op s)) off n"
proof -
  define m op where "m = d_mem s" and "op = d_op s"
  define k where "k = nat (int off - (op - lo))"
  have k: "int k = int off - (op - lo)" "0 < k"
    using low(2) fields(2) by (auto simp: k_def lo_def op_def)
  define src where "src = ds + int dn - int k"
  have ext: "c_dictEnd c - (c_lowPrefix c - d_match s) = src" "c_lowPrefix c - d_match s = int k"
    using k ds dict fields(2) by (simp_all add: c_dictEnd_def src_def lo_def op_def)
  have src: "ds \<le> src" "src + int k = ds + int dn"
    using off k by (simp_all add: src_def lo_def op_def)
  define j where "j = min k n"
  have j: "j \<le> k" "j \<le> n"
    by (simp_all add: j_def)
  have dreg': "region m src (src + int j)"
    unfolding m_def by (rule region_sub [OF dreg]) (use src j in simp_all)
  have oreg: "region m op (op + int i)" if "i \<le> n" for i
    unfolding m_def by (rule region_sub [OF reg]) (use that low(1) room in \<open>simp_all add: op_def\<close>)
  define m1 where "m1 = put m op (bytes m src j)"
  have m1: "LZ4_memmove m op src j = Some m1" "dom m1 = dom m" "\<forall>x. x < op \<or> op + int j \<le> x \<longrightarrow> m1 x = m x"
    using LZ4_memmove_Some [OF dreg' oreg [OF j(2)]] dom_put [of m op "bytes m src j"] oreg [OF j(2)]
    by (auto simp: m1_def)
  have b1: "behind m m1 ds dn op"
    by (rule behindI [where hi = "c_oend c"])
      (use m1(3) apart room j(2) in \<open>auto simp: op_def\<close>)
  have "bytes m1 op j = bytes m src j"
    using bytes_put_same [of m op "bytes m src j"] by (simp add: m1_def)
  then have h1: "history m1 ds dn lo (op + int j) = lz_copy (history m ds dn lo op) off j"
    by (intro history_dict) (use b1 low(1) k j off in \<open>simp_all add: src_def lo_def op_def\<close>)
  show ?thesis
  proof (cases "n \<le> k")
    case True
    then have "j = n"
      by (simp add: j_def)
    then have "dec_ext_dict_match c pc s = Some (pc, s\<lparr>d_mem := m1, d_op := d_op s + int n\<rparr>)"
      using True full room m1(1) ext by (simp add: dec_ext_dict_match_def Let_def fields(1) m_def op_def)
    with m1(2,3) h1 room \<open>j = n\<close> show ?thesis
      by (auto simp: m_def op_def)
  next
    case False
    then have jk: "j = k"
      by (simp add: j_def)
    have cpy: "LZ4_memcpy m op src k = Some m1"
    proof -
      have "int k \<le> \<bar>op - src\<bar>"
        using apart src room False by (auto simp: op_def)
      from LZ4_memcpy_Some [OF dreg' [unfolded jk] oreg [of k] disjI2 [OF this]] False show ?thesis
        by (simp add: m1_def jk)
    qed
    define op1 where "op1 = op + int k"
    have op1: "lo \<le> op1" "lo < op1" "op1 - lo = int off" "op1 + int (n - k) = op + int n"
      using low(1) k False by (auto simp: op1_def lo_def op_def)
    have reg1: "region m1 lo (op1 + int (n - k))"
      unfolding region_dom [OF m1(2)] m_def lo_def
      by (rule region_sub [OF reg]) (use op1(4) room in \<open>simp_all add: op_def\<close>)
    obtain m2 where m2: "(if int (n - k) > op1 - lo then copy_loop m1 op1 lo (op1 + int (n - k))
        else LZ4_memcpy m1 op1 lo (n - k)) = Some m2"
      and mc: "match_copied m1 m2 op1 (int off) (op1 + int (n - k)) (op1 + int (n - k))"
      using ext_rest_law [OF reg1 op1(1)] op1(2,3) by auto
    have frame2: "\<forall>x. x < op1 \<or> c_oend c \<le> x \<longrightarrow> m2 x = m1 x"
      using mc op1(4) room by (auto simp: match_copied_def op_def)
    have b2: "behind m1 m2 ds dn op1"
      by (rule behindI [where hi = "c_oend c"])
        (use frame2 apart in \<open>auto simp: op_def op1_def\<close>)
    have "history m2 ds dn lo (op1 + int (n - k)) = lz_copy (history m1 ds dn lo op1) off (n - k)"
      by (rule history_match [OF mc b2 _ reg1]) (use op1(3) in simp)
    then have h2: "history m2 ds dn lo (op + int n) = lz_copy (history m ds dn lo op) off n"
      by (intro history_across [OF h1 [unfolded jk]]) (use False in \<open>simp_all add: op1_def\<close>)
    have rest: "\<not> int n \<le> int k" "int n - int k = int (n - k)" "c_dictEnd c - int k = src"
      and nat_rest: "nat (int n - int k) = n - k"
      using False ext by auto
    have "dec_ext_dict_match c pc s =
        do { m \<leftarrow> LZ4_memcpy m op src k;
             m \<leftarrow> (if int (n - k) > op1 - lo then copy_loop m op1 lo (op1 + int (n - k))
                  else LZ4_memcpy m op1 lo (n - k));
             Some (pc, s\<lparr>d_mem := m, d_op := op1 + int (n - k)\<rparr>) }"
      using full room rest(1) unfolding dec_ext_dict_match_def Let_def ext(2) fields(1)
      by (simp add: m_def op_def op1_def lo_def rest(3) nat_rest not_less cong: if_cong)
    also have "\<dots> = Some (pc, s\<lparr>d_mem := m2, d_op := op1 + int (n - k)\<rparr>)"
      by (simp only: cpy m2 Option.bind.bind_lunit)
    finally have "dec_ext_dict_match c pc s = Some (pc, s\<lparr>d_mem := m2, d_op := d_op s + int n\<rparr>)"
      by (simp only: op1(4) op_def)
    with m1(2,3) mc frame2 h2 room show ?thesis
      using jk False by (auto simp: m_def op_def op1_def match_copied_def)
  qed
qed

end
