(* ===== verification/Lz4_Reference.thy ===== *)
theory Lz4_Reference
  imports Lz4_Format
begin

text \<open>
  A reference decoder on byte lists for the full-block mode of \<open>LZ4_decompress_generic\<close>
  of src/lz4.c. It keeps the remaining input, the history decoded so far (the external
  dictionary and the prefix in front of the output included) and the room left in the output,
  and has none of the pointer work. The number \<open>dl\<close> of bytes of the history that lie in the
  external dictionary matters only to the shortcut, which is not taken for a match there. It is what the goto machine of \<open>Lz4_Decode\<close> is shown to compute, error
  positions included; here it is related to the block format: what it accepts is an encoding
  of what it returns, and it accepts every legal block that fits.
\<close>

section \<open>The decoder\<close>

text \<open>A number of the variable-length format; at least \<open>lim\<close> bytes must stay unread.\<close>

fun rvl_list :: "nat \<Rightarrow> byte list \<Rightarrow> nat option \<times> byte list" where
  "rvl_list lim [] = (None, [])"
| "rvl_list lim (b # xs) =
     (if length (b # xs) \<le> lim then (None, b # xs)
      else if b = 255 then
        (case rvl_list lim xs of (None, r) \<Rightarrow> (None, r) | (Some n, r) \<Rightarrow> (Some (n + 255), r))
      else (Some (unat b), xs))"

definition le16 :: "byte list \<Rightarrow> nat" where
  "le16 xs = unat (xs ! 0) + 256 * unat (xs ! 1)"

text \<open>One sequence: an error (with the number of unread bytes), the end of the block, or the
  input, history and room to go on with.\<close>

datatype ref_out =
  RErr nat
| RDone "byte list"
| RCont "byte list" "byte list" nat

definition ref_match_copy :: "nat \<Rightarrow> nat \<Rightarrow> byte list \<Rightarrow> byte list \<Rightarrow> nat \<Rightarrow> ref_out" where
  "ref_match_copy off n xs h room =
     (if length h < off \<or> room < n + 5 then RErr (length xs)
      else RCont xs (lz_copy h off n) (room - n))"

definition ref_match :: "nat \<Rightarrow> nat \<Rightarrow> byte list \<Rightarrow> byte list \<Rightarrow> nat \<Rightarrow> ref_out" where
  "ref_match ml off xs h room =
     (case (if ml = 15 then rvl_list 6 xs else (Some 0, xs)) of
        (None, r) \<Rightarrow> RErr (length r)
      | (Some a, r) \<Rightarrow> ref_match_copy off (ml + a + 4) r h room)"

definition ref_literals :: "nat \<Rightarrow> nat \<Rightarrow> byte list \<Rightarrow> byte list \<Rightarrow> nat \<Rightarrow> ref_out" where
  "ref_literals ll ml xs h room =
     (if room < ll + 12 \<or> length xs < ll + 8 then
        if length xs \<noteq> ll \<or> room < ll then RErr (length xs) else RDone (h @ xs)
      else ref_match ml (le16 (drop ll xs)) (drop (ll + 2) xs) (h @ take ll xs) (room - ll))"

definition ref_literals_early :: "nat \<Rightarrow> nat \<Rightarrow> byte list \<Rightarrow> byte list \<Rightarrow> nat \<Rightarrow> ref_out" where
  "ref_literals_early ll ml xs h room =
     (case (if ll = 15 then rvl_list 15 xs else (Some 0, xs)) of
        (None, r) \<Rightarrow> RErr (length r)
      | (Some a, r) \<Rightarrow> ref_literals (ll + a) ml r h room)"

text \<open>The first branch is the shortcut of the C code, which skips the checks on the distance
  to the end of the block; it is taken when 17 bytes of input and 32 of room are left.\<close>

definition ref_step :: "nat \<Rightarrow> byte list \<Rightarrow> byte list \<Rightarrow> nat \<Rightarrow> ref_out" where
  "ref_step dl xs h room =
     (case xs of
        [] \<Rightarrow> RErr 0
      | t # xs \<Rightarrow>
          let ll = unat t div 16; ml = unat t mod 16 in
          if ll \<noteq> 15 \<and> 17 \<le> length xs \<and> 32 \<le> room then
            let off = le16 (drop ll xs); h' = h @ take ll xs; r = drop (ll + 2) xs in
            if ml \<noteq> 15 \<and> 8 \<le> off \<and> off + dl \<le> length h'
            then RCont r (lz_copy h' off (ml + 4)) (room - ll - (ml + 4))
            else ref_match ml off r h' (room - ll)
          else ref_literals_early ll ml xs h room)"

lemma rvl_list_length: "rvl_list lim xs = (r, ys) \<Longrightarrow> length ys \<le> length xs"
  by (induction lim xs arbitrary: r ys rule: rvl_list.induct)
    (auto split: if_splits prod.splits option.splits intro: le_SucI)

lemma ref_match_cont:
  "ref_match ml off xs h room = RCont xs' h' room' \<Longrightarrow> length xs' \<le> length xs"
  by (auto simp: ref_match_def ref_match_copy_def split: prod.splits option.splits if_splits
      dest: rvl_list_length)

lemma ref_literals_cont:
  "ref_literals ll ml xs h room = RCont xs' h' room' \<Longrightarrow> length xs' \<le> length xs"
  by (auto simp: ref_literals_def split: if_splits dest: ref_match_cont)

lemma ref_step_cont:
  "ref_step dl xs h room = RCont xs' h' room' \<Longrightarrow> length xs' < length xs"
  by (auto simp: ref_step_def ref_literals_early_def Let_def split: list.splits if_splits
      prod.splits option.splits dest!: ref_match_cont ref_literals_cont rvl_list_length) arith

function ref_dec :: "nat \<Rightarrow> byte list \<Rightarrow> byte list \<Rightarrow> nat \<Rightarrow> ref_out" where
  "ref_dec dl xs h room =
     (case ref_step dl xs h room of
        RErr k \<Rightarrow> RErr k
      | RDone h' \<Rightarrow> RDone h'
      | RCont xs' h' room' \<Rightarrow> ref_dec dl xs' h' room')"
  by pat_completeness auto
termination
  by (relation "measure (\<lambda>(dl, xs, h, room). length xs)") (auto dest: ref_step_cont)

declare ref_dec.simps [simp del]

definition ref_continue :: "nat \<Rightarrow> ref_out \<Rightarrow> ref_out" where
  "ref_continue dl r = (case r of RCont xs h room \<Rightarrow> ref_dec dl xs h room | _ \<Rightarrow> r)"

lemma ref_continue_simps [simp]:
  "ref_continue dl (RErr k) = RErr k"
  "ref_continue dl (RDone h) = RDone h"
  "ref_continue dl (RCont xs h room) = ref_dec dl xs h room"
  by (simp_all add: ref_continue_def)

lemma ref_dec_step: "ref_dec dl xs h room = ref_continue dl (ref_step dl xs h room)"
  by (subst ref_dec.simps) (simp add: ref_continue_def split: ref_out.splits)

section \<open>Variable-length numbers and their encoding\<close>

lemma rvl_list_ext_len:
  "lim \<le> length ys \<Longrightarrow> rvl_list lim (ext_len n @ ys) = (Some n, ys)"
proof (induction n rule: ext_len.induct)
  case (1 n)
  show ?case
  proof (cases "n < 255")
    case True
    then show ?thesis
      using "1.prems" by (simp add: ext_len_small unat_byte_of_nat byte_of_nat_255)
  next
    case False
    then show ?thesis
      using "1.IH" "1.prems" by (simp add: ext_len_large length_ext_len)
  qed
qed

lemma rvl_list_Some:
  "rvl_list lim xs = (Some n, ys) \<Longrightarrow> xs = ext_len n @ ys \<and> lim \<le> length ys"
proof (induction lim xs arbitrary: n ys rule: rvl_list.induct)
  case (2 lim b xs)
  show ?case
  proof (cases "b = 255")
    case True
    with "2.prems" obtain k where k: "rvl_list lim xs = (Some k, ys)" "n = k + 255"
      by (auto split: if_splits prod.splits option.splits)
    with True "2.prems" have "xs = ext_len k @ ys \<and> lim \<le> length ys"
      by (intro "2.IH") (auto split: if_splits)
    with True k show ?thesis
      by (simp add: ext_len_large)
  next
    case False
    then have "unat b < 255"
      using unat_byte_lt [of b] unat_byte_255 [of b] by linarith
    with False "2.prems" show ?thesis
      by (auto simp: ext_len_small split: if_splits)
  qed
qed simp

lemma le16_offset_bytes: "off < 65536 \<Longrightarrow> le16 (offset_bytes off @ ys) = off"
  by (simp add: le16_def offset_bytes_def unat_byte_of_nat)

lemma le16_bound: "le16 xs < 65536"
  using unat_byte_lt [of "xs ! 0"] unat_byte_lt [of "xs ! 1"] by (simp add: le16_def)

lemma take2_offset_bytes:
  assumes "2 \<le> length xs"
  shows "xs = offset_bytes (le16 xs) @ drop 2 xs"
proof -
  obtain a b ys where xs: "xs = a # b # ys"
    using assms by (metis Suc_le_length_iff numeral_2_eq_2)
  have "unat a < 256"
    by (rule unat_byte_lt)
  then have "(unat a + 256 * unat b) mod 256 = unat a" "(unat a + 256 * unat b) div 256 = unat b"
    by simp_all
  then show ?thesis
    by (simp add: xs le16_def offset_bytes_def)
qed

section \<open>Soundness: what is accepted is an encoding of what is returned\<close>

lemma ref_match_sound:
  assumes "ref_match ml off xs h room = RCont xs' h' room'" and "ml \<le> 15"
  shows "\<exists>mc. min 15 mc = ml \<and> xs = match_header mc @ xs' \<and> h' = lz_copy h off (mc + 4) \<and>
           off \<le> length h \<and> room = room' + mc + 4"
proof (cases "ml = 15")
  case True
  with assms(1) obtain a where a: "rvl_list 6 xs = (Some a, xs')"
    and "off \<le> length h" "24 + a \<le> room" "h' = lz_copy h off (19 + a)" "room' = room - (19 + a)"
    by (auto simp: ref_match_def ref_match_copy_def split: prod.splits option.splits if_splits)
  with True rvl_list_Some [OF a] show ?thesis
    by (intro exI [of _ "a + 15"]) (auto simp: match_header_def add.commute)
next
  case False
  with assms show ?thesis
    by (intro exI [of _ ml])
      (auto simp: ref_match_def ref_match_copy_def match_header_def split: if_splits)
qed

lemma ref_match_not_done: "ref_match ml off xs h room \<noteq> RDone h'"
  by (auto simp: ref_match_def ref_match_copy_def split: prod.splits option.splits)

text \<open>What has been read once the literal length is known.\<close>

lemma enc_seq_eq:
  assumes "length l = ll" and "min 15 mc = ml" and "unat t div 16 = min 15 ll" and "unat t mod 16 = ml"
  shows "enc_seq \<lparr>sq_lits = l, sq_off = off, sq_mlen = mc + 4\<rparr> =
           t # lit_header ll @ l @ offset_bytes off @ match_header mc"
  using token_of_nibbles [of t ll mc] assms by (simp add: enc_seq_def)

lemma ref_after_literals_sound:
  assumes "ref_match ml (le16 (drop ll xs)) (drop (ll + 2) xs) (h @ take ll xs) (room - ll) =
      RCont xs' h' room'"
    and "ml \<le> 15" and "ll + 2 \<le> length xs" and "ll \<le> room"
    and "unat t div 16 = min 15 ll" and "unat t mod 16 = ml"
  shows "\<exists>q. t # lit_header ll @ xs = enc_seq q @ xs' \<and> seq_ok q \<and> h' = exec_seq h q \<and>
           sq_off q \<le> length (h @ sq_lits q) \<and> room' + length h' = room + length h"
proof -
  from ref_match_sound [OF assms(1,2)] obtain mc where mc: "min 15 mc = ml"
    "drop (ll + 2) xs = match_header mc @ xs'"
    "h' = lz_copy (h @ take ll xs) (le16 (drop ll xs)) (mc + 4)"
    "le16 (drop ll xs) \<le> length (h @ take ll xs)" "room - ll = room' + mc + 4"
    by blast
  define q where "q = \<lparr>sq_lits = take ll xs, sq_off = le16 (drop ll xs), sq_mlen = mc + 4\<rparr>"
  have "xs = take ll xs @ offset_bytes (le16 (drop ll xs)) @ drop 2 (drop ll xs)"
    using take2_offset_bytes [of "drop ll xs"] assms(3) by simp
  also have "drop 2 (drop ll xs) = match_header mc @ xs'"
    using mc(2) by (simp add: add.commute)
  finally have "t # lit_header ll @ xs = enc_seq q @ xs'"
    using enc_seq_eq [of "take ll xs" ll mc ml t "le16 (drop ll xs)"] mc(1) assms(3,5,6)
    by (simp add: q_def)
  moreover have "seq_ok q"
    using le16_bound by (simp add: seq_ok_def q_def)
  moreover have "h' = exec_seq h q"
    using mc(3) by (simp add: exec_seq_def q_def)
  moreover have "room' + length h' = room + length h"
    using mc(3,5) assms(3,4) by simp
  ultimately show ?thesis
    using mc(4) by (auto simp: q_def)
qed

lemma ref_literals_sound:
  assumes "ml \<le> 15" and "unat t div 16 = min 15 ll" and "unat t mod 16 = ml"
  shows "ref_literals ll ml xs h room = RCont xs' h' room' \<Longrightarrow>
      \<exists>q. t # lit_header ll @ xs = enc_seq q @ xs' \<and> seq_ok q \<and> h' = exec_seq h q \<and>
           sq_off q \<le> length (h @ sq_lits q) \<and> room' + length h' = room + length h"
    and "ref_literals ll ml xs h room = RDone h' \<Longrightarrow>
      \<exists>l. t # lit_header ll @ xs = enc_last_nib l ml \<and> h' = h @ l \<and> length l \<le> room"
proof -
  assume "ref_literals ll ml xs h room = RCont xs' h' room'"
  then show "\<exists>q. t # lit_header ll @ xs = enc_seq q @ xs' \<and> seq_ok q \<and> h' = exec_seq h q \<and>
           sq_off q \<le> length (h @ sq_lits q) \<and> room' + length h' = room + length h"
    by (intro ref_after_literals_sound) (use assms in \<open>auto simp: ref_literals_def split: if_splits\<close>)
next
  assume "ref_literals ll ml xs h room = RDone h'"
  then have "length xs = ll" "ll \<le> room" "h' = h @ xs"
    by (auto simp: ref_literals_def ref_match_not_done split: if_splits)
  moreover have "t = token_byte ll ml"
    by (rule token_of_nibbles) (use assms in auto)
  ultimately show "\<exists>l. t # lit_header ll @ xs = enc_last_nib l ml \<and> h' = h @ l \<and> length l \<le> room"
    by (auto simp: enc_last_nib_def)
qed

lemma ref_literals_early_parse:
  assumes "ref_literals_early ll ml xs h room = r" and "\<And>k. r \<noteq> RErr k" and "ll \<le> 15"
  shows "\<exists>n ys. xs = lit_header n @ ys \<and> min 15 n = ll \<and> ref_literals n ml ys h room = r"
proof (cases "ll = 15")
  case True
  with assms obtain a ys where a: "rvl_list 15 xs = (Some a, ys)" and "ref_literals (15 + a) ml ys h room = r"
    by (auto simp: ref_literals_early_def split: prod.splits option.splits)
  with True rvl_list_Some [OF a] show ?thesis
    by (intro exI [of _ "15 + a"] exI [of _ ys]) (auto simp: lit_header_def)
next
  case False
  with assms show ?thesis
    by (intro exI [of _ ll] exI [of _ xs]) (auto simp: ref_literals_early_def lit_header_def)
qed

lemma nibble_bounds: "unat (t :: byte) div 16 \<le> 15" "unat t mod 16 \<le> 15"
  using unat_byte_lt [of t] by (auto simp: div_le_mono less_mult_imp_div_less)

lemma ref_step_sound_cont:
  assumes "ref_step dl xs h room = RCont xs' h' room'"
  shows "\<exists>q. xs = enc_seq q @ xs' \<and> seq_ok q \<and> h' = exec_seq h q \<and>
           sq_off q \<le> length (h @ sq_lits q) \<and> room' + length h' = room + length h"
proof -
  obtain t ys where xs: "xs = t # ys"
    using assms by (cases xs) (auto simp: ref_step_def)
  define ll ml where "ll = unat t div 16" and "ml = unat t mod 16"
  have nib: "ll \<le> 15" "ml \<le> 15"
    using nibble_bounds [of t] by (simp_all add: ll_def ml_def)
  show ?thesis
  proof (cases "ll \<noteq> 15 \<and> 17 \<le> length ys \<and> 32 \<le> room")
    case short: True
    define off where "off = le16 (drop ll ys)"
    have hdr: "lit_header ll = []"
      using short nib by (simp add: lit_header_def)
    show ?thesis
    proof (cases "ml \<noteq> 15 \<and> 8 \<le> off \<and> off + dl \<le> length (h @ take ll ys)")
      case True
      with assms short have eqs: "xs' = drop (ll + 2) ys"
        "h' = lz_copy (h @ take ll ys) off (ml + 4)" "room' = room - ll - (ml + 4)"
        by (auto simp: ref_step_def xs Let_def ll_def ml_def off_def)
      define q where "q = \<lparr>sq_lits = take ll ys, sq_off = off, sq_mlen = ml + 4\<rparr>"
      have "drop ll ys = offset_bytes off @ drop 2 (drop ll ys)"
        unfolding off_def by (rule take2_offset_bytes) (use short nib in auto)
      then have "ys = take ll ys @ offset_bytes off @ drop 2 (drop ll ys)"
        by (metis append_take_drop_id)
      then have "ys = take ll ys @ offset_bytes off @ xs'"
        by (simp add: eqs(1) add.commute)
      then have "xs = enc_seq q @ xs'"
        using enc_seq_eq [of "take ll ys" ll ml ml t off] short nib True hdr
        by (simp add: q_def xs ll_def [symmetric] ml_def [symmetric] match_header_def)
      moreover have "seq_ok q"
        using le16_bound [of "drop ll ys"] by (simp add: seq_ok_def q_def off_def)
      moreover have "h' = exec_seq h q"
        by (simp add: eqs exec_seq_def q_def)
      moreover have "room' + length h' = room + length h"
        using short nib True by (simp add: eqs)
      ultimately show ?thesis
        using True by (auto simp: q_def)
    next
      case False
      then have "ref_match ml off (drop (ll + 2) ys) (h @ take ll ys) (room - ll) = RCont xs' h' room'"
        using assms
        by (simp only: ref_step_def xs list.case Let_def ll_def [symmetric] ml_def [symmetric]
            off_def [symmetric] if_P [OF short] if_not_P [OF False] if_False)
      then have "\<exists>q. t # lit_header ll @ ys = enc_seq q @ xs' \<and> seq_ok q \<and> h' = exec_seq h q \<and>
           sq_off q \<le> length (h @ sq_lits q) \<and> room' + length h' = room + length h"
        by (intro ref_after_literals_sound) (use nib short in \<open>auto simp: off_def ll_def ml_def\<close>)
      then show ?thesis
        by (simp add: hdr xs)
    qed
  next
    case False
    then have "ref_literals_early ll ml ys h room = RCont xs' h' room'"
      using assms unfolding ref_step_def xs list.case Let_def ll_def ml_def by (simp only: if_False)
    from ref_literals_early_parse [OF this _ nib(1)] obtain n zs where
      n: "ys = lit_header n @ zs" "min 15 n = ll" "ref_literals n ml zs h room = RCont xs' h' room'"
      by auto
    from ref_literals_sound(1) [OF nib(2) _ _ n(3), of t] show ?thesis
      by (simp add: xs n(1,2) ll_def [symmetric] ml_def [symmetric])
  qed
qed

lemma ref_step_sound_done:
  assumes "ref_step dl xs h room = RDone h'"
  shows "\<exists>l nib. xs = enc_last_nib l nib \<and> h' = h @ l \<and> length l \<le> room"
proof -
  obtain t ys where xs: "xs = t # ys"
    using assms by (cases xs) (auto simp: ref_step_def)
  define ll ml where "ll = unat t div 16" and "ml = unat t mod 16"
  have nib: "ll \<le> 15" "ml \<le> 15"
    using nibble_bounds [of t] by (simp_all add: ll_def ml_def)
  have "\<not> (ll \<noteq> 15 \<and> 17 \<le> length ys \<and> 32 \<le> room)"
    using assms by (auto simp: ref_step_def xs Let_def ll_def ref_match_not_done split: if_splits)
  then have "ref_literals_early ll ml ys h room = RDone h'"
    using assms unfolding ref_step_def xs list.case Let_def ll_def ml_def by (simp only: if_False)
  from ref_literals_early_parse [OF this _ nib(1)] obtain n zs where
    n: "ys = lit_header n @ zs" "min 15 n = ll" "ref_literals n ml zs h room = RDone h'"
    by auto
  from ref_literals_sound(2) [OF nib(2) _ _ n(3), of t] show ?thesis
    by (auto simp: xs n(1,2) ll_def [symmetric] ml_def [symmetric])
qed

theorem ref_dec_sound:
  "ref_dec dl xs h room = RDone h' \<Longrightarrow>
     \<exists>qs l nib. xs = concat (map enc_seq qs) @ enc_last_nib l nib \<and> list_all seq_ok qs \<and>
       offsets_ok h qs \<and> h' = exec_seqs h qs @ l \<and> length h' \<le> length h + room"
proof (induction dl xs h room rule: ref_dec.induct)
  case (1 dl xs h room)
  show ?case
  proof (cases "ref_step dl xs h room")
    case (RErr k)
    then show ?thesis using "1.prems" by (simp add: ref_dec_step)
  next
    case (RDone h'')
    then have "h'' = h'"
      using "1.prems" by (simp add: ref_dec_step)
    with ref_step_sound_done [OF RDone] obtain l nib where
      "xs = enc_last_nib l nib" "h' = h @ l" "length l \<le> room"
      by auto
    then show ?thesis
      by (intro exI [of _ "[]"] exI [of _ l] exI [of _ nib]) simp
  next
    case (RCont xs1 h1 room1)
    with "1.prems" have "ref_dec dl xs1 h1 room1 = RDone h'"
      by (simp add: ref_dec_step)
    from "1.IH" [OF RCont this] obtain qs l nib where
      IH: "xs1 = concat (map enc_seq qs) @ enc_last_nib l nib" "list_all seq_ok qs"
        "offsets_ok h1 qs" "h' = exec_seqs h1 qs @ l" "length h' \<le> length h1 + room1"
      by blast
    from ref_step_sound_cont [OF RCont] obtain q where
      "xs = enc_seq q @ xs1" "seq_ok q" "h1 = exec_seq h q" "sq_off q \<le> length (h @ sq_lits q)"
      "room1 + length h1 = room + length h"
      by blast
    with IH show ?thesis
      by (intro exI [of _ "q # qs"] exI [of _ l] exI [of _ nib]) auto
  qed
qed

section \<open>Completeness: every legal block that fits is accepted\<close>

text \<open>In a legal block at least six bytes follow a sequence.\<close>

lemma enc_block_length:
  assumes "end_ok h qs n" and "length h + 5 \<le> n" and "length (exec_seqs h qs @ l) = n"
  shows "6 \<le> length (enc_block qs l)"
  using assms
proof (induction qs arbitrary: h)
  case Nil
  then show ?case
    by (simp add: enc_block_def enc_last_def)
next
  case (Cons q qs)
  then have "6 \<le> length (enc_block qs l)"
    by (intro Cons.IH) auto
  then show ?case
    by (simp add: enc_block_def)
qed

lemma ref_match_complete:
  assumes "6 \<le> length ys" and "off \<le> length h" and "mc + 9 \<le> room"
  shows "ref_match (min 15 mc) off (match_header mc @ ys) h room =
           RCont ys (lz_copy h off (mc + 4)) (room - (mc + 4))"
proof (cases "15 \<le> mc")
  case True
  then have "rvl_list 6 (match_header mc @ ys) = (Some (mc - 15), ys)"
    using rvl_list_ext_len [OF assms(1)] by (simp add: match_header_def)
  with True assms show ?thesis
    by (simp add: ref_match_def ref_match_copy_def min_def)
next
  case False
  with assms show ?thesis
    by (simp add: ref_match_def ref_match_copy_def match_header_def min_def)
qed

lemma lit_header_parse:
  assumes "n \<le> length ys"
  shows "ref_literals_early (min 15 n) ml (lit_header n @ ys) h room = ref_literals n ml ys h room"
proof (cases "15 \<le> n")
  case True
  then have "rvl_list 15 (lit_header n @ ys) = (Some (n - 15), ys)"
    using rvl_list_ext_len [of 15 ys "n - 15"] assms by (simp add: lit_header_def)
  with True show ?thesis
    by (simp add: ref_literals_early_def)
next
  case False
  then show ?thesis
    by (simp add: ref_literals_early_def lit_header_def)
qed

lemma ref_step_complete_seq:
  assumes "seq_ok q" and "sq_off q \<le> length (h @ sq_lits q)" and "6 \<le> length ys"
    and "length (sq_lits q) + 12 \<le> room" and "length (sq_lits q) + sq_mlen q + 5 \<le> room"
  shows "ref_step dl (enc_seq q @ ys) h room =
           RCont ys (exec_seq h q) (room - length (sq_lits q) - sq_mlen q)"
proof -
  define l off mc where "l = sq_lits q" and "off = sq_off q" and "mc = sq_mlen q - 4"
  have mc: "sq_mlen q = mc + 4" and off: "off < 65536"
    using assms(1) by (auto simp: seq_ok_def mc_def off_def)
  define zs where "zs = l @ offset_bytes off @ match_header mc @ ys"
  have len_zs: "length l + 8 \<le> length zs"
    using assms(3) by (simp add: zs_def)
  have enc: "enc_seq q @ ys = token_byte (length l) mc # lit_header (length l) @ zs"
    by (simp add: enc_seq_def zs_def l_def off_def mc_def)
  have parts: "le16 (drop (length l) zs) = off" "take (length l) zs = l"
    "drop (length l + 2) zs = match_header mc @ ys"
    "drop (Suc (Suc (length l))) zs = match_header mc @ ys"
    using le16_offset_bytes [OF off] by (simp_all add: zs_def)
  have match: "ref_match (min 15 mc) off (match_header mc @ ys) (h @ l) (room - length l) =
      RCont ys (lz_copy (h @ l) off (mc + 4)) (room - length l - (mc + 4))"
    by (rule ref_match_complete) (use assms in \<open>auto simp: l_def off_def mc_def seq_ok_def\<close>)
  have early: "ref_literals_early (min 15 (length l)) (min 15 mc) (lit_header (length l) @ zs) h room =
      RCont ys (lz_copy (h @ l) off (mc + 4)) (room - length l - (mc + 4))"
  proof -
    have "\<not> (room < length l + 12 \<or> length zs < length l + 8)"
      using len_zs assms(4) by (simp add: l_def)
    then have "ref_literals (length l) (min 15 mc) zs h room =
        ref_match (min 15 mc) off (match_header mc @ ys) (h @ l) (room - length l)"
      by (simp only: ref_literals_def if_False parts)
    with match show ?thesis
      using lit_header_parse [of "length l" zs] len_zs by simp
  qed
  have short: "ref_step dl (enc_seq q @ ys) h room =
      RCont ys (lz_copy (h @ l) off (mc + 4)) (room - length l - (mc + 4))"
  proof (cases "min 15 (length l) \<noteq> 15 \<and> 17 \<le> length (lit_header (length l) @ zs) \<and> 32 \<le> room")
    case True
    then have ll: "min 15 (length l) = length l" "lit_header (length l) = []"
      by (auto simp: lit_header_def min_def split: if_splits)
    show ?thesis
    proof (cases "min 15 mc = 15")
      case mc15: True
      with True ll match show ?thesis
        by (simp add: enc ref_step_def Let_def parts)
    next
      case False
      then have "min 15 mc = mc" "match_header mc = []"
        by (auto simp: match_header_def min_def split: if_splits)
      with False True ll match parts show ?thesis
        by (simp add: enc ref_step_def Let_def)
    qed
  next
    case False
    then have "ref_step dl (enc_seq q @ ys) h room =
        ref_literals_early (min 15 (length l)) (min 15 mc) (lit_header (length l) @ zs) h room"
      unfolding enc ref_step_def list.case Let_def token_div token_mod by (simp only: if_False)
    with early show ?thesis
      by simp
  qed
  then show ?thesis
    by (simp add: exec_seq_def l_def off_def mc)
qed

lemma ref_step_complete_last:
  assumes "length l \<le> room"
  shows "ref_step dl (enc_last l) h room = RDone (h @ l)"
proof -
  have "\<not> (min 15 (length l) \<noteq> 15 \<and> 17 \<le> length (lit_header (length l) @ l) \<and> 32 \<le> room)"
    by (auto simp: lit_header_def min_def split: if_splits)
  then have "ref_step dl (enc_last l) h room =
      ref_literals_early (min 15 (length l)) (min 15 0) (lit_header (length l) @ l) h room"
    unfolding enc_last_def ref_step_def list.case Let_def token_div token_mod by (simp only: if_False)
  also have "\<dots> = RDone (h @ l)"
    using assms by (simp add: lit_header_parse ref_literals_def)
  finally show ?thesis .
qed

theorem ref_dec_complete:
  assumes "list_all seq_ok qs" and "offsets_ok h qs" and "end_ok h qs n"
    and "length (exec_seqs h qs @ l) = n" and "n \<le> length h + room"
  shows "ref_dec dl (enc_block qs l) h room = RDone (exec_seqs h qs @ l)"
  using assms
proof (induction qs arbitrary: h room)
  case Nil
  then show ?case
    by (simp add: enc_block_def ref_dec_step ref_step_complete_last)
next
  case (Cons q qs)
  have "6 \<le> length (enc_block qs l)"
    by (rule enc_block_length [where h = "exec_seq h q" and n = n]) (use Cons.prems in auto)
  then have "ref_step dl (enc_seq q @ enc_block qs l) h room =
      RCont (enc_block qs l) (exec_seq h q) (room - length (sq_lits q) - sq_mlen q)"
    by (intro ref_step_complete_seq) (use Cons.prems in auto)
  moreover have "ref_dec dl (enc_block qs l) (exec_seq h q) (room - length (sq_lits q) - sq_mlen q) =
      RDone (exec_seqs (exec_seq h q) qs @ l)"
    by (rule Cons.IH) (use Cons.prems in auto)
  ultimately show ?case
    by (simp add: enc_block_def ref_dec_step)
qed

end
