(* ===== verification/Lz4_Decode_Refine.thy ===== *)
theory Lz4_Decode_Refine
  imports Lz4_Match Lz4_Reference
begin

text \<open>
  The decoder of \<open>Lz4_Decode\<close> computes the reference decoder of \<open>Lz4_Reference\<close>: for every
  control point of the goto machine, what the machine returns from there is what the
  reference decoder returns for the input still to be read, the history and the room. The
  statements are total: the machine returns a value, so it stays inside the buffers and ends.
  They hold for the full-block mode, with a prefix, an external dictionary or both.
\<close>

section \<open>The buffers\<close>

text \<open>The start of the prefix that matches may reach, and the history: the end of the external
  dictionary and the bytes from there to the output pointer. With a 64 KB prefix or dictionary
  no distance is checked; the largest is 65535.\<close>

definition c_hist :: "dec_cfg \<Rightarrow> ptr" where
  "c_hist c = (if c_dict c = withPrefix64k then c_dst c - 65535 else c_lowPrefix c)"

definition c_dl :: "dec_cfg \<Rightarrow> nat" where
  "c_dl c = nat (min (c_dictSize c) 65535)"

definition c_recent :: "dec_cfg \<Rightarrow> ptr" where
  "c_recent c = c_dictStart c + c_dictSize c - int (c_dl c)"

definition d_history :: "dec_cfg \<Rightarrow> mem \<Rightarrow> ptr \<Rightarrow> byte list" where
  "d_history c m op = history m (c_recent c) (c_dl c) (c_hist c) op"

text \<open>\<open>dec_ok\<close>: the input buffer, the last 64 KB of the dictionary, the prefix and the output buffer
  are allocated, and the output overlaps neither the input nor that part of the dictionary.\<close>

definition dec_ok :: "dec_cfg \<Rightarrow> mem \<Rightarrow> bool" where
  "dec_ok c m0 \<longleftrightarrow>
     \<not> c_partial c \<and> 0 \<le> c_dictSize c \<and> (c_dict c \<noteq> usingExtDict \<longrightarrow> c_dictSize c = 0) \<and>
     (0 < c_dictSize c \<longrightarrow> c_dictStart c \<noteq> NULL) \<and>
     0 \<le> c_src c \<and> 0 \<le> c_srcSize c \<and> c_srcSize c < 2 ^ 31 \<and> c_iend c < 2 ^ 64 \<and>
     0 \<le> c_hist c \<and> c_hist c \<le> c_dst c \<and> c_dst c \<le> c_oend c \<and> c_oend c < 2 ^ 64 \<and>
     (c_dict c = withPrefix64k \<longrightarrow> c_lowPrefix c \<le> c_hist c) \<and>
     region m0 (c_src c) (c_iend c) \<and> region m0 (c_hist c) (c_oend c) \<and>
     region m0 (c_recent c) (c_recent c + int (c_dl c)) \<and>
     (c_iend c \<le> c_dst c \<or> c_oend c \<le> c_src c) \<and>
     (c_dictSize c = 0 \<or> c_recent c + int (c_dl c) \<le> c_dst c \<or> c_oend c \<le> c_recent c)"

text \<open>What the decoder may have changed.\<close>

definition framed :: "dec_cfg \<Rightarrow> mem \<Rightarrow> mem \<Rightarrow> bool" where
  "framed c m0 m \<longleftrightarrow> dom m = dom m0 \<and> (\<forall>x. x < c_dst c \<or> c_oend c \<le> x \<longrightarrow> m x = m0 x)"

text \<open>The abstraction: unread input, history and room of a memory and the two pointers.\<close>

definition tracks ::
  "dec_cfg \<Rightarrow> mem \<Rightarrow> mem \<Rightarrow> ptr \<Rightarrow> ptr \<Rightarrow> byte list \<Rightarrow> byte list \<Rightarrow> nat \<Rightarrow> bool" where
  "tracks c m0 m ip op xs h room \<longleftrightarrow>
     framed c m0 m \<and> c_src c \<le> ip \<and> ip + int (length xs) = c_iend c \<and>
     bytes m0 ip (length xs) = xs \<and> c_dst c \<le> op \<and> op + int room = c_oend c \<and>
     d_history c m op = h"

text \<open>The abstraction of a result.\<close>

definition dec_result :: "dec_cfg \<Rightarrow> mem \<Rightarrow> ref_out \<Rightarrow> int \<Rightarrow> mem \<Rightarrow> bool" where
  "dec_result c m0 r ret m \<longleftrightarrow>
     framed c m0 m \<and>
     (case r of
        RErr k \<Rightarrow> ret = - (c_srcSize c - int k) - 1
      | RDone h \<Rightarrow> ret = int (length h) - int (length (d_history c m0 (c_dst c))) \<and>
                   d_history c m (c_dst c + ret) = h
      | RCont _ _ _ \<Rightarrow> False)"

definition refines :: "dec_cfg \<Rightarrow> mem \<Rightarrow> dec_pc \<Rightarrow> dec_state \<Rightarrow> ref_out \<Rightarrow> bool" where
  "refines c m0 pc s r \<longleftrightarrow> (\<exists>ret m. dec_run c pc s = Some (ret, m) \<and> dec_result c m0 r ret m)"

lemma dec_okD:
  assumes "dec_ok c m0"
  shows "\<not> c_partial c" "c_dict c \<noteq> usingExtDict \<Longrightarrow> c_dictSize c = 0" "0 \<le> c_dictSize c" "0 \<le> c_src c"
    "0 \<le> c_srcSize c" "c_srcSize c < 2147483648" "c_iend c < 18446744073709551616"
    "0 \<le> c_hist c" "c_hist c \<le> c_dst c" "c_dst c \<le> c_oend c" "c_oend c < 18446744073709551616"
    "c_dict c = withPrefix64k \<Longrightarrow> c_lowPrefix c \<le> c_hist c"
    "region m0 (c_src c) (c_iend c)" "region m0 (c_hist c) (c_oend c)"
    "c_iend c \<le> c_dst c \<or> c_oend c \<le> c_src c" "0 < c_dictSize c \<Longrightarrow> c_dictStart c \<noteq> NULL"
    "region m0 (c_recent c) (c_recent c + int (c_dl c))"
    "c_dictSize c = 0 \<or> c_recent c + int (c_dl c) \<le> c_dst c \<or> c_oend c \<le> c_recent c"
    "int (c_dl c) = min (c_dictSize c) 65535"
  using assms by (simp_all add: dec_ok_def) (simp add: c_dl_def)

lemma trackedD:
  assumes "tracks c m0 m ip op xs h room"
  shows "framed c m0 m" "c_src c \<le> ip" "c_iend c = ip + int (length xs)" "bytes m0 ip (length xs) = xs"
    "c_dst c \<le> op" "c_oend c = op + int room"
    "d_history c m op = h"
  using assms by (auto simp: tracks_def)

lemma length_d_history:
  assumes "dec_ok c m0" and "c_dst c \<le> op"
  shows "int (length (d_history c m op)) = int (c_dl c) + (op - c_hist c)"
  using dec_okD(9) [OF assms(1)] assms(2) by (simp add: d_history_def length_history)

lemma tracked_history:
  assumes "tracks c m0 m ip op xs h room" and "dec_ok c m0"
  shows "int (length h) = int (c_dl c) + (op - c_hist c)"
  using trackedD(7) [OF assms(1)] length_d_history [OF assms(2) trackedD(5) [OF assms(1)], of m] by simp

text \<open>The tests of the code on the distance of a match.\<close>

lemma offset_checks:
  assumes t: "tracks c m0 m ip op xs h room" and ok: "dec_ok c m0" and "off < 65536"
  shows "(c_checkOffset c \<and> op - int off + c_dictSize c < c_lowPrefix c) \<longleftrightarrow> length h < off"
    and "off \<le> length h \<Longrightarrow>
      (c_dict c = usingExtDict \<and> op - int off < c_lowPrefix c) \<longleftrightarrow> length h < off + c_dl c"
    and "off \<le> length h \<Longrightarrow> off + c_dl c \<le> length h \<Longrightarrow> c_hist c \<le> op - int off"
    and "(c_dict c = withPrefix64k \<or> c_lowPrefix c \<le> op - int off) \<longleftrightarrow> off + c_dl c \<le> length h"
proof -
  have ext: "c_dict c = usingExtDict \<or> c_dictSize c = 0"
    using dec_okD(2) [OF ok] by blast
  note facts = tracked_history [OF t ok] ext dec_okD(3,9,12,19) [OF ok] trackedD(5) [OF t] assms(3)
  show "(c_checkOffset c \<and> op - int off + c_dictSize c < c_lowPrefix c) \<longleftrightarrow> length h < off"
    using facts by (auto simp: c_checkOffset_def c_hist_def split: if_splits)
  show "off \<le> length h \<Longrightarrow>
      (c_dict c = usingExtDict \<and> op - int off < c_lowPrefix c) \<longleftrightarrow> length h < off + c_dl c"
    using facts by (auto simp: c_hist_def split: if_splits)
  show "off \<le> length h \<Longrightarrow> off + c_dl c \<le> length h \<Longrightarrow> c_hist c \<le> op - int off"
    using facts by auto
  show "(c_dict c = withPrefix64k \<or> c_lowPrefix c \<le> op - int off) \<longleftrightarrow> off + c_dl c \<le> length h"
    using facts by (auto simp: c_hist_def split: if_splits)
qed

lemma framed_region: "framed c m0 m \<Longrightarrow> region m lo hi = region m0 lo hi"
  by (rule region_dom) (simp add: framed_def)

section \<open>Steps of the machine\<close>

lemma refines_step:
  assumes "dec_step c pc s = Some (pc', s')" and "pc \<noteq> EndOfDecoding" and "pc \<noteq> OutputError"
    and "refines c m0 pc' s' r"
  shows "refines c m0 pc s r"
proof -
  have "dec_run c pc s = dec_run c pc' s'"
    by (subst dec_run.simps) (simp add: assms(1-3))
  with assms(4) show ?thesis
    by (simp add: refines_def)
qed

lemma refines_error:
  assumes "framed c m0 (d_mem s)" and "d_ip s + int k = c_iend c"
  shows "refines c m0 OutputError s (RErr k)"
proof -
  have "dec_run c OutputError s = Some (- (d_ip s - c_src c) - 1, d_mem s)"
    by (subst dec_run.simps) simp
  moreover have "- (d_ip s - c_src c) - 1 = - (c_srcSize c - int k) - 1"
    using assms(2) by (simp add: c_iend_def)
  ultimately show ?thesis
    using assms(1) by (simp add: refines_def dec_result_def)
qed

lemma refines_done:
  assumes "dec_ok c m0" and "framed c m0 (d_mem s)" and "d_history c (d_mem s) (d_op s) = h"
    and "c_dst c \<le> d_op s"
  shows "refines c m0 EndOfDecoding s (RDone h)"
proof -
  have "dec_run c EndOfDecoding s = Some (d_op s - c_dst c, d_mem s)"
    by (subst dec_run.simps) simp
  moreover have "int (length h) - int (length (d_history c m0 (c_dst c))) = d_op s - c_dst c"
    using length_d_history [OF assms(1,4), of "d_mem s"] length_d_history [OF assms(1), of "c_dst c" m0]
    by (simp add: assms(3))
  ultimately show ?thesis
    using assms(2,3) by (simp add: refines_def dec_result_def)
qed

section \<open>Reading the input\<close>

lemma framed_input:
  assumes "framed c m0 m" and "dec_ok c m0" and "c_src c \<le> x" and "x < c_iend c"
  shows "m x = m0 x"
  using assms dec_okD(15) [OF assms(2)] by (auto simp: framed_def)

lemma tracked_byte:
  assumes "tracks c m0 m ip op xs h room" and "dec_ok c m0" and "i < length xs"
  shows "m (ip + int i) = Some (xs ! i)"
proof -
  have inside: "c_src c \<le> ip + int i" "ip + int i < c_iend c"
    using trackedD(2,3) [OF assms(1)] assms(3) by auto
  have "m (ip + int i) = m0 (ip + int i)"
    by (rule framed_input [OF trackedD(1) [OF assms(1)] assms(2) inside])
  moreover have "m0 (ip + int i) \<noteq> None"
    using dec_okD(13) [OF assms(2)] inside by (auto simp: region_def)
  moreover have "xs ! i = the (m0 (ip + int i))"
    using trackedD(4) [OF assms(1)] nth_bytes [OF assms(3), of m0 ip] by simp
  ultimately show ?thesis
    by auto
qed

lemma tracked_drop:
  assumes "tracks c m0 m ip op xs h room" and "k \<le> length xs"
  shows "tracks c m0 m (ip + int k) op (drop k xs) h room"
proof -
  have "bytes m0 (ip + int k) (length xs - k) = drop k (bytes m0 ip (length xs))"
    using bytes_add [of m0 ip k "length xs - k"] assms(2) by simp
  then have "bytes m0 (ip + int k) (length xs - k) = drop k xs"
    using trackedD(4) [OF assms(1)] by simp
  then show ?thesis
    using assms by (simp add: tracks_def)
qed

lemma tracked_bytes:
  assumes "tracks c m0 m ip op xs h room" and "dec_ok c m0" and "n \<le> length xs"
  shows "bytes m ip n = take n xs"
  by (rule nth_equalityI) (use assms tracked_byte [OF assms(1,2)] in auto)

lemma uint_le_word2: "uint (le_word [a, b] :: 16 word) = uint a + 256 * uint b"
proof -
  have "(ucast a OR push_bit 8 (ucast b) :: 16 word) = ucast a + push_bit 8 (ucast b)"
    by (rule disjunctive_add [symmetric]) (auto simp: bit_simps dest!: bit_imp_le_length)
  moreover have "uint (push_bit 8 (ucast b) :: 16 word) = 256 * uint b"
    using uint_byte_lt [of b]
    by (simp add: push_bit_eq_mult uint_word_ariths unsigned_ucast_eq take_bit_eq_mod)
  moreover have "uint (ucast a :: 16 word) = uint a"
    using uint_byte_lt [of a] by (simp add: unsigned_ucast_eq take_bit_eq_mod)
  moreover have "uint a + 256 * uint b < 65536"
    using uint_byte_lt [of a] uint_byte_lt [of b] by simp
  ultimately show ?thesis
    by (simp add: uint_word_ariths)
qed

lemma tracked_readLE16:
  assumes "tracks c m0 m ip op xs h room" and "dec_ok c m0" and "2 \<le> length xs"
  shows "LZ4_readLE16 m ip = Some (int (le16 xs))"
proof -
  obtain a b ys where xs: "xs = a # b # ys"
    using assms(3) by (metis Suc_le_length_iff numeral_2_eq_2)
  have "region m ip (ip + int 2)"
    unfolding framed_region [OF trackedD(1) [OF assms(1)]]
    by (rule region_sub [OF dec_okD(13) [OF assms(2)]])
      (use trackedD(2,3) [OF assms(1)] assms(3) in auto)
  then have "load_bytes m ip 2 = Some [a, b]"
    using tracked_bytes [OF assms] by (simp add: load_bytes_Some xs)
  then show ?thesis
    by (simp add: LZ4_readLE16_def LZ4_read16_def uint_le_word2 le16_def xs del: le_word.simps)
qed

section \<open>Variable-length numbers\<close>

lemma read_variable_length_loop: "read_variable_length m ip lim = rvl_loop m ip lim 0"
  unfolding read_variable_length_def by (subst (2) rvl_loop.simps) (auto split: bind_splits)

lemma rvl_loop_list:
  assumes "\<And>i. i < length xs \<Longrightarrow> m (ip + int i) = Some (xs ! i)" and "e = ip + int (length xs)"
  shows "rvl_loop m ip (e - int lim) acc =
      Some (map_option (\<lambda>n. acc + int n) (fst (rvl_list lim xs)), e - int (length (snd (rvl_list lim xs))))"
  using assms
proof (induction xs arbitrary: ip acc)
  case Nil
  then show ?case
    by (subst rvl_loop.simps) simp
next
  case (Cons b xs)
  have b: "m ip = Some b"
    using Cons.prems(1) [of 0] by simp
  have "m (ip + 1 + int i) = Some (xs ! i)" if "i < length xs" for i
    using Cons.prems(1) [of "Suc i"] that by (simp add: add.assoc)
  then have "rvl_loop m (ip + 1) (e - int lim) (acc + uint b) =
      Some (map_option (\<lambda>n. acc + uint b + int n) (fst (rvl_list lim xs)),
            e - int (length (snd (rvl_list lim xs))))"
    using Cons.prems(2) by (intro Cons.IH) auto
  with b Cons.prems(2) show ?case
    by (subst rvl_loop.simps) (auto split: prod.splits option.splits simp: algebra_simps take_bit_eq_mod)
qed

lemma rvl_list_suffix:
  "rvl_list lim xs = (r, ys) \<Longrightarrow> \<exists>k \<le> length xs. ys = drop k xs"
proof (induction lim xs arbitrary: r ys rule: rvl_list.induct)
  case (2 lim b xs)
  show ?case
  proof (cases "length (b # xs) \<le> lim")
    case True
    with "2.prems" show ?thesis
      by (intro exI [of _ 0]) auto
  next
    case False
    show ?thesis
    proof (cases "b = 255")
      case True
      obtain r' ys' where rec: "rvl_list lim xs = (r', ys')"
        by (cases "rvl_list lim xs")
      with "2.IH" False True obtain k where "k \<le> length xs" "ys' = drop k xs"
        by blast
      with rec "2.prems" False True show ?thesis
        by (intro exI [of _ "Suc k"]) (auto split: option.splits)
    next
      case False
      with "2.prems" \<open>\<not> length (b # xs) \<le> lim\<close> show ?thesis
        by (intro exI [of _ 1]) auto
    qed
  qed
qed simp

lemma rvl_list_bound: "rvl_list lim xs = (Some n, ys) \<Longrightarrow> n \<le> 255 * length xs"
proof (induction lim xs arbitrary: n ys rule: rvl_list.induct)
  case (2 lim b xs)
  show ?case
  proof (cases "b = 255")
    case True
    with "2.prems" obtain k where k: "rvl_list lim xs = (Some k, ys)" "n = k + 255"
      by (auto split: if_splits prod.splits option.splits)
    with True "2.prems" have "k \<le> 255 * length xs"
      by (intro "2.IH") (auto split: if_splits)
    with k show ?thesis
      by simp
  next
    case False
    with "2.prems" show ?thesis
      using unat_byte_lt [of b] by (auto split: if_splits)
  qed
qed simp

lemma tracked_rvl:
  assumes "tracks c m0 m ip op xs h room" and "dec_ok c m0" and rvl: "rvl_list lim xs = (r, ys)"
  shows "\<exists>ip'. read_variable_length m ip (c_iend c - int lim) = Some (map_option int r, ip') \<and>
           tracks c m0 m ip' op ys h room"
proof -
  obtain k where k: "k \<le> length xs" "ys = drop k xs"
    using rvl_list_suffix [OF rvl] by blast
  have "read_variable_length m ip (c_iend c - int lim) =
      Some (map_option int r, c_iend c - int (length ys))"
    using rvl_loop_list [of xs m ip "c_iend c" lim 0] tracked_byte [OF assms(1,2)]
      trackedD(3) [OF assms(1)] rvl
    by (simp add: read_variable_length_loop)
  moreover have "tracks c m0 m (c_iend c - int (length ys)) op ys h room"
    using tracked_drop [OF assms(1) k(1)] trackedD(3) [OF assms(1)] k by simp
  ultimately show ?thesis
    by blast
qed

text \<open>The tests for a wrap-around of a pointer find exactly the lengths that leave the address
  space; these are too large for the buffer anyway.\<close>

lemma U64_wrap:
  assumes "0 \<le> p" and "p < 18446744073709551616" and "0 \<le> n" and "n < 18446744073709551616"
  shows "U64 (p + n) < U64 p \<longleftrightarrow> 18446744073709551616 \<le> p + n"
proof (cases "18446744073709551616 \<le> p + n")
  case True
  have "U64 (p + n) = (p + n - 18446744073709551616) mod 18446744073709551616"
    by (simp add: U64_def mod_diff_eq [symmetric, of _ "18446744073709551616"])
  also have "\<dots> = p + n - 18446744073709551616"
    using True assms by (intro mod_pos_pos_trivial) auto
  finally show ?thesis
    using True assms by simp
next
  case False
  with assms show ?thesis
    by simp
qed

lemma tracked_length:
  assumes "tracks c m0 m ip op xs h room" and "dec_ok c m0"
  shows "length xs < 2147483648"
  using trackedD(2,3) [OF assms(1)] dec_okD(6) [OF assms(2)] by (simp add: c_iend_def)

lemma tracked_wrap:
  assumes "tracks c m0 m ip op xs h room" and "dec_ok c m0" and "n \<le> 1000000000000"
  shows "U64 (op + int n) < U64 op \<Longrightarrow> room < n"
    and "U64 (ip + int n) < U64 ip \<Longrightarrow> length xs < n"
proof -
  have "0 \<le> op" "op < 18446744073709551616"
    using trackedD(5,6) [OF assms(1)] dec_okD(8,9,11) [OF assms(2)] by auto
  with assms(3) have "U64 (op + int n) < U64 op \<longleftrightarrow> 18446744073709551616 \<le> op + int n"
    by (intro U64_wrap) auto
  then show "U64 (op + int n) < U64 op \<Longrightarrow> room < n"
    using trackedD(6) [OF assms(1)] dec_okD(11) [OF assms(2)] by auto
next
  have "0 \<le> ip" "ip < 18446744073709551616"
    using trackedD(2,3) [OF assms(1)] dec_okD(4,7) [OF assms(2)] by auto
  with assms(3) have "U64 (ip + int n) < U64 ip \<longleftrightarrow> 18446744073709551616 \<le> ip + int n"
    by (intro U64_wrap) auto
  then show "U64 (ip + int n) < U64 ip \<Longrightarrow> length xs < n"
    using trackedD(3) [OF assms(1)] dec_okD(7) [OF assms(2)] by auto
qed

section \<open>Writing the output\<close>

text \<open>What is written from the output pointer to the end of the output buffer.\<close>

lemma tracked_write:
  assumes "tracks c m0 m ip op xs h room" and "dec_ok c m0"
    and "dom m' = dom m" and "\<forall>x. x < op \<or> c_oend c \<le> x \<longrightarrow> m' x = m x"
  shows "framed c m0 m'" and "behind m m' (c_recent c) (c_dl c) op" and "c_hist c \<le> op"
proof -
  show "framed c m0 m'"
    using trackedD(1,5) [OF assms(1)] assms(3,4) by (auto simp: framed_def)
  show "behind m m' (c_recent c) (c_dl c) op"
    by (rule behindI [where hi = "c_oend c"])
      (use assms(4) dec_okD(18,19) [OF assms(2)] trackedD(5) [OF assms(1)] in auto)
  show "c_hist c \<le> op"
    using trackedD(5) [OF assms(1)] dec_okD(9) [OF assms(2)] by simp
qed

lemma tracked_literals:
  assumes "tracks c m0 m ip op xs h room" and "dec_ok c m0" and "ll \<le> length xs" and "ll \<le> room"
    and copy: "copied m m' op ip (op + int ll) hi" and "hi \<le> c_oend c"
  shows "tracks c m0 m' (ip + int ll) (op + int ll) (drop ll xs) (h @ take ll xs) (room - ll)"
proof -
  note w = tracked_write [OF assms(1,2) copied_dom [OF copy]]
  have out: "\<forall>x. x < op \<or> c_oend c \<le> x \<longrightarrow> m' x = m x"
    using copied_frame [OF copy] assms(6) by auto
  note frame = w(1) [OF out]
  have "bytes m' op ll = take ll xs"
  proof (rule nth_equalityI)
    fix i
    assume "i < length (bytes m' op ll)"
    then have i: "i < ll" "i < length xs"
      using assms(3) by auto
    have "m' (op + int i) = m' (ip + int i)"
      using copied_at [OF copy, of "op + int i"] i by simp
    also have "\<dots> = m0 (ip + int i)"
      using framed_input [OF frame assms(2)] trackedD(2,3) [OF assms(1)] i by simp
    also have "\<dots> = m (ip + int i)"
      using framed_input [OF trackedD(1) [OF assms(1)] assms(2)] trackedD(2,3) [OF assms(1)] i by simp
    finally show "bytes m' op ll ! i = take ll xs ! i"
      using tracked_byte [OF assms(1,2)] i by simp
  qed (use assms(3) in simp)
  then have "d_history c m' (op + int ll) = d_history c m op @ take ll xs"
    unfolding d_history_def by (rule history_append [OF w(2,3) [OF out]])
  then show ?thesis
    using tracked_drop [OF assms(1,3)] frame assms(4) by (simp add: tracks_def)
qed

lemma tracked_match:
  assumes "tracks c m0 m ip op xs h room" and "dec_ok c m0" and "c_hist c \<le> op - int off" and "n \<le> room"
    and copy: "match_copied m m' op (int off) (op + int n) hi" and "hi \<le> c_oend c"
  shows "tracks c m0 m' ip (op + int n) xs (lz_copy h off n) (room - n)"
proof -
  note w = tracked_write [OF assms(1,2) match_copied_dom [OF copy]]
  have out: "\<forall>x. x < op \<or> c_oend c \<le> x \<longrightarrow> m' x = m x"
    using copy assms(6) by (auto simp: match_copied_def)
  have "region m (c_hist c) (op + int n)"
    unfolding framed_region [OF trackedD(1) [OF assms(1)]]
    by (rule region_sub [OF dec_okD(14) [OF assms(2)]])
      (use trackedD(6) [OF assms(1)] assms(4) in auto)
  then have "d_history c m' (op + int n) = lz_copy (d_history c m op) off n"
    unfolding d_history_def by (intro history_match [OF copy w(2) [OF out]]) (use assms(3) in auto)
  then show ?thesis
    using assms(1,4) w(1) [OF out] by (simp add: tracks_def)
qed

lemma tracked_region:
  assumes "tracks c m0 m ip op xs h room" and "dec_ok c m0"
  shows "region m (c_hist c) (c_oend c)" "region m ip (c_iend c)"
proof -
  show "region m (c_hist c) (c_oend c)"
    using dec_okD(14) [OF assms(2)] by (simp add: framed_region [OF trackedD(1) [OF assms(1)]])
  show "region m ip (c_iend c)"
    unfolding framed_region [OF trackedD(1) [OF assms(1)]]
    by (rule region_sub [OF dec_okD(13) [OF assms(2)]]) (use trackedD(2) [OF assms(1)] in auto)
qed

section \<open>The labels of the safe loop\<close>

text \<open>The head of the safe loop is right for all inputs up to a length; the statements about
  the labels assume it for the input after the current sequence.\<close>

definition safe_upto :: "dec_cfg \<Rightarrow> mem \<Rightarrow> nat \<Rightarrow> bool" where
  "safe_upto c m0 k \<longleftrightarrow>
     (\<forall>s xs h room. tracks c m0 (d_mem s) (d_ip s) (d_op s) xs h room \<longrightarrow> xs \<noteq> [] \<longrightarrow>
        length xs \<le> k \<longrightarrow> refines c m0 SafeDecode s (ref_dec (c_dl c) xs h room))"

lemma safe_uptoD:
  "safe_upto c m0 k \<Longrightarrow> tracks c m0 (d_mem s) (d_ip s) (d_op s) xs h room \<Longrightarrow> xs \<noteq> [] \<Longrightarrow>
     length xs \<le> k \<Longrightarrow> refines c m0 SafeDecode s (ref_dec (c_dl c) xs h room)"
  by (simp add: safe_upto_def)

lemma tracked_error:
  assumes "tracks c m0 (d_mem s) (d_ip s) (d_op s) xs h room"
  shows "refines c m0 OutputError s (RErr (length xs))"
  by (rule refines_error) (use trackedD [OF assms] in auto)

text \<open>A match in the external dictionary, in either loop.\<close>

lemma tracked_ext_dict:
  assumes t: "tracks c m0 (d_mem s) (d_ip s) (d_op s) xs h room" and ok: "dec_ok c m0"
    and fields: "d_length s = int n" "d_match s = d_op s - int off"
    and off: "off < 65536" "off \<le> length h" "length h < off + c_dl c"
  shows "room < n + 5 \<Longrightarrow> dec_ext_dict_match c pc s = Some (OutputError, s)"
    and "n + 5 \<le> room \<Longrightarrow>
      \<exists>m. dec_ext_dict_match c pc s = Some (pc, s\<lparr>d_mem := m, d_op := d_op s + int n\<rparr>) \<and>
          tracks c m0 m (d_ip s) (d_op s + int n) xs (lz_copy h off n) (room - n)"
proof -
  have oend: "c_oend c = d_op s + int room"
    by (rule trackedD(6) [OF t])
  show "dec_ext_dict_match c pc s = Some (OutputError, s)" if "room < n + 5"
    using that oend dec_okD(1) [OF ok] by (simp add: dec_ext_dict_match_def fields)
  show "\<exists>m. dec_ext_dict_match c pc s = Some (pc, s\<lparr>d_mem := m, d_op := d_op s + int n\<rparr>) \<and>
          tracks c m0 m (d_ip s) (d_op s + int n) xs (lz_copy h off n) (room - n)"
    if "n + 5 \<le> room"
  proof -
    have ext: "c_dict c = usingExtDict" "d_op s - int off < c_lowPrefix c"
      using offset_checks(2) [OF t ok off(1,2)] off(3) by auto
    then have hist: "c_hist c = c_lowPrefix c"
      by (simp add: c_hist_def)
    have dl: "0 < c_dictSize c"
      using off dec_okD(19) [OF ok] by linarith
    have dreg: "region (d_mem s) (c_recent c) (c_recent c + int (c_dl c))"
      using dec_okD(17) [OF ok] by (simp add: framed_region [OF trackedD(1) [OF t]])
    have "\<exists>m'. dec_ext_dict_match c pc s = Some (pc, s\<lparr>d_mem := m', d_op := d_op s + int n\<rparr>) \<and>
        dom m' = dom (d_mem s) \<and> (\<forall>x. x < d_op s \<or> c_oend c \<le> x \<longrightarrow> m' x = d_mem s x) \<and>
        history m' (c_recent c) (c_dl c) (c_lowPrefix c) (d_op s + int n) =
          lz_copy (history (d_mem s) (c_recent c) (c_dl c) (c_lowPrefix c) (d_op s)) off n"
      by (rule dec_ext_dict_match_law)
        (use dec_okD(1,9,16,18) [OF ok] dl fields ext hist tracked_history [OF t ok] off(2) that oend
          trackedD(5) [OF t] tracked_region(1) [OF t ok] dreg in \<open>auto simp: c_recent_def\<close>)
    then obtain m where m: "dec_ext_dict_match c pc s = Some (pc, s\<lparr>d_mem := m, d_op := d_op s + int n\<rparr>)"
        "dom m = dom (d_mem s)" "\<forall>x. x < d_op s \<or> c_oend c \<le> x \<longrightarrow> m x = d_mem s x"
      and h: "d_history c m (d_op s + int n) = lz_copy (d_history c (d_mem s) (d_op s)) off n"
      by (auto simp: d_history_def hist)
    then have "tracks c m0 m (d_ip s) (d_op s + int n) xs (lz_copy h off n) (room - n)"
      using t that tracked_write(1) [OF t ok m(2,3)] by (simp add: tracks_def)
    with m(1) show ?thesis
      by blast
  qed
qed

lemma refines_SafeMatchCopy:
  assumes t: "tracks c m0 (d_mem s) (d_ip s) (d_op s) xs h room" and ok: "dec_ok c m0"
    and "12 \<le> room" and fields: "d_offset s = int off" "d_length s = int n" "d_match s = d_op s - int off"
    and "4 \<le> n" and off: "off < 65536" and safe: "safe_upto c m0 (length xs)" "xs \<noteq> []"
  shows "refines c m0 SafeMatchCopy s (ref_continue (c_dl c) (ref_match_copy off n xs h room))"
proof -
  have oend: "c_oend c = d_op s + int room"
    by (rule trackedD(6) [OF t])
  have "\<exists>pc' s'. dec_safe_match_copy c s = Some (pc', s') \<and>
      refines c m0 pc' s' (ref_continue (c_dl c) (ref_match_copy off n xs h room))"
  proof (cases "length h < off")
    case True
    then have "dec_safe_match_copy c s = Some (OutputError, s)"
      using offset_checks(1) [OF t ok off] by (simp add: dec_safe_match_copy_def fields(3))
    then show ?thesis
      using True tracked_error [OF t] by (simp add: ref_match_copy_def)
  next
    case False
    then have checked: "\<not> (c_checkOffset c \<and> d_match s + c_dictSize c < c_lowPrefix c)" and le: "off \<le> length h"
      using offset_checks(1) [OF t ok off] by (auto simp: fields(3))
    have cont: "refines c m0 SafeDecode (s\<lparr>d_mem := m, d_op := d_op s + int n\<rparr>)
        (ref_continue (c_dl c) (ref_match_copy off n xs h room))"
      if "tracks c m0 m (d_ip s) (d_op s + int n) xs (lz_copy h off n) (room - n)" "n + 5 \<le> room" for m
    proof -
      have "refines c m0 SafeDecode (s\<lparr>d_mem := m, d_op := d_op s + int n\<rparr>)
          (ref_dec (c_dl c) xs (lz_copy h off n) (room - n))"
        by (rule safe_uptoD [OF safe(1)]) (use that safe(2) in auto)
      then show ?thesis
        using le that(2) by (simp add: ref_match_copy_def)
    qed
    show ?thesis
    proof (cases "length h < off + c_dl c")
      case True
      have step: "dec_safe_match_copy c s = dec_ext_dict_match c SafeDecode s"
        using offset_checks(2) [OF t ok off le] True unfolding dec_safe_match_copy_def Let_def if_not_P [OF checked]
        by (simp add: fields(3))
      show ?thesis
      proof (cases "room < n + 5")
        case short: True
        have "dec_safe_match_copy c s = Some (OutputError, s)"
          using tracked_ext_dict(1) [OF t ok fields(2,3) off le True short] by (simp add: step)
        then show ?thesis
          using short tracked_error [OF t] by (simp add: ref_match_copy_def)
      next
        case enough: False
        then obtain m where "dec_safe_match_copy c s = Some (SafeDecode, s\<lparr>d_mem := m, d_op := d_op s + int n\<rparr>)"
          and "tracks c m0 m (d_ip s) (d_op s + int n) xs (lz_copy h off n) (room - n)"
          using tracked_ext_dict(2) [OF t ok fields(2,3) off le True, where pc = SafeDecode] by (auto simp: step)
        with cont enough show ?thesis
          by auto
      qed
    next
      case prefix: False
      then have near: "\<not> (c_dict c = usingExtDict \<and> d_match s < c_lowPrefix c)"
        and low: "c_hist c \<le> d_op s - int off"
        using offset_checks(2,3) [OF t ok off le] by (auto simp: fields(3))
      have reg: "region (d_mem s) (d_match s) (c_oend c)"
        by (rule region_sub [OF tracked_region(1) [OF t ok]]) (use low fields(3) in auto)
      note law = dec_safe_match_copy_law [OF dec_okD(1) [OF ok] checked near reg]
      show ?thesis
      proof (cases "room < n + 5")
        case True
        then obtain m where m: "dec_safe_match_copy c s = Some (OutputError, s\<lparr>d_mem := m\<rparr>)"
          and mc: "match_copied (d_mem s) m (d_op s) (int off) (d_op s + 8) (d_op s + 8)"
          using law(1) oend assms(3,7) by (auto simp: fields)
        have "framed c m0 m"
          using trackedD(1,5) [OF t] mc oend assms(3) by (auto simp: framed_def match_copied_def)
        then have "refines c m0 OutputError (s\<lparr>d_mem := m\<rparr>) (RErr (length xs))"
          using trackedD(3) [OF t] by (intro refines_error) auto
        then show ?thesis
          using True m by (simp add: ref_match_copy_def)
      next
        case False
        then obtain m where m: "dec_safe_match_copy c s =
            Some (SafeDecode, s\<lparr>d_mem := m, d_op := d_op s + int n\<rparr>)"
          and mc: "match_copied (d_mem s) m (d_op s) (int off) (d_op s + int n) (c_oend c)"
          using law(2) oend assms(3,7) by (auto simp: fields)
        have "tracks c m0 m (d_ip s) (d_op s + int n) xs (lz_copy h off n) (room - n)"
          by (rule tracked_match [OF t ok low _ mc]) (use False in auto)
        with cont False m show ?thesis
          by auto
      qed
    qed
  qed
  then show ?thesis
    by (auto intro: refines_step)
qed

lemma safe_upto_mono: "safe_upto c m0 k \<Longrightarrow> j \<le> k \<Longrightarrow> safe_upto c m0 j"
  by (simp add: safe_upto_def)

lemma refines_CopyMatch:
  assumes t: "tracks c m0 (d_mem s) (d_ip s) (d_op s) xs h room" and ok: "dec_ok c m0"
    and "12 \<le> room" and fields: "d_offset s = int off" "d_length s = int ml" "d_match s = d_op s - int off"
    and off: "off < 65536" and safe: "safe_upto c m0 (length xs)" "xs \<noteq> []"
  shows "refines c m0 CopyMatch s (ref_continue (c_dl c) (ref_match ml off xs h room))"
proof (cases "ml = 15")
  case False
  then have step: "dec_step c CopyMatch s = Some (SafeMatchCopy, s\<lparr>d_length := d_length s + 4\<rparr>)"
    by (simp add: dec_copy_match_def fields)
  have "refines c m0 SafeMatchCopy (s\<lparr>d_length := d_length s + 4\<rparr>)
      (ref_continue (c_dl c) (ref_match_copy off (ml + 4) xs h room))"
    by (rule refines_SafeMatchCopy) (use assms in auto)
  then show ?thesis
    using False by (auto simp: ref_match_def intro: refines_step [OF step])
next
  case True
  obtain r ys where rvl: "rvl_list 6 xs = (r, ys)"
    by fastforce
  obtain ip' where read: "read_variable_length (d_mem s) (d_ip s) (c_iend c - 6) = Some (map_option int r, ip')"
    and t': "tracks c m0 (d_mem s) ip' (d_op s) ys h room"
    using tracked_rvl [OF t ok rvl] by auto
  show ?thesis
  proof (cases r)
    case None
    then have "dec_step c CopyMatch s = Some (OutputError, s\<lparr>d_ip := ip'\<rparr>)"
      using read True by (simp add: dec_copy_match_def fields)
    moreover have "refines c m0 OutputError (s\<lparr>d_ip := ip'\<rparr>) (RErr (length ys))"
      by (rule tracked_error) (use t' in simp)
    ultimately show ?thesis
      using True None rvl by (auto simp: ref_match_def intro: refines_step)
  next
    case (Some a)
    then have ys: "xs = ext_len a @ ys" "6 \<le> length ys"
      using rvl_list_Some rvl by auto
    define n where "n = 15 + a + 4"
    have ref: "ref_match ml off xs h room = ref_match_copy off n ys h room"
      using True Some rvl by (simp add: ref_match_def n_def)
    have bound: "15 + a \<le> 1000000000000"
      using rvl_list_bound [of 6 xs a ys] rvl Some tracked_length [OF t ok] by simp
    let ?s = "s\<lparr>d_ip := ip', d_length := 15 + int a\<rparr>"
    show ?thesis
    proof (cases "U64 (d_op s + (15 + int a)) < U64 (d_op s)")
      case wrap: True
      have "room < 15 + a"
        using tracked_wrap(1) [OF t ok bound] wrap by simp
      then have "ref_match_copy off n ys h room = RErr (length ys)"
        by (simp add: ref_match_copy_def n_def)
      moreover have "dec_step c CopyMatch s = Some (OutputError, ?s)"
        using read True Some wrap by (simp add: dec_copy_match_def fields Let_def)
      moreover have "refines c m0 OutputError ?s (RErr (length ys))"
        by (rule tracked_error) (use t' in simp)
      ultimately show ?thesis
        by (auto simp: ref intro: refines_step)
    next
      case False
      then have step: "dec_step c CopyMatch s = Some (SafeMatchCopy, ?s\<lparr>d_length := int n\<rparr>)"
        using read True Some by (simp add: dec_copy_match_def fields Let_def n_def)
      have "refines c m0 SafeMatchCopy (?s\<lparr>d_length := int n\<rparr>)
          (ref_continue (c_dl c) (ref_match_copy off n ys h room))"
        by (rule refines_SafeMatchCopy)
          (use t' ok assms(3) fields off ys safe in \<open>auto simp: n_def intro: safe_upto_mono\<close>)
      then show ?thesis
        by (simp add: ref refines_step [OF step])
    qed
  qed
qed

lemma refines_get_offset:
  assumes t: "tracks c m0 (d_mem s) (d_ip s) (d_op s) xs h room" and ok: "dec_ok c m0"
    and "12 \<le> room" and "3 \<le> length xs" and "d_token s mod 16 = int ml"
    and safe: "safe_upto c m0 (length xs - 2)"
  shows "\<exists>s'. dec_get_offset s = Some (CopyMatch, s') \<and>
           refines c m0 CopyMatch s' (ref_continue (c_dl c) (ref_match ml (le16 xs) (drop 2 xs) h room))"
proof -
  define s' where "s' = s\<lparr>d_ip := d_ip s + 2, d_offset := int (le16 xs),
      d_match := d_op s - int (le16 xs), d_length := int ml\<rparr>"
  have "dec_get_offset s = Some (CopyMatch, s')"
    using tracked_readLE16 [OF t ok] assms(4,5) by (simp add: dec_get_offset_def s'_def)
  moreover have "refines c m0 CopyMatch s' (ref_continue (c_dl c) (ref_match ml (le16 xs) (drop 2 xs) h room))"
    by (rule refines_CopyMatch)
      (use tracked_drop [OF t, of 2] ok assms(3,4) safe in \<open>auto simp: s'_def le16_bound\<close>)
  ultimately show ?thesis
    by blast
qed

lemma refines_SafeLiteralCopy:
  assumes t: "tracks c m0 (d_mem s) (d_ip s) (d_op s) xs h room" and ok: "dec_ok c m0"
    and fields: "d_length s = int ll" "d_token s mod 16 = int ml"
    and safe: "safe_upto c m0 (length xs - 1)"
  shows "refines c m0 SafeLiteralCopy s (ref_continue (c_dl c) (ref_literals ll ml xs h room))"
proof -
  have ends: "c_oend c = d_op s + int room" "c_iend c = d_ip s + int (length xs)"
    using trackedD(3,6) [OF t] by auto
  show ?thesis
  proof (cases "room < ll + 12 \<or> length xs < ll + 8")
    case last: True
    then have near: "d_op s + d_length s > c_oend c - 12 \<or> d_ip s + d_length s > c_iend c - 8"
      using ends by (auto simp: fields)
    show ?thesis
    proof (cases "length xs \<noteq> ll \<or> room < ll")
      case True
      then have "dec_step c SafeLiteralCopy s = Some (OutputError, s)"
        using near ends dec_okD(1) [OF ok] by (auto simp: dec_safe_literal_copy_def Let_def fields)
      then show ?thesis
        using True last tracked_error [OF t] by (auto simp: ref_literals_def intro: refines_step)
    next
      case False
      define m where "m = put (d_mem s) (d_op s) (bytes (d_mem s) (d_ip s) ll)"
      let ?s = "s\<lparr>d_mem := m, d_ip := d_ip s + int ll, d_op := d_op s + int ll, d_length := int ll\<rparr>"
      have regs: "region (d_mem s) (d_ip s) (d_ip s + int ll)" "region (d_mem s) (d_op s) (d_op s + int ll)"
        using False ends trackedD(5) [OF t] dec_okD(9) [OF ok]
        by (auto intro: region_sub [OF tracked_region(1) [OF t ok]] region_sub [OF tracked_region(2) [OF t ok]])
      have "copied (d_mem s) m (d_op s) (d_ip s) (d_op s + int ll) (d_op s + int ll)"
        if "0 < ll"
      proof -
        have "int ll \<le> \<bar>d_op s - d_ip s\<bar>"
          using dec_okD(15) [OF ok] ends False trackedD(2,5) [OF t] by auto
        from LZ4_memcpy_copied [OF regs this] LZ4_memcpy_Some [OF regs] this
        show ?thesis by (auto simp: m_def)
      qed
      moreover have "copied (d_mem s) m (d_op s) (d_ip s) (d_op s + int ll) (d_op s + int ll)" if "ll = 0"
        using that by (auto simp: copied_def m_def)
      ultimately have cp: "copied (d_mem s) m (d_op s) (d_ip s) (d_op s + int ll) (d_op s + int ll)"
        by blast
      have t': "tracks c m0 m (d_ip s + int ll) (d_op s + int ll) (drop ll xs) (h @ take ll xs) (room - ll)"
        by (rule tracked_literals [OF t ok _ _ cp]) (use False ends in auto)
      have "dec_step c SafeLiteralCopy s = Some (EndOfDecoding, ?s)"
        using near ends dec_okD(1) [OF ok] False LZ4_memmove_Some [OF regs]
        by (auto simp: dec_safe_literal_copy_def Let_def fields m_def)
      moreover have "refines c m0 EndOfDecoding ?s (RDone (h @ xs))"
        by (rule refines_done [OF ok]) (use trackedD [OF t'] False in auto)
      ultimately show ?thesis
        using False last by (auto simp: ref_literals_def intro: refines_step)
    qed
  next
    case False
    let ?hi = "max (d_op s + int ll + 7) (d_op s + 8)"
    have "\<exists>m'. LZ4_wildCopy8 (d_mem s) (d_op s) (d_ip s) (d_op s + int ll) = Some m' \<and>
        copied (d_mem s) m' (d_op s) (d_ip s) (d_op s + int ll) ?hi"
    proof (rule LZ4_wildCopy8_copied)
      show "region (d_mem s) (d_op s) ?hi"
        by (rule region_sub [OF tracked_region(1) [OF t ok]])
          (use False ends trackedD(5) [OF t] dec_okD(9) [OF ok] in auto)
      show "region (d_mem s) (d_ip s) (d_ip s + (?hi - d_op s))"
        by (rule region_sub [OF tracked_region(2) [OF t ok]]) (use False ends in auto)
      show "8 \<le> d_op s - d_ip s \<or> ?hi \<le> d_ip s"
        using dec_okD(15) [OF ok] ends False trackedD(2,5) [OF t] by auto
    qed auto
    then obtain m where m: "LZ4_wildCopy8 (d_mem s) (d_op s) (d_ip s) (d_op s + int ll) = Some m"
      and cp: "copied (d_mem s) m (d_op s) (d_ip s) (d_op s + int ll) ?hi"
      by blast
    let ?s = "s\<lparr>d_mem := m, d_ip := d_ip s + int ll, d_op := d_op s + int ll\<rparr>"
    have t': "tracks c m0 m (d_ip s + int ll) (d_op s + int ll) (drop ll xs) (h @ take ll xs) (room - ll)"
      by (rule tracked_literals [OF t ok _ _ cp]) (use False ends in auto)
    have "\<exists>s'. dec_get_offset ?s = Some (CopyMatch, s') \<and>
        refines c m0 CopyMatch s'
          (ref_continue (c_dl c) (ref_match ml (le16 (drop ll xs)) (drop 2 (drop ll xs)) (h @ take ll xs) (room - ll)))"
      by (rule refines_get_offset)
        (use t' ok False fields in \<open>auto intro: safe_upto_mono [OF safe]\<close>)
    then obtain s' where s': "dec_get_offset ?s = Some (CopyMatch, s')"
      and ref: "refines c m0 CopyMatch s'
          (ref_continue (c_dl c) (ref_match ml (le16 (drop ll xs)) (drop 2 (drop ll xs)) (h @ take ll xs) (room - ll)))"
      by blast
    have "dec_step c SafeLiteralCopy s = Some (CopyMatch, s')"
      using False ends m s' by (simp add: dec_safe_literal_copy_def Let_def fields)
    from refines_step [OF this _ _ ref] show ?thesis
      using False by (simp add: ref_literals_def add.commute)
  qed
qed

lemma refines_SafeLiteralCopyEarly:
  assumes t: "tracks c m0 (d_mem s) (d_ip s) (d_op s) xs h room" and ok: "dec_ok c m0"
    and fields: "d_length s = int ll" "d_token s mod 16 = int ml"
    and safe: "safe_upto c m0 (length xs)"
  shows "refines c m0 SafeLiteralCopyEarly s (ref_continue (c_dl c) (ref_literals_early ll ml xs h room))"
proof (cases "ll = 15")
  case False
  then have step: "dec_step c SafeLiteralCopyEarly s = Some (SafeLiteralCopy, s)"
    by (simp add: dec_safe_literal_copy_early_def fields)
  have "refines c m0 SafeLiteralCopy s (ref_continue (c_dl c) (ref_literals ll ml xs h room))"
    by (rule refines_SafeLiteralCopy [OF t ok fields]) (rule safe_upto_mono [OF safe], simp)
  then show ?thesis
    using False by (auto simp: ref_literals_early_def intro: refines_step [OF step])
next
  case True
  obtain r ys where rvl: "rvl_list 15 xs = (r, ys)"
    by fastforce
  obtain ip' where read: "read_variable_length (d_mem s) (d_ip s) (c_iend c - 15) = Some (map_option int r, ip')"
    and t': "tracks c m0 (d_mem s) ip' (d_op s) ys h room"
    using tracked_rvl [OF t ok rvl] by auto
  show ?thesis
  proof (cases r)
    case None
    then have "dec_step c SafeLiteralCopyEarly s = Some (OutputError, s\<lparr>d_ip := ip'\<rparr>)"
      using read True by (simp add: dec_safe_literal_copy_early_def fields)
    moreover have "refines c m0 OutputError (s\<lparr>d_ip := ip'\<rparr>) (RErr (length ys))"
      by (rule tracked_error) (use t' in simp)
    ultimately show ?thesis
      using True None rvl by (auto simp: ref_literals_early_def intro: refines_step)
  next
    case (Some a)
    then have ys: "length ys \<le> length xs"
      using rvl_list_length rvl by blast
    have ref: "ref_literals_early ll ml xs h room = ref_literals (15 + a) ml ys h room"
      using True Some rvl by (simp add: ref_literals_early_def)
    have bound: "15 + a \<le> 1000000000000"
      using rvl_list_bound [of 15 xs a ys] rvl Some tracked_length [OF t ok] by simp
    let ?s = "s\<lparr>d_ip := ip', d_length := 15 + int a\<rparr>"
    note wraps = tracked_wrap [OF t' ok bound]
    show ?thesis
    proof (cases "U64 (d_op s + (15 + int a)) < U64 (d_op s) \<or> U64 (ip' + (15 + int a)) < U64 ip'")
      case wrap: True
      then have "room < 15 + a \<or> length ys < 15 + a"
        using wraps by auto
      then have "ref_literals (15 + a) ml ys h room = RErr (length ys)"
        by (auto simp: ref_literals_def)
      moreover have "dec_step c SafeLiteralCopyEarly s = Some (OutputError, ?s)"
        using read True Some wrap by (auto simp: dec_safe_literal_copy_early_def fields Let_def)
      moreover have "refines c m0 OutputError ?s (RErr (length ys))"
        by (rule tracked_error) (use t' in simp)
      ultimately show ?thesis
        by (auto simp: ref intro: refines_step)
    next
      case False
      then have step: "dec_step c SafeLiteralCopyEarly s = Some (SafeLiteralCopy, ?s)"
        using read True Some by (simp add: dec_safe_literal_copy_early_def fields Let_def)
      have "refines c m0 SafeLiteralCopy ?s (ref_continue (c_dl c) (ref_literals (15 + a) ml ys h room))"
        by (rule refines_SafeLiteralCopy)
          (use t' ok fields ys in \<open>auto intro: safe_upto_mono [OF safe]\<close>)
      then show ?thesis
        by (simp add: ref refines_step [OF step])
    qed
  qed
qed

section \<open>The literals of the shortcut and of the fast loop\<close>

lemma tracked_memcpy16:
  assumes t: "tracks c m0 m ip op xs h room" and ok: "dec_ok c m0"
    and "ll \<le> 16" and "16 \<le> length xs" and "16 \<le> room"
  shows "\<exists>m'. LZ4_memcpy m op ip 16 = Some m' \<and>
           tracks c m0 m' (ip + int ll) (op + int ll) (drop ll xs) (h @ take ll xs) (room - ll)"
proof -
  have ends: "c_oend c = op + int room" "c_iend c = ip + int (length xs)"
    using trackedD(3,6) [OF t] by auto
  have "\<exists>m'. LZ4_memcpy m op ip 16 = Some m' \<and> copied m m' op ip (op + int 16) (op + int 16)"
  proof (rule LZ4_memcpy_copied)
    show "region m ip (ip + int 16)"
      by (rule region_sub [OF tracked_region(2) [OF t ok]]) (use assms ends in auto)
    show "region m op (op + int 16)"
      by (rule region_sub [OF tracked_region(1) [OF t ok]])
        (use assms ends trackedD(5) [OF t] dec_okD(9) [OF ok] in auto)
    show "int 16 \<le> \<bar>op - ip\<bar>"
      using dec_okD(15) [OF ok] ends assms(4,5) trackedD(2,5) [OF t] by auto
  qed
  then obtain m' where m': "LZ4_memcpy m op ip 16 = Some m'" and cp: "copied m m' op ip (op + 16) (op + 16)"
    by auto
  have "copied m m' op ip (op + int ll) (op + 16)"
    by (rule copied_weaken [OF cp]) (use assms(3) in auto)
  then have "tracks c m0 m' (ip + int ll) (op + int ll) (drop ll xs) (h @ take ll xs) (room - ll)"
    by (rule tracked_literals [OF t ok, rotated 2]) (use assms ends in auto)
  with m' show ?thesis
    by blast
qed

text \<open>The copy of 18 bytes for a match of at most that length.\<close>

lemma tracked_copy18:
  assumes t: "tracks c m0 m ip op xs h room" and ok: "dec_ok c m0"
    and "8 \<le> off" and "c_hist c \<le> op - int off" and "n \<le> 18" and "18 \<le> room"
  shows "\<exists>m'. copy18 m op (op - int off) = Some m' \<and>
           tracks c m0 m' ip (op + int n) xs (lz_copy h off n) (room - n)"
proof -
  have "region m (op - int off) (op + 18)"
    by (rule region_sub [OF tracked_region(1) [OF t ok]])
      (use assms(4,6) trackedD(6) [OF t] tracked_history [OF t ok] in auto)
  from copy18_law [OF _ this] assms(3) obtain m' where m': "copy18 m op (op - int off) = Some m'"
    and mc: "match_copied m m' op (int off) (op + 18) (op + 18)"
    by auto
  have "match_copied m m' op (int off) (op + int n) (op + 18)"
    by (rule match_copied_weaken [OF mc]) (use assms(5) in auto)
  then have "tracks c m0 m' ip (op + int n) xs (lz_copy h off n) (room - n)"
    by (rule tracked_match [OF t ok assms(4), rotated]) (use assms(5,6) trackedD(6) [OF t] in auto)
  with m' show ?thesis
    by blast
qed

section \<open>The safe loop\<close>

lemma token_nat:
  "uint (b :: byte) div 16 = int (unat b div 16)" "uint b mod 16 = int (unat b mod 16)"
  by (simp_all add: zdiv_int zmod_int)

lemma refines_shortcut:
  assumes t: "tracks c m0 m ip op ys h room" and ok: "dec_ok c m0"
    and "ll < 15" and "ml < 16" and "17 \<le> length ys" and "32 \<le> room"
    and safe: "safe_upto c m0 (length ys)"
  shows "\<exists>pc' s' m1 offset. LZ4_memcpy m op ip 16 = Some m1 \<and> LZ4_readLE16 m1 (ip + int ll) = Some offset \<and>
     (if int ml \<noteq> 15 \<and> offset \<ge> 8 \<and> (c_dict c = withPrefix64k \<or> op + int ll - offset \<ge> c_lowPrefix c)
      then do { m2 \<leftarrow> copy18 m1 (op + int ll) (op + int ll - offset);
                Some (SafeDecode, s\<lparr>d_ip := ip + int ll + 2, d_length := int ml, d_offset := offset,
                  d_match := op + int ll - offset, d_mem := m2, d_op := op + int ll + int ml + 4\<rparr>) }
      else Some (CopyMatch, s\<lparr>d_mem := m1, d_ip := ip + int ll + 2, d_op := op + int ll,
                  d_length := int ml, d_offset := offset, d_match := op + int ll - offset\<rparr>)) = Some (pc', s') \<and>
     refines c m0 pc' s'
       (ref_continue (c_dl c)
         (let off = le16 (drop ll ys); h' = h @ take ll ys; r = drop (ll + 2) ys in
          if ml \<noteq> 15 \<and> 8 \<le> off \<and> off + c_dl c \<le> length h'
          then RCont r (lz_copy h' off (ml + 4)) (room - ll - (ml + 4))
          else ref_match ml off r h' (room - ll)))"
proof -
  define off where "off = le16 (drop ll ys)"
  obtain m1 where m1: "LZ4_memcpy m op ip 16 = Some m1"
    and t1: "tracks c m0 m1 (ip + int ll) (op + int ll) (drop ll ys) (h @ take ll ys) (room - ll)"
    using tracked_memcpy16 [OF t ok, of ll] assms(3,5,6) by auto
  have read: "LZ4_readLE16 m1 (ip + int ll) = Some (int off)"
    using tracked_readLE16 [OF t1 ok] assms(3,5) by (simp add: off_def)
  have t2: "tracks c m0 m1 (ip + int ll + 2) (op + int ll) (drop (ll + 2) ys) (h @ take ll ys) (room - ll)"
    using tracked_drop [OF t1, of 2] assms(3,5) by (simp add: add.commute)
  have off: "off < 65536"
    by (simp add: off_def le16_bound)
  have pre: "(c_dict c = withPrefix64k \<or> op + int ll - int off \<ge> c_lowPrefix c) \<longleftrightarrow>
      off + c_dl c \<le> length (h @ take ll ys)"
    by (rule offset_checks(4) [OF t2 ok off])
  have rest: "drop (ll + 2) ys \<noteq> []" "length (drop (ll + 2) ys) \<le> length ys"
    using assms(3,5) by auto
  show ?thesis
  proof (cases "ml \<noteq> 15 \<and> 8 \<le> off \<and> off + c_dl c \<le> length (h @ take ll ys)")
    case True
    have "18 \<le> room - ll"
      using assms(3,6) by simp
    moreover have "c_hist c \<le> op + int ll - int off"
      using offset_checks(3) [OF t2 ok off] True by simp
    ultimately obtain m2 where m2: "copy18 m1 (op + int ll) (op + int ll - int off) = Some m2"
      and t3: "tracks c m0 m2 (ip + int ll + 2) (op + int ll + int (ml + 4)) (drop (ll + 2) ys)
        (lz_copy (h @ take ll ys) off (ml + 4)) (room - ll - (ml + 4))"
      using tracked_copy18 [OF t2 ok, of off "ml + 4"] assms(4) True by auto
    let ?s' = "s\<lparr>d_ip := ip + int ll + 2, d_length := int ml, d_offset := int off,
        d_match := op + int ll - int off, d_mem := m2, d_op := op + int ll + int ml + 4\<rparr>"
    have "refines c m0 SafeDecode ?s'
        (ref_dec (c_dl c) (drop (ll + 2) ys) (lz_copy (h @ take ll ys) off (ml + 4)) (room - ll - (ml + 4)))"
      by (rule safe_uptoD [OF safe]) (use t3 rest in \<open>simp_all add: add.assoc\<close>)
    then show ?thesis
      using True pre
      by (intro exI [of _ SafeDecode] exI [of _ ?s'] exI [of _ m1] exI [of _ "int off"])
        (simp add: m1 read m2 off_def [symmetric] Let_def)
  next
    case False
    let ?s' = "s\<lparr>d_mem := m1, d_ip := ip + int ll + 2, d_op := op + int ll,
        d_length := int ml, d_offset := int off, d_match := op + int ll - int off\<rparr>"
    have "refines c m0 CopyMatch ?s'
        (ref_continue (c_dl c) (ref_match ml off (drop (ll + 2) ys) (h @ take ll ys) (room - ll)))"
      by (rule refines_CopyMatch)
        (use t2 ok assms(3,6) rest off in \<open>auto intro: safe_upto_mono [OF safe]\<close>)
    moreover have "\<not> (int ml \<noteq> 15 \<and> int off \<ge> 8 \<and>
        (c_dict c = withPrefix64k \<or> op + int ll - int off \<ge> c_lowPrefix c))"
      using False pre by auto
    ultimately show ?thesis
      using False
      by (intro exI [of _ CopyMatch] exI [of _ ?s'] exI [of _ m1] exI [of _ "int off"])
        (simp only: m1 read off_def [symmetric] Let_def if_False simp_thms)
  qed
qed

lemma refines_SafeDecode:
  assumes t: "tracks c m0 (d_mem s) (d_ip s) (d_op s) xs h room" and ok: "dec_ok c m0"
    and ne: "xs \<noteq> []" and safe: "safe_upto c m0 (length xs - 1)"
  shows "refines c m0 SafeDecode s (ref_dec (c_dl c) xs h room)"
proof -
  obtain b ys where xs: "xs = b # ys"
    using ne by (cases xs) auto
  have ends: "c_oend c = d_op s + int room" "c_iend c = d_ip s + 1 + int (length ys)"
    using trackedD(3,6) [OF t] by (auto simp: xs)
  have b: "d_mem s (d_ip s) = Some b"
    using tracked_byte [OF t ok, of 0] by (simp add: xs)
  have t1: "tracks c m0 (d_mem s) (d_ip s + 1) (d_op s) ys h room"
    using tracked_drop [OF t, of 1] by (simp add: xs)
  define ll ml where "ll = unat b div 16" and "ml = unat b mod 16"
  have nib: "ll \<le> 15" "ml < 16"
    using nibble_bounds [of b] by (simp_all add: ll_def ml_def)
  have tok: "uint b div 16 = int ll" "uint b mod 16 = int ml"
    by (simp_all only: token_nat ll_def ml_def)
  have safe': "safe_upto c m0 (length ys)"
    using safe by (simp add: xs)
  define s1 where "s1 = s\<lparr>d_token := uint b, d_ip := d_ip s + 1, d_length := int ll\<rparr>"
  show ?thesis
  proof (cases "ll \<noteq> 15 \<and> 17 \<le> length ys \<and> 32 \<le> room")
    case True
    then have conds: "ll < 15" "17 \<le> length ys" "32 \<le> room"
      using nib by auto
    obtain pc' s' m1 offset where sc: "LZ4_memcpy (d_mem s) (d_op s) (d_ip s + 1) 16 = Some m1"
        "LZ4_readLE16 m1 (d_ip s + 1 + int ll) = Some offset"
        "(if int ml \<noteq> 15 \<and> offset \<ge> 8 \<and>
             (c_dict c = withPrefix64k \<or> d_op s + int ll - offset \<ge> c_lowPrefix c)
          then do { m2 \<leftarrow> copy18 m1 (d_op s + int ll) (d_op s + int ll - offset);
                Some (SafeDecode, s1\<lparr>d_ip := d_ip s + 1 + int ll + 2,
                  d_length := int ml, d_offset := offset, d_match := d_op s + int ll - offset,
                  d_mem := m2, d_op := d_op s + int ll + int ml + 4\<rparr>) }
          else Some (CopyMatch, s1\<lparr>d_mem := m1, d_ip := d_ip s + 1 + int ll + 2, d_op := d_op s + int ll,
                  d_length := int ml, d_offset := offset, d_match := d_op s + int ll - offset\<rparr>)) = Some (pc', s')"
      and ref: "refines c m0 pc' s' (ref_continue (c_dl c) (ref_step (c_dl c) xs h room))"
      using refines_shortcut [OF t1 ok conds(1) nib(2) conds(2,3) safe', of s1] True
      by (auto simp: ref_step_def xs ll_def [symmetric] ml_def [symmetric] Let_def)
    have "\<not> (c_iend c - 14 - 2 \<le> d_ip s + 1 \<or> c_oend c - 14 - 18 < d_op s)"
      using conds ends by auto
    then have "dec_safe_decode c s = Some (pc', s')"
      using b sc conds(1) unfolding s1_def
      by (simp add: dec_safe_decode_def Let_def tok not_le not_less cong: if_cong)
    then have "dec_step c SafeDecode s = Some (pc', s')"
      by simp
    from refines_step [OF this _ _ ref] show ?thesis
      by (simp add: ref_dec_step [symmetric])
  next
    case False
    then have step: "dec_step c SafeDecode s = Some (SafeLiteralCopyEarly, s1)"
      using b ends by (auto simp: dec_safe_decode_def Let_def tok s1_def)
    have "refines c m0 SafeLiteralCopyEarly s1 (ref_continue (c_dl c) (ref_literals_early ll ml ys h room))"
      by (rule refines_SafeLiteralCopyEarly) (use t1 ok tok safe' in \<open>simp_all add: s1_def\<close>)
    moreover have "ref_step (c_dl c) xs h room = ref_literals_early ll ml ys h room"
      using False by (auto simp: ref_step_def xs ll_def ml_def Let_def)
    ultimately show ?thesis
      by (simp add: ref_dec_step refines_step [OF step])
  qed
qed

lemma safe_upto_all: "dec_ok c m0 \<Longrightarrow> safe_upto c m0 k"
proof (induction k)
  case 0
  then show ?case
    by (simp add: safe_upto_def)
next
  case (Suc k)
  show ?case
    unfolding safe_upto_def
    by (auto intro!: refines_SafeDecode Suc.prems safe_upto_mono [OF Suc.IH [OF Suc.prems]])
qed

section \<open>The fast loop\<close>

definition fast_upto :: "dec_cfg \<Rightarrow> mem \<Rightarrow> nat \<Rightarrow> bool" where
  "fast_upto c m0 k \<longleftrightarrow>
     (\<forall>s xs h room. tracks c m0 (d_mem s) (d_ip s) (d_op s) xs h room \<longrightarrow> xs \<noteq> [] \<longrightarrow>
        length xs \<le> k \<longrightarrow> 64 \<le> room \<longrightarrow> refines c m0 FastLoop s (ref_dec (c_dl c) xs h room))"

lemma fast_uptoD:
  "fast_upto c m0 k \<Longrightarrow> tracks c m0 (d_mem s) (d_ip s) (d_op s) xs h room \<Longrightarrow> xs \<noteq> [] \<Longrightarrow>
     length xs \<le> k \<Longrightarrow> 64 \<le> room \<Longrightarrow> refines c m0 FastLoop s (ref_dec (c_dl c) xs h room)"
  by (simp add: fast_upto_def)

lemma fast_upto_mono: "fast_upto c m0 k \<Longrightarrow> j \<le> k \<Longrightarrow> fast_upto c m0 j"
  by (simp add: fast_upto_def)

lemma refines_fast_match_copy:
  assumes t: "tracks c m0 (d_mem s) (d_ip s) (d_op s) xs h room" and ok: "dec_ok c m0"
    and fields: "d_offset s = int off" "d_length s = int n" "d_match s = d_op s - int off"
    and off: "off < 65536" and "4 \<le> n" and "n + 64 < room" and fast: "fast_upto c m0 (length xs)" "xs \<noteq> []"
  shows "\<exists>pc' s'. dec_fast_match_copy c s = Some (pc', s') \<and>
           refines c m0 pc' s' (ref_continue (c_dl c) (ref_match_copy off n xs h room))"
proof -
  have oend: "c_oend c = d_op s + int room"
    by (rule trackedD(6) [OF t])
  show ?thesis
  proof (cases "length h < off")
    case True
    then have "dec_fast_match_copy c s = Some (OutputError, s)"
      using offset_checks(1) [OF t ok off] by (simp add: dec_fast_match_copy_def fields(3))
    then show ?thesis
      using True tracked_error [OF t] by (simp add: ref_match_copy_def)
  next
    case False
    then have checked: "\<not> (c_checkOffset c \<and> d_match s + c_dictSize c < c_lowPrefix c)" and le: "off \<le> length h"
      using offset_checks(1) [OF t ok off] by (auto simp: fields(3))
    have cont: "refines c m0 FastLoop (s\<lparr>d_mem := m, d_op := d_op s + int n\<rparr>)
        (ref_continue (c_dl c) (ref_match_copy off n xs h room))"
      if "tracks c m0 m (d_ip s) (d_op s + int n) xs (lz_copy h off n) (room - n)" for m
    proof -
      have "refines c m0 FastLoop (s\<lparr>d_mem := m, d_op := d_op s + int n\<rparr>)
          (ref_dec (c_dl c) xs (lz_copy h off n) (room - n))"
        by (rule fast_uptoD [OF fast(1)]) (use that fast(2) assms(8) in auto)
      then show ?thesis
        using le assms(8) by (simp add: ref_match_copy_def)
    qed
    show ?thesis
    proof (cases "length h < off + c_dl c")
      case True
      have "dec_fast_match_copy c s = dec_ext_dict_match c FastLoop s"
        using offset_checks(2) [OF t ok off le] True unfolding dec_fast_match_copy_def Let_def if_not_P [OF checked]
        by (simp add: fields(3))
      then show ?thesis
        using tracked_ext_dict(2) [OF t ok fields(2,3) off le True, where pc = FastLoop] assms(8) cont by auto
    next
      case prefix: False
      then have near: "\<not> (c_dict c = usingExtDict \<and> d_match s < c_lowPrefix c)"
        and low: "c_hist c \<le> d_op s - int off"
        using offset_checks(2,3) [OF t ok off le] by (auto simp: fields(3))
      have reg: "region (d_mem s) (d_op s - int off) (c_oend c)"
        by (rule region_sub [OF tracked_region(1) [OF t ok]]) (use low in auto)
      let ?cpy = "d_op s + int n"
      have "\<exists>m. (if int off < 16
            then LZ4_memcpy_using_offset (d_mem s) (d_op s) (d_op s - int off) ?cpy (int off)
            else LZ4_wildCopy32 (d_mem s) (d_op s) (d_op s - int off) ?cpy) = Some m \<and>
          match_copied (d_mem s) m (d_op s) (int off) ?cpy (c_oend c)"
        using copy_offset.law [OF _ reg, of ?cpy] copy_wild32.law [OF _ reg, of ?cpy] assms(7,8) oend
        by auto
      then obtain m where m: "(if int off < 16
            then LZ4_memcpy_using_offset (d_mem s) (d_op s) (d_op s - int off) ?cpy (int off)
            else LZ4_wildCopy32 (d_mem s) (d_op s) (d_op s - int off) ?cpy) = Some m"
        and mc: "match_copied (d_mem s) m (d_op s) (int off) ?cpy (c_oend c)"
        by blast
      have "dec_fast_match_copy c s = Some (FastLoop, s\<lparr>d_mem := m, d_op := ?cpy\<rparr>)"
        unfolding dec_fast_match_copy_def Let_def if_not_P [OF checked] if_not_P [OF near]
        by (simp only: fields m Option.bind.bind_lunit)
      moreover have "tracks c m0 m (d_ip s) ?cpy xs (lz_copy h off n) (room - n)"
        by (rule tracked_match [OF t ok low _ mc]) (use assms(8) in auto)
      ultimately show ?thesis
        using cont by auto
    qed
  qed
qed

text \<open>The match length is known: the safe loop near the end, the copies of the fast loop
  elsewhere.\<close>

lemma refines_fast_match_end:
  assumes t: "tracks c m0 (d_mem s) (d_ip s) (d_op s) xs h room" and ok: "dec_ok c m0"
    and fields: "d_offset s = int off" "d_length s = int n" "d_match s = d_op s - int off"
    and off: "off < 65536" and "4 \<le> n" and "12 \<le> room" and fast: "fast_upto c m0 (length xs)" "xs \<noteq> []"
  shows "\<exists>pc' s'. (if d_op s + int n \<ge> c_oend c - 64 then Some (SafeMatchCopy, s)
                   else dec_fast_match_copy c s) = Some (pc', s') \<and>
           refines c m0 pc' s' (ref_continue (c_dl c) (ref_match_copy off n xs h room))"
proof (cases "d_op s + int n \<ge> c_oend c - 64")
  case True
  then show ?thesis
    using refines_SafeMatchCopy [OF t ok assms(8) fields assms(7) off safe_upto_all [OF ok] fast(2)]
    by simp
next
  case False
  then have "n + 64 < room"
    using trackedD(6) [OF t] by simp
  from refines_fast_match_copy [OF t ok fields off assms(7) this fast] False show ?thesis
    by simp
qed

lemma refines_FastMatch:
  assumes t: "tracks c m0 (d_mem s) (d_ip s) (d_op s) xs h room" and ok: "dec_ok c m0"
    and "3 \<le> length xs" and "32 \<le> room" and tok: "d_token s mod 16 = int ml" and "ml \<le> 15"
    and fast: "fast_upto c m0 (length xs - 2)"
  shows "refines c m0 FastMatch s (ref_continue (c_dl c) (ref_match ml (le16 xs) (drop 2 xs) h room))"
proof -
  define off ys where "off = le16 xs" and "ys = drop 2 xs"
  have t1: "tracks c m0 (d_mem s) (d_ip s + 2) (d_op s) ys h room"
    using tracked_drop [OF t, of 2] assms(3) by (simp add: ys_def)
  have ys: "ys \<noteq> []" "length ys \<le> length xs - 2"
    using assms(3) by (auto simp: ys_def)
  have read: "LZ4_readLE16 (d_mem s) (d_ip s) = Some (int off)"
    using tracked_readLE16 [OF t ok] assms(3) by (simp add: off_def)
  have fast': "fast_upto c m0 (length ys)"
    by (rule fast_upto_mono [OF fast ys(2)])
  define s1 where "s1 = s\<lparr>d_ip := d_ip s + 2, d_offset := int off, d_match := d_op s - int off\<rparr>"
  have off: "off < 65536"
    by (simp add: off_def le16_bound)
  have "\<exists>pc' s'. dec_fast_match c s = Some (pc', s') \<and>
      refines c m0 pc' s' (ref_continue (c_dl c) (ref_match ml off ys h room))"
  proof (cases "ml = 15")
    case True
    obtain r zs where rvl: "rvl_list 6 ys = (r, zs)"
      by fastforce
    obtain ip' where var: "read_variable_length (d_mem s) (d_ip s + 2) (c_iend c - 6) = Some (map_option int r, ip')"
      and t2: "tracks c m0 (d_mem s) ip' (d_op s) zs h room"
      using tracked_rvl [OF t1 ok rvl] by auto
    show ?thesis
    proof (cases r)
      case None
      have "refines c m0 OutputError (s1\<lparr>d_ip := ip'\<rparr>) (RErr (length zs))"
        by (rule tracked_error) (use t2 in \<open>simp add: s1_def\<close>)
      then show ?thesis
        using True None var read tok rvl
        by (simp add: dec_fast_match_def ref_match_def s1_def Let_def)
    next
      case (Some a)
      then have zs: "ys = ext_len a @ zs" "6 \<le> length zs"
        using rvl_list_Some rvl by auto
      define n where "n = 15 + a + 4"
      have ref: "ref_match ml off ys h room = ref_match_copy off n zs h room"
        using True Some rvl by (simp add: ref_match_def n_def)
      have bound: "n \<le> 1000000000000"
        using rvl_list_bound [of 6 ys a zs] rvl Some tracked_length [OF t1 ok] by (simp add: n_def)
      let ?s = "s1\<lparr>d_ip := ip', d_length := int n\<rparr>"
      have step: "dec_fast_match c s =
          (if U64 (d_op s + int n) < U64 (d_op s) then Some (OutputError, ?s)
           else if d_op s + int n \<ge> c_oend c - 64 then Some (SafeMatchCopy, ?s)
           else dec_fast_match_copy c ?s)"
        using True Some var read tok by (simp add: dec_fast_match_def s1_def Let_def n_def)
      show ?thesis
      proof (cases "U64 (d_op s + int n) < U64 (d_op s)")
        case wrap: True
        have "room < n"
          using tracked_wrap(1) [OF t ok bound] wrap by simp
        then have "ref_match_copy off n zs h room = RErr (length zs)"
          by (simp add: ref_match_copy_def)
        moreover have "refines c m0 OutputError ?s (RErr (length zs))"
          by (rule tracked_error) (use t2 in \<open>simp add: s1_def\<close>)
        ultimately show ?thesis
          using wrap by (simp add: step ref)
      next
        case False
        have "\<exists>pc' s'. (if d_op ?s + int n \<ge> c_oend c - 64 then Some (SafeMatchCopy, ?s)
              else dec_fast_match_copy c ?s) = Some (pc', s') \<and>
            refines c m0 pc' s' (ref_continue (c_dl c) (ref_match_copy off n zs h room))"
          by (rule refines_fast_match_end)
            (use t2 ok assms(4) zs off in \<open>auto simp: s1_def n_def intro: fast_upto_mono [OF fast']\<close>)
        with False show ?thesis
          by (simp add: step ref s1_def)
      qed
    qed
  next
    case False
    define n where "n = ml + 4"
    let ?s = "s1\<lparr>d_length := int n\<rparr>"
    have t2: "tracks c m0 (d_mem ?s) (d_ip ?s) (d_op ?s) ys h room"
      using t1 by (simp add: s1_def)
    have ref: "ref_match ml off ys h room = ref_match_copy off n ys h room"
      using False by (simp add: ref_match_def n_def)
    have step: "dec_fast_match c s =
        (if d_op s + int n \<ge> c_oend c - 64 then Some (SafeMatchCopy, ?s)
         else if (c_dict c = withPrefix64k \<or> d_op s - int off \<ge> c_lowPrefix c) \<and> int off \<ge> 8
         then do { m \<leftarrow> copy18 (d_mem s) (d_op s) (d_op s - int off);
                   Some (FastLoop, ?s\<lparr>d_mem := m, d_op := d_op s + int n\<rparr>) }
         else dec_fast_match_copy c ?s)"
      using False read tok by (simp add: dec_fast_match_def s1_def Let_def n_def cong: if_cong)
    have pre: "(c_dict c = withPrefix64k \<or> d_op s - int off \<ge> c_lowPrefix c) \<longleftrightarrow> off + c_dl c \<le> length h"
      by (rule offset_checks(4) [OF t ok off])
    show ?thesis
    proof (cases "d_op s + int n < c_oend c - 64 \<and> off + c_dl c \<le> length h \<and> 8 \<le> off")
      case True
      then have room: "n + 64 < room" and low: "c_hist c \<le> d_op s - int off"
        using trackedD(6) [OF t] offset_checks(3) [OF t ok off] by auto
      obtain m where m: "copy18 (d_mem s) (d_op s) (d_op s - int off) = Some m"
        and t3: "tracks c m0 m (d_ip s + 2) (d_op s + int n) ys (lz_copy h off n) (room - n)"
        using tracked_copy18 [OF t1 ok, of off n] True room low assms(6) False by (auto simp: n_def)
      have "refines c m0 FastLoop (?s\<lparr>d_mem := m, d_op := d_op s + int n\<rparr>)
          (ref_dec (c_dl c) ys (lz_copy h off n) (room - n))"
        by (rule fast_uptoD [OF fast']) (use t3 ys room in \<open>simp_all add: s1_def\<close>)
      then show ?thesis
        using True pre m room by (simp add: step ref ref_match_copy_def)
    next
      case other: False
      have "dec_fast_match c s =
          (if d_op ?s + int n \<ge> c_oend c - 64 then Some (SafeMatchCopy, ?s) else dec_fast_match_copy c ?s)"
        using other pre unfolding step by (auto simp: s1_def)
      moreover have "\<exists>pc' s'. (if d_op ?s + int n \<ge> c_oend c - 64 then Some (SafeMatchCopy, ?s)
            else dec_fast_match_copy c ?s) = Some (pc', s') \<and>
          refines c m0 pc' s' (ref_continue (c_dl c) (ref_match_copy off n ys h room))"
        by (rule refines_fast_match_end [OF t2 ok])
          (use assms(4) ys fast' off in \<open>auto simp: s1_def n_def\<close>)
      ultimately show ?thesis
        by (simp add: ref)
    qed
  qed
  then show ?thesis
    by (auto simp: off_def ys_def intro: refines_step)
qed

text \<open>With a room of fifty bytes the shortcut of the reference decoder is the general match.\<close>

lemma ref_shortcut_match:
  assumes "ml \<le> 15" and "32 \<le> room"
  shows "(if ml \<noteq> 15 \<and> 8 \<le> off \<and> off + dl \<le> length h
          then RCont r (lz_copy h off (ml + 4)) (room - (ml + 4))
          else ref_match ml off r h room) = ref_match ml off r h room"
  using assms by (auto simp: ref_match_def ref_match_copy_def)

lemma refines_FastLoop:
  assumes t: "tracks c m0 (d_mem s) (d_ip s) (d_op s) xs h room" and ok: "dec_ok c m0"
    and ne: "xs \<noteq> []" and room: "64 \<le> room" and fast: "fast_upto c m0 (length xs - 1)"
  shows "refines c m0 FastLoop s (ref_dec (c_dl c) xs h room)"
proof -
  obtain b ys where xs: "xs = b # ys"
    using ne by (cases xs) auto
  have ends: "c_oend c = d_op s + int room" "c_iend c = d_ip s + 1 + int (length ys)"
    using trackedD(3,6) [OF t] by (auto simp: xs)
  have b: "d_mem s (d_ip s) = Some b"
    using tracked_byte [OF t ok, of 0] by (simp add: xs)
  have t1: "tracks c m0 (d_mem s) (d_ip s + 1) (d_op s) ys h room"
    using tracked_drop [OF t, of 1] by (simp add: xs)
  define ll ml where "ll = unat b div 16" and "ml = unat b mod 16"
  have nib: "ll \<le> 15" "ml \<le> 15"
    using nibble_bounds [of b] by (simp_all add: ll_def ml_def)
  have tok: "uint b div 16 = int ll" "uint b mod 16 = int ml"
    by (simp_all only: token_nat ll_def ml_def)
  have fast': "fast_upto c m0 (length ys)"
    using fast by (simp add: xs)
  define s1 where "s1 = s\<lparr>d_token := uint b, d_ip := d_ip s + 1, d_length := int ll\<rparr>"
  have "\<exists>pc' s'. dec_fast_loop c s = Some (pc', s') \<and>
      refines c m0 pc' s' (ref_continue (c_dl c) (ref_step (c_dl c) xs h room))"
  proof (cases "length ys < 17")
    case True
    then have "dec_fast_loop c s = Some (SafeLiteralCopyEarly, s1)"
      using b ends by (simp add: dec_fast_loop_def Let_def tok s1_def)
    moreover have "refines c m0 SafeLiteralCopyEarly s1 (ref_continue (c_dl c) (ref_literals_early ll ml ys h room))"
      by (rule refines_SafeLiteralCopyEarly)
        (use t1 ok tok in \<open>simp_all add: s1_def safe_upto_all\<close>)
    moreover have "ref_step (c_dl c) xs h room = ref_literals_early ll ml ys h room"
      using True by (auto simp: ref_step_def xs ll_def ml_def Let_def)
    ultimately show ?thesis
      by simp
  next
    case long: False
    show ?thesis
    proof (cases "ll = 15")
      case False
      obtain m where m: "LZ4_memcpy (d_mem s) (d_op s) (d_ip s + 1) 16 = Some m"
        and t2: "tracks c m0 m (d_ip s + 1 + int ll) (d_op s + int ll) (drop ll ys) (h @ take ll ys) (room - ll)"
        using tracked_memcpy16 [OF t1 ok, of ll] nib long room by auto
      let ?s = "s1\<lparr>d_mem := m, d_ip := d_ip s + 1 + int ll, d_op := d_op s + int ll\<rparr>"
      have "dec_fast_loop c s = Some (FastMatch, ?s)"
        using b ends long False m by (simp add: dec_fast_loop_def Let_def tok s1_def)
      moreover have "refines c m0 FastMatch ?s (ref_continue (c_dl c)
          (ref_match ml (le16 (drop ll ys)) (drop 2 (drop ll ys)) (h @ take ll ys) (room - ll)))"
        by (rule refines_FastMatch)
          (use t2 ok long room nib False tok in \<open>auto simp: s1_def intro: fast_upto_mono [OF fast']\<close>)
      moreover have "ref_step (c_dl c) xs h room =
          ref_match ml (le16 (drop ll ys)) (drop 2 (drop ll ys)) (h @ take ll ys) (room - ll)"
        using False long room nib ref_shortcut_match [of ml "room - ll"]
        by (simp add: ref_step_def xs ll_def [symmetric] ml_def [symmetric] Let_def)
      ultimately show ?thesis
        by auto
    next
      case ll: True
      then have step_early: "ref_step (c_dl c) xs h room = ref_literals_early ll ml ys h room"
        by (simp add: ref_step_def xs ll_def [symmetric] ml_def [symmetric] Let_def)
      obtain r zs where rvl: "rvl_list 15 ys = (r, zs)"
        by fastforce
      obtain ip' where read: "read_variable_length (d_mem s) (d_ip s + 1) (c_iend c - 15) = Some (map_option int r, ip')"
        and t2: "tracks c m0 (d_mem s) ip' (d_op s) zs h room"
        using tracked_rvl [OF t1 ok rvl] by auto
      show ?thesis
      proof (cases r)
        case None
        have "refines c m0 OutputError (s1\<lparr>d_ip := ip'\<rparr>) (RErr (length zs))"
          by (rule tracked_error) (use t2 in \<open>simp add: s1_def\<close>)
        then show ?thesis
          using None read b ends long ll rvl tok
          by (simp add: dec_fast_loop_def Let_def s1_def step_early ref_literals_early_def)
      next
        case (Some a)
        have zs: "length zs \<le> length ys"
          using rvl_list_length rvl by blast
        define n where "n = 15 + a"
        have ref: "ref_step (c_dl c) xs h room = ref_literals n ml zs h room"
          using ll Some rvl by (simp add: step_early ref_literals_early_def n_def)
        have bound: "n \<le> 1000000000000"
          using rvl_list_bound [of 15 ys a zs] rvl Some tracked_length [OF t1 ok] by (simp add: n_def)
        let ?s = "s1\<lparr>d_ip := ip', d_length := int n\<rparr>"
        have step: "dec_fast_loop c s =
            (if U64 (d_op s + int n) < U64 (d_op s) \<or> U64 (ip' + int n) < U64 ip' then Some (OutputError, ?s)
             else if d_op s + int n > c_oend c - 32 \<or> ip' + int n > c_iend c - 32
             then Some (SafeLiteralCopy, ?s)
             else do { m \<leftarrow> LZ4_wildCopy32 (d_mem s) (d_op s) ip' (d_op s + int n);
                       Some (FastMatch, ?s\<lparr>d_mem := m, d_ip := ip' + int n, d_op := d_op s + int n\<rparr>) })"
          using Some read b ends long ll tok
          by (simp add: dec_fast_loop_def Let_def s1_def n_def cong: if_cong)
        have ends2: "c_iend c = ip' + int (length zs)"
          using trackedD(3) [OF t2] .
        consider (wrap) "U64 (d_op s + int n) < U64 (d_op s) \<or> U64 (ip' + int n) < U64 ip'"
          | (safe) "\<not> (U64 (d_op s + int n) < U64 (d_op s) \<or> U64 (ip' + int n) < U64 ip')"
              "room < n + 32 \<or> length zs < n + 32"
          | (copy) "\<not> (U64 (d_op s + int n) < U64 (d_op s) \<or> U64 (ip' + int n) < U64 ip')"
              "n + 32 \<le> room" "n + 32 \<le> length zs"
          by linarith
        then show ?thesis
        proof cases
          case wrap
          then have "room < n \<or> length zs < n"
            using tracked_wrap [OF t2 ok bound] by blast
          then have "ref_literals n ml zs h room = RErr (length zs)"
            by (auto simp: ref_literals_def)
          moreover have "refines c m0 OutputError ?s (RErr (length zs))"
            by (rule tracked_error) (use t2 in \<open>simp add: s1_def\<close>)
          ultimately show ?thesis
            using wrap by (simp add: step ref)
        next
          case safe
          then have "dec_fast_loop c s = Some (SafeLiteralCopy, ?s)"
            using ends ends2 unfolding step by auto
          moreover have "refines c m0 SafeLiteralCopy ?s (ref_continue (c_dl c) (ref_literals n ml zs h room))"
            by (rule refines_SafeLiteralCopy)
              (use t2 ok tok in \<open>simp_all add: s1_def safe_upto_all\<close>)
          ultimately show ?thesis
            by (simp add: ref)
        next
          case copy
          have "\<exists>m. LZ4_wildCopy32 (d_mem s) (d_op s) ip' (d_op s + int n) = Some m \<and>
              copied (d_mem s) m (d_op s) ip' (d_op s + int n) (d_op s + int n + 31)"
          proof (rule LZ4_wildCopy32_copied)
            show "region (d_mem s) (d_op s) (d_op s + int n + 31)"
              by (rule region_sub [OF tracked_region(1) [OF t2 ok]])
                (use copy ends trackedD(5) [OF t] dec_okD(9) [OF ok] in auto)
            show "region (d_mem s) ip' (ip' + (d_op s + int n + 31 - d_op s))"
              by (rule region_sub [OF tracked_region(2) [OF t2 ok]]) (use copy ends2 in auto)
            show "16 \<le> d_op s - ip' \<or> d_op s + int n + 31 \<le> ip'"
              using dec_okD(15) [OF ok] ends ends2 copy trackedD(2,5) [OF t2] by auto
          qed (simp_all add: n_def)
          then obtain m where m: "LZ4_wildCopy32 (d_mem s) (d_op s) ip' (d_op s + int n) = Some m"
            and cp: "copied (d_mem s) m (d_op s) ip' (d_op s + int n) (d_op s + int n + 31)"
            by blast
          let ?s2 = "?s\<lparr>d_mem := m, d_ip := ip' + int n, d_op := d_op s + int n\<rparr>"
          have t3: "tracks c m0 m (ip' + int n) (d_op s + int n) (drop n zs) (h @ take n zs) (room - n)"
            by (rule tracked_literals [OF t2 ok _ _ cp]) (use copy ends in auto)
          have "dec_fast_loop c s = Some (FastMatch, ?s2)"
            using copy ends ends2 m unfolding step by auto
          moreover have "refines c m0 FastMatch ?s2 (ref_continue (c_dl c)
              (ref_match ml (le16 (drop n zs)) (drop 2 (drop n zs)) (h @ take n zs) (room - n)))"
            by (rule refines_FastMatch)
              (use t3 ok copy tok nib zs in \<open>auto simp: s1_def intro: fast_upto_mono [OF fast']\<close>)
          moreover have "ref_literals n ml zs h room =
              ref_match ml (le16 (drop n zs)) (drop 2 (drop n zs)) (h @ take n zs) (room - n)"
            using copy by (simp add: ref_literals_def)
          ultimately show ?thesis
            by (auto simp: ref)
        qed
      qed
    qed
  qed
  then show ?thesis
    by (auto simp: ref_dec_step [of _ xs] intro: refines_step)
qed

lemma fast_upto_all: "dec_ok c m0 \<Longrightarrow> fast_upto c m0 k"
proof (induction k)
  case 0
  then show ?case
    by (simp add: fast_upto_def)
next
  case (Suc k)
  show ?case
    unfolding fast_upto_def
    by (auto intro!: refines_FastLoop Suc.prems fast_upto_mono [OF Suc.IH [OF Suc.prems]])
qed

section \<open>The whole function\<close>

theorem LZ4_decompress_generic_refines:
  assumes ok: "dec_ok c m" and "c_src c \<noteq> NULL" and "0 < c_outputSize c" and "0 < c_srcSize c"
  defines "xs \<equiv> bytes m (c_src c) (nat (c_srcSize c))"
    and "h \<equiv> d_history c m (c_dst c)"
  shows "\<exists>ret m'. LZ4_decompress_generic m c = Some (ret, m') \<and>
           dec_result c m (ref_dec (c_dl c) xs h (nat (c_outputSize c))) ret m'"
proof -
  let ?s = "\<lparr>d_mem = m, d_ip = c_src c, d_op = c_dst c, d_token = 0, d_length = 0,
           d_offset = 0, d_match = 0\<rparr>"
  have t: "tracks c m (d_mem ?s) (d_ip ?s) (d_op ?s) xs h (nat (c_outputSize c))"
    using assms(3,4) by (simp add: tracks_def framed_def xs_def h_def c_iend_def c_oend_def)
  have ne: "xs \<noteq> []"
    using assms(4) by (auto simp: xs_def bytes_def)
  let ?pc = "if c_outputSize c < 64 then SafeDecode else FastLoop"
  have "refines c m ?pc ?s (ref_dec (c_dl c) xs h (nat (c_outputSize c)))"
    using refines_SafeDecode [OF t ok ne safe_upto_all [OF ok]]
      refines_FastLoop [OF t ok ne _ fast_upto_all [OF ok]] by auto
  then show ?thesis
    using assms(2-4) by (simp add: refines_def LZ4_decompress_generic_def)
qed

end
