(* ===== verification/Lz4_Decode_Props.thy ===== *)
theory Lz4_Decode_Props
  imports Lz4_Decode_Refine
begin

text \<open>
  What a caller of the decoder of src/lz4.c relies on, for the entry points that decode a full
  block into one buffer, with or without a prefix in front of it: they return, they write
  nothing but the output buffer, they accept an input only if it encodes what they return,
  and they decode every legal block that fits.
\<close>

section \<open>The arguments of a call\<close>

text \<open>The input buffer, \<open>pre\<close> bytes of history and the output buffer are allocated, the output
  does not overlap the input, and the sizes are in the range of the C type \<open>int\<close>.\<close>

definition decode_args :: "mem \<Rightarrow> ptr \<Rightarrow> int \<Rightarrow> ptr \<Rightarrow> int \<Rightarrow> nat \<Rightarrow> bool" where
  "decode_args m source n dest cap pre \<longleftrightarrow>
     0 < source \<and> 0 \<le> n \<and> n < 2 ^ 31 \<and> source + n < 2 ^ 64 \<and>
     int pre \<le> dest \<and> 0 \<le> cap \<and> cap < 2 ^ 31 \<and> dest + cap < 2 ^ 64 \<and>
     mapped m source (nat n) \<and> mapped m (dest - int pre) (pre + nat cap) \<and>
     (source + n \<le> dest \<or> dest + cap \<le> source)"

text \<open>A full-block configuration whose history is the \<open>pre\<close> bytes in front of the output.\<close>

definition plain_cfg :: "dec_cfg \<Rightarrow> nat \<Rightarrow> bool" where
  "plain_cfg c pre \<longleftrightarrow>
     \<not> c_partial c \<and> c_dict c \<noteq> usingExtDict \<and> c_dictSize c = 0 \<and>
     (if c_dict c = withPrefix64k then pre = 65535 \<and> c_lowPrefix c \<le> c_dst c - 65535
      else c_lowPrefix c = c_dst c - int pre)"

text \<open>Memory outside a stretch is as it was.\<close>

definition only_changed :: "ptr \<Rightarrow> int \<Rightarrow> mem \<Rightarrow> mem \<Rightarrow> bool" where
  "only_changed a n m m' \<longleftrightarrow> dom m' = dom m \<and> (\<forall>x. x < a \<or> a + n \<le> x \<longrightarrow> m' x = m x)"

lemma only_changed_refl [simp]: "only_changed a n m m"
  by (simp add: only_changed_def)

lemma RErr_bound: "ref_dec dl xs h room = RErr k \<Longrightarrow> k \<le> length xs"
proof (induction dl xs h room rule: ref_dec.induct)
  case (1 dl xs h room)
  have lit: "k \<le> length ys" if "ref_literals ll ml ys h room = RErr k" for ll ml ys
    using that by (auto simp: ref_literals_def ref_match_def ref_match_copy_def
        split: if_splits prod.splits option.splits dest!: rvl_list_length)
  have step: "k \<le> length xs" if "ref_step dl xs h room = RErr k"
    using that
    by (auto simp: ref_step_def ref_literals_early_def ref_match_def ref_match_copy_def Let_def
        split: list.splits if_splits prod.splits option.splits dest!: rvl_list_length lit)
  show ?case
  proof (cases "ref_step dl xs h room")
    case (RCont xs' h' room')
    with "1.IH" "1.prems" ref_step_cont [OF RCont] show ?thesis
      by (force simp: ref_dec_step)
  qed (use "1.prems" step in \<open>auto simp: ref_dec_step\<close>)
qed

section \<open>The generic function\<close>

lemma ref_dec_extends:
  assumes "ref_dec dl xs h room = RDone h'"
  shows "\<exists>out. h' = h @ out \<and> length out \<le> room"
proof -
  from ref_dec_sound [OF assms] obtain qs l where "h' = exec_seqs h qs @ l" "length h' \<le> length h + room"
    by blast
  then have "take (length h) h' = h"
    using exec_seqs_prefix [of h qs] length_exec_seqs_mono [of h qs] by simp
  then have "h' = h @ drop (length h) h'"
    by (metis append_take_drop_id)
  with \<open>length h' \<le> length h + room\<close> show ?thesis
    by (intro exI [of _ "drop (length h) h'"]) simp
qed

text \<open>A call in full-block mode: the buffers are in order and the input is not \<open>NULL\<close>. The history
  its matches may refer to is \<open>c_history\<close>.\<close>

definition callable :: "dec_cfg \<Rightarrow> mem \<Rightarrow> bool" where
  "callable c m \<longleftrightarrow> dec_ok c m \<and> c_src c \<noteq> NULL"

abbreviation c_history :: "dec_cfg \<Rightarrow> mem \<Rightarrow> byte list" where
  "c_history c m \<equiv> d_history c m (c_dst c)"

abbreviation c_input :: "dec_cfg \<Rightarrow> mem \<Rightarrow> byte list" where
  "c_input c m \<equiv> bytes m (c_src c) (nat (c_srcSize c))"

lemma output_of_history:
  assumes "dec_ok c m" and "framed c m m'" and "d_history c m' (c_dst c + int (length out)) = c_history c m @ out"
  shows "bytes m' (c_dst c) (length out) = out"
proof -
  have le: "c_hist c \<le> c_dst c"
    by (rule dec_okD(9) [OF assms(1)])
  have "length (c_history c m') = length (c_history c m)"
    by (simp add: d_history_def history_def)
  moreover have "d_history c m' (c_dst c + int (length out)) = c_history c m' @ bytes m' (c_dst c) (length out)"
    unfolding d_history_def by (rule history_add [OF le])
  ultimately show ?thesis
    using assms(3) by simp
qed

text \<open>The outcome of a call in terms of the reference decoder.\<close>

lemma generic_outcome:
  assumes ok: "callable c m" and pos: "0 < c_outputSize c" "0 < c_srcSize c"
  shows "\<exists>ret m'. LZ4_decompress_generic m c = Some (ret, m') \<and>
           only_changed (c_dst c) (c_outputSize c) m m' \<and>
           (case ref_dec (c_dl c) (c_input c m) (c_history c m) (nat (c_outputSize c)) of
              RErr k \<Rightarrow> k \<le> length (c_input c m) \<and> ret = - (c_srcSize c - int k) - 1
            | RDone h' \<Rightarrow> \<exists>out. h' = c_history c m @ out \<and> length out \<le> nat (c_outputSize c) \<and>
                           ret = int (length out) \<and> bytes m' (c_dst c) (length out) = out
            | RCont _ _ _ \<Rightarrow> False)"
proof -
  let ?xs = "c_input c m" and ?h = "c_history c m"
  have dec: "dec_ok c m" and src: "c_src c \<noteq> NULL"
    using ok by (simp_all add: callable_def)
  obtain ret m' where run: "LZ4_decompress_generic m c = Some (ret, m')"
    and res: "dec_result c m (ref_dec (c_dl c) ?xs ?h (nat (c_outputSize c))) ret m'"
    using LZ4_decompress_generic_refines [OF dec src pos] by blast
  have frame: "framed c m m'"
    using res by (simp add: dec_result_def)
  then have "only_changed (c_dst c) (c_outputSize c) m m'"
    by (auto simp: framed_def only_changed_def c_oend_def)
  moreover have "case ref_dec (c_dl c) ?xs ?h (nat (c_outputSize c)) of
              RErr k \<Rightarrow> k \<le> length ?xs \<and> ret = - (c_srcSize c - int k) - 1
            | RDone h' \<Rightarrow> \<exists>out. h' = ?h @ out \<and> length out \<le> nat (c_outputSize c) \<and>
                           ret = int (length out) \<and> bytes m' (c_dst c) (length out) = out
            | RCont _ _ _ \<Rightarrow> False"
  proof (cases "ref_dec (c_dl c) ?xs ?h (nat (c_outputSize c))")
    case (RErr k)
    then show ?thesis
      using res RErr_bound [OF RErr] by (simp add: dec_result_def)
  next
    case (RDone h')
    from ref_dec_extends [OF RDone] obtain out where out: "h' = ?h @ out" "length out \<le> nat (c_outputSize c)"
      by blast
    with RDone res have ret: "ret = int (length out)"
      by (simp add: dec_result_def)
    with RDone res out have "d_history c m' (c_dst c + int (length out)) = ?h @ out"
      by (auto simp: dec_result_def)
    then show ?thesis
      using RDone out ret output_of_history [OF dec frame] by simp
  qed (use res in \<open>simp add: dec_result_def\<close>)
  ultimately show ?thesis
    using run by blast
qed

text \<open>It returns, keeps to the output buffer and reports at most its size.\<close>

lemma generic_total:
  assumes ok: "callable c m"
  shows "\<exists>ret m'. LZ4_decompress_generic m c = Some (ret, m') \<and>
           only_changed (c_dst c) (c_outputSize c) m m' \<and>
           - c_srcSize c - 1 \<le> ret \<and> ret \<le> c_outputSize c"
proof -
  have dec: "dec_ok c m" and src: "c_src c \<noteq> NULL"
    using ok by (simp_all add: callable_def)
  have size: "0 \<le> c_outputSize c" "0 \<le> c_srcSize c"
    using dec_okD(5,10) [OF dec] by (simp_all add: c_oend_def)
  show ?thesis
  proof (cases "c_outputSize c = 0 \<or> c_srcSize c = 0")
    case True
    have "\<exists>b. m (c_src c) = Some b" if "c_srcSize c = 1"
      using dec_okD(13) [OF dec] that by (auto simp: region_def c_iend_def)
    with True src size dec_okD(1) [OF dec] show ?thesis
      by (auto simp: LZ4_decompress_generic_def)
  next
    case False
    with size generic_outcome [OF ok] show ?thesis
      by (force split: ref_out.splits)
  qed
qed

text \<open>What it accepts.\<close>

lemma generic_sound:
  assumes ok: "callable c m"
    and run: "LZ4_decompress_generic m c = Some (ret, m')" and "0 \<le> ret"
    and pos: "0 < c_outputSize c" "0 < c_srcSize c"
  shows "\<exists>qs l nib. c_input c m = concat (map enc_seq qs) @ enc_last_nib l nib \<and>
           list_all seq_ok qs \<and> offsets_ok (c_history c m) qs \<and>
           c_history c m @ bytes m' (c_dst c) (nat ret) = exec_seqs (c_history c m) qs @ l"
proof -
  obtain h' where "ref_dec (c_dl c) (c_input c m) (c_history c m) (nat (c_outputSize c)) = RDone h'"
      "h' = c_history c m @ bytes m' (c_dst c) (nat ret)"
    using generic_outcome [OF ok pos] run \<open>0 \<le> ret\<close> pos
    by (auto split: ref_out.splits)
  with ref_dec_sound [OF this(1)] show ?thesis
    by metis
qed

text \<open>What it decodes.\<close>

lemma generic_complete:
  assumes ok: "callable c m" and block: "c_input c m = enc_block qs l"
    and seqs: "list_all seq_ok qs" "offsets_ok (c_history c m) qs"
      "end_ok (c_history c m) qs (length (c_history c m @ out))"
    and content: "exec_seqs (c_history c m) qs @ l = c_history c m @ out"
    and fits: "int (length out) \<le> c_outputSize c"
  shows "\<exists>m'. LZ4_decompress_generic m c = Some (int (length out), m') \<and>
           bytes m' (c_dst c) (length out) = out \<and> only_changed (c_dst c) (c_outputSize c) m m'"
proof -
  let ?h = "c_history c m"
  have dec: "dec_ok c m" and src: "c_src c \<noteq> NULL"
    using ok by (simp_all add: callable_def)
  have len: "length (enc_block qs l) = nat (c_srcSize c)"
    by (simp add: block [symmetric])
  then have pos: "0 < c_srcSize c"
    by (simp add: enc_block_def enc_last_def)
  have "length (exec_seqs ?h qs @ l) = length (?h @ out)"
    by (simp add: content)
  from ref_dec_complete [OF seqs this] fits
  have ref: "ref_dec (c_dl c) (enc_block qs l) ?h (nat (c_outputSize c)) = RDone (?h @ out)"
    by (simp add: content)
  show ?thesis
  proof (cases "c_outputSize c = 0")
    case True
    with fits have out: "out = []"
      by simp
    have nil: "qs = []"
    proof (cases qs)
      case (Cons q rs)
      with seqs(3) out show ?thesis by simp
    qed
    with content out have "l = []"
      by simp
    with nil have "enc_block qs l = [0]"
      by (simp add: enc_block_def enc_last_def token_byte_def lit_header_def)
    with block len pos have "c_srcSize c = 1" "bytes m (c_src c) 1 = [0]"
      by simp_all
    moreover have "m (c_src c) \<noteq> None"
      using dec_okD(13) [OF dec] calculation(1) by (auto simp: region_def c_iend_def)
    ultimately show ?thesis
      using src True out dec_okD(1) [OF dec]
      by (auto simp: LZ4_decompress_generic_def bytes_def)
  next
    case False
    then have "0 < c_outputSize c"
      using dec_okD(10) [OF dec] by (simp add: c_oend_def)
    from generic_outcome [OF ok this pos] show ?thesis
      by (auto simp: block ref)
  qed
qed

section \<open>Calls with a prefix\<close>

lemma plain_callable:
  assumes cfg: "plain_cfg c pre"
    and args: "decode_args m (c_src c) (c_srcSize c) (c_dst c) (c_outputSize c) pre"
  shows "callable c m" and "c_history c m = bytes m (c_dst c - int pre) pre" and "c_dl c = 0"
proof -
  have hist: "c_hist c = c_dst c - int pre"
    using cfg by (auto simp: plain_cfg_def c_hist_def)
  have "region m (c_dst c - int pre) (c_dst c - int pre + int (pre + nat (c_outputSize c)))"
    using args by (auto simp: decode_args_def mapped_region)
  moreover have "c_dst c - int pre + int (pre + nat (c_outputSize c)) = c_dst c + c_outputSize c"
    using args by (simp add: decode_args_def)
  ultimately have "region m (c_hist c) (c_oend c)"
    by (simp add: hist c_oend_def)
  moreover have dl: "c_dl c = 0"
    using cfg by (simp add: plain_cfg_def c_dl_def)
  ultimately have "dec_ok c m"
    using assms unfolding dec_ok_def hist
    by (auto simp: plain_cfg_def decode_args_def mapped_region c_iend_def c_oend_def region_def)
  then show "callable c m"
    using args by (simp add: callable_def decode_args_def NULL_def)
  show "c_dl c = 0"
    by (rule dl)
  then show "c_history c m = bytes m (c_dst c - int pre) pre"
    by (simp add: d_history_def history_def hist)
qed

text \<open>The facts about a call, for a history that is the prefix.\<close>

lemma plain_outcome:
  assumes cfg: "plain_cfg c pre"
    and args: "decode_args m (c_src c) (c_srcSize c) (c_dst c) (c_outputSize c) pre"
    and pos: "0 < c_outputSize c" "0 < c_srcSize c"
  shows "\<exists>ret m'. LZ4_decompress_generic m c = Some (ret, m') \<and>
           only_changed (c_dst c) (c_outputSize c) m m' \<and>
           (case ref_dec 0 (c_input c m) (bytes m (c_dst c - int pre) pre) (nat (c_outputSize c)) of
              RErr k \<Rightarrow> k \<le> length (c_input c m) \<and> ret = - (c_srcSize c - int k) - 1
            | RDone h' \<Rightarrow> \<exists>out. h' = bytes m (c_dst c - int pre) pre @ out \<and>
                           length out \<le> nat (c_outputSize c) \<and>
                           ret = int (length out) \<and> bytes m' (c_dst c) (length out) = out
            | RCont _ _ _ \<Rightarrow> False)"
  using generic_outcome [OF plain_callable(1) [OF cfg args] pos]
  by (simp only: plain_callable(2,3) [OF cfg args])

lemma plain_total:
  assumes "plain_cfg c pre" and "decode_args m (c_src c) (c_srcSize c) (c_dst c) (c_outputSize c) pre"
  shows "\<exists>ret m'. LZ4_decompress_generic m c = Some (ret, m') \<and>
           only_changed (c_dst c) (c_outputSize c) m m' \<and>
           - c_srcSize c - 1 \<le> ret \<and> ret \<le> c_outputSize c"
  by (rule generic_total [OF plain_callable(1) [OF assms]])

lemma plain_sound:
  assumes cfg: "plain_cfg c pre"
    and args: "decode_args m (c_src c) (c_srcSize c) (c_dst c) (c_outputSize c) pre"
    and run: "LZ4_decompress_generic m c = Some (ret, m')" "0 \<le> ret"
    and pos: "0 < c_outputSize c" "0 < c_srcSize c"
  shows "\<exists>qs l nib. c_input c m = concat (map enc_seq qs) @ enc_last_nib l nib \<and>
           list_all seq_ok qs \<and> offsets_ok (bytes m (c_dst c - int pre) pre) qs \<and>
           bytes m (c_dst c - int pre) pre @ bytes m' (c_dst c) (nat ret) =
             exec_seqs (bytes m (c_dst c - int pre) pre) qs @ l"
  using generic_sound [OF plain_callable(1) [OF cfg args] run pos]
  by (simp only: plain_callable(2) [OF cfg args])

lemma plain_complete:
  assumes cfg: "plain_cfg c pre"
    and args: "decode_args m (c_src c) (c_srcSize c) (c_dst c) (c_outputSize c) pre"
    and block: "c_input c m = enc_block qs l"
    and seqs: "list_all seq_ok qs" "offsets_ok (bytes m (c_dst c - int pre) pre) qs"
      "end_ok (bytes m (c_dst c - int pre) pre) qs (pre + length out)"
    and content: "exec_seqs (bytes m (c_dst c - int pre) pre) qs @ l = bytes m (c_dst c - int pre) pre @ out"
    and fits: "int (length out) \<le> c_outputSize c"
  shows "\<exists>m'. LZ4_decompress_generic m c = Some (int (length out), m') \<and>
           bytes m' (c_dst c) (length out) = out \<and> only_changed (c_dst c) (c_outputSize c) m m'"
  by (rule generic_complete [OF plain_callable(1) [OF cfg args] block seqs(1)])
    (use seqs content fits in \<open>simp_all add: plain_callable(2) [OF cfg args]\<close>)

section \<open>The entry points\<close>

definition safe_cfg :: "ptr \<Rightarrow> ptr \<Rightarrow> int \<Rightarrow> int \<Rightarrow> nat \<Rightarrow> dec_cfg" where
  "safe_cfg source dest n cap pre =
     \<lparr>c_src = source, c_dst = dest, c_srcSize = n, c_outputSize = cap,
      c_partialDecoding = decode_full_block,
      c_dict = (if pre = 65535 then withPrefix64k else noDict),
      c_lowPrefix = (if pre = 65535 then dest - 64 * KB else dest - int pre), c_dictStart = NULL, c_dictSize = 0\<rparr>"

lemma safe_cfg_sel [simp]:
  "c_src (safe_cfg source dest n cap pre) = source" "c_dst (safe_cfg source dest n cap pre) = dest"
  "c_srcSize (safe_cfg source dest n cap pre) = n" "c_outputSize (safe_cfg source dest n cap pre) = cap"
  by (simp_all add: safe_cfg_def)

lemma safe_cfg_plain [simp]: "plain_cfg (safe_cfg source dest n cap pre) pre"
  by (simp add: plain_cfg_def safe_cfg_def c_partial_def)

lemma LZ4_decompress_safe_cfg:
  "LZ4_decompress_safe m source dest n cap = LZ4_decompress_generic m (safe_cfg source dest n cap 0)"
  by (simp add: LZ4_decompress_safe_def safe_cfg_def)

text \<open>A dictionary right in front of the output is the prefix, of which the last 64 KB count.\<close>

lemma LZ4_decompress_safe_usingDict_cfg:
  shows "LZ4_decompress_safe_usingDict m source dest n cap (dest - int pre) (int pre) =
           LZ4_decompress_generic m (safe_cfg source dest n cap (min pre 65535))"
proof -
  consider "pre = 0" | "0 < pre" "pre < 65535" | "65535 \<le> pre"
    by linarith
  then show ?thesis
    by cases
      (simp_all add: LZ4_decompress_safe_usingDict_def LZ4_decompress_safe_def safe_cfg_def
        LZ4_decompress_safe_withPrefix64k_def LZ4_decompress_safe_withSmallPrefix_def min_def)
qed

lemma decode_args_suffix:
  assumes "decode_args m source n dest cap pre" and "k \<le> pre"
  shows "decode_args m source n dest cap k"
proof -
  have "region m (dest - int pre) (dest - int pre + int (pre + nat cap))"
    using assms(1) by (auto simp: decode_args_def mapped_region)
  then have "region m (dest - int k) (dest - int k + int (k + nat cap))"
    by (rule region_sub) (use assms in \<open>auto simp: decode_args_def\<close>)
  then show ?thesis
    using assms by (auto simp: decode_args_def mapped_region)
qed

text \<open>Two buffers, for the concrete instances below.\<close>

definition two_buffers :: "ptr \<Rightarrow> byte list \<Rightarrow> ptr \<Rightarrow> byte list \<Rightarrow> mem" where
  "two_buffers a xs b ys = put (put (\<lambda>_. None) a xs) b ys"

lemma two_buffers_bytes:
  assumes "a + int (length xs) \<le> b"
  shows "bytes (two_buffers a xs b ys) a (length xs) = xs" "bytes (two_buffers a xs b ys) b (length ys) = ys"
proof -
  have "bytes (two_buffers a xs b ys) a (length xs) = bytes (put (\<lambda>_. None) a xs) a (length xs)"
    by (rule bytes_cong) (use assms in \<open>auto simp: two_buffers_def put_apply\<close>)
  then show "bytes (two_buffers a xs b ys) a (length xs) = xs"
    by simp
  show "bytes (two_buffers a xs b ys) b (length ys) = ys"
    by (simp add: two_buffers_def)
qed

lemma two_buffers_read:
  assumes "a + int (length xs) \<le> b"
  shows "n = length xs \<Longrightarrow> bytes (two_buffers a xs b ys) a n = xs"
    and "n = length ys \<Longrightarrow> bytes (two_buffers a xs b ys) b n = ys"
  using two_buffers_bytes [OF assms] by simp_all

lemma two_buffers_args:
  assumes "0 < a" and "a + int (length xs) \<le> b" and "b + int (length ys) < 2 ^ 31"
    and "n = int (length xs)" and "cap = int (length ys)"
  shows "decode_args (two_buffers a xs b ys) a n b cap 0"
  using assms by (auto simp: decode_args_def mapped_region region_def two_buffers_def put_apply)

section \<open>Properties of the decoder\<close>

text \<open>C2: \<open>LZ4_decompress_safe\<close> returns on every input, well formed or not: no access outside
  the two buffers, no overlapping \<open>memcpy\<close>, no endless loop. It changes nothing but the
  output buffer and returns either a size that fits or a code from which the position of the
  error can be read.\<close>

theorem LZ4_decompress_safe_total:
  assumes "decode_args m source n dest cap 0"
  shows "\<exists>ret m'. LZ4_decompress_safe m source dest n cap = Some (ret, m') \<and>
           only_changed dest cap m m' \<and> - n - 1 \<le> ret \<and> ret \<le> cap"
  using plain_total [OF safe_cfg_plain, of m source dest n cap 0] assms
  by (simp add: LZ4_decompress_safe_cfg)

lemma sample_args:
  "decode_args (two_buffers 16 [31, 200, 7, 7, 7, 7] 64 (replicate 16 0)) 16 6 64 16 0"
  by (rule two_buffers_args) simp_all

theorem LZ4_decompress_safe_total_witness:
  "\<exists>ret m'. LZ4_decompress_safe (two_buffers 16 [31, 200, 7, 7, 7, 7] 64 (replicate 16 0)) 16 64 6 16 =
       Some (ret, m') \<and>
     only_changed 64 16 (two_buffers 16 [31, 200, 7, 7, 7, 7] 64 (replicate 16 0)) m' \<and>
     - 6 - 1 \<le> ret \<and> ret \<le> 16"
  by (rule LZ4_decompress_safe_total [OF sample_args])

text \<open>C4: The two loops of \<open>LZ4_decompress_generic\<close>, with their shortcuts, wild copies and
  jumps, compute the plain reference decoder: the same output, or the same position of the
  error.\<close>

theorem LZ4_decompress_safe_refines:
  assumes "decode_args m source n dest cap 0" and "0 < n" and "0 < cap"
  shows "\<exists>ret m'. LZ4_decompress_safe m source dest n cap = Some (ret, m') \<and>
           (case ref_dec 0 (bytes m source (nat n)) [] (nat cap) of
              RErr k \<Rightarrow> ret = - (n - int k) - 1
            | RDone out \<Rightarrow> ret = int (length out) \<and> bytes m' dest (length out) = out
            | RCont _ _ _ \<Rightarrow> False)"
proof -
  obtain ret m' where "LZ4_decompress_safe m source dest n cap = Some (ret, m')"
    and "case ref_dec 0 (bytes m source (nat n)) [] (nat cap) of
        RErr k \<Rightarrow> k \<le> length (bytes m source (nat n)) \<and> ret = - (n - int k) - 1
      | RDone h' \<Rightarrow> \<exists>out. h' = [] @ out \<and> length out \<le> nat cap \<and>
                     ret = int (length out) \<and> bytes m' dest (length out) = out
      | RCont _ _ _ \<Rightarrow> False"
    using plain_outcome [OF safe_cfg_plain, of m source dest n cap 0, unfolded safe_cfg_sel bytes_0,
        OF assms(1,3,2)]
    unfolding LZ4_decompress_safe_cfg by blast
  then show ?thesis
    by (intro exI [of _ ret] exI [of _ m']) (auto split: ref_out.splits)
qed

theorem LZ4_decompress_safe_refines_witness:
  "\<exists>ret m'. LZ4_decompress_safe (two_buffers 16 [31, 200, 7, 7, 7, 7] 64 (replicate 16 0)) 16 64 6 16 =
       Some (ret, m') \<and>
     (case ref_dec 0 (bytes (two_buffers 16 [31, 200, 7, 7, 7, 7] 64 (replicate 16 0)) 16 (nat 6)) [] (nat 16) of
        RErr k \<Rightarrow> ret = - (6 - int k) - 1
      | RDone out \<Rightarrow> ret = int (length out) \<and> bytes m' 64 (length out) = out
      | RCont _ _ _ \<Rightarrow> False)"
  by (rule LZ4_decompress_safe_refines [OF sample_args]) simp_all

text \<open>C21: Every legal block whose content fits is decoded to its content.\<close>

theorem LZ4_decompress_safe_complete:
  assumes "decode_args m source n dest cap 0"
    and "bytes m source (nat n) = enc_block qs l"
    and "list_all seq_ok qs" and "offsets_ok [] qs" and "end_ok [] qs (length out)"
    and "exec_seqs [] qs @ l = out" and "int (length out) \<le> cap"
  shows "\<exists>m'. LZ4_decompress_safe m source dest n cap = Some (int (length out), m') \<and>
           bytes m' dest (length out) = out \<and> only_changed dest cap m m'"
  using plain_complete [OF safe_cfg_plain, of m source dest n cap 0 qs l out] assms
  by (simp add: LZ4_decompress_safe_cfg)

abbreviation sample_qs :: "lz_seq list" where
  "sample_qs \<equiv> [\<lparr>sq_lits = [97], sq_off = 1, sq_mlen = 8\<rparr>]"

abbreviation sample_out :: "byte list" where
  "sample_out \<equiv> [97, 97, 97, 97, 97, 97, 97, 97, 97, 1, 2, 3, 4, 5]"

abbreviation sample_mem :: mem where
  "sample_mem \<equiv> two_buffers 16 [20, 97, 1, 0, 80, 1, 2, 3, 4, 5] 64 (replicate 14 0)"

lemma sample_block:
  "enc_block sample_qs [1, 2, 3, 4, 5] = [20, 97, 1, 0, 80, 1, 2, 3, 4, 5]"
  "exec_seqs [] sample_qs @ [1, 2, 3, 4, 5] = sample_out"
  "list_all seq_ok sample_qs \<and> offsets_ok [] sample_qs \<and> end_ok [] sample_qs (length sample_out)"
  by (code_simp, code_simp, simp add: seq_ok_def)

lemma sample_mem_facts:
  "decode_args sample_mem 16 10 64 14 0"
  "bytes sample_mem 16 (nat 10) = enc_block sample_qs [1, 2, 3, 4, 5]"
  unfolding sample_block by (rule two_buffers_args two_buffers_read; simp)+

theorem LZ4_decompress_safe_complete_witness:
  "\<exists>m'. LZ4_decompress_safe sample_mem 16 64 10 14 = Some (int (length sample_out), m') \<and>
     bytes m' 64 (length sample_out) = sample_out \<and> only_changed 64 14 sample_mem m'"
  by (rule LZ4_decompress_safe_complete [OF sample_mem_facts])
    (use sample_block(3) in \<open>simp_all only: sample_block(2) simp_thms\<close>, simp)

text \<open>C22: An input is accepted only if it is the encoding of the bytes returned: a list of
  sequences with offsets inside what has been decoded, and last literals; the match nibble of
  the last token is not looked at.\<close>

theorem LZ4_decompress_safe_sound:
  assumes "decode_args m source n dest cap 0" and "0 < n" and "0 < cap"
    and "LZ4_decompress_safe m source dest n cap = Some (ret, m')" and "0 \<le> ret"
  shows "\<exists>qs l nib. bytes m source (nat n) = concat (map enc_seq qs) @ enc_last_nib l nib \<and>
           list_all seq_ok qs \<and> offsets_ok [] qs \<and> bytes m' dest (nat ret) = exec_seqs [] qs @ l"
  using plain_sound [OF safe_cfg_plain, of m source dest n cap 0 ret m', unfolded safe_cfg_sel bytes_0 append_Nil]
    assms by (simp only: LZ4_decompress_safe_cfg simp_thms)

lemma sample_run: "\<exists>m'. LZ4_decompress_safe sample_mem 16 64 10 14 = Some (14, m')"
proof -
  have "\<exists>m'. LZ4_decompress_generic sample_mem (safe_cfg 16 64 10 14 0) = Some (int (length sample_out), m') \<and>
      bytes m' 64 (length sample_out) = sample_out \<and> only_changed 64 14 sample_mem m'"
    using plain_complete [OF safe_cfg_plain, of sample_mem 16 64 10 14 0 sample_qs "[1, 2, 3, 4, 5]" sample_out,
        unfolded safe_cfg_sel bytes_0, OF sample_mem_facts] sample_block(2,3)
    by (simp only: append_Nil add_0) simp
  then show ?thesis
    by (auto simp: LZ4_decompress_safe_cfg)
qed

theorem LZ4_decompress_safe_sound_witness:
  "\<exists>m' qs l nib. bytes sample_mem 16 (nat 10) = concat (map enc_seq qs) @ enc_last_nib l nib \<and>
     list_all seq_ok qs \<and> offsets_ok [] qs \<and> bytes m' 64 (nat 14) = exec_seqs [] qs @ l"
proof -
  obtain m' where run: "LZ4_decompress_safe sample_mem 16 64 10 14 = Some (14, m')"
    using sample_run by blast
  show ?thesis
    by (rule exI [of _ m'], rule LZ4_decompress_safe_sound [OF sample_mem_facts(1) _ _ run]) simp_all
qed

text \<open>The decoder accepts a match at distance 0, which the block format calls an error; the
  bytes of the match are then zeros. Here a literal, eight bytes at distance 0 and the last
  literals.\<close>

theorem LZ4_decompress_safe_offset_zero:
  "\<exists>m'. LZ4_decompress_safe (two_buffers 16 [20, 97, 0, 0, 80, 1, 2, 3, 4, 5] 64 (replicate 14 255))
         16 64 10 14 = Some (14, m') \<and>
     bytes m' 64 14 = [97, 0, 0, 0, 0, 0, 0, 0, 0, 1, 2, 3, 4, 5]"
proof -
  let ?xs = "[20, 97, 0, 0, 80, 1, 2, 3, 4, 5] :: byte list" and ?l = "[1, 2, 3, 4, 5] :: byte list"
    and ?qs = "[\<lparr>sq_lits = [97], sq_off = 0, sq_mlen = 8\<rparr>]"
    and ?out = "[97, 0, 0, 0, 0, 0, 0, 0, 0, 1, 2, 3, 4, 5] :: byte list"
  let ?m = "two_buffers 16 ?xs 64 (replicate 14 255)"
  have args: "decode_args ?m 16 10 64 14 0"
    by (rule two_buffers_args) simp_all
  have block: "enc_block ?qs ?l = ?xs" "exec_seqs [] ?qs @ ?l = ?out"
    by (code_simp, code_simp)
  have input: "bytes ?m 16 (nat 10) = enc_block ?qs ?l"
    unfolding block by (rule two_buffers_read) simp_all
  have seqs: "list_all seq_ok ?qs" "offsets_ok [] ?qs" "end_ok [] ?qs (0 + length ?out)"
    by (simp_all add: seq_ok_def)
  have "\<exists>m'. LZ4_decompress_generic ?m (safe_cfg 16 64 10 14 0) = Some (int (length ?out), m') \<and>
      bytes m' 64 (length ?out) = ?out \<and> only_changed 64 14 ?m m'"
    using plain_complete [OF safe_cfg_plain, of ?m 16 64 10 14 0 ?qs ?l ?out,
        unfolded safe_cfg_sel bytes_0, OF args input seqs] block(2)
    by (simp only: append_Nil) simp
  moreover have "length ?out = 14"
    by simp
  ultimately show ?thesis
    by (simp only: LZ4_decompress_safe_cfg) auto
qed

end
