(* ===== verification/Lz4_Unsafe.thy ===== *)
theory Lz4_Unsafe
  imports Lz4_Decode
begin

text \<open>
  The decoder of src/lz4.c that is not told where its input ends,
  \<open>LZ4_decompress_unsafe_generic\<close>, and the deprecated entry points \<open>LZ4_decompress_fast*\<close> that
  instantiate it. The input is presumed to be well formed: the code reads on wherever the
  lengths lead it, so a read outside the memory makes the result \<^term>\<open>None\<close>, and the loops are
  partial functions.

  The C types decide here what a comparison means: \<open>U64\<close> is written where an \<open>int\<close> or a
  difference of pointers becomes a \<open>size_t\<close>, and \<open>S32\<close> where the result becomes an \<open>int\<close>.
\<close>

definition S32 :: "int \<Rightarrow> int" where
  "S32 x = (x + 2 ^ 31) mod 2 ^ 32 - 2 ^ 31"

lemma S32_id [simp]: "- 2147483648 \<le> x \<Longrightarrow> x < 2147483648 \<Longrightarrow> S32 x = x"
  by (simp add: S32_def)

section \<open>Arguments\<close>

record unsafe_cfg =
  u_istart :: ptr
  u_ostart :: ptr
  u_decompressedSize :: int
  u_prefixSize :: int
  u_dictStart :: ptr
  u_dictSize :: int

definition u_oend :: "unsafe_cfg \<Rightarrow> ptr" where
  "u_oend u = u_ostart u + u_decompressedSize u"

definition u_prefixStart :: "unsafe_cfg \<Rightarrow> ptr" where
  "u_prefixStart u = u_ostart u - u_prefixSize u"

section \<open>One sequence\<close>

text \<open>The length is accumulated in \<open>l\<close>; the advanced input pointer is returned with it.\<close>

partial_function (option) read_long_length_no_check :: "mem \<Rightarrow> ptr \<Rightarrow> int \<Rightarrow> (int \<times> ptr) option" where
  "read_long_length_no_check m ip l =
     do { b \<leftarrow> m ip;
          if b = 255 then read_long_length_no_check m (ip + 1) (U64 (l + uint b))
          else Some (U64 (l + uint b), ip + 1) }"

declare read_long_length_no_check.simps [code]

text \<open>Where the code goes on after a part of a round of the main loop: on with this round or with
  the next one, out of the loop, or out of the function with \<open>-1\<close>.\<close>

datatype unsafe_next = GoOn | EndOfBlock | Malformed

type_synonym unsafe_state = "mem \<times> ptr \<times> ptr"

definition unsafe_length :: "mem \<Rightarrow> ptr \<Rightarrow> int \<Rightarrow> (int \<times> ptr) option" where
  "unsafe_length m ip nibble =
     (if nibble = 15 then
        do { (l, ip) \<leftarrow> read_long_length_no_check m ip 0; Some (U64 (nibble + l), ip) }
      else Some (nibble, ip))"

definition unsafe_literals ::
  "unsafe_cfg \<Rightarrow> int \<Rightarrow> unsafe_state \<Rightarrow> (unsafe_next \<times> unsafe_state) option" where
  "unsafe_literals u token = (\<lambda>(m, ip, op).
     do { (ll, ip) \<leftarrow> unsafe_length m ip (token div 16);
          if U64 (u_oend u - op) < ll then Some (Malformed, m, ip, op)
          else do {
            m \<leftarrow> LZ4_memmove m op ip (nat ll);
            let op = op + ll;
            let ip = ip + ll;
            if U64 (u_oend u - op) < MFLIMIT then
              Some (if op = u_oend u then EndOfBlock else Malformed, m, ip, op)
            else Some (GoOn, m, ip, op) } })"

text \<open>The part of a match that lies in the external dictionary: the memory, the advanced output
  pointer and the length that is left.\<close>

definition unsafe_ext_dict ::
  "unsafe_cfg \<Rightarrow> mem \<Rightarrow> ptr \<Rightarrow> int \<Rightarrow> int \<Rightarrow> (mem \<times> ptr \<times> int) option" where
  "unsafe_ext_dict u m op offset ml =
     (let dictEnd = u_dictStart u + u_dictSize u;
          extMatch = dictEnd - (offset - (op - u_prefixStart u));
          extml = dictEnd - extMatch
      in if extml > ml then
           do { m \<leftarrow> LZ4_memmove m op extMatch (nat ml); Some (m, op + ml, 0) }
         else
           do { m \<leftarrow> LZ4_memmove m op extMatch (nat extml); Some (m, op + extml, ml - extml) })"

text \<open>The copy of a match: the part in the dictionary, then the byte loop.\<close>

definition unsafe_copy :: "unsafe_cfg \<Rightarrow> mem \<Rightarrow> ptr \<Rightarrow> int \<Rightarrow> int \<Rightarrow> (mem \<times> ptr) option" where
  "unsafe_copy u m op offset ml =
     do { (m, op, match, ml) \<leftarrow>
            (if offset > op - u_prefixStart u
             then do { (m, op, ml) \<leftarrow> unsafe_ext_dict u m op offset ml;
                       Some (m, op, u_prefixStart u, ml) }
             else Some (m, op, op - offset, ml));
          m \<leftarrow> copy_loop m op match (op + ml);
          Some (m, op + ml) }"

definition unsafe_match ::
  "unsafe_cfg \<Rightarrow> int \<Rightarrow> unsafe_state \<Rightarrow> (unsafe_next \<times> unsafe_state) option" where
  "unsafe_match u token = (\<lambda>(m, ip, op).
     do { offset \<leftarrow> LZ4_readLE16 m ip;
          (ml, ip) \<leftarrow> unsafe_length m (ip + 2) (token mod 16);
          let ml = U64 (ml + MINMATCH);
          if U64 (u_oend u - op) < ml then Some (Malformed, m, ip, op)
          else if offset > op - u_prefixStart u + u_dictSize u then Some (Malformed, m, ip, op)
          else do {
            (m, op) \<leftarrow> unsafe_copy u m op offset ml;
            Some (if U64 (u_oend u - op) < LASTLITERALS then Malformed else GoOn, m, ip, op) } })"

definition unsafe_sequence ::
  "unsafe_cfg \<Rightarrow> unsafe_state \<Rightarrow> (unsafe_next \<times> unsafe_state) option" where
  "unsafe_sequence u = (\<lambda>(m, ip, op).
     do { b \<leftarrow> m ip;
          let token = uint b;
          (r, s) \<leftarrow> unsafe_literals u token (m, ip + 1, op);
          if r = GoOn then unsafe_match u token s else Some (r, s) })"

section \<open>The whole function\<close>

partial_function (option) unsafe_loop :: "unsafe_cfg \<Rightarrow> unsafe_state \<Rightarrow> (int \<times> mem) option" where
  "unsafe_loop u s =
     Option.bind (unsafe_sequence u s) (\<lambda>r.
       case r of
         (GoOn, s) \<Rightarrow> unsafe_loop u s
       | (EndOfBlock, m, ip, op) \<Rightarrow> Some (S32 (ip - u_istart u), m)
       | (Malformed, m, ip, op) \<Rightarrow> Some (-1, m))"

declare unsafe_loop.simps [code]

definition LZ4_decompress_unsafe_generic ::
  "mem \<Rightarrow> ptr \<Rightarrow> ptr \<Rightarrow> int \<Rightarrow> int \<Rightarrow> ptr \<Rightarrow> int \<Rightarrow> (int \<times> mem) option" where
  "LZ4_decompress_unsafe_generic m istart ostart decompressedSize prefixSize dictStart dictSize =
     unsafe_loop
       \<lparr>u_istart = istart, u_ostart = ostart, u_decompressedSize = decompressedSize,
        u_prefixSize = prefixSize, u_dictStart = dictStart, u_dictSize = dictSize\<rparr>
       (m, istart, ostart)"

section \<open>The entry points\<close>

definition LZ4_decompress_fast :: "mem \<Rightarrow> ptr \<Rightarrow> ptr \<Rightarrow> int \<Rightarrow> (int \<times> mem) option" where
  "LZ4_decompress_fast m source dest originalSize =
     LZ4_decompress_unsafe_generic m source dest originalSize 0 NULL 0"

definition LZ4_decompress_fast_withPrefix64k ::
  "mem \<Rightarrow> ptr \<Rightarrow> ptr \<Rightarrow> int \<Rightarrow> (int \<times> mem) option" where
  "LZ4_decompress_fast_withPrefix64k m source dest originalSize =
     LZ4_decompress_unsafe_generic m source dest originalSize (64 * KB) NULL 0"

definition LZ4_decompress_fast_extDict ::
  "mem \<Rightarrow> ptr \<Rightarrow> ptr \<Rightarrow> int \<Rightarrow> ptr \<Rightarrow> int \<Rightarrow> (int \<times> mem) option" where
  "LZ4_decompress_fast_extDict m source dest originalSize dictStart dictSize =
     LZ4_decompress_unsafe_generic m source dest originalSize 0 dictStart dictSize"

definition LZ4_decompress_fast_usingDict ::
  "mem \<Rightarrow> ptr \<Rightarrow> ptr \<Rightarrow> int \<Rightarrow> ptr \<Rightarrow> int \<Rightarrow> (int \<times> mem) option" where
  "LZ4_decompress_fast_usingDict m source dest originalSize dictStart dictSize =
     (if dictSize = 0 \<or> dictStart + dictSize = dest
      then LZ4_decompress_unsafe_generic m source dest originalSize (U64 dictSize) NULL 0
      else LZ4_decompress_fast_extDict m source dest originalSize dictStart (U64 dictSize))"

definition LZ4_uncompress :: "mem \<Rightarrow> ptr \<Rightarrow> ptr \<Rightarrow> int \<Rightarrow> (int \<times> mem) option" where
  "LZ4_uncompress m source dest outputSize = LZ4_decompress_fast m source dest outputSize"

end
