(* ===== verification/Lz4_Count.thy ===== *)
theory Lz4_Count
  imports Lz4_Copy
begin

text \<open>
  Counting the length of a match in src/lz4.c: \<open>LZ4_NbCommonBytes\<close> and \<open>LZ4_count\<close>, which
  compares eight bytes at a time, and their law: the count is the length of the longest
  common prefix. The same facts on little-endian words give the meaning of the four-byte
  comparisons of the encoder.
\<close>

section \<open>The code\<close>

text \<open>\<open>__builtin_ctzll(val) >> 3\<close>, the branch of \<open>LZ4_NbCommonBytes\<close> for gcc and clang on a
  64-bit little-endian machine.\<close>

definition ctzll :: "64 word \<Rightarrow> nat" where
  "ctzll val = length (takeWhile (\<lambda>i. \<not> bit val i) [0..<64])"

definition LZ4_NbCommonBytes :: "64 word \<Rightarrow> int" where
  "LZ4_NbCommonBytes val = int (ctzll val div 8)"

text \<open>The \<open>while\<close> loop: either a difference was found (the final \<open>pIn\<close>), or less than eight
  bytes are left.\<close>

function count_loop :: "mem \<Rightarrow> ptr \<Rightarrow> ptr \<Rightarrow> ptr \<Rightarrow> (ptr + ptr \<times> ptr) option" where
  "count_loop m pIn pMatch pInLimit =
     (if pIn < pInLimit - 7 then
        do { a \<leftarrow> LZ4_read_ARCH m pMatch;
             b \<leftarrow> LZ4_read_ARCH m pIn;
             let diff = a XOR b;
             if diff = 0 then count_loop m (pIn + 8) (pMatch + 8) pInLimit
             else Some (Inl (pIn + LZ4_NbCommonBytes diff)) }
      else Some (Inr (pIn, pMatch)))"
  by pat_completeness auto
termination
  by (relation "measure (\<lambda>(m, pIn, pMatch, lim). nat (lim - pIn))") auto

declare count_loop.simps [simp del]

text \<open>The three tests after the loop.\<close>

definition count_tail :: "mem \<Rightarrow> ptr \<Rightarrow> ptr \<Rightarrow> ptr \<Rightarrow> ptr option" where
  "count_tail m pIn pMatch pInLimit =
     do { (pIn, pMatch) \<leftarrow>
            (if pIn < pInLimit - 3 then
               do { a \<leftarrow> LZ4_read32 m pMatch; b \<leftarrow> LZ4_read32 m pIn;
                    Some (if a = b then (pIn + 4, pMatch + 4) else (pIn, pMatch)) }
             else Some (pIn, pMatch));
          (pIn, pMatch) \<leftarrow>
            (if pIn < pInLimit - 1 then
               do { a \<leftarrow> LZ4_read16 m pMatch; b \<leftarrow> LZ4_read16 m pIn;
                    Some (if a = b then (pIn + 2, pMatch + 2) else (pIn, pMatch)) }
             else Some (pIn, pMatch));
          if pIn < pInLimit then
            do { a \<leftarrow> m pMatch; b \<leftarrow> m pIn; Some (if a = b then pIn + 1 else pIn) }
          else Some pIn }"

definition count_rest :: "mem \<Rightarrow> ptr \<Rightarrow> ptr \<Rightarrow> ptr \<Rightarrow> ptr \<Rightarrow> int option" where
  "count_rest m pStart pIn pMatch pInLimit =
     do { r \<leftarrow> count_loop m pIn pMatch pInLimit;
          case r of
            Inl p \<Rightarrow> Some (p - pStart)
          | Inr (p, q) \<Rightarrow> do { p \<leftarrow> count_tail m p q pInLimit; Some (p - pStart) } }"

definition LZ4_count :: "mem \<Rightarrow> ptr \<Rightarrow> ptr \<Rightarrow> ptr \<Rightarrow> int option" where
  "LZ4_count m pIn pMatch pInLimit =
     (if pIn < pInLimit - 7 then
        do { a \<leftarrow> LZ4_read_ARCH m pMatch;
             b \<leftarrow> LZ4_read_ARCH m pIn;
             let diff = a XOR b;
             if diff = 0 then count_rest m pIn (pIn + 8) (pMatch + 8) pInLimit
             else Some (LZ4_NbCommonBytes diff) }
      else count_rest m pIn pIn pMatch pInLimit)"

section \<open>Little-endian words and their bytes\<close>

lemma bit_le_word:
  "bit (le_word bs :: 'a::len word) i \<longleftrightarrow>
     i < LENGTH('a) \<and> i div 8 < length bs \<and> bit (bs ! (i div 8)) (i mod 8)"
proof (induction bs arbitrary: i)
  case Nil
  then show ?case by simp
next
  case (Cons b bs)
  show ?case
  proof (cases "i < 8")
    case True
    then show ?thesis
      by (auto simp: bit_simps)
  next
    case False
    then obtain k where k: "i = 8 + k"
      using le_Suc_ex not_less by blast
    have "\<not> bit b i"
      using False by (auto dest: bit_imp_le_length)
    then have "bit (le_word (b # bs) :: 'a word) i \<longleftrightarrow> i < LENGTH('a) \<and> bit (le_word bs :: 'a word) k"
      using k by (auto simp: bit_simps)
    moreover have "(8 + k) div 8 = Suc (k div 8)"
      by simp
    ultimately show ?thesis
      using Cons.IH [of k] k by auto
  qed
qed

lemma byte_eq_bits: "(x :: byte) = y \<longleftrightarrow> (\<forall>i<8. bit x i = bit y i)"
  by (auto intro!: bit_word_eqI)

lemma le_word_eq_iff:
  assumes "length xs = n" and "length ys = n" and "LENGTH('a) = 8 * n"
  shows "(le_word xs :: 'a::len word) = le_word ys \<longleftrightarrow> xs = ys"
proof
  assume eq: "(le_word xs :: 'a word) = le_word ys"
  show "xs = ys"
  proof (rule nth_equalityI)
    fix j
    assume j: "j < length xs"
    have "bit (xs ! j) i = bit (ys ! j) i" if "i < 8" for i
    proof -
      have "bit (le_word xs :: 'a word) (8 * j + i) = bit (le_word ys :: 'a word) (8 * j + i)"
        by (simp add: eq)
      then show ?thesis
        using that j assms by (simp add: bit_le_word)
    qed
    then show "xs ! j = ys ! j"
      by (simp add: byte_eq_bits)
  qed (use assms in simp)
qed simp

lemma ctzll_first:
  assumes "w \<noteq> 0"
  shows "bit w (ctzll w)" and "i < ctzll w \<Longrightarrow> \<not> bit w i" and "ctzll w < 64"
proof -
  let ?P = "\<lambda>i. \<not> bit w i"
  obtain k where k: "k < 64" "bit w k"
    using assms by (auto simp: bit_eq_iff dest: bit_imp_le_length)
  have len: "ctzll w < 64"
  proof (rule ccontr)
    assume "\<not> ctzll w < 64"
    then have "length (takeWhile ?P [0..<64]) = length [0..<64]"
      using length_takeWhile_le [of ?P "[0..<64]"] by (simp add: ctzll_def)
    then have "takeWhile ?P [0..<64] = [0..<64]"
      by (metis takeWhile_eq_take take_all_iff order_refl)
    then show False
      using k by (auto simp: takeWhile_eq_all_conv)
  qed
  then show "ctzll w < 64" .
  show "bit w (ctzll w)"
    using nth_length_takeWhile [of ?P "[0..<64]"] len by (simp add: ctzll_def)
  show "\<not> bit w i" if "i < ctzll w" for i
  proof -
    have "i < 64"
      using that len by simp
    then have "takeWhile ?P [0..<64] ! i = i"
      using that by (simp add: ctzll_def takeWhile_nth)
    moreover have "takeWhile ?P [0..<64] ! i \<in> set (takeWhile ?P [0..<64])"
      using that by (intro nth_mem) (simp add: ctzll_def)
    ultimately show ?thesis
      by (auto dest: set_takeWhileD)
  qed
qed

text \<open>\<open>LZ4_NbCommonBytes\<close> of the difference of two words is the number of equal low bytes.\<close>

lemma NbCommonBytes_common:
  assumes "length xs = 8" and "length ys = 8" and ne: "xs \<noteq> ys"
  shows "\<exists>k<8. LZ4_NbCommonBytes (le_word xs XOR le_word ys) = int k \<and>
           (\<forall>j<k. xs ! j = ys ! j) \<and> xs ! k \<noteq> ys ! k"
proof -
  define w where "w = (le_word xs XOR le_word ys :: 64 word)"
  have "a = b" if "a XOR b = 0" for a b :: "64 word"
    using that by (auto simp: bit_eq_iff bit_xor_iff)
  then have "w \<noteq> 0"
    using le_word_eq_iff [of xs 8 ys, where 'a = 64] assms by (auto simp: w_def)
  note first = ctzll_first [OF this]
  have bitw: "bit w i \<longleftrightarrow> bit (xs ! (i div 8)) (i mod 8) \<noteq> bit (ys ! (i div 8)) (i mod 8)" if "i < 64" for i
    using that assms(1,2) by (auto simp: w_def bit_xor_iff bit_le_word)
  define k where "k = ctzll w div 8"
  have k: "k < 8"
    using first(3) by (simp add: k_def)
  have "bit (xs ! k) (ctzll w mod 8) \<noteq> bit (ys ! k) (ctzll w mod 8)"
    using bitw [OF first(3)] first(1) by (simp add: k_def)
  then have "xs ! k \<noteq> ys ! k"
    by auto
  moreover have "xs ! j = ys ! j" if "j < k" for j
    unfolding byte_eq_bits
  proof (intro allI impI)
    fix i :: nat
    assume i: "i < 8"
    have "8 * (ctzll w div 8) \<le> ctzll w"
      by simp
    then have "8 * j + i < ctzll w"
      using that i by (simp add: k_def)
    then have "\<not> bit w (8 * j + i)" "8 * j + i < 64"
      using first(2,3) by auto
    then show "bit (xs ! j) i = bit (ys ! j) i"
      using bitw [of "8 * j + i"] i by simp
  qed
  ultimately show ?thesis
    using k by (auto simp: LZ4_NbCommonBytes_def w_def [symmetric] k_def [symmetric])
qed

section \<open>Comparing words in memory\<close>

lemma region_Some: "region m lo hi \<Longrightarrow> lo \<le> x \<Longrightarrow> x < hi \<Longrightarrow> \<exists>b. m x = Some b"
  by (auto simp: region_def)

lemma bytes_eq_iff:
  assumes "region m a (a + int n)" and "region m b (b + int n)"
  shows "bytes m a n = bytes m b n \<longleftrightarrow> (\<forall>i<n. m (a + int i) = m (b + int i))"
proof
  assume eq: "bytes m a n = bytes m b n"
  show "\<forall>i<n. m (a + int i) = m (b + int i)"
  proof (intro allI impI)
    fix i
    assume "i < n"
    then have "the (m (a + int i)) = the (m (b + int i))"
      using eq nth_bytes [of i n m a] nth_bytes [of i n m b] by simp
    moreover have "\<exists>x. m (a + int i) = Some x" "\<exists>y. m (b + int i) = Some y"
      using region_Some [OF assms(1), of "a + int i"] region_Some [OF assms(2), of "b + int i"] \<open>i < n\<close>
      by auto
    ultimately show "m (a + int i) = m (b + int i)"
      by auto
  qed
qed (auto simp: bytes_def)

lemma read_words:
  "region m a (a + 8) \<Longrightarrow> LZ4_read_ARCH m a = Some (le_word (bytes m a 8))"
  "region m a (a + 4) \<Longrightarrow> LZ4_read32 m a = Some (le_word (bytes m a 4))"
  "region m a (a + 2) \<Longrightarrow> LZ4_read16 m a = Some (le_word (bytes m a 2))"
  using load_bytes_Some [of m a 8] load_bytes_Some [of m a 4] load_bytes_Some [of m a 2]
  by (simp_all add: LZ4_read_ARCH_def LZ4_read32_def LZ4_read16_def)

text \<open>Four and two bytes compared as words.\<close>

lemma read32_eq_iff:
  assumes "region m a (a + 4)" and "region m b (b + 4)"
  shows "LZ4_read32 m a = LZ4_read32 m b \<longleftrightarrow> (\<forall>i<4. m (a + int i) = m (b + int i))"
  using bytes_eq_iff [of m a 4 b] le_word_eq_iff [of "bytes m a 4" 4 "bytes m b 4", where 'a = 32] assms
  by (simp add: read_words)

lemma le_word16_eq_iff:
  assumes "region m a (a + 2)" and "region m b (b + 2)"
  shows "LZ4_read16 m a = LZ4_read16 m b \<longleftrightarrow> (\<forall>i<2. m (a + int i) = m (b + int i))"
  using bytes_eq_iff [of m a 2 b] le_word_eq_iff [of "bytes m a 2" 2 "bytes m b 2", where 'a = 16] assms
  by (simp add: read_words)

section \<open>The count is the length of the longest common prefix\<close>

definition common_run :: "mem \<Rightarrow> ptr \<Rightarrow> ptr \<Rightarrow> int \<Rightarrow> int \<Rightarrow> bool" where
  "common_run m a b L n \<longleftrightarrow>
     0 \<le> n \<and> n \<le> L \<and> (\<forall>i. 0 \<le> i \<and> i < n \<longrightarrow> m (a + i) = m (b + i)) \<and>
     (n < L \<longrightarrow> m (a + n) \<noteq> m (b + n))"

lemma common_run_exists:
  assumes "0 \<le> L"
  shows "\<exists>R. common_run m a b L R"
proof -
  have "\<exists>R. common_run m a b (int n) R" for n
  proof (induction n arbitrary: a b)
    case 0
    show ?case
      by (intro exI [of _ 0]) (auto simp: common_run_def)
  next
    case (Suc n)
    show ?case
    proof (cases "m a = m b")
      case False
      then show ?thesis
        by (intro exI [of _ 0]) (auto simp: common_run_def)
    next
      case True
      obtain R where R: "common_run m (a + 1) (b + 1) (int n) R"
        using Suc.IH by blast
      have "m (a + i) = m (b + i)" if "0 \<le> i" "i < R + 1" for i
      proof (cases "i = 0")
        case False
        then have "0 \<le> i - 1 \<and> i - 1 < R"
          using that by auto
        then have "m (a + 1 + (i - 1)) = m (b + 1 + (i - 1))"
          using R unfolding common_run_def by blast
        then show ?thesis
          by simp
      qed (use True in simp)
      moreover have "m (a + (R + 1)) \<noteq> m (b + (R + 1))" if "R + 1 < int (Suc n)"
        using R that unfolding common_run_def by (simp add: algebra_simps)
      ultimately show ?thesis
        using R by (intro exI [of _ "R + 1"]) (simp add: common_run_def)
    qed
  qed
  from this [of "nat L"] assms show ?thesis
    by simp
qed

lemma common_run_unique:
  assumes "common_run m a b L r" and "common_run m a b L s"
  shows "r = s"
proof (rule ccontr)
  assume "r \<noteq> s"
  then consider "r < s" | "s < r"
    by linarith
  then show False
    using assms by cases (auto simp: common_run_def)
qed

text \<open>A test of the next \<open>k\<close> bytes succeeds just when the run is at least that long, and then
  the run goes on behind them.\<close>

lemma common_run_test:
  assumes "common_run m a b L R" and "int k \<le> L"
  shows "(\<forall>i<k. m (a + int i) = m (b + int i)) \<longleftrightarrow> int k \<le> R"
proof
  assume all: "\<forall>i<k. m (a + int i) = m (b + int i)"
  show "int k \<le> R"
  proof (rule ccontr)
    assume "\<not> int k \<le> R"
    then have R: "nat R < k" "R < L" "0 \<le> R"
      using assms by (auto simp: common_run_def)
    then have "m (a + int (nat R)) = m (b + int (nat R))"
      using all by blast
    then show False
      using assms R by (simp add: common_run_def)
  qed
qed (use assms in \<open>auto simp: common_run_def\<close>)

lemma common_run_advance:
  assumes "common_run m a b L R" and "0 \<le> k" and "k \<le> R"
  shows "common_run m (a + k) (b + k) (L - k) (R - k)"
  unfolding common_run_def
proof (intro conjI allI impI)
  fix i
  assume "0 \<le> i \<and> i < R - k"
  then have "m (a + (k + i)) = m (b + (k + i))"
    using assms unfolding common_run_def by auto
  then show "m (a + k + i) = m (b + k + i)"
    by (simp add: add.assoc)
qed (use assms in \<open>auto simp: common_run_def algebra_simps\<close>)

text \<open>The tests after the loop.\<close>

lemma count_tail_run:
  assumes run: "common_run m p q (e - p) R" and "R < 8"
    and regp: "region m p e" and regq: "region m q (q + (e - p))"
  shows "count_tail m p q e = Some (p + R)"
proof -
  have R: "0 \<le> R" "R \<le> e - p"
    using run by (auto simp: common_run_def)
  define one where "one = (\<lambda>p q. if p < e then do { a \<leftarrow> m q; b \<leftarrow> m p; Some (if a = b then p + 1 else p) }
                                 else Some p)"
  have one: "one (p + k) (q + k) = Some (p + R)" if k: "0 \<le> k" "k \<le> R" "R \<le> k + 1" for k
  proof (cases "p + k < e")
    case True
    then obtain a b where ab: "m (q + k) = Some a" "m (p + k) = Some b"
      using region_Some [OF regp, of "p + k"] region_Some [OF regq, of "q + k"] k by auto
    have "m (p + k) = m (q + k) \<longleftrightarrow> R = k + 1"
      using common_run_test [OF common_run_advance [OF run k(1,2)], of 1] True k by auto
    with ab True k show ?thesis
      by (auto simp: one_def)
  qed (use k R in \<open>auto simp: one_def\<close>)
  define two where "two = (\<lambda>p q. if p < e - 1 then
      do { a \<leftarrow> LZ4_read16 m q; b \<leftarrow> LZ4_read16 m p; Some (if a = b then (p + 2, q + 2) else (p, q)) }
      else Some (p, q))"
  have two: "(do { (p, q) \<leftarrow> two (p + k) (q + k); one p q }) = Some (p + R)"
    if k: "0 \<le> k" "k \<le> R" "R \<le> k + 3" for k
  proof (cases "p + k < e - 1")
    case True
    have r: "region m (p + k) (p + k + 2)" "region m (q + k) (q + k + 2)"
      by (rule region_sub [OF regp] region_sub [OF regq]; use k True in simp)+
    have "LZ4_read16 m (p + k) = LZ4_read16 m (q + k) \<longleftrightarrow> k + 2 \<le> R"
      using le_word16_eq_iff [OF r] common_run_test [OF common_run_advance [OF run k(1,2)], of 2] True
      by auto
    then show ?thesis
      using True k one [of k] one [of "k + 2"] read_words(3) [OF r(2)] read_words(3) [OF r(1)]
      by (auto simp: two_def add.assoc)
  next
    case False
    then show ?thesis
      using one [OF k(1,2)] R by (simp add: two_def)
  qed
  define four where "four = (\<lambda>p q. if p < e - 3 then
      do { a \<leftarrow> LZ4_read32 m q; b \<leftarrow> LZ4_read32 m p; Some (if a = b then (p + 4, q + 4) else (p, q)) }
      else Some (p, q))"
  have tail: "count_tail m p q e = (do { (p, q) \<leftarrow> four p q; (p, q) \<leftarrow> two p q; one p q })"
    by (simp add: count_tail_def four_def two_def one_def)
  show ?thesis
  proof (cases "p < e - 3")
    case True
    have r: "region m p (p + 4)" "region m q (q + 4)"
      by (rule region_sub [OF regp] region_sub [OF regq]; use True in simp)+
    have "LZ4_read32 m p = LZ4_read32 m q \<longleftrightarrow> 4 \<le> R"
      using read32_eq_iff [OF r] common_run_test [OF run, of 4] True by auto
    then show ?thesis
      using True R two [of 0] two [of 4] \<open>R < 8\<close> read_words(2) [OF r(2)] read_words(2) [OF r(1)]
      by (auto simp: tail four_def)
  next
    case False
    then show ?thesis
      using two [of 0] R by (simp add: tail four_def)
  qed
qed

text \<open>One round of the loop.\<close>

lemma count_word:
  assumes run: "common_run m p q (e - p) R" and "p < e - 7"
    and regp: "region m p e" and regq: "region m q (q + (e - p))"
  shows "\<exists>a b. LZ4_read_ARCH m q = Some a \<and> LZ4_read_ARCH m p = Some b \<and>
           (a XOR b = 0 \<longleftrightarrow> 8 \<le> R) \<and> (R < 8 \<longrightarrow> LZ4_NbCommonBytes (a XOR b) = R)"
proof -
  have r: "region m p (p + 8)" "region m q (q + 8)"
    by (rule region_sub [OF regp] region_sub [OF regq]; use assms(2) in simp)+
  let ?a = "bytes m q 8" and ?b = "bytes m p 8"
  have test: "?a = ?b \<longleftrightarrow> 8 \<le> R"
    using bytes_eq_iff [of m p 8 q] common_run_test [OF run, of 8] r assms(2) by auto
  have "(le_word ?a XOR le_word ?b :: 64 word) = 0 \<longleftrightarrow> (le_word ?a :: 64 word) = le_word ?b"
    by (auto simp: bit_eq_iff bit_xor_iff)
  then have zero: "(le_word ?a XOR le_word ?b :: 64 word) = 0 \<longleftrightarrow> 8 \<le> R"
    using le_word_eq_iff [of ?a 8 ?b, where 'a = 64] test by simp
  have "LZ4_NbCommonBytes (le_word ?a XOR le_word ?b) = R" if R: "R < 8"
  proof -
    have "?a \<noteq> ?b"
      using test R by auto
    then obtain k where k: "k < 8" "LZ4_NbCommonBytes (le_word ?a XOR le_word ?b) = int k"
        "\<forall>j<k. ?a ! j = ?b ! j" "?a ! k \<noteq> ?b ! k"
      using NbCommonBytes_common [of ?a ?b] by auto
    have "m (p + int i) = m (q + int i)" if ik: "i < k" for i
    proof -
      have "the (m (p + int i)) = the (m (q + int i))"
        using k(1,3) ik by simp
      moreover obtain x y where "m (p + int i) = Some x" "m (q + int i) = Some y"
        using region_Some [OF r(1), of "p + int i"] region_Some [OF r(2), of "q + int i"] ik k(1) by auto
      ultimately show ?thesis by simp
    qed
    then have "common_run m p q (e - p) (int k)"
      using k(1,4) assms(2) unfolding common_run_def
      by (auto intro: allI) (metis int_nat_eq nat_less_iff)
    then show ?thesis
      using k(2) common_run_unique [OF run] by simp
  qed
  then show ?thesis
    using zero by (simp add: read_words(1) [OF r(1)] read_words(1) [OF r(2)])
qed

lemma count_rest_run:
  assumes "common_run m p q (e - p) R" and "region m p e" and "region m q (q + (e - p))"
  shows "count_rest m s p q e = Some (p + R - s)"
  using assms
proof (induction "nat (e - p)" arbitrary: p q R rule: less_induct)
  case less
  note run = less.prems(1)
  show ?case
  proof (cases "p < e - 7")
    case False
    then have "count_loop m p q e = Some (Inr (p, q))"
      by (subst count_loop.simps) simp
    moreover have "R < 8"
      using False run by (simp add: common_run_def)
    ultimately show ?thesis
      using count_tail_run [OF run _ less.prems(2,3)] by (simp add: count_rest_def)
  next
    case True
    obtain a b where ab: "LZ4_read_ARCH m q = Some a" "LZ4_read_ARCH m p = Some b"
      "a XOR b = 0 \<longleftrightarrow> 8 \<le> R" "R < 8 \<longrightarrow> LZ4_NbCommonBytes (a XOR b) = R"
      using count_word [OF run True less.prems(2,3)] by blast
    show ?thesis
    proof (cases "8 \<le> R")
      case eight: True
      have "count_loop m p q e = count_loop m (p + 8) (q + 8) e"
        using True ab eight by (subst count_loop.simps) simp
      then have "count_rest m s p q e = count_rest m s (p + 8) (q + 8) e"
        by (simp add: count_rest_def)
      also have "\<dots> = Some (p + 8 + (R - 8) - s)"
      proof (rule less.hyps)
        show "common_run m (p + 8) (q + 8) (e - (p + 8)) (R - 8)"
          using common_run_advance [OF run, of 8] eight by (simp add: algebra_simps)
        show "region m (p + 8) e" "region m (q + 8) (q + 8 + (e - (p + 8)))"
          by (auto intro: region_sub [OF less.prems(2)] region_sub [OF less.prems(3)])
      qed (use True in simp)
      finally show ?thesis
        by simp
    next
      case False
      then have "count_loop m p q e = Some (Inl (p + R))"
        using True ab by (subst count_loop.simps) simp
      then show ?thesis
        by (simp add: count_rest_def)
    qed
  qed
qed

lemma LZ4_count_run:
  assumes "common_run m p q (e - p) R" and "region m p e" and "region m q (q + (e - p))"
  shows "LZ4_count m p q e = Some R"
proof (cases "p < e - 7")
  case False
  then show ?thesis
    using count_rest_run [OF assms, of p] by (simp add: LZ4_count_def)
next
  case True
  obtain a b where ab: "LZ4_read_ARCH m q = Some a" "LZ4_read_ARCH m p = Some b"
    "a XOR b = 0 \<longleftrightarrow> 8 \<le> R" "R < 8 \<longrightarrow> LZ4_NbCommonBytes (a XOR b) = R"
    using count_word [OF assms(1) True assms(2,3)] by blast
  have "count_rest m p (p + 8) (q + 8) e = Some (p + 8 + (R - 8) - p)" if "8 \<le> R"
  proof (rule count_rest_run)
    show "common_run m (p + 8) (q + 8) (e - (p + 8)) (R - 8)"
      using common_run_advance [OF assms(1), of 8] that by (simp add: algebra_simps)
    show "region m (p + 8) e" "region m (q + 8) (q + 8 + (e - (p + 8)))"
      by (auto intro: region_sub [OF assms(2)] region_sub [OF assms(3)])
  qed
  then show ?thesis
    using True ab by (auto simp: LZ4_count_def)
qed

text \<open>C26: \<open>LZ4_count\<close>, which compares in words of eight, four, two and one bytes, returns the
  length of the longest common prefix of the two places, cut off at the limit.\<close>

theorem LZ4_count_exact:
  assumes "region m pIn pInLimit" and "region m pMatch (pMatch + (pInLimit - pIn))" and "pIn \<le> pInLimit"
  shows "\<exists>n. LZ4_count m pIn pMatch pInLimit = Some n \<and> 0 \<le> n \<and> n \<le> pInLimit - pIn \<and>
           (\<forall>i. 0 \<le> i \<and> i < n \<longrightarrow> m (pIn + i) = m (pMatch + i)) \<and>
           (n < pInLimit - pIn \<longrightarrow> m (pIn + n) \<noteq> m (pMatch + n))"
proof -
  obtain R where "common_run m pIn pMatch (pInLimit - pIn) R"
    using common_run_exists [of "pInLimit - pIn" m pIn pMatch] assms(3) by auto
  with LZ4_count_run [OF this assms(1,2)] show ?thesis
    by (simp add: common_run_def)
qed

abbreviation count_mem :: mem where
  "count_mem \<equiv> put (\<lambda>_. None) 0 (replicate 14 7 @ [1, 2])"

theorem LZ4_count_exact_witness: "LZ4_count count_mem 1 0 16 = Some 13"
proof -
  have mem: "count_mem x = Some 7" if "0 \<le> x" "x < 14" for x
    using that by (simp add: put_apply nth_append nat_less_iff)
  have "region count_mem 1 16" "region count_mem 0 (0 + (16 - 1))"
    by (auto simp: region_def put_apply)
  from LZ4_count_exact [OF this] obtain n where n: "LZ4_count count_mem 1 0 16 = Some n" "0 \<le> n" "n \<le> 15"
    and run: "\<And>i. 0 \<le> i \<Longrightarrow> i < n \<Longrightarrow> count_mem (1 + i) = count_mem (0 + i)"
    and stop: "n < 15 \<Longrightarrow> count_mem (1 + n) \<noteq> count_mem (0 + n)"
    by auto
  have "\<not> 13 < n"
    using run [of 13] by (auto simp: put_apply nth_append)
  moreover have "\<not> n < 13"
    using stop mem [of n] mem [of "1 + n"] n(2) by auto
  ultimately show ?thesis
    using n(1) by simp
qed

end
