(* ===== verification/Lz4_Hash.thy ===== *)
theory Lz4_Hash
  imports Lz4_Count
begin

text \<open>
  The compression state of src/lz4.c (\<open>LZ4_stream_t_internal\<close> of include/lz4.h) and its hash
  table: the hash functions, the accesses to the table and \<open>LZ4_prepareTable\<close>, with the laws
  of the table as an interface (a locale) the encoder is verified against.

  The table is the array of 4096 32-bit cells of the C type; in the mode \<open>byU16\<close> it is
  accessed as 8192 half cells, as on a little-endian machine. The mode \<open>byPtr\<close> is chosen only
  where a pointer has four bytes and does not occur in the modelled configuration.
\<close>

section \<open>The state\<close>

datatype tableType_t = clearedTable | byPtr | byU32 | byU16

text \<open>\<open>dictCtx\<close> points to another state, of which only the fields of \<open>lz4_tab\<close> are read.\<close>

record lz4_tab =
  hashTable :: "int list"
  dictionary :: ptr
  currentOffset :: int
  tableType :: tableType_t
  dictSize :: int

record lz4_ctx = lz4_tab +
  dictCtx :: "lz4_tab option"

abbreviation LZ4_HASHLOG :: nat where "LZ4_HASHLOG \<equiv> 12"
abbreviation LZ4_HASH_SIZE_U32 :: nat where "LZ4_HASH_SIZE_U32 \<equiv> 4096"
abbreviation LZ4_DISTANCE_MAX :: int where "LZ4_DISTANCE_MAX \<equiv> 65535"

definition zero_ctx :: lz4_ctx where
  "zero_ctx = \<lparr>hashTable = replicate LZ4_HASH_SIZE_U32 0, dictionary = NULL, currentOffset = 0,
               tableType = clearedTable, dictSize = 0, dictCtx = None\<rparr>"

text \<open>\<open>LZ4_initStream\<close> clears the state at a buffer that is large enough and aligned as the
  state has to be.\<close>

definition LZ4_isAligned :: "ptr \<Rightarrow> int \<Rightarrow> bool" where
  "LZ4_isAligned p alignment \<longleftrightarrow> p AND (alignment - 1) = 0"

definition LZ4_stream_t_alignment :: int where
  "LZ4_stream_t_alignment = 8"

definition sizeof_LZ4_stream_t :: int where
  "sizeof_LZ4_stream_t = 16416"

definition LZ4_initStream :: "ptr \<Rightarrow> int \<Rightarrow> lz4_ctx option" where
  "LZ4_initStream buffer bufsize =
     (if buffer = NULL then None
      else if bufsize < sizeof_LZ4_stream_t then None
      else if \<not> LZ4_isAligned buffer LZ4_stream_t_alignment then None
      else Some zero_ctx)"

definition LZ4_resetStream :: "lz4_ctx \<Rightarrow> lz4_ctx" where
  "LZ4_resetStream ctx = zero_ctx"

section \<open>Hash functions\<close>

definition LZ4_hash4 :: "32 word \<Rightarrow> tableType_t \<Rightarrow> nat" where
  "LZ4_hash4 sequence tt =
     (if tt = byU16 then unat (drop_bit (4 * 8 - (LZ4_HASHLOG + 1)) (sequence * 2654435761))
      else unat (drop_bit (4 * 8 - LZ4_HASHLOG) (sequence * 2654435761)))"

definition LZ4_hash5 :: "64 word \<Rightarrow> tableType_t \<Rightarrow> nat" where
  "LZ4_hash5 sequence tt =
     (let hashLog = (if tt = byU16 then LZ4_HASHLOG + 1 else LZ4_HASHLOG);
          prime5bytes = 889523592379
      in unat (drop_bit (64 - hashLog) (push_bit 24 sequence * prime5bytes)))"

definition LZ4_hashPosition :: "mem \<Rightarrow> ptr \<Rightarrow> tableType_t \<Rightarrow> nat option" where
  "LZ4_hashPosition m p tt =
     (if tt \<noteq> byU16 then map_option (\<lambda>s. LZ4_hash5 s tt) (LZ4_read_ARCH m p)
      else map_option (\<lambda>s. LZ4_hash4 s tt) (LZ4_read32 m p))"

section \<open>Accesses to the table\<close>

text \<open>Reading and writing a half cell of the table.\<close>

definition half :: "nat \<Rightarrow> int \<Rightarrow> int" where
  "half i cell = (if even i then cell mod 65536 else cell div 65536 mod 65536)"

definition set_half :: "nat \<Rightarrow> int \<Rightarrow> int \<Rightarrow> int" where
  "set_half i v cell =
     (if even i then cell div 65536 * 65536 + v mod 65536
      else v mod 65536 * 65536 + cell mod 65536)"

text \<open>An index outside the array is undefined behaviour; the forbidden modes return at once.\<close>

definition LZ4_getIndexOnHash :: "nat \<Rightarrow> ('a lz4_tab_scheme) \<Rightarrow> tableType_t \<Rightarrow> int option" where
  "LZ4_getIndexOnHash h tab tt =
     (case tt of
        byU32 \<Rightarrow> if h < length (hashTable tab) then Some (hashTable tab ! h) else None
      | byU16 \<Rightarrow> if h < 2 * length (hashTable tab) then Some (half h (hashTable tab ! (h div 2))) else None
      | _ \<Rightarrow> Some 0)"

definition LZ4_putIndexOnHash ::
  "int \<Rightarrow> nat \<Rightarrow> ('a lz4_tab_scheme) \<Rightarrow> tableType_t \<Rightarrow> 'a lz4_tab_scheme option" where
  "LZ4_putIndexOnHash idx h tab tt =
     (case tt of
        byU32 \<Rightarrow> if h < length (hashTable tab) then Some (tab\<lparr>hashTable := (hashTable tab)[h := idx]\<rparr>)
                 else None
      | byU16 \<Rightarrow> if h < 2 * length (hashTable tab)
                 then Some (tab\<lparr>hashTable :=
                   (hashTable tab)[h div 2 := set_half h (U16 idx) (hashTable tab ! (h div 2))]\<rparr>)
                 else None
      | _ \<Rightarrow> Some tab)"

definition LZ4_clearHash :: "nat \<Rightarrow> ('a lz4_tab_scheme) \<Rightarrow> tableType_t \<Rightarrow> 'a lz4_tab_scheme option" where
  "LZ4_clearHash h tab tt =
     (case tt of
        byU32 \<Rightarrow> if h < length (hashTable tab) then Some (tab\<lparr>hashTable := (hashTable tab)[h := 0]\<rparr>)
                 else None
      | byU16 \<Rightarrow> if h < 2 * length (hashTable tab)
                 then Some (tab\<lparr>hashTable :=
                   (hashTable tab)[h div 2 := set_half h 0 (hashTable tab ! (h div 2))]\<rparr>)
                 else None
      | _ \<Rightarrow> Some tab)"

definition LZ4_prepareTable :: "lz4_ctx \<Rightarrow> int \<Rightarrow> tableType_t \<Rightarrow> lz4_ctx" where
  "LZ4_prepareTable cctx inputSize tt =
     (let cctx =
        (if tableType cctx \<noteq> clearedTable then
           if tableType cctx \<noteq> tt
              \<or> (tt = byU16 \<and> U32 (currentOffset cctx + U32 inputSize) \<ge> 65535)
              \<or> (tt = byU32 \<and> currentOffset cctx > GB)
              \<or> tt = byPtr
              \<or> inputSize \<ge> 4 * KB
           then cctx\<lparr>hashTable := replicate LZ4_HASH_SIZE_U32 0, currentOffset := 0,
                     tableType := clearedTable\<rparr>
           else cctx
         else cctx);
          cctx = (if currentOffset cctx \<noteq> 0 \<and> tt = byU32
                  then cctx\<lparr>currentOffset := U32 (currentOffset cctx + 64 * KB)\<rparr> else cctx)
      in cctx\<lparr>dictCtx := None, dictionary := NULL, dictSize := 0\<rparr>)"

definition LZ4_resetStream_fast :: "lz4_ctx \<Rightarrow> lz4_ctx" where
  "LZ4_resetStream_fast ctx = LZ4_prepareTable ctx 0 byU32"

section \<open>The table as an interface\<close>

text \<open>The entries of a table, in the mode it is used in.\<close>

definition entries :: "tableType_t \<Rightarrow> ('a lz4_tab_scheme) \<Rightarrow> int set" where
  "entries tt tab =
     (if tt = byU16 then {half h (hashTable tab ! (h div 2)) | h. h < 2 * length (hashTable tab)}
      else set (hashTable tab))"

text \<open>What the encoder needs of a table: a lookup finds an entry, a store adds at most the
  index stored, and nothing of the state but the table changes.\<close>

locale position_table =
  fixes slots :: nat
    and get :: "nat \<Rightarrow> 'ctx \<Rightarrow> int option"
    and put_idx :: "int \<Rightarrow> nat \<Rightarrow> 'ctx \<Rightarrow> 'ctx option"
    and ents :: "'ctx \<Rightarrow> int set"
    and sized :: "'ctx \<Rightarrow> bool"
    and storable :: "int \<Rightarrow> bool"
    and rest :: "'ctx \<Rightarrow> 'r"
  assumes get_entry: "sized c \<Longrightarrow> h < slots \<Longrightarrow> \<exists>i. get h c = Some i \<and> i \<in> ents c"
    and put_entry: "sized c \<Longrightarrow> h < slots \<Longrightarrow> storable i \<Longrightarrow>
      \<exists>c'. put_idx i h c = Some c' \<and> sized c' \<and> ents c' \<subseteq> insert i (ents c) \<and> get h c' = Some i \<and>
           rest c' = rest c"
begin

text \<open>An invariant on the entries that the stored index satisfies is kept.\<close>

lemma put_invariant:
  assumes "sized c" and "h < slots" and "storable i" and "\<And>j. j \<in> ents c \<Longrightarrow> P j" and "P i"
  shows "\<exists>c'. put_idx i h c = Some c' \<and> sized c' \<and> (\<forall>j \<in> ents c'. P j) \<and> rest c' = rest c"
  using put_entry [OF assms(1-3)] assms(4,5) by blast

lemma get_invariant:
  assumes "sized c" and "h < slots" and "\<And>j. j \<in> ents c \<Longrightarrow> P j"
  shows "\<exists>i. get h c = Some i \<and> P i"
  using get_entry [OF assms(1,2)] assms(3) by blast

end

lemma half_bounds: "0 \<le> half h cell" "half h cell < 65536"
  by (simp_all add: half_def)

lemma half_set_half:
  assumes "i div 2 = j div 2"
  shows "half j (set_half i v cell) = (if i = j then v mod 65536 else half j cell)"
proof -
  have *: "even i = even j \<longleftrightarrow> i = j"
    using assms by presburger
  have "(v mod 65536 * 65536 + cell mod 65536) div 65536 = v mod 65536"
    by simp
  moreover have "(cell div 65536 * 65536 + v mod 65536) div 65536 = cell div 65536"
    by simp
  ultimately show ?thesis
    using * by (auto simp: half_def set_half_def)
qed

lemma half_cell_update:
  assumes "h < 2 * length t" and "k < 2 * length t"
  shows "half k (t[h div 2 := set_half h v (t ! (h div 2))] ! (k div 2)) =
           (if k = h then v mod 65536 else half k (t ! (k div 2)))"
proof (cases "k div 2 = h div 2")
  case True
  have "h div 2 < length t"
    using assms(1) by simp
  with True show ?thesis
    using half_set_half [of h k v "t ! (h div 2)"] by (auto simp: eq_commute)
next
  case False
  then show ?thesis by auto
qed

definition tab_rest :: "lz4_ctx \<Rightarrow> ptr \<times> int \<times> tableType_t \<times> int \<times> lz4_tab option" where
  "tab_rest c = (dictionary c, currentOffset c, tableType c, dictSize c, dictCtx c)"

interpretation u32: position_table "LZ4_HASH_SIZE_U32" "\<lambda>h c. LZ4_getIndexOnHash h c byU32"
  "\<lambda>i h c. LZ4_putIndexOnHash i h c byU32" "entries byU32"
  "\<lambda>c. length (hashTable c) = LZ4_HASH_SIZE_U32" "\<lambda>i. True" tab_rest
  by unfold_locales
    (auto simp: LZ4_getIndexOnHash_def LZ4_putIndexOnHash_def entries_def tab_rest_def
      dest: set_update_subset_insert [THEN subsetD])

interpretation u16: position_table "2 * LZ4_HASH_SIZE_U32" "\<lambda>h c. LZ4_getIndexOnHash h c byU16"
  "\<lambda>i h c. LZ4_putIndexOnHash i h c byU16" "entries byU16"
  "\<lambda>c. length (hashTable c) = LZ4_HASH_SIZE_U32" "\<lambda>i. 0 \<le> i \<and> i < 65536" tab_rest
proof unfold_locales
  fix c :: lz4_ctx and h :: nat and i :: int
  assume sized: "length (hashTable c) = LZ4_HASH_SIZE_U32" and h: "h < 2 * LZ4_HASH_SIZE_U32"
  then have h': "h < 2 * length (hashTable c)"
    by simp
  from h' show "\<exists>i. LZ4_getIndexOnHash h c byU16 = Some i \<and> i \<in> entries byU16 c"
    by (auto simp: LZ4_getIndexOnHash_def entries_def)
  assume i: "0 \<le> i \<and> i < 65536"
  define c' where "c' = c\<lparr>hashTable :=
      (hashTable c)[h div 2 := set_half h (U16 i) (hashTable c ! (h div 2))]\<rparr>"
  have put: "LZ4_putIndexOnHash i h c byU16 = Some c'"
    using h' by (simp add: LZ4_putIndexOnHash_def c'_def)
  have get: "half k (hashTable c' ! (k div 2)) = (if k = h then i else half k (hashTable c ! (k div 2)))"
    if "k < 2 * length (hashTable c)" for k
    using half_cell_update [OF h' that, of "U16 i"] i by (simp add: c'_def)
  have "entries byU16 c' \<subseteq> insert i (entries byU16 c)"
    using get by (auto simp: entries_def c'_def)
  moreover have "LZ4_getIndexOnHash h c' byU16 = Some i"
    using get [OF h'] h' by (simp add: LZ4_getIndexOnHash_def c'_def)
  moreover have "length (hashTable c') = LZ4_HASH_SIZE_U32" "tab_rest c' = tab_rest c"
    using sized by (simp_all add: c'_def tab_rest_def)
  ultimately show "\<exists>c'. LZ4_putIndexOnHash i h c byU16 = Some c' \<and>
      length (hashTable c') = LZ4_HASH_SIZE_U32 \<and> entries byU16 c' \<subseteq> insert i (entries byU16 c) \<and>
      LZ4_getIndexOnHash h c' byU16 = Some i \<and> tab_rest c' = tab_rest c"
    using put by blast
qed

section \<open>The hash of a position is a slot of the table\<close>

definition slots :: "tableType_t \<Rightarrow> nat" where
  "slots tt = (if tt = byU16 then 2 * LZ4_HASH_SIZE_U32 else LZ4_HASH_SIZE_U32)"

lemma drop_bit_bound:
  fixes w :: "'a::len word"
  assumes "k \<le> LENGTH('a)"
  shows "unat (drop_bit k w) < 2 ^ (LENGTH('a) - k)"
proof -
  have "unat (drop_bit k w) = drop_bit k (unat w)"
    using unsigned_less [of w, where ?'a = nat]
    by (simp add: unsigned_drop_bit_eq take_bit_nat_eq_self)
  also have "\<dots> = unat w div 2 ^ k"
    by (rule drop_bit_eq_div)
  finally have "unat (drop_bit k w) = unat w div 2 ^ k" .
  moreover have "unat w < 2 ^ k * 2 ^ (LENGTH('a) - k)"
    using unsigned_less [of w, where ?'a = nat] assms by (simp flip: power_add)
  ultimately show ?thesis
    by (simp add: less_mult_imp_div_less mult.commute)
qed

lemma hash4_bound: "LZ4_hash4 s byU16 < slots byU16"
  using drop_bit_bound [of 19 "s * 2654435761"] by (simp add: LZ4_hash4_def slots_def)

lemma hash5_bound: "tt \<noteq> byU16 \<Longrightarrow> LZ4_hash5 s tt < slots tt"
  using drop_bit_bound [of 52 "push_bit 24 s * 889523592379"]
  by (simp add: LZ4_hash5_def slots_def Let_def)

lemma hash_readable:
  assumes "region m p (p + 8)"
  shows "\<exists>h. LZ4_hashPosition m p tt = Some h \<and> h < slots tt"
proof (cases "tt = byU16")
  case True
  then show ?thesis
    using read_words(2) [OF region_sub [OF assms], of p] hash4_bound by (simp add: LZ4_hashPosition_def)
next
  case False
  then show ?thesis
    using read_words(1) [OF assms] hash5_bound by (simp add: LZ4_hashPosition_def)
qed

text \<open>\<open>LZ4_hashPosition\<close> of a readable position is defined and in range for the mode, so the
  accesses to the hash table stay inside it.\<close>

theorem LZ4_hashPosition_in_table:
  assumes "region m p (p + 8)"
  shows "\<exists>h. LZ4_hashPosition m p tt = Some h \<and> h < slots tt"
  by (rule hash_readable [OF assms])

theorem LZ4_hashPosition_in_table_witness:
  "\<exists>h. LZ4_hashPosition (put (\<lambda>_. None) 0 [1, 2, 3, 4, 5, 6, 7, 8]) 0 byU32 = Some h \<and> h < slots byU32"
  by (rule LZ4_hashPosition_in_table) (simp add: region_def put_apply dom_def)

end
