(* ===== verification/Lz4_Compress.thy ===== *)
theory Lz4_Compress
  imports Lz4_Hash Lz4_Decode
begin

text \<open>
  The encoder of src/lz4.c, \<open>LZ4_compress_generic\<close>, and the entry points for one block. The
  main loop with its search loop, the jump back to \<open>_next_match\<close> and the jumps to
  \<open>_last_literals\<close> is a machine with a control point for each place that is jumped to;
  \<open>enc_run\<close> is the code run from a control point.

  \<open>assert\<close> has no effect in the configuration built. \<open>U32\<close> is written where the C code computes
  in 32 bits a value that can exceed them.
\<close>

datatype limitedOutput_directive = notLimited | limitedOutput | fillOutput

datatype dictIssue_directive = noDictIssue | dictSmall

definition LZ4_MAX_INPUT_SIZE :: int where
  "LZ4_MAX_INPUT_SIZE = 2113929216"

definition LZ4_compressBound :: "int \<Rightarrow> int" where
  "LZ4_compressBound isize =
     (if U32 isize > LZ4_MAX_INPUT_SIZE then 0 else isize + isize div 255 + 16)"

abbreviation LZ4_minLength :: int where "LZ4_minLength \<equiv> 13"
abbreviation LZ4_64Klimit :: int where "LZ4_64Klimit \<equiv> 64 * KB + (MFLIMIT - 1)"
abbreviation LZ4_skipTrigger :: nat where "LZ4_skipTrigger \<equiv> 6"

section \<open>Arguments and locals\<close>

text \<open>The arguments, and the locals of the C function that are set on entry and not changed.\<close>

record enc_cfg =
  k_source :: ptr
  k_dest :: ptr
  k_inputSize :: int
  k_maxOutputSize :: int
  k_output :: limitedOutput_directive
  k_tableType :: tableType_t
  k_dict :: dict_directive
  k_dictIssue :: dictIssue_directive
  k_acceleration :: int
  k_startIndex :: int
  k_dictCtx :: "lz4_tab option"
  k_dictionary :: ptr
  k_dictSize :: int

definition k_iend :: "enc_cfg \<Rightarrow> ptr" where
  "k_iend k = k_source k + k_inputSize k"

definition k_mflimitPlusOne :: "enc_cfg \<Rightarrow> ptr" where
  "k_mflimitPlusOne k = k_iend k - MFLIMIT + 1"

definition k_matchlimit :: "enc_cfg \<Rightarrow> ptr" where
  "k_matchlimit k = k_iend k - LASTLITERALS"

definition k_olimit :: "enc_cfg \<Rightarrow> ptr" where
  "k_olimit k = k_dest k + k_maxOutputSize k"

definition k_base :: "enc_cfg \<Rightarrow> ptr" where
  "k_base k = k_source k - k_startIndex k"

definition k_prefixIdxLimit :: "enc_cfg \<Rightarrow> int" where
  "k_prefixIdxLimit k = U32 (k_startIndex k - k_dictSize k)"

definition k_maybe_extMem :: "enc_cfg \<Rightarrow> bool" where
  "k_maybe_extMem k \<longleftrightarrow> k_dict k = usingExtDict \<or> k_dict k = usingDictCtx"

definition k_dictEnd :: "enc_cfg \<Rightarrow> ptr" where
  "k_dictEnd k = (if k_dictionary k = NULL then NULL else k_dictionary k + k_dictSize k)"

definition k_dictDelta :: "enc_cfg \<Rightarrow> int" where
  "k_dictDelta k =
     (if k_dict k = usingDictCtx
      then (case k_dictCtx k of None \<Rightarrow> 0 | Some d \<Rightarrow> U32 (k_startIndex k - currentOffset d)) else 0)"

definition k_dictBase :: "enc_cfg \<Rightarrow> ptr" where
  "k_dictBase k =
     (if k_dictionary k = NULL then NULL
      else if k_dict k = usingDictCtx
      then k_dictionary k + k_dictSize k -
             (case k_dictCtx k of None \<Rightarrow> 0 | Some d \<Rightarrow> currentOffset d)
      else k_dictionary k + k_dictSize k - k_startIndex k)"

text \<open>The variables.\<close>

record enc_state =
  e_mem :: mem
  e_ctx :: lz4_ctx
  e_ip :: ptr
  e_anchor :: ptr
  e_op :: ptr
  e_match :: ptr
  e_lowLimit :: ptr
  e_token :: ptr
  e_offset :: int
  e_forwardH :: nat
  e_filledIp :: ptr
  e_forwardIp :: ptr
  e_step :: int
  e_searchMatchNb :: int

datatype enc_pc =
  MainLoop | Search | MatchFound | NextMatch | LastLiterals | Finished int

section \<open>The search loop\<close>

text \<open>The candidate for a table entry: the index to compare, the pointer and the low limit of the
  segment it is in.\<close>

definition enc_candidate :: "enc_cfg \<Rightarrow> nat \<Rightarrow> int \<Rightarrow> ptr \<Rightarrow> (int \<times> ptr \<times> ptr) option" where
  "enc_candidate k h matchIndex low =
     (case k_dict k of
        usingDictCtx \<Rightarrow>
          if matchIndex < k_startIndex k then
            do { d \<leftarrow> k_dictCtx k;
                 i \<leftarrow> LZ4_getIndexOnHash h d byU32;
                 Some (U32 (i + k_dictDelta k), k_dictBase k + i, k_dictionary k) }
          else Some (matchIndex, k_base k + matchIndex, k_source k)
      | usingExtDict \<Rightarrow>
          if matchIndex < k_startIndex k then Some (matchIndex, k_dictBase k + matchIndex, k_dictionary k)
          else Some (matchIndex, k_base k + matchIndex, k_source k)
      | _ \<Rightarrow> Some (matchIndex, k_base k + matchIndex, low))"

definition enc_main_loop :: "enc_cfg \<Rightarrow> enc_state \<Rightarrow> (enc_pc \<times> enc_state) option" where
  "enc_main_loop k s =
     Some (Search, s\<lparr>e_forwardIp := e_ip s, e_step := 1,
                     e_searchMatchNb := k_acceleration k * 2 ^ LZ4_skipTrigger\<rparr>)"

text \<open>One round of the search loop. In the mode \<open>byU16\<close> no distance test is needed.\<close>

definition enc_search :: "enc_cfg \<Rightarrow> enc_state \<Rightarrow> (enc_pc \<times> enc_state) option" where
  "enc_search k s =
     (let h = e_forwardH s;
          current = U32 (e_forwardIp s - k_base k)
      in do { matchIndex \<leftarrow> LZ4_getIndexOnHash h (e_ctx s) (k_tableType k);
              let s = s\<lparr>e_ip := e_forwardIp s, e_forwardIp := e_forwardIp s + e_step s,
                        e_step := e_searchMatchNb s div 2 ^ LZ4_skipTrigger,
                        e_searchMatchNb := e_searchMatchNb s + 1\<rparr>;
              if e_forwardIp s > k_mflimitPlusOne k then Some (LastLiterals, s)
              else do {
                (matchIndex, match, low) \<leftarrow> enc_candidate k h matchIndex (e_lowLimit s);
                forwardH \<leftarrow> LZ4_hashPosition (e_mem s) (e_forwardIp s) (k_tableType k);
                ctx \<leftarrow> LZ4_putIndexOnHash current h (e_ctx s) (k_tableType k);
                let s = s\<lparr>e_match := match, e_lowLimit := low, e_forwardH := forwardH, e_ctx := ctx\<rparr>;
                if k_dictIssue k = dictSmall \<and> matchIndex < k_prefixIdxLimit k then Some (Search, s)
                else if k_tableType k \<noteq> byU16 \<and> U32 (matchIndex + LZ4_DISTANCE_MAX) < current
                then Some (Search, s)
                else do {
                  a \<leftarrow> LZ4_read32 (e_mem s) match;
                  b \<leftarrow> LZ4_read32 (e_mem s) (e_ip s);
                  if a = b
                  then Some (MatchFound,
                         (if k_maybe_extMem k then s\<lparr>e_offset := U32 (current - matchIndex)\<rparr> else s))
                  else Some (Search, s) } } })"

section \<open>Literals\<close>

text \<open>The loop that goes back as long as the bytes before the match agree.\<close>

function catch_up_loop :: "mem \<Rightarrow> ptr \<Rightarrow> ptr \<Rightarrow> ptr \<Rightarrow> ptr \<Rightarrow> (ptr \<times> ptr) option" where
  "catch_up_loop m ip match anchor low =
     (if ip > anchor \<and> match > low then
        do { a \<leftarrow> m (ip - 1); b \<leftarrow> m (match - 1);
             if a = b then catch_up_loop m (ip - 1) (match - 1) anchor low else Some (ip, match) }
      else Some (ip, match))"
  by pat_completeness auto
termination
  by (relation "measure (\<lambda>(m, ip, match, anchor, low). nat (ip - anchor))") auto

declare catch_up_loop.simps [simp del]

definition catch_up :: "mem \<Rightarrow> ptr \<Rightarrow> ptr \<Rightarrow> ptr \<Rightarrow> ptr \<Rightarrow> (ptr \<times> ptr) option" where
  "catch_up m ip match anchor low =
     (if match > low then
        do { a \<leftarrow> m (ip - 1); b \<leftarrow> m (match - 1);
             if a = b then catch_up_loop m (ip - 1) (match - 1) anchor low else Some (ip, match) }
      else Some (ip, match))"

text \<open>\<open>for(; len >= 255; len -= 255) *op++ = 255; *op++ = (BYTE)len;\<close>\<close>

function put_len :: "mem \<Rightarrow> ptr \<Rightarrow> int \<Rightarrow> (mem \<times> ptr) option" where
  "put_len m op len =
     (if len \<ge> 255 then
        do { m \<leftarrow> store_bytes m op [255]; put_len m (op + 1) (len - 255) }
      else do { m \<leftarrow> store_bytes m op [word_of_int len]; Some (m, op + 1) })"
  by pat_completeness auto
termination
  by (relation "measure (\<lambda>(m, op, len). nat len)") auto

declare put_len.simps [simp del]

text \<open>The token and the length of a run of literals.\<close>

definition put_lit_header :: "mem \<Rightarrow> ptr \<Rightarrow> ptr \<Rightarrow> int \<Rightarrow> (mem \<times> ptr) option" where
  "put_lit_header m token op litLength =
     (if litLength \<ge> RUN_MASK then
        do { m \<leftarrow> store_bytes m token [word_of_int (RUN_MASK * 16)];
             put_len m op (litLength - RUN_MASK) }
      else do { m \<leftarrow> store_bytes m token [word_of_int (litLength * 16)]; Some (m, op) })"

definition enc_match_found :: "enc_cfg \<Rightarrow> enc_state \<Rightarrow> (enc_pc \<times> enc_state) option" where
  "enc_match_found k s =
     do { (ip, match) \<leftarrow> catch_up (e_mem s) (e_ip s) (e_match s) (e_anchor s) (e_lowLimit s);
          let s = s\<lparr>e_filledIp := e_ip s, e_ip := ip, e_match := match\<rparr>;
          let litLength = ip - e_anchor s;
          let token = e_op s;
          let op = e_op s + 1;
          if k_output k = limitedOutput \<and>
             op + litLength + (2 + 1 + LASTLITERALS) + litLength div 255 > k_olimit k
          then Some (Finished 0, s\<lparr>e_token := token, e_op := op\<rparr>)
          else if k_output k = fillOutput \<and>
             op + (litLength + 240) div 255 + litLength + 2 + 1 + MFLIMIT - MINMATCH > k_olimit k
          then Some (LastLiterals, s\<lparr>e_token := token\<rparr>)
          else do {
            (m, op) \<leftarrow> put_lit_header (e_mem s) token op litLength;
            m \<leftarrow> LZ4_wildCopy8 m op (e_anchor s) (op + litLength);
            Some (NextMatch, s\<lparr>e_mem := m, e_token := token, e_op := op + litLength\<rparr>) } }"

section \<open>The match\<close>

text \<open>\<open>LZ4_write32(op, 0xFFFFFFFF); while (matchCode >= 4*255) { op+=4; LZ4_write32(...); ... }\<close>
  and the two statements after it.\<close>

function put_match_loop :: "mem \<Rightarrow> ptr \<Rightarrow> int \<Rightarrow> (mem \<times> ptr \<times> int) option" where
  "put_match_loop m op matchCode =
     (if matchCode \<ge> 4 * 255 then
        do { m \<leftarrow> LZ4_write32 m (op + 4) 0xFFFFFFFF;
             put_match_loop m (op + 4) (matchCode - 4 * 255) }
      else Some (m, op, matchCode))"
  by pat_completeness auto
termination
  by (relation "measure (\<lambda>(m, op, mc). nat mc)") auto

declare put_match_loop.simps [simp del]

definition put_match_len :: "mem \<Rightarrow> ptr \<Rightarrow> int \<Rightarrow> (mem \<times> ptr) option" where
  "put_match_len m op matchCode =
     do { m \<leftarrow> LZ4_write32 m op 0xFFFFFFFF;
          (m, op, matchCode) \<leftarrow> put_match_loop m op matchCode;
          let op = op + matchCode div 255;
          m \<leftarrow> store_bytes m op [word_of_int (matchCode mod 255)];
          Some (m, op + 1) }"

text \<open>\<open>*token += v\<close> on a byte.\<close>

definition add_token :: "mem \<Rightarrow> ptr \<Rightarrow> int \<Rightarrow> mem option" where
  "add_token m token v = do { b \<leftarrow> m token; store_bytes m token [b + word_of_int v] }"

text \<open>The length of the match, behind the first four bytes, and the advanced input pointer.\<close>

definition enc_match_length :: "enc_cfg \<Rightarrow> enc_state \<Rightarrow> (int \<times> ptr) option" where
  "enc_match_length k s =
     (let ip = e_ip s; match = e_match s in
      if k_maybe_extMem k \<and> e_lowLimit s = k_dictionary k then
        let limit = min (ip + (k_dictEnd k - match)) (k_matchlimit k) in
        do { matchCode \<leftarrow> LZ4_count (e_mem s) (ip + MINMATCH) (match + MINMATCH) limit;
             let ip = ip + matchCode + MINMATCH;
             if ip = limit then
               do { more \<leftarrow> LZ4_count (e_mem s) limit (k_source k) (k_matchlimit k);
                    Some (matchCode + more, ip + more) }
             else Some (matchCode, ip) }
      else
        do { matchCode \<leftarrow> LZ4_count (e_mem s) (ip + MINMATCH) (match + MINMATCH) (k_matchlimit k);
             Some (matchCode, ip + matchCode + MINMATCH) })"

text \<open>Removing the table entries of the positions a shortened match does not cover.\<close>

function clear_positions :: "enc_cfg \<Rightarrow> mem \<Rightarrow> lz4_ctx \<Rightarrow> ptr \<Rightarrow> ptr \<Rightarrow> lz4_ctx option" where
  "clear_positions k m ctx p filledIp =
     (if p \<le> filledIp then
        do { h \<leftarrow> LZ4_hashPosition m p (k_tableType k);
             ctx \<leftarrow> LZ4_clearHash h ctx (k_tableType k);
             clear_positions k m ctx (p + 1) filledIp }
      else Some ctx)"
  by pat_completeness auto
termination
  by (relation "measure (\<lambda>(k, m, ctx, p, f). nat (f + 1 - p))") auto

declare clear_positions.simps [simp del]

text \<open>The match length as it is written: shortened when the output has to be filled exactly. No
  value means that the output limit is exceeded.\<close>

definition enc_fit_match ::
  "enc_cfg \<Rightarrow> enc_state \<Rightarrow> int \<Rightarrow> ptr \<Rightarrow> (int \<times> ptr \<times> lz4_ctx) option option" where
  "enc_fit_match k s matchCode ip =
     (if k_output k \<noteq> notLimited \<and>
         e_op s + (1 + LASTLITERALS) + (matchCode + 240) div 255 > k_olimit k then
        if k_output k = fillOutput then
          let newMatchCode = U32 (15 - 1 + U32 (U32 (k_olimit k - e_op s) - 1 - LASTLITERALS) * 255);
              ip = ip - U32 (matchCode - newMatchCode)
          in if ip \<le> e_filledIp s
             then do { ctx \<leftarrow> clear_positions k (e_mem s) (e_ctx s) ip (e_filledIp s);
                       Some (Some (newMatchCode, ip, ctx)) }
             else Some (Some (newMatchCode, ip, e_ctx s))
        else Some None
      else Some (Some (matchCode, ip, e_ctx s)))"

definition put_match_code :: "mem \<Rightarrow> ptr \<Rightarrow> ptr \<Rightarrow> int \<Rightarrow> (mem \<times> ptr) option" where
  "put_match_code m token op matchCode =
     (if matchCode \<ge> ML_MASK then
        do { m \<leftarrow> add_token m token ML_MASK; put_match_len m op (matchCode - ML_MASK) }
      else do { m \<leftarrow> add_token m token matchCode; Some (m, op) })"

text \<open>After a sequence: the end of the chunk, a match at the very next position, or on with the
  main loop.\<close>

definition enc_after_match :: "enc_cfg \<Rightarrow> enc_state \<Rightarrow> (enc_pc \<times> enc_state) option" where
  "enc_after_match k s =
     (if e_ip s \<ge> k_mflimitPlusOne k then Some (LastLiterals, s)
      else do {
        h \<leftarrow> LZ4_hashPosition (e_mem s) (e_ip s - 2) (k_tableType k);
        ctx \<leftarrow> LZ4_putIndexOnHash (U32 (e_ip s - 2 - k_base k)) h (e_ctx s) (k_tableType k);
        h \<leftarrow> LZ4_hashPosition (e_mem s) (e_ip s) (k_tableType k);
        let current = U32 (e_ip s - k_base k);
        matchIndex \<leftarrow> LZ4_getIndexOnHash h ctx (k_tableType k);
        (matchIndex, match, low) \<leftarrow> enc_candidate k h matchIndex (e_lowLimit s);
        ctx \<leftarrow> LZ4_putIndexOnHash current h ctx (k_tableType k);
        let s = s\<lparr>e_ctx := ctx, e_match := match, e_lowLimit := low\<rparr>;
        found \<leftarrow> (if (k_dictIssue k = dictSmall \<longrightarrow> matchIndex \<ge> k_prefixIdxLimit k) \<and>
                     (k_tableType k = byU16 \<or> U32 (matchIndex + LZ4_DISTANCE_MAX) \<ge> current)
                  then do { a \<leftarrow> LZ4_read32 (e_mem s) match; b \<leftarrow> LZ4_read32 (e_mem s) (e_ip s);
                            Some (a = b) }
                  else Some False);
        if found then
          do { m \<leftarrow> store_bytes (e_mem s) (e_op s) [0];
               Some (NextMatch,
                 (if k_maybe_extMem k then s\<lparr>e_offset := U32 (current - matchIndex)\<rparr> else s)
                 \<lparr>e_mem := m, e_token := e_op s, e_op := e_op s + 1\<rparr>) }
        else do { forwardH \<leftarrow> LZ4_hashPosition (e_mem s) (e_ip s + 1) (k_tableType k);
                  Some (MainLoop, s\<lparr>e_ip := e_ip s + 1, e_forwardH := forwardH\<rparr>) } })"

definition enc_next_match :: "enc_cfg \<Rightarrow> enc_state \<Rightarrow> (enc_pc \<times> enc_state) option" where
  "enc_next_match k s =
     (if k_output k = fillOutput \<and> e_op s + 2 + 1 + MFLIMIT - MINMATCH > k_olimit k
      then Some (LastLiterals, s\<lparr>e_op := e_token s\<rparr>)
      else do {
        m \<leftarrow> LZ4_writeLE16 (e_mem s) (e_op s)
               (if k_maybe_extMem k then e_offset s else e_ip s - e_match s);
        let s = s\<lparr>e_mem := m, e_op := e_op s + 2\<rparr>;
        (matchCode, ip) \<leftarrow> enc_match_length k s;
        fit \<leftarrow> enc_fit_match k s matchCode ip;
        case fit of
          None \<Rightarrow> Some (Finished 0, s\<lparr>e_ip := ip\<rparr>)
        | Some (matchCode, ip, ctx) \<Rightarrow>
            do { (m, op) \<leftarrow> put_match_code (e_mem s) (e_token s) (e_op s) matchCode;
                 enc_after_match k
                   (s\<lparr>e_mem := m, e_op := op, e_ip := ip, e_anchor := ip, e_ctx := ctx\<rparr>) } })"

section \<open>The last literals\<close>

definition enc_last_run :: "enc_cfg \<Rightarrow> enc_state \<Rightarrow> int option" where
  "enc_last_run k s =
     (let lastRun = k_iend k - e_anchor s in
      if k_output k \<noteq> notLimited \<and>
         e_op s + lastRun + 1 + (lastRun + 255 - RUN_MASK) div 255 > k_olimit k then
        if k_output k = fillOutput then
          let lastRun = U64 (k_olimit k - e_op s - 1)
          in Some (U64 (lastRun - U64 (lastRun + 256 - RUN_MASK) div 256))
        else None
      else Some lastRun)"

definition enc_last_literals :: "enc_cfg \<Rightarrow> enc_state \<Rightarrow> (enc_pc \<times> enc_state) option" where
  "enc_last_literals k s =
     (case enc_last_run k s of
        None \<Rightarrow> Some (Finished 0, s)
      | Some lastRun \<Rightarrow>
          do { (m, op) \<leftarrow> put_lit_header (e_mem s) (e_op s) (e_op s + 1) lastRun;
               m \<leftarrow> LZ4_memcpy m op (e_anchor s) (nat lastRun);
               Some (Finished (op + lastRun - k_dest k),
                     s\<lparr>e_mem := m, e_ip := e_anchor s + lastRun, e_op := op + lastRun\<rparr>) })"

section \<open>The whole function\<close>

fun enc_step :: "enc_cfg \<Rightarrow> enc_pc \<Rightarrow> enc_state \<Rightarrow> (enc_pc \<times> enc_state) option" where
  "enc_step k MainLoop s = enc_main_loop k s"
| "enc_step k Search s = enc_search k s"
| "enc_step k MatchFound s = enc_match_found k s"
| "enc_step k NextMatch s = enc_next_match k s"
| "enc_step k LastLiterals s = enc_last_literals k s"
| "enc_step k (Finished r) s = Some (Finished r, s)"

partial_function (option) enc_run :: "enc_cfg \<Rightarrow> enc_pc \<Rightarrow> enc_state \<Rightarrow> (int \<times> enc_state) option" where
  "enc_run k pc s =
     (case pc of
        Finished r \<Rightarrow> Some (r, s)
      | _ \<Rightarrow> Option.bind (enc_step k pc s) (\<lambda>r. enc_run k (fst r) (snd r)))"

declare enc_run.simps [code]

text \<open>The result of a call: the value returned, the input consumed (written only when the output is
  to be filled), the state and the memory.\<close>

type_synonym enc_result = "int \<times> int option \<times> lz4_ctx \<times> mem"

definition enc_enter :: "lz4_ctx \<Rightarrow> enc_cfg \<Rightarrow> lz4_ctx" where
  "enc_enter cctx k =
     (let cctx = (if k_dict k = usingDictCtx
                  then cctx\<lparr>dictCtx := None, dictSize := U32 (k_inputSize k)\<rparr>
                  else cctx\<lparr>dictSize := U32 (dictSize cctx + k_inputSize k)\<rparr>)
      in cctx\<lparr>currentOffset := U32 (currentOffset cctx + k_inputSize k), tableType := k_tableType k\<rparr>)"

definition enc_start :: "enc_cfg \<Rightarrow> mem \<Rightarrow> lz4_ctx \<Rightarrow> enc_state" where
  "enc_start k m cctx =
     \<lparr>e_mem = m, e_ctx = cctx, e_ip = k_source k, e_anchor = k_source k, e_op = k_dest k,
      e_match = 0, e_lowLimit = k_source k - (if k_dict k = withPrefix64k then k_dictSize k else 0),
      e_token = 0, e_offset = 0, e_forwardH = 0, e_filledIp = 0, e_forwardIp = 0, e_step = 0,
      e_searchMatchNb = 0\<rparr>"

text \<open>The first byte: it is entered into the table, and the search starts behind it.\<close>

definition enc_first_byte :: "enc_cfg \<Rightarrow> enc_state \<Rightarrow> enc_state option" where
  "enc_first_byte k s =
     do { h \<leftarrow> LZ4_hashPosition (e_mem s) (e_ip s) (k_tableType k);
          ctx \<leftarrow> LZ4_putIndexOnHash (k_startIndex k) h (e_ctx s) (k_tableType k);
          forwardH \<leftarrow> LZ4_hashPosition (e_mem s) (e_ip s + 1) (k_tableType k);
          Some (s\<lparr>e_ctx := ctx, e_ip := e_ip s + 1, e_forwardH := forwardH\<rparr>) }"

definition enc_config ::
  "lz4_ctx \<Rightarrow> ptr \<Rightarrow> ptr \<Rightarrow> int \<Rightarrow> int \<Rightarrow> limitedOutput_directive \<Rightarrow> tableType_t \<Rightarrow>
   dict_directive \<Rightarrow> dictIssue_directive \<Rightarrow> int \<Rightarrow> enc_cfg" where
  "enc_config cctx source dest inputSize maxOutputSize outputDirective tt dict issue acceleration =
     \<lparr>k_source = source, k_dest = dest, k_inputSize = inputSize, k_maxOutputSize = maxOutputSize,
      k_output = outputDirective, k_tableType = tt, k_dict = dict, k_dictIssue = issue,
      k_acceleration = acceleration, k_startIndex = currentOffset cctx, k_dictCtx = dictCtx cctx,
      k_dictionary = (if dict = usingDictCtx
        then (case dictCtx cctx of None \<Rightarrow> NULL | Some d \<Rightarrow> dictionary d) else dictionary cctx),
      k_dictSize = (if dict = usingDictCtx
        then (case dictCtx cctx of None \<Rightarrow> 0 | Some d \<Rightarrow> dictSize d) else dictSize cctx)\<rparr>"

definition LZ4_compress_generic_validated ::
  "mem \<Rightarrow> lz4_ctx \<Rightarrow> ptr \<Rightarrow> ptr \<Rightarrow> int \<Rightarrow> int \<Rightarrow> limitedOutput_directive \<Rightarrow> tableType_t \<Rightarrow>
   dict_directive \<Rightarrow> dictIssue_directive \<Rightarrow> int \<Rightarrow> enc_result option" where
  "LZ4_compress_generic_validated m cctx source dest inputSize maxOutputSize outputDirective tt
       dict issue acceleration =
     (let k = enc_config cctx source dest inputSize maxOutputSize outputDirective tt dict issue
                acceleration
      in if outputDirective = fillOutput \<and> maxOutputSize < 1 then Some (0, None, cctx, m)
         else
           let s = enc_start k m (enc_enter cctx k) in
           do { (r, s) \<leftarrow>
                  (if inputSize < LZ4_minLength then enc_run k LastLiterals s
                   else do { s \<leftarrow> enc_first_byte k s; enc_run k MainLoop s });
                Some (r, if outputDirective = fillOutput then Some (e_ip s - source) else None,
                      e_ctx s, e_mem s) })"

definition LZ4_compress_generic ::
  "mem \<Rightarrow> lz4_ctx \<Rightarrow> ptr \<Rightarrow> ptr \<Rightarrow> int \<Rightarrow> int \<Rightarrow> limitedOutput_directive \<Rightarrow> tableType_t \<Rightarrow>
   dict_directive \<Rightarrow> dictIssue_directive \<Rightarrow> int \<Rightarrow> enc_result option" where
  "LZ4_compress_generic m cctx src dst srcSize dstCapacity outputDirective tt dict issue acceleration =
     (if U32 srcSize > LZ4_MAX_INPUT_SIZE then Some (0, None, cctx, m)
      else if srcSize = 0 then
        if outputDirective \<noteq> notLimited \<and> dstCapacity \<le> 0 then Some (0, None, cctx, m)
        else do { m \<leftarrow> store_bytes m dst [0];
                  Some (1, if outputDirective = fillOutput then Some 0 else None, cctx, m) }
      else LZ4_compress_generic_validated m cctx src dst srcSize dstCapacity outputDirective tt
             dict issue acceleration)"

section \<open>The entry points\<close>

definition clamp_acceleration :: "int \<Rightarrow> int" where
  "clamp_acceleration a = (let a = (if a < 1 then 1 else a) in if a > 65537 then 65537 else a)"

definition LZ4_compress_fast_extState ::
  "mem \<Rightarrow> ptr \<Rightarrow> ptr \<Rightarrow> ptr \<Rightarrow> int \<Rightarrow> int \<Rightarrow> int \<Rightarrow> enc_result option" where
  "LZ4_compress_fast_extState m state source dest inputSize maxOutputSize acceleration =
     do { ctx \<leftarrow> LZ4_initStream state sizeof_LZ4_stream_t;
          let acceleration = clamp_acceleration acceleration;
          if maxOutputSize \<ge> LZ4_compressBound inputSize then
            if inputSize < LZ4_64Klimit
            then LZ4_compress_generic m ctx source dest inputSize 0 notLimited byU16 noDict
                   noDictIssue acceleration
            else LZ4_compress_generic m ctx source dest inputSize 0 notLimited byU32 noDict
                   noDictIssue acceleration
          else
            if inputSize < LZ4_64Klimit
            then LZ4_compress_generic m ctx source dest inputSize maxOutputSize limitedOutput byU16
                   noDict noDictIssue acceleration
            else LZ4_compress_generic m ctx source dest inputSize maxOutputSize limitedOutput byU32
                   noDict noDictIssue acceleration }"

definition LZ4_compress_fast_extState_fastReset ::
  "mem \<Rightarrow> lz4_ctx \<Rightarrow> ptr \<Rightarrow> ptr \<Rightarrow> int \<Rightarrow> int \<Rightarrow> int \<Rightarrow> enc_result option" where
  "LZ4_compress_fast_extState_fastReset m ctx src dst srcSize dstCapacity acceleration =
     (let acceleration = clamp_acceleration acceleration in
      if dstCapacity \<ge> LZ4_compressBound srcSize then
        if srcSize < LZ4_64Klimit then
          let ctx = LZ4_prepareTable ctx srcSize byU16 in
          if currentOffset ctx \<noteq> 0
          then LZ4_compress_generic m ctx src dst srcSize 0 notLimited byU16 noDict dictSmall acceleration
          else LZ4_compress_generic m ctx src dst srcSize 0 notLimited byU16 noDict noDictIssue acceleration
        else
          let ctx = LZ4_prepareTable ctx srcSize byU32 in
          LZ4_compress_generic m ctx src dst srcSize 0 notLimited byU32 noDict noDictIssue acceleration
      else
        if srcSize < LZ4_64Klimit then
          let ctx = LZ4_prepareTable ctx srcSize byU16 in
          if currentOffset ctx \<noteq> 0
          then LZ4_compress_generic m ctx src dst srcSize dstCapacity limitedOutput byU16 noDict
                 dictSmall acceleration
          else LZ4_compress_generic m ctx src dst srcSize dstCapacity limitedOutput byU16 noDict
                 noDictIssue acceleration
        else
          let ctx = LZ4_prepareTable ctx srcSize byU32 in
          LZ4_compress_generic m ctx src dst srcSize dstCapacity limitedOutput byU32 noDict
            noDictIssue acceleration)"

text \<open>The state of \<open>LZ4_compress_fast\<close> is a local variable, at some aligned address.\<close>

definition local_state :: ptr where
  "local_state = 8"

definition LZ4_compress_fast ::
  "mem \<Rightarrow> ptr \<Rightarrow> ptr \<Rightarrow> int \<Rightarrow> int \<Rightarrow> int \<Rightarrow> (int \<times> mem) option" where
  "LZ4_compress_fast m src dest srcSize dstCapacity acceleration =
     do { (r, _, _, m) \<leftarrow> LZ4_compress_fast_extState m local_state src dest srcSize dstCapacity acceleration;
          Some (r, m) }"

definition LZ4_compress_default :: "mem \<Rightarrow> ptr \<Rightarrow> ptr \<Rightarrow> int \<Rightarrow> int \<Rightarrow> (int \<times> mem) option" where
  "LZ4_compress_default m src dst srcSize dstCapacity =
     LZ4_compress_fast m src dst srcSize dstCapacity 1"

definition LZ4_compress_destSize_extState_internal ::
  "mem \<Rightarrow> ptr \<Rightarrow> ptr \<Rightarrow> ptr \<Rightarrow> int \<Rightarrow> int \<Rightarrow> int \<Rightarrow> enc_result option" where
  "LZ4_compress_destSize_extState_internal m state src dst srcSize targetDstSize acceleration =
     do { ctx \<leftarrow> LZ4_initStream state sizeof_LZ4_stream_t;
          if targetDstSize \<ge> LZ4_compressBound srcSize
          then LZ4_compress_fast_extState m state src dst srcSize targetDstSize acceleration
          else if srcSize < LZ4_64Klimit
          then LZ4_compress_generic m ctx src dst srcSize targetDstSize fillOutput byU16 noDict
                 noDictIssue acceleration
          else LZ4_compress_generic m ctx src dst srcSize targetDstSize fillOutput byU32 noDict
                 noDictIssue acceleration }"

text \<open>The variants that keep or drop the state: the value, \<open>*srcSizePtr\<close> afterwards, the memory.\<close>

definition LZ4_compress_destSize_extState ::
  "mem \<Rightarrow> ptr \<Rightarrow> ptr \<Rightarrow> ptr \<Rightarrow> int \<Rightarrow> int \<Rightarrow> int \<Rightarrow> (int \<times> int \<times> lz4_ctx \<times> mem) option" where
  "LZ4_compress_destSize_extState m state src dst srcSize targetDstSize acceleration =
     do { (r, consumed, _, m) \<leftarrow>
            LZ4_compress_destSize_extState_internal m state src dst srcSize targetDstSize acceleration;
          ctx \<leftarrow> LZ4_initStream state sizeof_LZ4_stream_t;
          Some (r, case consumed of None \<Rightarrow> srcSize | Some c \<Rightarrow> c, ctx, m) }"

definition LZ4_compress_destSize ::
  "mem \<Rightarrow> ptr \<Rightarrow> ptr \<Rightarrow> int \<Rightarrow> int \<Rightarrow> (int \<times> int \<times> mem) option" where
  "LZ4_compress_destSize m src dst srcSize targetDstSize =
     do { (r, consumed, _, m) \<leftarrow>
            LZ4_compress_destSize_extState_internal m local_state src dst srcSize targetDstSize 1;
          Some (r, case consumed of None \<Rightarrow> srcSize | Some c \<Rightarrow> c, m) }"

section \<open>The obsolete names\<close>

definition LZ4_compress_limitedOutput :: "mem \<Rightarrow> ptr \<Rightarrow> ptr \<Rightarrow> int \<Rightarrow> int \<Rightarrow> (int \<times> mem) option" where
  "LZ4_compress_limitedOutput m source dest inputSize maxOutputSize =
     LZ4_compress_default m source dest inputSize maxOutputSize"

definition LZ4_compress :: "mem \<Rightarrow> ptr \<Rightarrow> ptr \<Rightarrow> int \<Rightarrow> (int \<times> mem) option" where
  "LZ4_compress m src dest srcSize =
     LZ4_compress_default m src dest srcSize (LZ4_compressBound srcSize)"

end
