(* ===== verification/Lz4_Stream_Decode.thy ===== *)
theory Lz4_Stream_Decode
  imports Lz4_Unsafe Lz4_Compress
begin

text \<open>
  The streaming decoders of src/lz4.c: the state \<open>LZ4_streamDecode_t_internal\<close> of include/lz4.h,
  which says where the last decoded data lies, \<open>LZ4_setStreamDecode\<close>, and the two
  \<open>_continue\<close> functions, which pick a decoder by the place of the new block relative to the last
  one and move the state on. A result is the value returned, the state and the memory.

  \<open>size_t\<close> values are unbounded here: they are sums of block sizes.
\<close>

record stream_decode =
  externalDict :: ptr
  prefixEnd :: ptr
  extDictSize :: int
  prefixSize :: int

definition zero_stream_decode :: stream_decode where
  "zero_stream_decode = \<lparr>externalDict = NULL, prefixEnd = NULL, extDictSize = 0, prefixSize = 0\<rparr>"

text \<open>The allocation functions take the address the allocator returned and work on the map from
  addresses to the states there.\<close>

definition LZ4_createStreamDecode ::
  "(ptr \<rightharpoonup> stream_decode) \<Rightarrow> ptr \<Rightarrow> ptr \<times> (ptr \<rightharpoonup> stream_decode)" where
  "LZ4_createStreamDecode heap p =
     (p, if p = NULL then heap else heap(p \<mapsto> zero_stream_decode))"

definition LZ4_freeStreamDecode ::
  "(ptr \<rightharpoonup> stream_decode) \<Rightarrow> ptr \<Rightarrow> int \<times> (ptr \<rightharpoonup> stream_decode)" where
  "LZ4_freeStreamDecode heap p = (if p = NULL then (0, heap) else (0, heap(p := None)))"

definition LZ4_setStreamDecode :: "stream_decode \<Rightarrow> ptr \<Rightarrow> int \<Rightarrow> int \<times> stream_decode" where
  "LZ4_setStreamDecode sd dict size_d =
     (let sd = sd\<lparr>prefixSize := U64 size_d\<rparr>;
          sd = (if size_d \<noteq> 0 then sd\<lparr>prefixEnd := dict + size_d\<rparr> else sd\<lparr>prefixEnd := dict\<rparr>)
      in (1, sd\<lparr>externalDict := NULL, extDictSize := 0\<rparr>))"

definition LZ4_DECODER_RING_BUFFER_SIZE :: "int \<Rightarrow> int" where
  "LZ4_DECODER_RING_BUFFER_SIZE maxBlockSize = 65536 + 14 + maxBlockSize"

definition LZ4_decoderRingBufferSize :: "int \<Rightarrow> int" where
  "LZ4_decoderRingBufferSize maxBlockSize =
     (if maxBlockSize < 0 then 0
      else if maxBlockSize > LZ4_MAX_INPUT_SIZE then 0
      else LZ4_DECODER_RING_BUFFER_SIZE (if maxBlockSize < 16 then 16 else maxBlockSize))"

section \<open>Decoding the next block\<close>

definition LZ4_decompress_safe_continue ::
  "mem \<Rightarrow> stream_decode \<Rightarrow> ptr \<Rightarrow> ptr \<Rightarrow> int \<Rightarrow> int \<Rightarrow> (int \<times> stream_decode \<times> mem) option" where
  "LZ4_decompress_safe_continue m sd source dest compressedSize maxOutputSize =
     (if prefixSize sd = 0 then
        do { (result, m) \<leftarrow> LZ4_decompress_safe m source dest compressedSize maxOutputSize;
             if result \<le> 0 then Some (result, sd, m)
             else Some (result, sd\<lparr>prefixSize := result, prefixEnd := dest + result\<rparr>, m) }
      else if prefixEnd sd = dest then
        do { (result, m) \<leftarrow>
               (if prefixSize sd \<ge> 64 * KB - 1
                then LZ4_decompress_safe_withPrefix64k m source dest compressedSize maxOutputSize
                else if extDictSize sd = 0
                then LZ4_decompress_safe_withSmallPrefix m source dest compressedSize maxOutputSize
                       (prefixSize sd)
                else LZ4_decompress_safe_doubleDict m source dest compressedSize maxOutputSize
                       (prefixSize sd) (externalDict sd) (extDictSize sd));
             if result \<le> 0 then Some (result, sd, m)
             else Some (result, sd\<lparr>prefixSize := prefixSize sd + result,
                                   prefixEnd := prefixEnd sd + result\<rparr>, m) }
      else
        let sd = sd\<lparr>extDictSize := prefixSize sd, externalDict := prefixEnd sd - prefixSize sd\<rparr> in
        do { (result, m) \<leftarrow>
               LZ4_decompress_safe_forceExtDict m source dest compressedSize maxOutputSize
                 (externalDict sd) (extDictSize sd);
             if result \<le> 0 then Some (result, sd, m)
             else Some (result, sd\<lparr>prefixSize := result, prefixEnd := dest + result\<rparr>, m) })"

definition LZ4_decompress_fast_continue ::
  "mem \<Rightarrow> stream_decode \<Rightarrow> ptr \<Rightarrow> ptr \<Rightarrow> int \<Rightarrow> (int \<times> stream_decode \<times> mem) option" where
  "LZ4_decompress_fast_continue m sd source dest originalSize =
     (if prefixSize sd = 0 then
        do { (result, m) \<leftarrow> LZ4_decompress_fast m source dest originalSize;
             if result \<le> 0 then Some (result, sd, m)
             else Some (result, sd\<lparr>prefixSize := originalSize, prefixEnd := dest + originalSize\<rparr>, m) }
      else if prefixEnd sd = dest then
        do { (result, m) \<leftarrow>
               LZ4_decompress_unsafe_generic m source dest originalSize (prefixSize sd)
                 (externalDict sd) (extDictSize sd);
             if result \<le> 0 then Some (result, sd, m)
             else Some (result, sd\<lparr>prefixSize := prefixSize sd + originalSize,
                                   prefixEnd := prefixEnd sd + originalSize\<rparr>, m) }
      else
        let sd = sd\<lparr>extDictSize := prefixSize sd, externalDict := prefixEnd sd - prefixSize sd\<rparr> in
        do { (result, m) \<leftarrow>
               LZ4_decompress_fast_extDict m source dest originalSize
                 (externalDict sd) (extDictSize sd);
             if result \<le> 0 then Some (result, sd, m)
             else Some (result, sd\<lparr>prefixSize := originalSize, prefixEnd := dest + originalSize\<rparr>, m) })"

end
