(* ===== verification/Lz4_Decode_Dict.thy ===== *)
theory Lz4_Decode_Dict
  imports Lz4_Decode_Props Lz4_Stream_Decode
begin

text \<open>
  The decoders of src/lz4.c that are given a dictionary, and the streaming decoder that keeps one:
  the history of a call is the external dictionary followed by the prefix, and every legal
  block is decoded in all the modes the entry points choose from. \<open>LZ4_decompress_safe_continue\<close>
  also moves its state on so that the next block finds the data decoded so far.
\<close>

section \<open>Configurations with an external dictionary\<close>

definition ext_cfg :: "ptr \<Rightarrow> ptr \<Rightarrow> int \<Rightarrow> int \<Rightarrow> nat \<Rightarrow> ptr \<Rightarrow> int \<Rightarrow> dec_cfg" where
  "ext_cfg source dest n cap pre dict dsz =
     \<lparr>c_src = source, c_dst = dest, c_srcSize = n, c_outputSize = cap,
      c_partialDecoding = decode_full_block, c_dict = usingExtDict,
      c_lowPrefix = dest - int pre, c_dictStart = dict, c_dictSize = dsz\<rparr>"

lemma ext_cfg_sel [simp]:
  "c_src (ext_cfg source dest n cap pre dict dsz) = source" "c_dst (ext_cfg source dest n cap pre dict dsz) = dest"
  "c_srcSize (ext_cfg source dest n cap pre dict dsz) = n"
  "c_outputSize (ext_cfg source dest n cap pre dict dsz) = cap"
  by (simp_all add: ext_cfg_def)

text \<open>The last 64 KB of a dictionary, its recent part, are allocated and apart from the output; what
  is in front of them may have been overwritten, as in a ring buffer.\<close>

definition recent :: "int \<Rightarrow> nat" where
  "recent dsz = nat (min dsz 65535)"

lemma recent_simps [simp]:
  "recent 0 = 0" "recent (int n) = min n 65535"
  by (simp_all add: recent_def min_def)

definition dict_ok :: "mem \<Rightarrow> ptr \<Rightarrow> int \<Rightarrow> ptr \<Rightarrow> int \<Rightarrow> bool" where
  "dict_ok m dict dsz dest cap \<longleftrightarrow>
     0 \<le> dsz \<and> mapped m (dict + dsz - int (recent dsz)) (recent dsz) \<and>
     (dsz = 0 \<or> dict \<noteq> NULL \<and> (dict + dsz \<le> dest \<or> dest + cap \<le> dict + dsz - int (recent dsz)))"

definition recent_bytes :: "mem \<Rightarrow> ptr \<Rightarrow> int \<Rightarrow> byte list" where
  "recent_bytes m dict dsz = bytes m (dict + dsz - int (recent dsz)) (recent dsz)"

lemma recent_suffix:
  assumes "0 \<le> dsz"
  shows "\<exists>g. bytes m dict (nat dsz) = g @ recent_bytes m dict dsz \<and> (g = [] \<or> 65535 \<le> length (recent_bytes m dict dsz))"
proof -
  define k where "k = nat dsz - recent dsz"
  have k: "nat dsz = k + recent dsz" "dict + int k = dict + dsz - int (recent dsz)" "k = 0 \<or> recent dsz = 65535"
    using assms by (auto simp: k_def recent_def)
  have "bytes m dict (nat dsz) = bytes m dict k @ recent_bytes m dict dsz"
    unfolding k(1) bytes_add recent_bytes_def k(2) ..
  moreover have "bytes m dict k = [] \<or> 65535 \<le> length (recent_bytes m dict dsz)"
    using k(3) by (auto simp: recent_bytes_def)
  ultimately show ?thesis
    by blast
qed

lemma ext_callable:
  assumes args: "decode_args m source n dest cap pre" and dict: "dict_ok m dict dsz dest cap"
  shows "callable (ext_cfg source dest n cap pre dict dsz) m"
    and "c_history (ext_cfg source dest n cap pre dict dsz) m =
           recent_bytes m dict dsz @ bytes m (dest - int pre) pre"
proof -
  let ?c = "ext_cfg source dest n cap pre dict dsz"
  have rec: "c_dl ?c = recent dsz" "c_recent ?c = dict + dsz - int (recent dsz)" "c_hist ?c = dest - int pre"
    by (simp_all add: c_dl_def c_recent_def recent_def c_hist_def ext_cfg_def)
  have "region m (dest - int pre) (dest - int pre + int (pre + nat cap))"
    using args by (auto simp: decode_args_def mapped_region)
  moreover have "dest - int pre + int (pre + nat cap) = dest + cap"
    using args by (simp add: decode_args_def)
  ultimately have "region m (dest - int pre) (dest + cap)"
    by simp
  then have "dec_ok ?c m"
    using args dict unfolding dec_ok_def rec
    by (auto simp: dict_ok_def decode_args_def ext_cfg_def c_iend_def c_oend_def c_partial_def mapped_region)
  then show "callable ?c m"
    using args by (simp add: callable_def decode_args_def NULL_def)
  show "c_history ?c m = recent_bytes m dict dsz @ bytes m (dest - int pre) pre"
    unfolding d_history_def history_def rec by (simp add: recent_bytes_def)
qed

section \<open>Blocks after a history\<close>

text \<open>A block with its sequences, last literals and content.\<close>

definition block_after :: "byte list \<Rightarrow> byte list \<Rightarrow> lz_seq list \<Rightarrow> byte list \<Rightarrow> byte list \<Rightarrow> bool" where
  "block_after h xs qs l out \<longleftrightarrow>
     xs = enc_block qs l \<and> list_all seq_ok qs \<and> offsets_ok h qs \<and>
     end_ok h qs (length (h @ out)) \<and> exec_seqs h qs @ l = h @ out"

lemma block_after_recent:
  assumes "block_after (g @ h) xs qs l out" and "g = [] \<or> 65535 \<le> length h"
  shows "block_after h xs qs l out"
proof -
  have ok: "offsets_ok h qs"
    by (rule offsets_ok_recent [of g]) (use assms in \<open>simp_all add: block_after_def\<close>)
  have "end_ok (g @ h) qs (length g + length (h @ out))"
    using assms(1) by (simp add: block_after_def)
  then have "end_ok h qs (length (h @ out))"
    by (simp only: end_ok_history [OF ok])
  moreover have "exec_seqs h qs @ l = h @ out"
    using assms(1) exec_seqs_history [OF ok, of g] by (simp add: block_after_def)
  ultimately show ?thesis
    using assms(1) ok by (simp add: block_after_def)
qed

lemma legal_block_after: "legal_after h xs out \<Longrightarrow> \<exists>qs l. block_after h xs qs l out"
  by (auto simp: legal_after_def block_after_def)

text \<open>A call decodes every block that is legal after a history of which it has the last 65535
  bytes.\<close>

lemma callable_decodes:
  assumes "callable c m" and "block_after h (c_input c m) qs l out" and "h = g @ c_history c m"
    and "g = [] \<or> 65535 \<le> length (c_history c m)" and "int (length out) \<le> c_outputSize c"
  shows "\<exists>m'. LZ4_decompress_generic m c = Some (int (length out), m') \<and>
           bytes m' (c_dst c) (length out) = out \<and> only_changed (c_dst c) (c_outputSize c) m m'"
proof -
  have "block_after (c_history c m) (c_input c m) qs l out"
    by (rule block_after_recent [OF _ assms(4)]) (use assms(2,3) in simp)
  with generic_complete [OF assms(1)] assms(5) show ?thesis
    by (simp add: block_after_def)
qed

text \<open>The three ways an entry point is given its history.\<close>

lemma prefix_decodes:
  assumes args: "decode_args m source n dest cap pre" and "pre \<le> 65535"
    and block: "block_after (g @ bytes m (dest - int pre) pre) (bytes m source (nat n)) qs l out"
    and "int (length out) \<le> cap" and "g = [] \<or> pre = 65535"
  shows "\<exists>m'. LZ4_decompress_generic m (safe_cfg source dest n cap pre) = Some (int (length out), m') \<and>
           bytes m' dest (length out) = out \<and> only_changed dest cap m m'"
proof -
  let ?c = "safe_cfg source dest n cap pre"
  have args': "decode_args m (c_src ?c) (c_srcSize ?c) (c_dst ?c) (c_outputSize ?c) pre"
    using args by simp
  note call = plain_callable [OF safe_cfg_plain args', unfolded safe_cfg_sel]
  show ?thesis
    using callable_decodes [OF call(1) _ refl, of g qs l out] block assms(4,5) by (auto simp: call(2))
qed

lemma ext_decodes:
  assumes args: "decode_args m source n dest cap pre" and dict: "dict_ok m dict dsz dest cap"
    and block: "block_after (recent_bytes m dict dsz @ bytes m (dest - int pre) pre)
      (bytes m source (nat n)) qs l out"
    and "int (length out) \<le> cap"
  shows "\<exists>m'. LZ4_decompress_generic m (ext_cfg source dest n cap pre dict dsz) =
             Some (int (length out), m') \<and>
           bytes m' dest (length out) = out \<and> only_changed dest cap m m'"
  using callable_decodes [OF ext_callable(1) [OF args dict], of _ qs l out "[]"] block assms(4)
  by (simp add: ext_callable(2) [OF args dict, unfolded ext_cfg_sel])

lemma block_after_recent_bytes:
  assumes "block_after (bytes m dict (nat dsz)) xs qs l out" and "0 \<le> dsz"
  shows "block_after (recent_bytes m dict dsz) xs qs l out"
  using recent_suffix [OF assms(2), of m dict] block_after_recent assms(1) by metis

section \<open>A dictionary for one call\<close>

text \<open>Every way in which \<open>LZ4_decompress_safe_usingDict\<close> is given its dictionary: none or directly in
  front of the output, or elsewhere.\<close>

lemma usingDict_decodes:
  assumes "decode_args m source n dest cap 0" and "dict_ok m dictStart dsz dest cap"
    and "dictStart + dsz = dest \<Longrightarrow> decode_args m source n dest cap (recent dsz)"
    and "block_after (bytes m dictStart (nat dsz)) (bytes m source (nat n)) qs l out"
    and "int (length out) \<le> cap"
  shows "\<exists>m'. LZ4_decompress_safe_usingDict m source dest n cap dictStart dsz =
             Some (int (length out), m') \<and>
           bytes m' dest (length out) = out \<and> only_changed dest cap m m'"
proof -
  have dsz: "0 \<le> dsz"
    using assms(2) by (simp add: dict_ok_def)
  have block: "block_after (recent_bytes m dictStart dsz) (bytes m source (nat n)) qs l out"
    by (rule block_after_recent_bytes [OF assms(4) dsz])
  show ?thesis
  proof (cases "dsz = 0 \<or> dictStart + dsz = dest")
    case True
    define pre where "pre = nat dsz"
    have pre: "dsz = int pre"
      using dsz by (simp add: pre_def)
    have "pre = 0 \<or> dictStart = dest - int pre"
      using True pre by auto
    then have same: "LZ4_decompress_safe_usingDict m source dest n cap dictStart dsz =
        LZ4_decompress_generic m (safe_cfg source dest n cap (recent dsz))"
      and hist: "recent_bytes m dictStart dsz = bytes m (dest - int (recent dsz)) (recent dsz)"
      using LZ4_decompress_safe_usingDict_cfg [of m source dest n cap pre]
      by (auto simp: pre recent_bytes_def LZ4_decompress_safe_usingDict_def)
    have "decode_args m source n dest cap (recent dsz)"
      using True assms(1,3) by (auto simp: recent_def)
    from prefix_decodes [OF this, of "[]"] block assms(5) show ?thesis
      unfolding same by (simp add: hist recent_def)
  next
    case False
    have "LZ4_decompress_safe_usingDict m source dest n cap dictStart dsz =
        LZ4_decompress_generic m (ext_cfg source dest n cap 0 dictStart dsz)"
      using False by (simp add: LZ4_decompress_safe_usingDict_def LZ4_decompress_safe_forceExtDict_def ext_cfg_def)
    with ext_decodes [OF assms(1,2), of qs l out] block assms(5) show ?thesis
      by simp
  qed
qed

text \<open>C30: With a dictionary, wherever it lies, \<open>LZ4_decompress_safe_usingDict\<close> decodes every block that
  is legal after it: in front of the output (the branches \<open>withPrefix64k\<close> and \<open>withSmallPrefix\<close> of
  the C code) or elsewhere (\<open>usingExtDict\<close>, where a match may begin in the dictionary and end in the
  output).\<close>

theorem LZ4_decompress_safe_usingDict_complete:
  assumes "decode_args m source n dest cap 0" and "dict_ok m dictStart dsz dest cap"
    and "dictStart + dsz = dest \<Longrightarrow> decode_args m source n dest cap (recent dsz)"
    and "block_after (bytes m dictStart (nat dsz)) (bytes m source (nat n)) qs l out"
    and "int (length out) \<le> cap"
  shows "\<exists>m'. LZ4_decompress_safe_usingDict m source dest n cap dictStart dsz =
             Some (int (length out), m') \<and>
           bytes m' dest (length out) = out \<and> only_changed dest cap m m'"
  by (rule usingDict_decodes [OF assms])

abbreviation dict_qs :: "lz_seq list" where
  "dict_qs \<equiv> [\<lparr>sq_lits = [], sq_off = 4, sq_mlen = 8\<rparr>]"

abbreviation dict_out :: "byte list" where
  "dict_out \<equiv> [9, 8, 7, 6, 9, 8, 7, 6, 1, 2, 3, 4, 5]"

abbreviation dict_mem :: mem where
  "dict_mem \<equiv> two_buffers 16 [4, 4, 0, 80, 1, 2, 3, 4, 5] 64 ([9, 8, 7, 6] @ replicate 17 0)"

lemma dict_block:
  "enc_block dict_qs [1, 2, 3, 4, 5] = [4, 4, 0, 80, 1, 2, 3, 4, 5]"
  "exec_seqs [9, 8, 7, 6] dict_qs @ [1, 2, 3, 4, 5] = [9, 8, 7, 6] @ dict_out"
  "list_all seq_ok dict_qs \<and> offsets_ok [9, 8, 7, 6] dict_qs \<and>
     end_ok [9, 8, 7, 6] dict_qs (length ([9, 8, 7, 6] @ dict_out))"
  by (code_simp, code_simp, simp add: seq_ok_def)

lemma dict_mem_facts:
  "bytes dict_mem 16 (nat 9) = [4, 4, 0, 80, 1, 2, 3, 4, 5]"
  "bytes dict_mem 64 (nat 4) = [9, 8, 7, 6]"
  "block_after (bytes dict_mem 64 (nat 4)) (bytes dict_mem 16 (nat 9)) dict_qs [1, 2, 3, 4, 5] dict_out"
  "legal_after (bytes dict_mem 64 (nat 4)) (bytes dict_mem 16 (nat 9)) dict_out"
proof -
  show src: "bytes dict_mem 16 (nat 9) = [4, 4, 0, 80, 1, 2, 3, 4, 5]"
    by (rule two_buffers_read) simp_all
  have "bytes dict_mem 64 (4 + 17) = [9, 8, 7, 6] @ replicate 17 0"
    by (rule two_buffers_read) simp_all
  then have dict: "bytes dict_mem 64 4 = [9, 8, 7, 6]"
    unfolding bytes_add by (subst (asm) append_eq_append_conv) simp_all
  moreover have "nat 4 = 4"
    by simp
  ultimately show dict': "bytes dict_mem 64 (nat 4) = [9, 8, 7, 6]"
    by (simp only:)
  show block: "block_after (bytes dict_mem 64 (nat 4)) (bytes dict_mem 16 (nat 9)) dict_qs [1, 2, 3, 4, 5] dict_out"
    unfolding src dict' block_after_def dict_block(1,2) using dict_block(3) by blast
  show "legal_after (bytes dict_mem 64 (nat 4)) (bytes dict_mem 16 (nat 9)) dict_out"
    using block unfolding legal_after_def block_after_def
    by (intro exI [of _ dict_qs] exI [of _ "[1, 2, 3, 4, 5]"]) simp
qed

theorem LZ4_decompress_safe_usingDict_complete_witness:
  "\<exists>m'. LZ4_decompress_safe_usingDict dict_mem 16 72 9 13 64 4 = Some (int (length dict_out), m') \<and>
     bytes m' 72 (length dict_out) = dict_out \<and> only_changed 72 13 dict_mem m'"
proof (rule LZ4_decompress_safe_usingDict_complete [OF _ _ _ dict_mem_facts(3)])
  show "decode_args dict_mem 16 9 72 13 0" "dict_ok dict_mem 64 4 72 13"
    by (auto simp: decode_args_def dict_ok_def recent_def NULL_def mapped_region region_def two_buffers_def put_apply)
qed simp_all

section \<open>A stream of blocks\<close>

text \<open>The data a stream keeps for the next block: the last segment, and in front of it the
  external dictionary if the next block goes right behind that segment. Of data that lies
  elsewhere than right in front of the block, only the last 64 KB count.\<close>

definition sd_history :: "stream_decode \<Rightarrow> mem \<Rightarrow> ptr \<Rightarrow> byte list" where
  "sd_history sd m dest =
     (if prefixSize sd = 0 then []
      else if prefixEnd sd = dest
      then recent_bytes m (externalDict sd) (extDictSize sd) @
           bytes m (dest - prefixSize sd) (nat (prefixSize sd))
      else recent_bytes m (prefixEnd sd - prefixSize sd) (prefixSize sd))"

definition sd_prefix :: "stream_decode \<Rightarrow> ptr \<Rightarrow> nat" where
  "sd_prefix sd dest = (if prefixEnd sd = dest then recent (prefixSize sd) else 0)"

text \<open>The state is sane, and the data it describes is still there.\<close>

definition sd_ok :: "mem \<Rightarrow> stream_decode \<Rightarrow> ptr \<Rightarrow> int \<Rightarrow> bool" where
  "sd_ok m sd dest cap \<longleftrightarrow>
     0 \<le> prefixSize sd \<and> (prefixSize sd = 0 \<longrightarrow> extDictSize sd = 0) \<and>
     (prefixEnd sd = dest \<longrightarrow> dict_ok m (externalDict sd) (extDictSize sd) dest cap) \<and>
     (prefixEnd sd \<noteq> dest \<longrightarrow> dict_ok m (prefixEnd sd - prefixSize sd) (prefixSize sd) dest cap)"

lemma only_changed_bytes:
  assumes "only_changed dest cap m m'" and "a + int n \<le> dest \<or> dest + cap \<le> a \<or> n = 0"
  shows "bytes m' a n = bytes m a n"
  by (rule bytes_cong) (use assms in \<open>auto simp: only_changed_def\<close>)

lemma dict_kept:
  assumes "dict_ok m a k dest cap" and "only_changed dest cap m m'"
  shows "recent_bytes m' a k = recent_bytes m a k"
  unfolding recent_bytes_def
  by (rule only_changed_bytes [OF assms(2)]) (use assms(1) in \<open>auto simp: dict_ok_def recent_def\<close>)

text \<open>The block is decoded, whichever decoder is chosen.\<close>

lemma sd_decodes:
  assumes args: "decode_args m source n dest cap (sd_prefix sd dest)" and ok: "sd_ok m sd dest cap"
    and block: "block_after (sd_history sd m dest) (bytes m source (nat n)) qs l out"
    and size: "0 < length out" "int (length out) \<le> cap"
  shows "\<exists>m' sd'. LZ4_decompress_safe_continue m sd source dest n cap = Some (int (length out), sd', m') \<and>
           bytes m' dest (length out) = out \<and> only_changed dest cap m m' \<and>
           prefixEnd sd' = dest + int (length out) \<and>
           (if prefixSize sd = 0
            then prefixSize sd' = int (length out) \<and> extDictSize sd' = 0
            else if prefixEnd sd = dest
            then prefixSize sd' = prefixSize sd + int (length out) \<and>
                 externalDict sd' = externalDict sd \<and> extDictSize sd' = extDictSize sd
            else prefixSize sd' = int (length out) \<and>
                 externalDict sd' = prefixEnd sd - prefixSize sd \<and> extDictSize sd' = prefixSize sd)"
proof -
  have sd: "0 \<le> prefixSize sd"
    using ok by (simp add: sd_ok_def)
  consider (first) "prefixSize sd = 0" | (roll) "0 < prefixSize sd" "prefixEnd sd = dest"
    | (wrap) "0 < prefixSize sd" "prefixEnd sd \<noteq> dest"
    using sd by linarith
  then show ?thesis
  proof cases
    case first
    have "block_after ([] @ bytes m (dest - int 0) 0) (bytes m source (nat n)) qs l out"
      using block first by (simp add: sd_history_def)
    from prefix_decodes [OF decode_args_suffix [OF args, of 0] _ this size(2)] obtain m' where
      "LZ4_decompress_safe m source dest n cap = Some (int (length out), m')"
      "bytes m' dest (length out) = out" "only_changed dest cap m m'"
      by (auto simp: LZ4_decompress_safe_cfg)
    with first size ok show ?thesis
      by (simp add: LZ4_decompress_safe_continue_def sd_ok_def)
  next
    case roll
    define k where "k = recent (prefixSize sd)"
    have args': "decode_args m source n dest cap k" and k: "k \<le> 65535" "0 < k"
      using roll args by (simp_all add: k_def sd_prefix_def recent_def)
    have dict: "dict_ok m (externalDict sd) (extDictSize sd) dest cap"
      using ok roll(2) by (simp add: sd_ok_def)
    let ?ext = "recent_bytes m (externalDict sd) (extDictSize sd)"
    obtain g where g: "bytes m (dest - prefixSize sd) (nat (prefixSize sd)) = g @ bytes m (dest - int k) k"
      and gk: "g = [] \<or> k = 65535"
      using recent_suffix [OF sd, of m "dest - prefixSize sd"] k(1)
      by (auto simp: recent_bytes_def k_def [symmetric])
    have block': "block_after (?ext @ g @ bytes m (dest - int k) k) (bytes m source (nat n)) qs l out"
      using block roll by (simp add: sd_history_def g)
    have "\<exists>m'. (if prefixSize sd \<ge> 64 * KB - 1
            then LZ4_decompress_safe_withPrefix64k m source dest n cap
            else if extDictSize sd = 0
            then LZ4_decompress_safe_withSmallPrefix m source dest n cap (prefixSize sd)
            else LZ4_decompress_safe_doubleDict m source dest n cap (prefixSize sd)
                   (externalDict sd) (extDictSize sd)) = Some (int (length out), m') \<and>
          bytes m' dest (length out) = out \<and> only_changed dest cap m m'"
    proof (cases "65535 \<le> prefixSize sd \<or> extDictSize sd = 0")
      case True
      have big: "65535 \<le> prefixSize sd \<longleftrightarrow> k = 65535"
        by (auto simp: k_def recent_def)
      have "?ext @ g = [] \<or> k = 65535"
        using True gk big by (auto simp: recent_bytes_def recent_def)
      with block' have dec: "\<exists>m'. LZ4_decompress_generic m (safe_cfg source dest n cap k) = Some (int (length out), m') \<and>
          bytes m' dest (length out) = out \<and> only_changed dest cap m m'"
        by (intro prefix_decodes [OF args' k(1) _ size(2), of "?ext @ g"]) simp_all
      have cfg: "(if prefixSize sd \<ge> 64 * KB - 1
            then LZ4_decompress_safe_withPrefix64k m source dest n cap
            else LZ4_decompress_safe_withSmallPrefix m source dest n cap (prefixSize sd)) =
          LZ4_decompress_generic m (safe_cfg source dest n cap k)"
        using roll(1) by (auto simp: k_def recent_def safe_cfg_def LZ4_decompress_safe_withPrefix64k_def
            LZ4_decompress_safe_withSmallPrefix_def)
      show ?thesis
        using dec True unfolding cfg [symmetric] by (auto split: if_splits)
    next
      case False
      then have small: "prefixSize sd = int k" "k < 65535" and "g = []"
        using roll(1) gk by (auto simp: k_def recent_def)
      with ext_decodes [OF args' dict, of qs l out] block' size(2) False show ?thesis
        by (simp add: ext_cfg_def LZ4_decompress_safe_doubleDict_def)
    qed
    then obtain m' where "(if prefixSize sd \<ge> 64 * KB - 1
            then LZ4_decompress_safe_withPrefix64k m source dest n cap
            else if extDictSize sd = 0
            then LZ4_decompress_safe_withSmallPrefix m source dest n cap (prefixSize sd)
            else LZ4_decompress_safe_doubleDict m source dest n cap (prefixSize sd)
                   (externalDict sd) (extDictSize sd)) = Some (int (length out), m')"
      and "bytes m' dest (length out) = out" "only_changed dest cap m m'"
      by blast
    with roll size show ?thesis
      unfolding LZ4_decompress_safe_continue_def by simp
  next
    case wrap
    have dict: "dict_ok m (prefixEnd sd - prefixSize sd) (prefixSize sd) dest cap"
      using ok wrap(2) by (simp add: sd_ok_def)
    have "block_after (recent_bytes m (prefixEnd sd - prefixSize sd) (prefixSize sd) @ bytes m (dest - int 0) 0)
        (bytes m source (nat n)) qs l out"
      using block wrap by (simp add: sd_history_def)
    from ext_decodes [OF decode_args_suffix [OF args, of 0] dict this size(2)] obtain m' where
      "LZ4_decompress_safe_forceExtDict m source dest n cap (prefixEnd sd - prefixSize sd) (prefixSize sd) =
         Some (int (length out), m')"
      "bytes m' dest (length out) = out" "only_changed dest cap m m'"
      by (auto simp: LZ4_decompress_safe_forceExtDict_def ext_cfg_def)
    with wrap size show ?thesis
      by (simp add: LZ4_decompress_safe_continue_def Let_def)
  qed
qed

text \<open>What the new state describes for a next block.\<close>

lemma safe_continue_decodes:
  assumes args: "decode_args m source n dest cap (sd_prefix sd dest)" and ok: "sd_ok m sd dest cap"
    and legal: "legal_after (sd_history sd m dest) (bytes m source (nat n)) out"
    and size: "0 < length out" "int (length out) \<le> cap"
  shows "\<exists>m' sd'. LZ4_decompress_safe_continue m sd source dest n cap = Some (int (length out), sd', m') \<and>
           bytes m' dest (length out) = out \<and> only_changed dest cap m m' \<and>
           prefixEnd sd' = dest + int (length out) \<and>
           sd_history sd' m' (dest + int (length out)) = sd_history sd m dest @ out"
proof -
  obtain qs l where block: "block_after (sd_history sd m dest) (bytes m source (nat n)) qs l out"
    using legal_block_after [OF legal] by blast
  obtain m' sd' where run: "LZ4_decompress_safe_continue m sd source dest n cap = Some (int (length out), sd', m')"
    and out: "bytes m' dest (length out) = out" and frame: "only_changed dest cap m m'"
    and pend: "prefixEnd sd' = dest + int (length out)"
    and sd': "if prefixSize sd = 0
            then prefixSize sd' = int (length out) \<and> extDictSize sd' = 0
            else if prefixEnd sd = dest
            then prefixSize sd' = prefixSize sd + int (length out) \<and>
                 externalDict sd' = externalDict sd \<and> extDictSize sd' = extDictSize sd
            else prefixSize sd' = int (length out) \<and>
                 externalDict sd' = prefixEnd sd - prefixSize sd \<and> extDictSize sd' = prefixSize sd"
    using sd_decodes [OF args ok block size] by blast
  have sd: "0 \<le> prefixSize sd"
    using ok by (simp add: sd_ok_def)
  have "sd_history sd' m' (dest + int (length out)) = sd_history sd m dest @ out"
  proof (cases "prefixSize sd = 0")
    case True
    with sd' out pend size(1) show ?thesis
      by (simp add: sd_history_def recent_bytes_def recent_def)
  next
    case False
    show ?thesis
    proof (cases "prefixEnd sd = dest")
      case True
      have "nat (prefixSize sd + int (length out)) = nat (prefixSize sd) + length out"
        using sd by simp
      moreover have "bytes m' (dest - prefixSize sd) (nat (prefixSize sd)) =
          bytes m (dest - prefixSize sd) (nat (prefixSize sd))"
        by (rule only_changed_bytes [OF frame]) (use sd in simp)
      moreover have "recent_bytes m' (externalDict sd) (extDictSize sd) =
          recent_bytes m (externalDict sd) (extDictSize sd)"
        by (rule dict_kept [OF _ frame]) (use ok True in \<open>simp add: sd_ok_def\<close>)
      ultimately show ?thesis
        using True False sd' out pend size(1) sd by (simp add: sd_history_def bytes_add)
    next
      case wrap: False
      have "recent_bytes m' (prefixEnd sd - prefixSize sd) (prefixSize sd) =
          recent_bytes m (prefixEnd sd - prefixSize sd) (prefixSize sd)"
        by (rule dict_kept [OF _ frame]) (use ok wrap in \<open>simp add: sd_ok_def\<close>)
      then show ?thesis
        using wrap False sd' out pend size(1) by (simp add: sd_history_def)
    qed
  qed
  with run out frame pend show ?thesis
    by blast
qed

text \<open>C40: The streaming decoder decodes every block that is legal after the data decoded so far,
  whether the block goes right behind that data, to the start of a ring buffer or to another
  buffer; and the state it leaves describes that data followed by the new block, for a next
  block right behind it.\<close>

theorem LZ4_decompress_safe_continue_complete:
  assumes args: "decode_args m source n dest cap (sd_prefix sd dest)" and ok: "sd_ok m sd dest cap"
    and legal: "legal_after (sd_history sd m dest) (bytes m source (nat n)) out"
    and size: "0 < length out" "int (length out) \<le> cap"
  shows "\<exists>m' sd'. LZ4_decompress_safe_continue m sd source dest n cap = Some (int (length out), sd', m') \<and>
           bytes m' dest (length out) = out \<and> only_changed dest cap m m' \<and>
           prefixEnd sd' = dest + int (length out) \<and>
           sd_history sd' m' (dest + int (length out)) = sd_history sd m dest @ out"
  by (rule safe_continue_decodes [OF assms])

theorem LZ4_decompress_safe_continue_complete_witness:
  "\<exists>m' sd'. LZ4_decompress_safe_continue dict_mem \<lparr>externalDict = 0, prefixEnd = 68, extDictSize = 0, prefixSize = 4\<rparr>
        16 72 9 13 = Some (int (length dict_out), sd', m') \<and>
     bytes m' 72 (length dict_out) = dict_out \<and> only_changed 72 13 dict_mem m' \<and>
     prefixEnd sd' = 72 + int (length dict_out) \<and>
     sd_history sd' m' (72 + int (length dict_out)) = [9, 8, 7, 6] @ dict_out"
proof -
  let ?sd = "\<lparr>externalDict = 0, prefixEnd = 68, extDictSize = 0, prefixSize = 4\<rparr>"
  have hist: "sd_history ?sd dict_mem 72 = bytes dict_mem 64 (nat 4)"
    by (simp add: sd_history_def recent_bytes_def recent_def)
  have args: "decode_args dict_mem 16 9 72 13 (sd_prefix ?sd 72)" and ok: "sd_ok dict_mem ?sd 72 13"
    by (auto simp: decode_args_def sd_prefix_def sd_ok_def dict_ok_def recent_def NULL_def mapped_region region_def
        two_buffers_def put_apply)
  have legal: "legal_after (sd_history ?sd dict_mem 72) (bytes dict_mem 16 (nat 9)) dict_out"
    unfolding hist by (rule dict_mem_facts(4))
  have "sd_history ?sd dict_mem 72 = [9, 8, 7, 6]"
    unfolding hist by (rule dict_mem_facts(2))
  with LZ4_decompress_safe_continue_complete [OF args ok legal] show ?thesis
    by simp
qed

end
