(* ===== verification/Lz4_Unsafe_Props.thy ===== *)
theory Lz4_Unsafe_Props
  imports Lz4_Decode_Dict Lz4_History
begin

text \<open>
  What a caller of the unchecked decoders of src/lz4.c relies on: a legal block whose content has
  exactly the given size is decoded, whether the history its matches refer to is a prefix, an
  external dictionary or the one followed by the other, and the value returned is the size of
  the block that was read.
\<close>

section \<open>Reading the input\<close>

definition reads :: "mem \<Rightarrow> ptr \<Rightarrow> byte list \<Rightarrow> bool" where
  "reads m p xs \<longleftrightarrow> (\<forall>i < length xs. m (p + int i) = Some (xs ! i))"

lemma reads_Nil [simp]: "reads m p []"
  by (simp add: reads_def)

lemma reads_Cons [simp]: "reads m p (x # xs) \<longleftrightarrow> m p = Some x \<and> reads m (p + 1) xs"
  by (auto simp: reads_def nth_Cons All_less_Suc2 algebra_simps split: nat.splits)

lemma reads_append [simp]:
  "reads m p (xs @ ys) \<longleftrightarrow> reads m p xs \<and> reads m (p + int (length xs)) ys"
  by (induction xs arbitrary: p) (auto simp: algebra_simps)

lemma reads_region: "reads m p xs \<Longrightarrow> region m p (p + int (length xs))"
  unfolding region_def
proof (intro allI impI)
  fix x
  assume reads: "reads m p xs" and x: "p \<le> x \<and> x < p + int (length xs)"
  then have "nat (x - p) < length xs" and "p + int (nat (x - p)) = x"
    by auto
  with reads have "m x = Some (xs ! nat (x - p))"
    by (metis reads_def)
  then show "x \<in> dom m"
    by auto
qed

lemma reads_bytes: "reads m p xs \<Longrightarrow> bytes m p (length xs) = xs"
  by (rule nth_equalityI) (auto simp: reads_def)

lemma reads_iff: "reads m p xs \<longleftrightarrow> region m p (p + int (length xs)) \<and> bytes m p (length xs) = xs"
proof
  assume "region m p (p + int (length xs)) \<and> bytes m p (length xs) = xs"
  then have reg: "region m p (p + int (length xs))" and eq: "bytes m p (length xs) = xs"
    by auto
  show "reads m p xs"
    unfolding reads_def
  proof (intro allI impI)
    fix i
    assume i: "i < length xs"
    then have "p + int i \<in> dom m" and "the (m (p + int i)) = xs ! i"
      using reg eq nth_bytes [of i "length xs" m p] by (auto simp: region_def)
    then show "m (p + int i) = Some (xs ! i)"
      by auto
  qed
qed (auto simp: reads_region reads_bytes)

lemma reads_outside:
  assumes "\<And>x. x < lo \<or> hi \<le> x \<Longrightarrow> m' x = m x" and "p + int (length xs) \<le> lo \<or> hi \<le> p"
  shows "reads m' p xs = reads m p xs"
  using assms by (auto simp: reads_def)

section \<open>Lengths\<close>

lemma read_long_length_ext_len:
  "reads m ip (ext_len n) \<Longrightarrow> l + n < 2 ^ 63 \<Longrightarrow>
     read_long_length_no_check m ip (int l) = Some (int (l + n), ip + int (length (ext_len n)))"
proof (induction n arbitrary: ip l rule: ext_len.induct)
  case (1 n)
  show ?case
  proof (cases "n < 255")
    case True
    then have "m ip = Some (word_of_nat n)"
      using "1.prems"(1) by (simp add: ext_len_small)
    with True "1.prems"(2) show ?thesis
      by (subst read_long_length_no_check.simps)
        (simp add: ext_len_small uint_byte_of_nat byte_of_nat_255)
  next
    case False
    then have "m ip = Some 255" and "reads m (ip + 1) (ext_len (n - 255))"
      using "1.prems"(1) by (simp_all add: ext_len_large)
    moreover have "read_long_length_no_check m (ip + 1) (int (l + 255)) =
        Some (int (l + 255 + (n - 255)), ip + 1 + int (length (ext_len (n - 255))))"
      by (rule "1.IH") (use False calculation(2) "1.prems"(2) in auto)
    ultimately show ?thesis
      using False "1.prems"(2)
      by (subst read_long_length_no_check.simps) (simp add: ext_len_large)
  qed
qed

lemma unsafe_length_header:
  assumes "reads m ip (if 15 \<le> n then ext_len (n - 15) else [])" and "n < 2 ^ 32"
  shows "unsafe_length m ip (int (min 15 n)) =
           Some (int n, ip + int (length (if 15 \<le> n then ext_len (n - 15) else [])))"
  using assms read_long_length_ext_len [of m ip "n - 15" 0]
  by (auto simp: unsafe_length_def min_def)

section \<open>The history\<close>

text \<open>The memory a call relies on, and the bytes the matches may refer to.\<close>

definition unsafe_ok :: "unsafe_cfg \<Rightarrow> mem \<Rightarrow> bool" where
  "unsafe_ok u m \<longleftrightarrow>
     0 \<le> u_dictSize u \<and> 0 \<le> u_prefixSize u \<and> 0 \<le> u_decompressedSize u \<and> u_decompressedSize u < 2 ^ 31 \<and>
     region m (u_prefixStart u) (u_oend u) \<and>
     region m (u_dictStart u) (u_dictStart u + u_dictSize u) \<and>
     (u_dictSize u = 0 \<or> u_dictStart u + u_dictSize u \<le> u_ostart u \<or> u_oend u \<le> u_dictStart u)"

definition u_history :: "unsafe_cfg \<Rightarrow> mem \<Rightarrow> ptr \<Rightarrow> byte list" where
  "u_history u m op = history m (u_dictStart u) (nat (u_dictSize u)) (u_prefixStart u) op"

text \<open>A round of the loop writes between the output pointer and the end.\<close>

definition u_writes :: "unsafe_cfg \<Rightarrow> ptr \<Rightarrow> mem \<Rightarrow> mem \<Rightarrow> bool" where
  "u_writes u op m m' \<longleftrightarrow> dom m' = dom m \<and> (\<forall>x. x < op \<or> u_oend u \<le> x \<longrightarrow> m' x = m x)"

lemma unsafe_ok_writes: "unsafe_ok u m \<Longrightarrow> u_writes u op m m' \<Longrightarrow> unsafe_ok u m'"
  by (simp add: unsafe_ok_def u_writes_def region_def)

lemma u_writes_trans:
  "u_writes u op m m1 \<Longrightarrow> u_writes u op' m1 m2 \<Longrightarrow> op \<le> op' \<Longrightarrow> u_writes u op m m2"
  by (simp add: u_writes_def)

lemma u_behind:
  "unsafe_ok u m \<Longrightarrow> u_writes u op m m' \<Longrightarrow> u_ostart u \<le> op \<Longrightarrow>
     behind m m' (u_dictStart u) (nat (u_dictSize u)) op"
  by (rule behindI [where hi = "u_oend u"]) (auto simp: unsafe_ok_def u_writes_def)

lemma u_prefixStart_le: "unsafe_ok u m \<Longrightarrow> u_ostart u \<le> op \<Longrightarrow> u_prefixStart u \<le> op"
  by (simp add: unsafe_ok_def u_prefixStart_def)

text \<open>Storing bytes at the output pointer appends them to the history.\<close>

lemma u_store:
  assumes ok: "unsafe_ok u m" and op: "u_ostart u \<le> op" "op + int (length xs) \<le> u_oend u"
  shows "u_writes u op m (put m op xs)"
    and "u_history u (put m op xs) (op + int (length xs)) = u_history u m op @ xs"
proof -
  have reg: "region m op (op + int (length xs))"
    by (rule region_sub [where lo = "u_prefixStart u" and hi = "u_oend u"])
      (use ok op in \<open>auto simp: unsafe_ok_def u_prefixStart_def\<close>)
  show w: "u_writes u op m (put m op xs)"
    using dom_put [OF reg] op(2) by (simp add: u_writes_def)
  show "u_history u (put m op xs) (op + int (length xs)) = u_history u m op @ xs"
    unfolding u_history_def
    by (rule history_store [OF u_behind [OF ok w op(1)] u_prefixStart_le [OF ok op(1)]])
qed

lemma length_u_history:
  "unsafe_ok u m \<Longrightarrow> u_prefixStart u \<le> op \<Longrightarrow>
     int (length (u_history u m op)) = op - u_prefixStart u + u_dictSize u"
  by (simp add: u_history_def length_history unsafe_ok_def)

section \<open>Literals and matches\<close>

lemma unsafe_literals_copy:
  assumes ok: "unsafe_ok u m" and op: "u_ostart u \<le> op" "op + int (length l) \<le> u_oend u"
    and input: "reads m ip (lit_header (length l) @ l)" and token: "token div 16 = int (min 15 (length l))"
  shows "unsafe_literals u token (m, ip, op) =
           (let s = (put m op l, ip + int (length (lit_header (length l) @ l)), op + int (length l)) in
            if u_oend u - (op + int (length l)) < MFLIMIT
            then Some (if op + int (length l) = u_oend u then EndOfBlock else Malformed, s)
            else Some (GoOn, s))"
proof -
  have size: "u_oend u - op < 2 ^ 31" "0 \<le> u_oend u - op"
    using ok op by (auto simp: unsafe_ok_def u_oend_def)
  then have len: "length l < 2 ^ 31"
    using op(2) by simp
  define ip' where "ip' = ip + int (length (lit_header (length l)))"
  have hdr: "unsafe_length m ip (token div 16) = Some (int (length l), ip')"
    using unsafe_length_header [of m ip "length l"] input len
    by (simp add: token lit_header_def ip'_def)
  have "region m op (op + int (length l))"
    by (rule region_sub [where lo = "u_prefixStart u" and hi = "u_oend u"])
      (use ok op in \<open>auto simp: unsafe_ok_def u_prefixStart_def\<close>)
  moreover have lits: "reads m ip' l"
    using input by (simp add: ip'_def)
  ultimately have "LZ4_memmove m op ip' (length l) = Some (put m op l)"
    using LZ4_memmove_Some [OF reads_region [OF lits]] by (simp add: reads_bytes)
  with hdr size op show ?thesis
    by (simp add: unsafe_literals_def ip'_def add.assoc Let_def)
qed

text \<open>A match, in the three places it can be: behind the dictionary, inside it, or across its end.\<close>

lemma u_copy_prefix:
  assumes ok: "unsafe_ok u m" and op: "u_ostart u \<le> op" "op + int n \<le> u_oend u"
    and off: "0 < off" "int off \<le> op - u_prefixStart u"
  shows "\<exists>m'. copy_loop m op (op - int off) (op + int n) = Some m' \<and> u_writes u op m m' \<and>
           u_history u m' (op + int n) = lz_copy (u_history u m op) off n"
proof -
  have reg: "region m (u_prefixStart u) (op + int n)"
    by (rule region_sub [where lo = "u_prefixStart u" and hi = "u_oend u"])
      (use ok op in \<open>auto simp: unsafe_ok_def\<close>)
  have "\<exists>m'. copy_loop m op (op - int off) (op + int n) = Some m' \<and>
      copied m m' op (op - int off) (op + int n) (op + int n)"
    by (rule copy_loop_copied) (use reg off in \<open>auto intro: region_sub [OF reg]\<close>)
  then obtain m' where m': "copy_loop m op (op - int off) (op + int n) = Some m'"
    and c: "copied m m' op (op - int off) (op + int n) (op + int n)"
    by blast
  have mc: "match_copied m m' op (int off) (op + int n) (op + int n)"
    by (rule copied_match [OF c]) (use off in simp)
  have w: "u_writes u op m m'"
    using mc op(2) by (auto simp: match_copied_def u_writes_def)
  have "u_history u m' (op + int n) = lz_copy (u_history u m op) off n"
    unfolding u_history_def
    by (rule history_match [OF mc u_behind [OF ok w op(1)] _ reg]) (use off in simp)
  with m' w show ?thesis
    by blast
qed

lemma u_copy_dict:
  assumes ok: "unsafe_ok u m" and op: "u_ostart u \<le> op" "op + int n \<le> u_oend u"
    and off: "op - u_prefixStart u + int n \<le> int off" "int off \<le> op - u_prefixStart u + u_dictSize u"
  shows "\<exists>m'. LZ4_memmove m op (u_dictStart u + u_dictSize u - (int off - (op - u_prefixStart u))) n = Some m' \<and>
           u_writes u op m m' \<and> u_history u m' (op + int n) = lz_copy (u_history u m op) off n"
proof -
  define src where "src = u_dictStart u + u_dictSize u - (int off - (op - u_prefixStart u))"
  have bounds: "u_dictStart u \<le> src" "src + int n \<le> u_dictStart u + u_dictSize u"
    using off by (simp_all add: src_def)
  have "region m src (src + int n)"
    by (rule region_sub [where lo = "u_dictStart u" and hi = "u_dictStart u + u_dictSize u"])
      (use ok bounds in \<open>auto simp: unsafe_ok_def\<close>)
  moreover have "region m op (op + int n)"
    by (rule region_sub [where lo = "u_prefixStart u" and hi = "u_oend u"])
      (use ok op in \<open>auto simp: unsafe_ok_def u_prefixStart_def\<close>)
  ultimately have mv: "LZ4_memmove m op src n = Some (put m op (bytes m src n))"
    by (rule LZ4_memmove_Some)
  have w: "u_writes u op m (put m op (bytes m src n))"
    using u_store(1) [OF ok op(1), of "bytes m src n"] op(2) by simp
  have size: "int (nat (u_dictSize u)) = u_dictSize u"
    using ok by (simp add: unsafe_ok_def)
  have "bytes (put m op (bytes m src n)) op n = bytes m src n"
    using bytes_put_same [of m op "bytes m src n"] by simp
  then have "u_history u (put m op (bytes m src n)) (op + int n) = lz_copy (u_history u m op) off n"
    unfolding u_history_def src_def
    by (intro history_dict) (use off u_behind [OF ok w op(1)] u_prefixStart_le [OF ok op(1)] in
      \<open>simp_all add: size src_def\<close>)
  with mv w show ?thesis
    by (auto simp: src_def)
qed

lemma copy_loop_none [simp]: "copy_loop m op match op = Some m"
  by (subst copy_loop.simps) simp

lemma unsafe_copy_copies:
  assumes ok: "unsafe_ok u m" and op: "u_ostart u \<le> op" "op + int n \<le> u_oend u"
    and off: "0 < off" "int off \<le> op - u_prefixStart u + u_dictSize u"
  shows "\<exists>m'. unsafe_copy u m op (int off) (int n) = Some (m', op + int n) \<and> u_writes u op m m' \<and>
           u_history u m' (op + int n) = lz_copy (u_history u m op) off n"
proof -
  have pre: "u_prefixStart u \<le> u_ostart u"
    using ok by (simp add: unsafe_ok_def u_prefixStart_def)
  consider (prefix) "int off \<le> op - u_prefixStart u"
    | (inside) "int off > op - u_prefixStart u" "int n < int off - (op - u_prefixStart u)"
    | (across) "int off > op - u_prefixStart u" "int off - (op - u_prefixStart u) \<le> int n"
    by linarith
  then show ?thesis
  proof cases
    case prefix
    with u_copy_prefix [OF ok op off(1)] show ?thesis
      by (auto simp: unsafe_copy_def)
  next
    case inside
    with u_copy_dict [OF ok op _ off(2)] show ?thesis
      by (auto simp: unsafe_copy_def unsafe_ext_dict_def Let_def)
  next
    case across
    define k where "k = nat (int off - (op - u_prefixStart u))"
    have k: "int k = int off - (op - u_prefixStart u)" "k \<le> n"
      using across by (auto simp: k_def)
    obtain m1 where m1: "LZ4_memmove m op (u_dictStart u + u_dictSize u - (int off - (op - u_prefixStart u))) k = Some m1"
      and w1: "u_writes u op m m1" and h1: "u_history u m1 (op + int k) = lz_copy (u_history u m op) off k"
      using u_copy_dict [OF ok op(1), of k off] op(2) off(2) k by auto
    have "\<exists>m'. copy_loop m1 (op + int k) (op + int k - int off) (op + int k + int (n - k)) = Some m' \<and>
        u_writes u (op + int k) m1 m' \<and>
        u_history u m' (op + int k + int (n - k)) = lz_copy (u_history u m1 (op + int k)) off (n - k)"
      by (rule u_copy_prefix [OF unsafe_ok_writes [OF ok w1]]) (use op off k pre in auto)
    moreover have "op + int k - int off = u_prefixStart u" "op + int k + int (n - k) = op + int n"
      using k by auto
    ultimately obtain m2 where
      m2: "copy_loop m1 (op + int k) (u_prefixStart u) (op + int n) = Some m2"
      and w2: "u_writes u (op + int k) m1 m2"
      and h2: "u_history u m2 (op + int n) = lz_copy (u_history u m1 (op + int k)) off (n - k)"
      by auto
    have "unsafe_ext_dict u m op (int off) (int n) = Some (m1, op + int k, int n - int k)"
      using m1 k(2) unfolding k(1) [symmetric]
      by (simp add: unsafe_ext_dict_def Let_def flip: k(1))
    with m2 across(1) have "unsafe_copy u m op (int off) (int n) = Some (m2, op + int n)"
      by (simp add: unsafe_copy_def)
    moreover have "u_writes u op m m2"
      by (rule u_writes_trans [OF w1 w2]) simp
    moreover have "u_history u m2 (op + int n) = lz_copy (u_history u m op) off n"
      using history_across [OF h1 [unfolded u_history_def], of m2 n] h2 k(2)
      by (simp add: u_history_def)
    ultimately show ?thesis
      by blast
  qed
qed

lemma unsafe_match_copies:
  assumes ok: "unsafe_ok u m" and op: "u_ostart u \<le> op" "op + int (mc + 4) + 5 \<le> u_oend u"
    and off: "0 < off" "off < 65536" "int off \<le> op - u_prefixStart u + u_dictSize u"
    and input: "reads m ip (offset_bytes off @ match_header mc)" and token: "token mod 16 = int (min 15 mc)"
  shows "\<exists>m'. unsafe_match u token (m, ip, op) =
             Some (GoOn, m', ip + int (length (offset_bytes off @ match_header mc)), op + int (mc + 4)) \<and>
           u_writes u op m m' \<and> u_history u m' (op + int (mc + 4)) = lz_copy (u_history u m op) off (mc + 4)"
proof -
  have size: "u_oend u - op < 2 ^ 31" "0 \<le> u_oend u - op"
    using ok op by (auto simp: unsafe_ok_def u_oend_def)
  have read: "LZ4_readLE16 m ip = Some (int off)"
  proof -
    have "m ip = Some (word_of_nat (off mod 256))" "m (ip + 1) = Some (word_of_nat (off div 256))"
      using input by (simp_all add: offset_bytes_def)
    then have "load_bytes m ip 2 = Some (offset_bytes off)"
      by (auto simp: load_bytes_def mapped_def bytes_def offset_bytes_def numeral_2_eq_2)
    moreover have "int (off mod 256) + 256 * int (off div 256) = int (off mod 256 + 256 * (off div 256))"
      by (simp only: of_nat_add of_nat_mult of_nat_numeral)
    ultimately show ?thesis
      using uint_byte_of_nat [of "off mod 256"] uint_byte_of_nat [of "off div 256"] off(2)
      by (simp add: LZ4_readLE16_def LZ4_read16_def offset_bytes_def uint_le_word2 mod_mult_div_eq
          del: le_word.simps of_nat_add of_nat_mult)
  qed
  have len: "unsafe_length m (ip + 2) (token mod 16) = Some (int mc, ip + 2 + int (length (match_header mc)))"
    using unsafe_length_header [of m "ip + 2" mc] input size op(2)
    by (simp add: token match_header_def)
  obtain m' where "unsafe_copy u m op (int off) (int (mc + 4)) = Some (m', op + int (mc + 4))"
    and "u_writes u op m m'"
    and "u_history u m' (op + int (mc + 4)) = lz_copy (u_history u m op) off (mc + 4)"
    using unsafe_copy_copies [OF ok op(1) _ off(1,3), of "mc + 4"] op(2) by auto
  moreover have "unsafe_match u token (m, ip, op) =
      map_option (\<lambda>(m', op'). (if U64 (u_oend u - op') < 5 then Malformed else GoOn, m',
        ip + 2 + int (length (match_header mc)), op')) (unsafe_copy u m op (int off) (int (mc + 4)))"
    using read len size op(2) off(3) by (simp add: unsafe_match_def map_conv_bind_option comp_def case_prod_beta')
  ultimately show ?thesis
    using size op(2) by simp
qed

section \<open>Sequences and blocks\<close>

lemma uint_nibbles: "uint (t :: byte) div 16 = int (unat t div 16)" "uint (t :: byte) mod 16 = int (unat t mod 16)"
  by (simp_all add: zdiv_int zmod_int)

lemma unsafe_sequence_decodes:
  assumes ok: "unsafe_ok u m" and op: "u_ostart u \<le> op"
    and q: "seq_ok q" "0 < sq_off q" "sq_off q \<le> length (u_history u m op @ sq_lits q)"
    and room: "op + int (length (sq_lits q)) + 12 \<le> u_oend u"
      "op + int (length (sq_lits q)) + int (sq_mlen q) + 5 \<le> u_oend u"
    and input: "reads m ip (enc_seq q)" and apart: "ip + int (length (enc_seq q)) \<le> u_ostart u \<or> u_oend u \<le> ip"
  shows "\<exists>m'. unsafe_sequence u (m, ip, op) =
             Some (GoOn, m', ip + int (length (enc_seq q)), op + int (length (sq_lits q)) + int (sq_mlen q)) \<and>
           u_writes u op m m' \<and>
           u_history u m' (op + int (length (sq_lits q)) + int (sq_mlen q)) = exec_seq (u_history u m op) q"
proof -
  define l off mc where "l = sq_lits q" and "off = sq_off q" and "mc = sq_mlen q - 4"
  have mc: "sq_mlen q = mc + 4" and off: "0 < off" "off < 65536"
    using q by (auto simp: seq_ok_def mc_def off_def)
  define lh mh where "lh = lit_header (length l)" and "mh = match_header mc"
  have enc: "enc_seq q = token_byte (length l) mc # lh @ l @ offset_bytes off @ mh"
    by (simp add: enc_seq_def l_def off_def mc_def lh_def mh_def)
  define t where "t = token_byte (length l) mc"
  have nib: "uint t div 16 = int (min 15 (length l))" "uint t mod 16 = int (min 15 mc)"
    by (simp_all only: t_def uint_nibbles token_div token_mod)
  have tok: "m ip = Some t" and lits: "reads m (ip + 1) (lh @ l)"
    and rest: "reads m (ip + 1 + int (length (lh @ l))) (offset_bytes off @ mh)"
    using input by (simp_all add: enc t_def add.assoc)
  define op1 ip1 where "op1 = op + int (length l)" and "ip1 = ip + 1 + int (length (lh @ l))"
  have op1: "u_ostart u \<le> op1" "op1 + 12 \<le> u_oend u" "op1 + int (mc + 4) + 5 \<le> u_oend u"
    using op room by (simp_all add: op1_def l_def mc add.assoc)
  let ?m1 = "put m op l"
  have st: "u_writes u op m ?m1" "u_history u ?m1 op1 = u_history u m op @ l"
    using u_store [OF ok op, of l] op1 by (simp_all add: op1_def)
  have go: "unsafe_literals u (uint t) (m, ip + 1, op) = Some (GoOn, ?m1, ip1, op1)"
    using unsafe_literals_copy [OF ok op _ lits [unfolded lh_def] nib(1)] op1
    by (simp add: op1_def ip1_def lh_def)
  have "reads ?m1 ip1 (offset_bytes off @ mh) = reads m ip1 (offset_bytes off @ mh)"
  proof (rule reads_outside [where lo = "u_ostart u" and hi = "u_oend u"])
    show "?m1 x = m x" if "x < u_ostart u \<or> u_oend u \<le> x" for x
      using that op op1 by (intro put_outside) (auto simp: op1_def)
    show "ip1 + int (length (offset_bytes off @ mh)) \<le> u_ostart u \<or> u_oend u \<le> ip1"
      using apart by (auto simp: enc ip1_def)
  qed
  with rest have rest1: "reads ?m1 ip1 (offset_bytes off @ match_header mc)"
    by (simp only: ip1_def mh_def)
  have ok1: "unsafe_ok u ?m1"
    by (rule unsafe_ok_writes [OF ok st(1)])
  have "u_prefixStart u \<le> op1"
    using ok op1(1) by (simp add: unsafe_ok_def u_prefixStart_def)
  from length_u_history [OF ok1 this] q(3) st(2)
  have "int off \<le> op1 - u_prefixStart u + u_dictSize u"
    by (simp add: off_def l_def)
  from unsafe_match_copies [OF ok1 op1(1,3) off this rest1 nib(2)]
  obtain m' where m': "unsafe_match u (uint t) (?m1, ip1, op1) =
      Some (GoOn, m', ip1 + int (length (offset_bytes off @ mh)), op1 + int (mc + 4))"
    and w': "u_writes u op1 ?m1 m'"
    and h': "u_history u m' (op1 + int (mc + 4)) = lz_copy (u_history u ?m1 op1) off (mc + 4)"
    by (auto simp: mh_def)
  have "unsafe_sequence u (m, ip, op) =
      Some (GoOn, m', ip1 + int (length (offset_bytes off @ mh)), op1 + int (mc + 4))"
    using tok go m' by (simp add: unsafe_sequence_def)
  moreover have "u_writes u op m m'"
    by (rule u_writes_trans [OF st(1) w']) (simp add: op1_def)
  moreover have "lz_copy (u_history u ?m1 op1) off (mc + 4) = exec_seq (u_history u m op) q"
    unfolding st(2) by (simp add: exec_seq_def l_def off_def mc)
  ultimately show ?thesis
    using h' by (simp add: enc ip1_def op1_def l_def mc add.assoc)
qed

lemma unsafe_sequence_last:
  assumes ok: "unsafe_ok u m" and op: "u_ostart u \<le> op" "op + int (length l) = u_oend u"
    and input: "reads m ip (enc_last l)"
  shows "unsafe_sequence u (m, ip, op) = Some (EndOfBlock, put m op l, ip + int (length (enc_last l)), u_oend u)"
proof -
  define t where "t = token_byte (length l) 0"
  have nib: "uint t div 16 = int (min 15 (length l))"
    by (simp only: t_def uint_nibbles token_div)
  have tok: "m ip = Some t" and lits: "reads m (ip + 1) (lit_header (length l) @ l)"
    using input by (simp_all add: enc_last_def t_def)
  from unsafe_literals_copy [OF ok op(1) _ lits nib] op(2) tok show ?thesis
    by (simp add: unsafe_sequence_def enc_last_def add.assoc)
qed

text \<open>A block is decoded sequence by sequence.\<close>

lemma unsafe_loop_block:
  assumes "unsafe_ok u m" and "u_ostart u \<le> op"
    and "list_all seq_ok qs" and "list_all (\<lambda>q. 0 < sq_off q) qs"
    and "offsets_ok (u_history u m op) qs" and "end_ok (u_history u m op) qs n"
    and "length (exec_seqs (u_history u m op) qs @ l) = n"
    and "int n = int (length (u_history u m op)) + (u_oend u - op)"
    and "reads m ip (enc_block qs l)"
    and "ip + int (length (enc_block qs l)) \<le> u_ostart u \<or> u_oend u \<le> ip"
  shows "\<exists>m'. unsafe_loop u (m, ip, op) = Some (S32 (ip + int (length (enc_block qs l)) - u_istart u), m') \<and>
           u_writes u op m m' \<and> u_history u m' (u_oend u) = exec_seqs (u_history u m op) qs @ l"
  using assms
proof (induction qs arbitrary: m ip op)
  case Nil
  then have "op + int (length l) = u_oend u"
    by simp
  with Nil unsafe_sequence_last [of u m op l ip] u_store [of u m op l] show ?case
    by (subst unsafe_loop.simps) (simp add: enc_block_def)
next
  case (Cons q qs)
  define op1 ip1 where "op1 = op + int (length (sq_lits q)) + int (sq_mlen q)"
    and "ip1 = ip + int (length (enc_seq q))"
  have len: "length (exec_seq (u_history u m op) q) = length (u_history u m op) + length (sq_lits q) + sq_mlen q"
    by simp
  have room: "op + int (length (sq_lits q)) + 12 \<le> u_oend u" "op1 + 5 \<le> u_oend u"
    using Cons.prems(6,8) by (auto simp: op1_def)
  have input: "reads m ip (enc_seq q)" "reads m ip1 (enc_block qs l)"
    and size: "length (enc_block (q # qs) l) = length (enc_seq q) + length (enc_block qs l)"
    using Cons.prems(9) by (simp_all add: enc_block_def ip1_def)
  obtain m1 where m1: "unsafe_sequence u (m, ip, op) = Some (GoOn, m1, ip1, op1)"
    and w1: "u_writes u op m m1" and h1: "u_history u m1 op1 = exec_seq (u_history u m op) q"
  proof -
    have "ip + int (length (enc_seq q)) \<le> u_ostart u \<or> u_oend u \<le> ip"
      using Cons.prems(10) size by linarith
    from unsafe_sequence_decodes [OF Cons.prems(1,2) _ _ _ room(1) room(2) [unfolded op1_def] input(1) this]
      Cons.prems(3-5) that show ?thesis
      by (simp add: op1_def ip1_def) blast
  qed
  have "\<exists>m'. unsafe_loop u (m1, ip1, op1) = Some (S32 (ip1 + int (length (enc_block qs l)) - u_istart u), m') \<and>
      u_writes u op1 m1 m' \<and> u_history u m' (u_oend u) = exec_seqs (u_history u m1 op1) qs @ l"
  proof (rule Cons.IH)
    show "unsafe_ok u m1"
      by (rule unsafe_ok_writes [OF Cons.prems(1) w1])
    show "u_ostart u \<le> op1"
      using Cons.prems(2) by (simp add: op1_def)
    show "int n = int (length (u_history u m1 op1)) + (u_oend u - op1)"
      using Cons.prems(8) len unfolding h1 by (simp add: op1_def)
    have "reads m1 ip1 (enc_block qs l) = reads m ip1 (enc_block qs l)"
      by (rule reads_outside [where lo = "u_ostart u" and hi = "u_oend u"])
        (use w1 Cons.prems(2,10) size in \<open>auto simp: u_writes_def ip1_def\<close>)
    with input show "reads m1 ip1 (enc_block qs l)"
      by simp
    show "ip1 + int (length (enc_block qs l)) \<le> u_ostart u \<or> u_oend u \<le> ip1"
      using Cons.prems(10) size by (auto simp: ip1_def)
  qed (use Cons.prems(3-7) h1 in simp_all)
  then obtain m2 where m2: "unsafe_loop u (m1, ip1, op1) = Some (S32 (ip1 + int (length (enc_block qs l)) - u_istart u), m2)"
    and w2: "u_writes u op1 m1 m2" and h2: "u_history u m2 (u_oend u) = exec_seqs (u_history u m1 op1) qs @ l"
    by blast
  have "unsafe_loop u (m, ip, op) = unsafe_loop u (m1, ip1, op1)"
    by (subst unsafe_loop.simps) (simp add: m1)
  moreover have "u_writes u op m m2"
    by (rule u_writes_trans [OF w1 w2]) (simp add: op1_def)
  ultimately show ?case
    using m2 h2 size by (simp add: h1 ip1_def add.assoc)
qed

section \<open>The function and its entry points\<close>

text \<open>The content of the output buffer is the part of the history behind the old one.\<close>

lemma LZ4_decompress_unsafe_generic_complete:
  fixes m :: mem and source dest dictStart :: ptr and cap pre dsz n :: int and content :: "byte list"
  defines "u \<equiv> \<lparr>u_istart = source, u_ostart = dest, u_decompressedSize = cap, u_prefixSize = pre,
                u_dictStart = dictStart, u_dictSize = dsz\<rparr>"
  assumes ok: "unsafe_ok u m"
    and legal: "legal_after (u_history u m dest) (bytes m source (nat n)) content"
    and len: "int (length content) = cap" and n: "0 \<le> n" "n < 2 ^ 31" and input: "mapped m source (nat n)"
    and apart: "source + n \<le> dest \<or> dest + cap \<le> source"
  shows "\<exists>m'. LZ4_decompress_unsafe_generic m source dest cap pre dictStart dsz = Some (n, m') \<and>
           bytes m' dest (length content) = content \<and> only_changed dest cap m m'"
proof -
  obtain qs l where block: "bytes m source (nat n) = enc_block qs l" "list_all seq_ok qs"
      "list_all (\<lambda>q. 0 < sq_off q) qs" "offsets_ok (u_history u m dest) qs"
      "end_ok (u_history u m dest) qs (length (u_history u m dest @ content))"
    and all: "exec_seqs (u_history u m dest) qs @ l = u_history u m dest @ content"
    using legal by (auto simp: legal_after_def)
  have size: "length (enc_block qs l) = nat n"
    using length_bytes [of m source "nat n"] by (simp only: block(1))
  have sel: "u_istart u = source" "u_ostart u = dest" and oend: "u_oend u = dest + cap"
    by (simp_all add: u_def u_oend_def)
  have reads: "reads m source (enc_block qs l)"
    using input size by (simp add: reads_iff block(1) [symmetric] mapped_region)
  have total: "length (exec_seqs (u_history u m dest) qs @ l) = length (u_history u m dest @ content)"
    by (simp only: all)
  have "\<exists>m'. unsafe_loop u (m, source, dest) = Some (S32 (source + int (length (enc_block qs l)) - u_istart u), m') \<and>
      u_writes u dest m m' \<and> u_history u m' (u_oend u) = exec_seqs (u_history u m dest) qs @ l"
    by (rule unsafe_loop_block [OF ok _ block(2-5) total _ reads])
      (use size n apart len in \<open>simp_all add: sel oend\<close>)
  then obtain m' where run: "unsafe_loop u (m, source, dest) = Some (S32 (source + int (length (enc_block qs l)) - u_istart u), m')"
    and w: "u_writes u dest m m'" and h: "u_history u m' (u_oend u) = exec_seqs (u_history u m dest) qs @ l"
    by blast
  have "u_history u m' (dest + cap) = u_history u m' dest @ bytes m' dest (nat cap)"
    using history_add [OF u_prefixStart_le [OF ok], of dest m' _ _ "nat cap"] len
    by (simp add: u_history_def sel)
  moreover have "length (u_history u m' dest) = length (u_history u m dest)"
    by (simp add: u_history_def history_def)
  ultimately have "bytes m' dest (nat cap) = content"
    using h all by (simp add: oend)
  moreover have "LZ4_decompress_unsafe_generic m source dest cap pre dictStart dsz = Some (n, m')"
    using run size n by (simp add: sel LZ4_decompress_unsafe_generic_def flip: u_def)
  ultimately show ?thesis
    using w len by (auto simp: u_writes_def only_changed_def oend)
qed

text \<open>The buffers of a call with a dictionary: allocated, and the output apart from the two inputs.\<close>

definition fast_args :: "mem \<Rightarrow> ptr \<Rightarrow> int \<Rightarrow> ptr \<Rightarrow> int \<Rightarrow> ptr \<Rightarrow> int \<Rightarrow> bool" where
  "fast_args m source n dest cap dictStart dsz \<longleftrightarrow>
     0 \<le> n \<and> n < 2 ^ 31 \<and> 0 \<le> cap \<and> cap < 2 ^ 31 \<and> 0 \<le> dsz \<and> dsz < 2 ^ 31 \<and>
     mapped m source (nat n) \<and> mapped m dest (nat cap) \<and> mapped m dictStart (nat dsz) \<and>
     (source + n \<le> dest \<or> dest + cap \<le> source) \<and>
     (dictStart + dsz \<le> dest \<or> dest + cap \<le> dictStart)"

text \<open>C39: The unchecked decoder decodes every legal block whose content has exactly the given size,
  after a dictionary that lies in front of the output or anywhere else, and returns the size
  of the block: it finds the end of its input by the size of its output.\<close>

theorem LZ4_decompress_fast_usingDict_complete:
  assumes "fast_args m source n dest cap dictStart dsz"
    and "legal_after (bytes m dictStart (nat dsz)) (bytes m source (nat n)) content"
    and "int (length content) = cap"
  shows "\<exists>m'. LZ4_decompress_fast_usingDict m source dest cap dictStart dsz = Some (n, m') \<and>
           bytes m' dest (length content) = content \<and> only_changed dest cap m m'"
proof -
  have args: "0 \<le> n" "n < 2 ^ 31" "0 \<le> cap" "cap < 2 ^ 31" "0 \<le> dsz" "dsz < 2 ^ 31"
      "mapped m source (nat n)" "source + n \<le> dest \<or> dest + cap \<le> source"
      "dictStart + dsz \<le> dest \<or> dest + cap \<le> dictStart"
    and out: "region m dest (dest + cap)" and dict: "region m dictStart (dictStart + dsz)"
    using assms(1) by (auto simp: fast_args_def mapped_region)
  note complete = LZ4_decompress_unsafe_generic_complete [where m = m and source = source and dest = dest
      and cap = cap and n = n and content = content, OF _ _ assms(3) args(1,2,7,8)]
  show ?thesis
  proof (cases "dsz = 0 \<or> dictStart + dsz = dest")
    case True
    have start: "dsz \<noteq> 0 \<Longrightarrow> dest - dsz = dictStart"
      using True by auto
    have dict_bytes: "bytes m (dest - dsz) (nat dsz) = bytes m dictStart (nat dsz)"
      using start by (cases "dsz = 0") simp_all
    have "region m (dest - dsz) (dest + cap)"
      unfolding region_def
    proof (intro allI impI)
      fix x
      assume x: "dest - dsz \<le> x \<and> x < dest + cap"
      show "x \<in> dom m"
        using x start out dict by (cases "x < dest") (auto simp: region_def)
    qed
    then have "\<exists>m'. LZ4_decompress_unsafe_generic m source dest cap dsz NULL 0 = Some (n, m') \<and>
        bytes m' dest (length content) = content \<and> only_changed dest cap m m'"
      using args assms(2) dict_bytes
      by (intro complete) (auto simp: unsafe_ok_def u_prefixStart_def u_oend_def u_history_def history_def region_def)
    with True args show ?thesis
      by (simp add: LZ4_decompress_fast_usingDict_def)
  next
    case False
    have "\<exists>m'. LZ4_decompress_unsafe_generic m source dest cap 0 dictStart dsz = Some (n, m') \<and>
        bytes m' dest (length content) = content \<and> only_changed dest cap m m'"
      using args assms(2) out dict
      by (intro complete) (auto simp: unsafe_ok_def u_prefixStart_def u_oend_def u_history_def history_def)
    with False args show ?thesis
      by (simp add: LZ4_decompress_fast_usingDict_def LZ4_decompress_fast_extDict_def)
  qed
qed

theorem LZ4_decompress_fast_usingDict_complete_witness:
  "\<exists>m'. LZ4_decompress_fast_usingDict dict_mem 16 68 13 64 4 = Some (9, m') \<and>
     bytes m' 68 (length dict_out) = dict_out \<and> only_changed 68 13 dict_mem m'"
proof (rule LZ4_decompress_fast_usingDict_complete)
  show "fast_args dict_mem 16 9 68 13 64 4"
    by (auto simp: fast_args_def mapped_region region_def two_buffers_def put_apply)
  show "legal_after (bytes dict_mem 64 (nat 4)) (bytes dict_mem 16 (nat 9)) dict_out"
    by (rule dict_mem_facts(4))
qed simp

end
