(* ===== verification/Lz4_Stream.thy ===== *)
theory Lz4_Stream
  imports Lz4_Compress
begin

text \<open>
  The streaming compression functions of src/lz4.c. They work on the state \<open>lz4_ctx\<close> of the
  hash-table theory, which holds the positions of the data compressed so far: a dictionary is
  loaded into it or attached to it, \<open>LZ4_compress_fast_continue\<close> compresses a block against the
  data it describes, \<open>LZ4_renormDictT\<close> keeps its positions within 31 bits, and
  \<open>LZ4_saveDict\<close> moves the data it describes to a buffer of the caller.

  A state that is attached as a dictionary is a value here; include/lz4.h requires that it was made
  by \<open>LZ4_loadDict\<close>, has no dictionary attached itself and is not modified while it is in use.
\<close>

section \<open>Creating and resetting\<close>

text \<open>The allocation functions take the address the allocator returned and work on the map from
  addresses to the states there.\<close>

definition LZ4_createStream :: "(ptr \<rightharpoonup> lz4_ctx) \<Rightarrow> ptr \<Rightarrow> ptr \<times> (ptr \<rightharpoonup> lz4_ctx)" where
  "LZ4_createStream heap p =
     (if p = NULL then (NULL, heap)
      else (p, case LZ4_initStream p sizeof_LZ4_stream_t of
                 None \<Rightarrow> heap | Some ctx \<Rightarrow> heap(p \<mapsto> ctx)))"

definition LZ4_freeStream :: "(ptr \<rightharpoonup> lz4_ctx) \<Rightarrow> ptr \<Rightarrow> int \<times> (ptr \<rightharpoonup> lz4_ctx)" where
  "LZ4_freeStream heap p = (if p = NULL then (0, heap) else (0, heap(p := None)))"

definition LZ4_sizeofStreamState :: int where
  "LZ4_sizeofStreamState = sizeof_LZ4_stream_t"

definition LZ4_resetStreamState :: "lz4_ctx \<Rightarrow> ptr \<Rightarrow> int \<times> lz4_ctx" where
  "LZ4_resetStreamState ctx inputBuffer = (0, LZ4_resetStream ctx)"

definition LZ4_create :: "(ptr \<rightharpoonup> lz4_ctx) \<Rightarrow> ptr \<Rightarrow> ptr \<Rightarrow> ptr \<times> (ptr \<rightharpoonup> lz4_ctx)" where
  "LZ4_create heap inputBuffer p = LZ4_createStream heap p"

definition LZ4_slideInputBuffer :: "lz4_ctx \<Rightarrow> ptr" where
  "LZ4_slideInputBuffer ctx = dictionary ctx"

section \<open>Dictionaries\<close>

datatype LoadDict_mode_e = ld_fast | ld_slow

abbreviation HASH_UNIT :: int where "HASH_UNIT \<equiv> 8"

text \<open>Entering every third position; a later one replaces an earlier one.\<close>

function load_positions :: "mem \<Rightarrow> ptr \<Rightarrow> ptr \<Rightarrow> int \<Rightarrow> lz4_ctx \<Rightarrow> lz4_ctx option" where
  "load_positions m p dictEnd idx32 ctx =
     (if p \<le> dictEnd - HASH_UNIT then
        do { h \<leftarrow> LZ4_hashPosition m p byU32;
             ctx \<leftarrow> LZ4_putIndexOnHash idx32 h ctx byU32;
             load_positions m (p + 3) dictEnd (U32 (idx32 + 3)) ctx }
      else Some ctx)"
  by pat_completeness auto
termination
  by (relation "measure (\<lambda>(m, p, e, i, c). nat (e - p))") auto

declare load_positions.simps [simp del]

text \<open>Entering the other positions where the table has no entry in the window.\<close>

function fill_positions :: "mem \<Rightarrow> ptr \<Rightarrow> ptr \<Rightarrow> int \<Rightarrow> lz4_ctx \<Rightarrow> lz4_ctx option" where
  "fill_positions m p dictEnd idx32 ctx =
     (if p \<le> dictEnd - HASH_UNIT then
        do { h \<leftarrow> LZ4_hashPosition m p byU32;
             let limit = U32 (currentOffset ctx - 64 * KB);
             i \<leftarrow> LZ4_getIndexOnHash h ctx byU32;
             ctx \<leftarrow> (if i \<le> limit then LZ4_putIndexOnHash idx32 h ctx byU32 else Some ctx);
             fill_positions m (p + 1) dictEnd (U32 (idx32 + 1)) ctx }
      else Some ctx)"
  by pat_completeness auto
termination
  by (relation "measure (\<lambda>(m, p, e, i, c). nat (e - p))") auto

declare fill_positions.simps [simp del]

definition LZ4_loadDict_internal ::
  "mem \<Rightarrow> lz4_ctx \<Rightarrow> ptr \<Rightarrow> int \<Rightarrow> LoadDict_mode_e \<Rightarrow> (int \<times> lz4_ctx) option" where
  "LZ4_loadDict_internal m ctx dict size_d ld =
     (let dictEnd = dict + size_d;
          ctx = LZ4_resetStream ctx;
          ctx = ctx\<lparr>currentOffset := U32 (currentOffset ctx + 64 * KB)\<rparr>
      in if size_d < HASH_UNIT then Some (0, ctx)
         else
           let p = (if dictEnd - dict > 64 * KB then dictEnd - 64 * KB else dict);
               ctx = ctx\<lparr>dictionary := p, dictSize := U32 (dictEnd - p), tableType := byU32\<rparr>;
               idx32 = U32 (currentOffset ctx - dictSize ctx)
           in do { ctx \<leftarrow> load_positions m p dictEnd idx32 ctx;
                   ctx \<leftarrow> (if ld = ld_slow
                          then fill_positions m (dictionary ctx) dictEnd
                                 (U32 (currentOffset ctx - dictSize ctx)) ctx
                          else Some ctx);
                   Some (dictSize ctx, ctx) })"

definition LZ4_loadDict :: "mem \<Rightarrow> lz4_ctx \<Rightarrow> ptr \<Rightarrow> int \<Rightarrow> (int \<times> lz4_ctx) option" where
  "LZ4_loadDict m ctx dict size_d = LZ4_loadDict_internal m ctx dict size_d ld_fast"

definition LZ4_loadDictSlow :: "mem \<Rightarrow> lz4_ctx \<Rightarrow> ptr \<Rightarrow> int \<Rightarrow> (int \<times> lz4_ctx) option" where
  "LZ4_loadDictSlow m ctx dict size_d = LZ4_loadDict_internal m ctx dict size_d ld_slow"

definition LZ4_attach_dictionary :: "lz4_ctx \<Rightarrow> lz4_ctx option \<Rightarrow> lz4_ctx" where
  "LZ4_attach_dictionary working dictionaryStream =
     (case dictionaryStream of
        None \<Rightarrow> working\<lparr>dictCtx := None\<rparr>
      | Some d \<Rightarrow>
          let working = (if currentOffset working = 0 then working\<lparr>currentOffset := 64 * KB\<rparr> else working)
          in working\<lparr>dictCtx := (if dictSize d = 0 then None else Some (lz4_tab.truncate d))\<rparr>)"

text \<open>The end of the data is moved to the buffer, which may overlap it, and the state describes the buffer from
  then on.\<close>

definition LZ4_saveDict :: "mem \<Rightarrow> lz4_ctx \<Rightarrow> ptr \<Rightarrow> int \<Rightarrow> (int \<times> lz4_ctx \<times> mem) option" where
  "LZ4_saveDict m ctx safeBuffer size_d =
     (let size_d = (if U32 size_d > 64 * KB then 64 * KB else size_d);
          size_d = (if U32 size_d > dictSize ctx then dictSize ctx else size_d)
      in do { m \<leftarrow> (if size_d > 0
                   then LZ4_memmove m safeBuffer (dictionary ctx + dictSize ctx - size_d) (nat size_d)
                   else Some m);
              Some (size_d, ctx\<lparr>dictionary := safeBuffer, dictSize := U32 size_d\<rparr>, m) })"

section \<open>Compressing the next block\<close>

definition LZ4_renormDictT :: "lz4_ctx \<Rightarrow> int \<Rightarrow> lz4_ctx" where
  "LZ4_renormDictT ctx nextSize =
     (if U32 (currentOffset ctx + U32 nextSize) > 0x80000000 then
        let delta = U32 (currentOffset ctx - 64 * KB);
            dictEnd = dictionary ctx + dictSize ctx;
            ctx = ctx\<lparr>hashTable := map (\<lambda>e. if e < delta then 0 else e - delta) (hashTable ctx),
                      currentOffset := 64 * KB\<rparr>;
            ctx = (if dictSize ctx > 64 * KB then ctx\<lparr>dictSize := 64 * KB\<rparr> else ctx)
        in ctx\<lparr>dictionary := dictEnd - dictSize ctx\<rparr>
      else ctx)"

text \<open>The two adjustments of the dictionary at the start of \<open>LZ4_compress_fast_continue\<close>: a tiny
  dictionary elsewhere is dropped, and one that the new input overwrites is shortened.\<close>

definition drop_tiny_dict :: "lz4_ctx \<Rightarrow> ptr \<Rightarrow> ptr \<Rightarrow> int \<Rightarrow> lz4_ctx \<times> ptr" where
  "drop_tiny_dict ctx dictEnd source inputSize =
     (if dictSize ctx < 4 \<and> dictEnd \<noteq> source \<and> inputSize > 0 \<and> dictCtx ctx = None
      then (ctx\<lparr>dictSize := 0, dictionary := source\<rparr>, source) else (ctx, dictEnd))"

definition shorten_dict :: "lz4_ctx \<Rightarrow> ptr \<Rightarrow> ptr \<Rightarrow> lz4_ctx" where
  "shorten_dict ctx dictEnd sourceEnd =
     (if sourceEnd > dictionary ctx \<and> sourceEnd < dictEnd then
        let ctx = ctx\<lparr>dictSize := U32 (dictEnd - sourceEnd)\<rparr>;
            ctx = (if dictSize ctx > 64 * KB then ctx\<lparr>dictSize := 64 * KB\<rparr> else ctx);
            ctx = (if dictSize ctx < 4 then ctx\<lparr>dictSize := 0\<rparr> else ctx)
        in ctx\<lparr>dictionary := dictEnd - dictSize ctx\<rparr>
      else ctx)"

definition dict_issue :: "lz4_ctx \<Rightarrow> dictIssue_directive" where
  "dict_issue ctx =
     (if dictSize ctx < 64 * KB \<and> dictSize ctx < currentOffset ctx then dictSmall else noDictIssue)"

definition LZ4_compress_fast_continue ::
  "mem \<Rightarrow> lz4_ctx \<Rightarrow> ptr \<Rightarrow> ptr \<Rightarrow> int \<Rightarrow> int \<Rightarrow> int \<Rightarrow> enc_result option" where
  "LZ4_compress_fast_continue m ctx source dest inputSize maxOutputSize acceleration =
     (let dictEnd = (if dictSize ctx \<noteq> 0 then dictionary ctx + dictSize ctx else NULL);
          ctx = LZ4_renormDictT ctx inputSize;
          acceleration = clamp_acceleration acceleration;
          (ctx, dictEnd) = drop_tiny_dict ctx dictEnd source inputSize;
          ctx = shorten_dict ctx dictEnd (source + inputSize)
      in if dictEnd = source then
           LZ4_compress_generic m ctx source dest inputSize maxOutputSize limitedOutput byU32
             withPrefix64k (dict_issue ctx) acceleration
         else
           do { (r, consumed, ctx, m) \<leftarrow>
                  (case dictCtx ctx of
                     Some d \<Rightarrow>
                       if inputSize > 4 * KB then
                         LZ4_compress_generic m (lz4_tab.extend d \<lparr>dictCtx = None\<rparr>) source dest inputSize
                           maxOutputSize limitedOutput byU32 usingExtDict noDictIssue acceleration
                       else
                         LZ4_compress_generic m ctx source dest inputSize maxOutputSize limitedOutput byU32
                           usingDictCtx noDictIssue acceleration
                   | None \<Rightarrow>
                       LZ4_compress_generic m ctx source dest inputSize maxOutputSize limitedOutput byU32
                         usingExtDict (dict_issue ctx) acceleration);
                Some (r, consumed, ctx\<lparr>dictionary := source, dictSize := U32 inputSize\<rparr>, m) })"

definition LZ4_compress_forceExtDict ::
  "mem \<Rightarrow> lz4_ctx \<Rightarrow> ptr \<Rightarrow> ptr \<Rightarrow> int \<Rightarrow> enc_result option" where
  "LZ4_compress_forceExtDict m ctx source dest srcSize =
     (let ctx = LZ4_renormDictT ctx srcSize
      in do { (r, consumed, ctx, m) \<leftarrow>
                LZ4_compress_generic m ctx source dest srcSize 0 notLimited byU32 usingExtDict
                  (dict_issue ctx) 1;
              Some (r, consumed, ctx\<lparr>dictionary := source, dictSize := U32 srcSize\<rparr>, m) })"

section \<open>The obsolete names\<close>

definition LZ4_compress_limitedOutput_withState ::
  "mem \<Rightarrow> ptr \<Rightarrow> ptr \<Rightarrow> ptr \<Rightarrow> int \<Rightarrow> int \<Rightarrow> enc_result option" where
  "LZ4_compress_limitedOutput_withState m state src dst srcSize dstSize =
     LZ4_compress_fast_extState m state src dst srcSize dstSize 1"

definition LZ4_compress_withState :: "mem \<Rightarrow> ptr \<Rightarrow> ptr \<Rightarrow> ptr \<Rightarrow> int \<Rightarrow> enc_result option" where
  "LZ4_compress_withState m state src dst srcSize =
     LZ4_compress_fast_extState m state src dst srcSize (LZ4_compressBound srcSize) 1"

definition LZ4_compress_limitedOutput_continue ::
  "mem \<Rightarrow> lz4_ctx \<Rightarrow> ptr \<Rightarrow> ptr \<Rightarrow> int \<Rightarrow> int \<Rightarrow> enc_result option" where
  "LZ4_compress_limitedOutput_continue m ctx src dst srcSize dstCapacity =
     LZ4_compress_fast_continue m ctx src dst srcSize dstCapacity 1"

definition LZ4_compress_continue ::
  "mem \<Rightarrow> lz4_ctx \<Rightarrow> ptr \<Rightarrow> ptr \<Rightarrow> int \<Rightarrow> enc_result option" where
  "LZ4_compress_continue m ctx source dest inputSize =
     LZ4_compress_fast_continue m ctx source dest inputSize (LZ4_compressBound inputSize) 1"

end
