(* ===== verification/Lz4_Emit.thy ===== *)
theory Lz4_Emit
  imports Lz4_Compress Lz4_Format
begin

text \<open>
  The writing primitives of the encoder and what they leave in the output: the length bytes,
  the header of a run of literals, the literals themselves, the offset and the code of a match
  are the encodings of the block format.
\<close>

section \<open>The law of a write\<close>

text \<open>The bytes are written from \<open>p\<close> on, and nothing is changed in front of \<open>p\<close> or from \<open>hi\<close> on.\<close>

definition emitted :: "mem \<Rightarrow> mem \<Rightarrow> ptr \<Rightarrow> byte list \<Rightarrow> ptr \<Rightarrow> bool" where
  "emitted m m' p bs hi \<longleftrightarrow>
     dom m' = dom m \<and> bytes m' p (length bs) = bs \<and> (\<forall>x. x < p \<or> hi \<le> x \<longrightarrow> m' x = m x)"

lemma emitted_dom: "emitted m m' p bs hi \<Longrightarrow> dom m' = dom m"
  by (simp add: emitted_def)

lemma emitted_bytes: "emitted m m' p bs hi \<Longrightarrow> bytes m' p (length bs) = bs"
  by (simp add: emitted_def)

lemma emitted_frame: "emitted m m' p bs hi \<Longrightarrow> x < p \<or> hi \<le> x \<Longrightarrow> m' x = m x"
  by (auto simp: emitted_def)

lemma emitted_region: "emitted m m' p bs hi \<Longrightarrow> region m' a b = region m a b"
  by (rule region_dom) (rule emitted_dom)

lemma emitted_widen: "emitted m m' p bs hi \<Longrightarrow> hi \<le> hi' \<Longrightarrow> emitted m m' p bs hi'"
  by (auto simp: emitted_def)

lemma emitted_nil: "emitted m m p [] hi"
  by (simp add: emitted_def)

lemma emitted_trans:
  assumes a: "emitted m m1 p xs hi" and b: "emitted m1 m2 (p + int (length xs)) ys hi"
  shows "emitted m m2 p (xs @ ys) hi"
proof -
  have "bytes m2 p (length xs) = bytes m1 p (length xs)"
    by (rule bytes_cong) (use emitted_frame [OF b] in auto)
  then show ?thesis
    using a b by (auto simp: emitted_def bytes_add)
qed

text \<open>What lies in front of the write is kept.\<close>

lemma emitted_before:
  "emitted m m' p bs hi \<Longrightarrow> a + int n \<le> p \<Longrightarrow> bytes m' a n = bytes m a n"
  by (rule bytes_cong, rule emitted_frame) auto

lemma store_bytes_emitted:
  assumes "region m p (p + int (length bs))"
  shows "\<exists>m'. store_bytes m p bs = Some m' \<and> emitted m m' p bs (p + int (length bs))"
  using store_bytes_Some [OF assms] dom_put [OF assms] by (auto simp: emitted_def put_apply)

section \<open>Lengths\<close>

lemma put_len_emitted:
  assumes "region m p (p + int (length (ext_len n)))"
  shows "\<exists>m'. put_len m p (int n) = Some (m', p + int (length (ext_len n))) \<and>
           emitted m m' p (ext_len n) (p + int (length (ext_len n)))"
  using assms
proof (induction n arbitrary: m p rule: ext_len.induct)
  case (1 n)
  show ?case
  proof (cases "n < 255")
    case True
    then have len: "ext_len n = [word_of_nat n]"
      by (rule ext_len_small)
    obtain m' where "store_bytes m p [word_of_nat n] = Some m'" "emitted m m' p [word_of_nat n] (p + 1)"
      using store_bytes_emitted [of m p "[word_of_nat n]"] "1.prems" by (auto simp: len)
    then show ?thesis
      using True by (subst put_len.simps) (simp add: len)
  next
    case False
    then have len: "ext_len n = 255 # ext_len (n - 255)"
      by (simp add: ext_len_large)
    let ?hi = "p + int (length (ext_len n))"
    have "region m p (p + int (length [255 :: byte]))"
      by (rule region_sub [OF "1.prems"]) (simp_all add: len)
    from store_bytes_emitted [OF this] obtain m1 where m1: "store_bytes m p [255] = Some m1"
      and e1: "emitted m m1 p [255] (p + 1)"
      by auto
    have "region m1 (p + 1) (p + 1 + int (length (ext_len (n - 255))))"
      unfolding emitted_region [OF e1] by (rule region_sub [OF "1.prems"]) (simp_all add: len)
    from "1.IH" [OF False this] obtain m' where
      m': "put_len m1 (p + 1) (int (n - 255)) = Some (m', p + 1 + int (length (ext_len (n - 255))))"
      and e2: "emitted m1 m' (p + 1) (ext_len (n - 255)) (p + 1 + int (length (ext_len (n - 255))))"
      by blast
    have "emitted m m' p ([255] @ ext_len (n - 255)) ?hi"
      by (rule emitted_trans [OF emitted_widen [OF e1]])
        (use emitted_widen [OF e2, of ?hi] in \<open>simp_all add: len\<close>)
    then show ?thesis
      using False m1 m' by (subst put_len.simps) (simp add: len of_nat_diff)
  qed
qed

lemma put_lit_header_emitted:
  assumes "region m p (p + 1 + int (length (lit_header ll)))"
  shows "\<exists>m'. put_lit_header m p (p + 1) (int ll) = Some (m', p + 1 + int (length (lit_header ll))) \<and>
           emitted m m' p (token_byte ll 0 # lit_header ll) (p + 1 + int (length (lit_header ll)))"
proof -
  let ?hi = "p + 1 + int (length (lit_header ll))"
  have tok: "token_byte ll 0 = word_of_int (int (min 15 ll) * 16)"
    by (simp add: token_byte_def)
  have "region m p (p + int (length [token_byte ll 0]))"
    by (rule region_sub [OF assms]) simp_all
  from store_bytes_emitted [OF this] obtain m1 where
    m1: "store_bytes m p [token_byte ll 0] = Some m1" and e1: "emitted m m1 p [token_byte ll 0] (p + 1)"
    by auto
  show ?thesis
  proof (cases "15 \<le> ll")
    case False
    with m1 e1 tok show ?thesis
      by (simp add: put_lit_header_def lit_header_def min_def)
  next
    case True
    have "region m1 (p + 1) (p + 1 + int (length (ext_len (ll - 15))))"
      unfolding emitted_region [OF e1]
      by (rule region_sub [OF assms]) (use True in \<open>simp_all add: lit_header_def\<close>)
    from put_len_emitted [OF this] obtain m' where
      m': "put_len m1 (p + 1) (int (ll - 15)) = Some (m', ?hi)"
      and e2: "emitted m1 m' (p + 1) (ext_len (ll - 15)) ?hi"
      using True by (auto simp: lit_header_def)
    have "emitted m m' p ([token_byte ll 0] @ ext_len (ll - 15)) ?hi"
      by (rule emitted_trans [OF emitted_widen [OF e1]]) (use e2 in simp_all)
    then show ?thesis
      using True m1 m' tok by (simp add: put_lit_header_def lit_header_def min_def of_nat_diff)
  qed
qed

section \<open>Literals and offset\<close>

lemma copied_emitted:
  assumes "copied m m' d s (d + int n) hi" and "region m s (s + int n)" and "s + int n \<le> d \<or> hi \<le> s"
  shows "emitted m m' d (bytes m s n) hi"
proof -
  have "bytes m' d n = bytes m s n"
  proof (rule nth_equalityI)
    fix i
    assume "i < length (bytes m' d n)"
    then have i: "i < n" by simp
    have "m' (d + int i) = m' (s + int i)"
      using copied_at [OF assms(1), of "d + int i"] i by simp
    also have "\<dots> = m (s + int i)"
      by (rule copied_frame [OF assms(1)]) (use assms(3) i in auto)
    finally show "bytes m' d n ! i = bytes m s n ! i"
      using i by simp
  qed simp
  then show ?thesis
    using copied_dom [OF assms(1)] copied_frame [OF assms(1)] by (auto simp: emitted_def)
qed

text \<open>\<open>LZ4_wildCopy8\<close> of literals writes at most seven bytes too many, eight if there are none.\<close>

lemma literals_emitted:
  assumes "region m s (s + int n + 8)" and "region m d hi" and "d + int n + 7 \<le> hi" and "d + 8 \<le> hi"
    and "hi \<le> d + int n + 8" and "s + int n + 8 \<le> d \<or> hi \<le> s"
  shows "\<exists>m'. LZ4_wildCopy8 m d s (d + int n) = Some m' \<and> emitted m m' d (bytes m s n) hi"
proof -
  have "\<exists>m'. LZ4_wildCopy8 m d s (d + int n) = Some m' \<and> copied m m' d s (d + int n) hi"
  proof (rule LZ4_wildCopy8_copied)
    show "region m s (s + (hi - d))"
      by (rule region_sub [OF assms(1)]) (use assms in auto)
  qed (use assms in auto)
  moreover have "region m s (s + int n)"
    by (rule region_sub [OF assms(1)]) simp_all
  ultimately show ?thesis
    using copied_emitted assms(6) by fastforce
qed

lemma writeLE16_emitted:
  assumes "region m p (p + 2)" and "off < 65536"
  shows "\<exists>m'. LZ4_writeLE16 m p (int off) = Some m' \<and> emitted m m' p (offset_bytes off) (p + 2)"
proof -
  have lo: "(ucast (word_of_int (int off) :: 16 word) :: byte) = word_of_nat (off mod 256)"
    using assms(2) by (simp add: word_unat_eq_iff unsigned_ucast_eq unsigned_of_nat take_bit_eq_mod)
  have "unat (drop_bit 8 (word_of_nat off :: 16 word)) = drop_bit 8 off"
    using assms(2) by (simp add: unsigned_drop_bit_eq unsigned_of_nat take_bit_nat_eq_self)
  also have "\<dots> = off div 256"
    by (simp add: drop_bit_eq_div)
  finally have hi: "(ucast (drop_bit 8 (word_of_int (int off) :: 16 word)) :: byte) = word_of_nat (off div 256)"
    using assms(2) by (simp add: word_unat_eq_iff unsigned_ucast_eq unsigned_of_nat take_bit_eq_mod)
  have "le_bytes 2 (word_of_int (int off) :: 16 word) = offset_bytes off"
    using lo hi by (simp add: le_bytes_def offset_bytes_def numeral_2_eq_2)
  then show ?thesis
    using store_bytes_emitted [of m p "offset_bytes off"] assms(1)
    by (simp add: LZ4_writeLE16_def LZ4_write16_def)
qed

section \<open>The code of a match\<close>

lemma write32_ones:
  assumes "region m p (p + 4)"
  shows "\<exists>m'. LZ4_write32 m p 0xFFFFFFFF = Some m' \<and> emitted m m' p (replicate 4 255) (p + 4)"
proof -
  have "le_bytes 4 (0xFFFFFFFF :: 32 word) = replicate 4 255"
    by code_simp
  then show ?thesis
    using store_bytes_emitted [of m p "replicate 4 255"] assms by (simp add: LZ4_write32_def)
qed

text \<open>The loop has written only bytes 255, four for each four times 255 of the length.\<close>

lemma put_match_loop_emitted:
  assumes "bytes m op 4 = replicate 4 255" and "region m op (op + 4 + 4 * int (n div 1020))"
  shows "\<exists>m'. put_match_loop m op (int n) = Some (m', op + 4 * int (n div 1020), int (n mod 1020)) \<and>
           emitted m m' op (replicate (4 + 4 * (n div 1020)) 255) (op + 4 + 4 * int (n div 1020))"
  using assms
proof (induction n arbitrary: m op rule: less_induct)
  case (less n)
  show ?case
  proof (cases "n < 1020")
    case True
    then have "n div 1020 = 0" "n mod 1020 = n"
      by simp_all
    then show ?thesis
      using True less.prems(1) by (subst put_match_loop.simps) (simp add: emitted_def)
  next
    case False
    have div: "n div 1020 = Suc ((n - 1020) div 1020)" "n mod 1020 = (n - 1020) mod 1020"
      using False by (simp_all add: le_div_geq le_mod_geq)
    let ?hi = "op + 4 + 4 * int (n div 1020)"
    have "region m (op + 4) (op + 4 + 4)"
      by (rule region_sub [OF less.prems(2)]) (simp_all add: div)
    from write32_ones [OF this] obtain m1 where m1: "LZ4_write32 m (op + 4) 0xFFFFFFFF = Some m1"
      and e1: "emitted m m1 (op + 4) (replicate 4 255) (op + 8)"
      by (auto simp: add.commute)
    have "\<exists>m'. put_match_loop m1 (op + 4) (int (n - 1020)) =
          Some (m', op + 4 + 4 * int ((n - 1020) div 1020), int ((n - 1020) mod 1020)) \<and>
        emitted m1 m' (op + 4) (replicate (4 + 4 * ((n - 1020) div 1020)) 255)
          (op + 4 + 4 + 4 * int ((n - 1020) div 1020))"
    proof (rule less.IH)
      show "bytes m1 (op + 4) 4 = replicate 4 255"
        using emitted_bytes [OF e1] by simp
      show "region m1 (op + 4) (op + 4 + 4 + 4 * int ((n - 1020) div 1020))"
        unfolding emitted_region [OF e1] by (rule region_sub [OF less.prems(2)]) (simp_all add: div)
    qed (use False in simp)
    then obtain m' where m': "put_match_loop m1 (op + 4) (int (n - 1020)) =
          Some (m', op + 4 * int (n div 1020), int (n mod 1020))"
      and e2: "emitted m1 m' (op + 4) (replicate (4 * (n div 1020)) 255) ?hi"
      by (auto simp: div algebra_simps)
    have "emitted m m1 op (replicate 4 255) ?hi"
      using less.prems(1) e1 emitted_before [OF e1, of op 4] by (auto simp: emitted_def div)
    from emitted_trans [OF this] e2
    have "emitted m m' op (replicate 4 255 @ replicate (4 * (n div 1020)) 255) ?hi"
      by simp
    then have "emitted m m' op (replicate (4 + 4 * (n div 1020)) 255) ?hi"
      by (simp only: replicate_add)
    moreover have "put_match_loop m op (int n) = put_match_loop m1 (op + 4) (int (n - 1020))"
      using False m1 by (subst put_match_loop.simps) (simp add: of_nat_diff)
    ultimately show ?thesis
      using m' by auto
  qed
qed

lemma put_match_len_emitted:
  assumes "region m op (op + int (n div 255) + 4)"
  shows "\<exists>m'. put_match_len m op (int n) = Some (m', op + int (length (ext_len n))) \<and>
           emitted m m' op (ext_len n) (op + int (n div 255) + 4)"
proof -
  let ?hi = "op + int (n div 255) + 4" and ?k = "n div 1020" and ?r = "n mod 1020"
  have n: "n div 255 = 4 * ?k + ?r div 255" "n mod 255 = ?r mod 255" "?r div 255 < 4"
  proof -
    have "n div 255 = (1020 * ?k + ?r) div 255"
      by simp
    also have "\<dots> = (?r + 255 * (4 * ?k)) div 255"
      by (simp add: algebra_simps)
    also have "\<dots> = 4 * ?k + ?r div 255"
      by (subst div_mult_self2) simp_all
    finally show "n div 255 = 4 * ?k + ?r div 255" .
    show "n mod 255 = ?r mod 255"
      by (simp add: mod_mod_cancel)
    have "?r < 1020"
      by simp
    then show "?r div 255 < 4"
      by (simp add: less_mult_imp_div_less)
  qed
  have "region m op (op + 4)"
    by (rule region_sub [OF assms]) simp_all
  from write32_ones [OF this] obtain m1 where m1: "LZ4_write32 m op 0xFFFFFFFF = Some m1"
    and e1: "emitted m m1 op (replicate 4 255) (op + 4)"
    by blast
  have "region m1 op (op + 4 + 4 * int ?k)"
    unfolding emitted_region [OF e1] by (rule region_sub [OF assms]) (simp_all add: n)
  from put_match_loop_emitted [OF _ this] emitted_bytes [OF e1] obtain m2 where
    m2: "put_match_loop m1 op (int n) = Some (m2, op + 4 * int ?k, int ?r)"
    and e2: "emitted m1 m2 op (replicate (4 + 4 * ?k) 255) (op + 4 + 4 * int ?k)"
    by auto
  let ?p = "op + int (n div 255)"
  have p: "op + 4 * int ?k + int ?r div 255 = ?p"
    by (simp add: n zdiv_int)
  have r1: "region m2 a b = region m a b" for a b
    by (simp add: emitted_region [OF e2] emitted_region [OF e1])
  have "region m2 ?p (?p + int (length [word_of_nat (n mod 255) :: byte]))"
    unfolding r1 by (rule region_sub [OF assms]) simp_all
  from store_bytes_emitted [OF this] obtain m3 where
    m3: "store_bytes m2 ?p [word_of_nat (n mod 255)] = Some m3"
    and e3: "emitted m2 m3 ?p [word_of_nat (n mod 255)] (?p + 1)"
    by auto
  have "word_of_int (int ?r mod 255) = (word_of_nat (n mod 255) :: byte)"
    unfolding n(2) by (metis of_int_of_nat_eq of_nat_numeral zmod_int)
  then have run: "put_match_len m op (int n) = Some (m3, ?p + 1)"
    by (simp only: put_match_len_def Let_def m1 m2 m3 p Option.bind.bind_lunit prod.case)
  have "bytes m2 op (n div 255) = take (n div 255) (bytes m2 op (4 + 4 * ?k))"
    using n by (simp add: bytes_def take_map_upt)
  also have "\<dots> = replicate (n div 255) 255"
    using emitted_bytes [OF e2] n by simp
  finally have "emitted m m2 op (replicate (n div 255) 255) ?hi"
    using e1 e2 n by (auto simp: emitted_def)
  from emitted_trans [OF this] emitted_widen [OF e3, of ?hi]
  have "emitted m m3 op (ext_len n) ?hi"
    by (simp add: ext_len_replicate)
  with run show ?thesis
    by (simp add: length_ext_len)
qed

text \<open>The token and the code of the match together.\<close>

lemma put_match_code_emitted:
  assumes tok: "m token = Some (token_byte ll 0)" and "token < op"
    and reg: "region m op (op + int (mc div 255) + 4)"
  shows "\<exists>m'. put_match_code m token op (int mc) = Some (m', op + int (length (match_header mc))) \<and>
           dom m' = dom m \<and> m' token = Some (token_byte ll mc) \<and>
           bytes m' op (length (match_header mc)) = match_header mc \<and>
           (\<forall>x. x < op \<and> x \<noteq> token \<or> op + int (mc div 255) + 4 \<le> x \<longrightarrow> m' x = m x)"
proof -
  define m1 where "m1 = put m token [token_byte ll mc]"
  have sum: "token_byte ll 0 + word_of_nat (min 15 mc) = token_byte ll mc"
    by (simp add: token_byte_def)
  have regt: "region m token (token + 1)"
  proof -
    have "token \<in> dom m"
      using tok by auto
    then show ?thesis
      by (auto simp: region_def intro: back_subst [of "\<lambda>x. x \<in> dom m"])
  qed
  then have add: "add_token m token (int (min 15 mc)) = Some m1"
    using tok store_bytes_Some [of m token "[token_byte ll mc]"] by (simp add: add_token_def sum m1_def)
  have m1: "dom m1 = dom m" "m1 token = Some (token_byte ll mc)" "x \<noteq> token \<Longrightarrow> m1 x = m x" for x
    using dom_put [of m token "[token_byte ll mc]"] regt by (auto simp: m1_def put_apply)
  show ?thesis
  proof (cases "15 \<le> mc")
    case False
    then have "min 15 mc = mc"
      by simp
    with add False m1 assms(2) show ?thesis
      by (simp add: put_match_code_def match_header_def)
  next
    case True
    have "(mc - 15) div 255 \<le> mc div 255"
      by (simp add: div_le_mono)
    then have "region m1 op (op + int ((mc - 15) div 255) + 4)"
      unfolding region_dom [OF m1(1)] by (intro region_sub [OF reg]) simp_all
    from put_match_len_emitted [OF this] obtain m' where
      m': "put_match_len m1 op (int (mc - 15)) = Some (m', op + int (length (ext_len (mc - 15))))"
      and e: "emitted m1 m' op (ext_len (mc - 15)) (op + int ((mc - 15) div 255) + 4)"
      by blast
    have "put_match_code m token op (int mc) = Some (m', op + int (length (match_header mc)))"
      using True add m' by (simp add: put_match_code_def match_header_def of_nat_diff min_def)
    moreover have "m' token = Some (token_byte ll mc)"
      using emitted_frame [OF e, of token] m1(2) assms(2) by simp
    moreover have "m' x = m x" if "x < op \<and> x \<noteq> token \<or> op + int (mc div 255) + 4 \<le> x" for x
      using that emitted_frame [OF e, of x] m1(3) [of x] \<open>(mc - 15) div 255 \<le> mc div 255\<close> assms(2) by auto
    ultimately show ?thesis
      using emitted_dom [OF e] emitted_bytes [OF e] m1(1) True by (simp add: match_header_def)
  qed
qed

end
