(* ===== verification/Lz4_Parse.thy ===== *)
theory Lz4_Parse
  imports Lz4_Format
begin

text \<open>
  What the encoder builds up, on lists: a parse of the text from the end of its history, the first
  \<open>pre\<close> bytes, up to position \<open>a\<close> into sequences that reproduce it, keep the restrictions of the
  format at the end of the block and cost at most one byte in 255 more than they stand for.
\<close>

section \<open>The cost of a sequence\<close>

lemma length_lit_header: "length (lit_header n) = (if 15 \<le> n then (n - 15) div 255 + 1 else 0)"
  by (simp add: lit_header_def length_ext_len)

lemma length_match_header: "length (match_header n) = (if 15 \<le> n then (n - 15) div 255 + 1 else 0)"
  by (simp add: match_header_def length_ext_len)

lemma header_cost: "(if 15 \<le> n then (n - 15) div 255 + 1 else 0) = (n + 240) div (255 :: nat)"
proof (cases "15 \<le> n")
  case True
  then obtain k where n: "n = 15 + k"
    using le_Suc_ex by blast
  have "(k + 255) div 255 = k div 255 + (1 :: nat)"
    by (rule div_add_self2) simp
  then show ?thesis
    unfolding n by (simp add: add.commute add.left_commute)
qed simp

lemmas length_headers =
  length_lit_header [unfolded header_cost] length_match_header [unfolded header_cost]

lemma div255_add: "a div 255 + b div 255 \<le> (a + b) div (255 :: nat)"
  unfolding div_add1_eq [of a b] by simp

lemma lit_cost: "(n + 240) div 255 \<le> n div 255 + (1 :: nat)"
proof -
  have "(n + 240) div 255 \<le> (n + 255) div 255"
    by (rule div_le_mono) simp
  then show ?thesis
    by simp
qed

lemma match_cost: "(n + 240) div 255 \<le> (n :: nat)"
proof -
  have "(n + 240) div 255 < n + 1"
    by (rule less_mult_imp_div_less) simp
  then show ?thesis
    by simp
qed

lemma length_enc_seq_eq:
  "length (enc_seq q) = 1 + (length (sq_lits q) + 240) div 255 + length (sq_lits q) + 2 +
     (sq_mlen q - 4 + 240) div 255"
  by (simp add: enc_seq_def length_headers)

lemma enc_seq_cost:
  assumes "4 \<le> sq_mlen q"
  shows "length (enc_seq q) \<le>
    length (sq_lits q) + sq_mlen q + (length (sq_lits q) + sq_mlen q) div 255"
proof -
  let ?ll = "length (sq_lits q)" and ?mc = "sq_mlen q - 4"
  have "(?ll + 240) div 255 \<le> (?ll + 4 + 255) div 255"
    by (rule div_le_mono) simp
  also have "\<dots> = (?ll + 4) div 255 + 1"
    by (rule div_add_self2) simp
  also have "(?ll + 4) div 255 \<le> (?ll + sq_mlen q) div 255"
    by (rule div_le_mono) (use assms in simp)
  finally have "(?ll + 240) div 255 \<le> (?ll + sq_mlen q) div 255 + 1"
    by simp
  moreover have "(?mc + 240) div 255 \<le> ?mc"
    by (rule match_cost)
  ultimately show ?thesis
    using assms unfolding length_enc_seq_eq by linarith
qed

section \<open>Parses of a part of the text\<close>

definition parse_ok :: "nat \<Rightarrow> byte list \<Rightarrow> nat \<Rightarrow> lz_seq list \<Rightarrow> bool" where
  "parse_ok pre src a qs \<longleftrightarrow>
     pre \<le> a \<and> a \<le> length src \<and> exec_seqs (take pre src) qs = take a src \<and> list_all seq_ok qs \<and>
     offsets_ok (take pre src) qs \<and> end_ok (take pre src) qs (length src) \<and>
     list_all (\<lambda>q. 0 < sq_off q) qs \<and>
     length (concat (map enc_seq qs)) \<le> (a - pre) + (a - pre) div 255"

lemma parse_ok_nil: "pre \<le> length src \<Longrightarrow> parse_ok pre src pre []"
  by (simp add: parse_ok_def)

lemma parse_okD:
  assumes "parse_ok pre src a qs"
  shows "pre \<le> a" "a \<le> length src" "exec_seqs (take pre src) qs = take a src"
    "length (concat (map enc_seq qs)) \<le> (a - pre) + (a - pre) div 255"
  using assms unfolding parse_ok_def by blast+

text \<open>The parse goes on with the literals up to position \<open>i\<close> and a match from there.\<close>

lemma parse_ok_extend:
  assumes ok: "parse_ok pre src a qs" and "a \<le> i" and off: "0 < off" "off \<le> i" "off < 65536"
    and len: "4 \<le> len" "i + 12 \<le> length src" "i + len + 5 \<le> length src"
    and match: "\<And>j. i \<le> j \<Longrightarrow> j < i + len \<Longrightarrow> src ! j = src ! (j - off)"
  defines "q \<equiv> \<lparr>sq_lits = take (i - a) (drop a src), sq_off = off, sq_mlen = len\<rparr>"
  shows "parse_ok pre src (i + len) (qs @ [q])"
proof -
  have lits: "take a src @ sq_lits q = take i src"
    using assms(2) len by (simp add: q_def take_add [symmetric])
  have ll: "length (sq_lits q) = i - a"
    using assms(2) len by (simp add: q_def)
  have exec: "exec_seq (take a src) q = take (i + len) src"
    unfolding exec_seq_def lits
  proof (rule lz_copy_eqI [symmetric])
    show "length (take (i + len) src) = length (take i src) + sq_mlen q"
      using len by (simp add: q_def)
    show "take (length (take i src)) (take (i + len) src) = take i src"
      using len by simp
    show "sq_off q \<le> length (take i src)"
      using off len by (simp add: q_def)
    fix j
    assume "length (take i src) \<le> j" "j < length (take (i + len) src)"
    then show "take (i + len) src ! j = (if sq_off q = 0 then 0 else take (i + len) src ! (j - sq_off q))"
      using match [of j] off len by (simp add: q_def)
  qed
  have q: "seq_ok q" "sq_off q \<le> length (take a src @ sq_lits q)" "0 < sq_off q"
    using off len lits by (simp_all add: seq_ok_def q_def)
  note a = parse_okD(1,2) [OF ok] and exec0 = parse_okD(3) [OF ok] and cost = parse_okD(4) [OF ok]
  have "length (take a src @ sq_lits q) + 12 \<le> length src" "length (exec_seq (take a src) q) + 5 \<le> length src"
    using len unfolding lits exec by simp_all
  moreover obtain c d where c: "a = pre + c" and d: "i = a + d"
    using assms(2) a(1) le_Suc_ex by blast
  have "length (enc_seq q) \<le> (i - a) + len + ((i - a) + len) div 255"
    using enc_seq_cost [of q] len ll by (simp add: q_def)
  then have "length (concat (map enc_seq qs)) + length (enc_seq q) \<le> (i + len - pre) + (i + len - pre) div 255"
    using cost div255_add [of c "d + len"] by (simp add: c d add.assoc)
  ultimately show ?thesis
    using ok q exec len a assms(2)
    by (simp add: parse_ok_def exec_seqs_append offsets_ok_append end_ok_append exec0 del: length_exec_seq)
qed

text \<open>With the rest as last literals the parse is a block for the input behind the history.\<close>

lemma parse_ok_block:
  assumes "parse_ok pre src a qs" and "l = drop a src"
  shows "exec_seqs (take pre src) qs @ l = src"
    and "length (enc_block qs l) = length (concat (map enc_seq qs)) + 1 + (length l + 240) div 255 + length l"
    and "length (enc_block qs l) \<le> (length src - pre) + (length src - pre) div 255 + 2"
proof -
  show "exec_seqs (take pre src) qs @ l = src"
    using assms by (simp add: parse_ok_def)
  show len: "length (enc_block qs l) =
      length (concat (map enc_seq qs)) + 1 + (length l + 240) div 255 + length l"
    by (simp add: enc_block_def enc_last_def length_headers)
  have "(a - pre) + length l = length src - pre"
    using parse_okD(1,2) [OF assms(1)] assms(2) by simp
  then show "length (enc_block qs l) \<le> (length src - pre) + (length src - pre) div 255 + 2"
    using parse_okD(4) [OF assms(1)] len lit_cost [of "length l"] div255_add [of "a - pre" "length l"] by linarith
qed

end
