(* ===== verification/Lz4_Compress_Correct.thy ===== *)
theory Lz4_Compress_Correct
  imports Lz4_Emit Lz4_Parse
begin

text \<open>
  The encoder of \<open>Lz4_Compress\<close> is correct: from every control point, in a state that satisfies
  the invariant of that point, the machine returns, keeps to its buffers, and leaves in the
  output a block for the input that is legal after its history, or returns 0 because the output
  limit was reached. The modes covered are a single block, a block right behind its
  history, and a block with its history elsewhere, found through its own table or through the
  table of an attached state; unlimited or with a limit.
\<close>

section \<open>The call\<close>

text \<open>The room the encoder may use.\<close>

definition enc_cap :: "enc_cfg \<Rightarrow> int" where
  "enc_cap k = (if k_output k = limitedOutput then k_maxOutputSize k
                else k_inputSize k + k_inputSize k div 255 + 16)"

text \<open>Enough for the worst case, so that the limit is never reached.\<close>

definition roomy :: "enc_cfg \<Rightarrow> bool" where
  "roomy k \<longleftrightarrow> k_inputSize k + k_inputSize k div 255 + 16 \<le> enc_cap k"

lemma unlimited_roomy: "\<not> roomy k \<Longrightarrow> k_output k = limitedOutput"
  by (auto simp: roomy_def enc_cap_def split: if_splits)

definition k_dend :: "enc_cfg \<Rightarrow> ptr" where
  "k_dend k = k_dest k + enc_cap k"

text \<open>The history is \<open>k_pre\<close> bytes at \<open>k_hist\<close>. The text is the history and the input; its position
  0 is at \<open>k_text\<close>, if the history lies in front of the input.\<close>

definition k_pre :: "enc_cfg \<Rightarrow> nat" where
  "k_pre k = nat (k_dictSize k)"

definition k_text :: "enc_cfg \<Rightarrow> ptr" where
  "k_text k = k_source k - int (k_pre k)"

definition k_hist :: "enc_cfg \<Rightarrow> ptr" where
  "k_hist k = (if k_maybe_extMem k then k_dictionary k else k_text k)"

text \<open>An entry of the table of an attached state is an index of its dictionary, or 0.\<close>

definition attached_ok :: "int \<Rightarrow> lz4_tab \<Rightarrow> bool" where
  "attached_ok n d \<longleftrightarrow>
     dictSize d = n \<and> n \<le> 65536 \<and> currentOffset d = 65536 \<and> length (hashTable d) = LZ4_HASH_SIZE_U32 \<and>
     (\<forall>i \<in> entries byU32 d. i = 0 \<or> 65536 - n \<le> i \<and> i + 4 \<le> 65536)"

definition dict_mode_ok :: "enc_cfg \<Rightarrow> bool" where
  "dict_mode_ok k \<longleftrightarrow>
     (case k_dict k of
        noDict \<Rightarrow> k_dictSize k = 0
      | withPrefix64k \<Rightarrow> k_dictSize k \<le> k_startIndex k
      | usingExtDict \<Rightarrow> k_dictSize k \<le> k_startIndex k
      | usingDictCtx \<Rightarrow> k_dictIssue k = noDictIssue \<and> 0 < k_startIndex k \<and>
          (\<exists>d. k_dictCtx k = Some d \<and> attached_ok (k_dictSize k) d)) \<and>
     (k_maybe_extMem k \<longrightarrow> k_dictionary k \<noteq> k_source k \<and> (k_dictSize k = 0 \<or> k_dictionary k \<noteq> NULL))"

definition enc_ok :: "enc_cfg \<Rightarrow> mem \<Rightarrow> bool" where
  "enc_ok k m0 \<longleftrightarrow>
     0 \<le> k_dictSize k \<and> dict_mode_ok k \<and> k_output k \<noteq> fillOutput \<and>
     (k_tableType k = byU16 \<and> k_dict k = noDict \<and> k_startIndex k + k_inputSize k \<le> 65547 \<or>
      k_tableType k = byU32) \<and>
     1 \<le> k_acceleration k \<and> 0 < k_inputSize k \<and> 0 \<le> k_startIndex k \<and>
     k_startIndex k + k_inputSize k < 2 ^ 32 - 65536 \<and> 0 \<le> enc_cap k \<and>
     region m0 (k_source k) (k_iend k) \<and> region m0 (k_dest k) (k_dend k) \<and>
     (k_iend k \<le> k_dest k \<or> k_dend k \<le> k_source k) \<and>
     region m0 (k_hist k) (k_hist k + k_dictSize k) \<and>
     (k_hist k + k_dictSize k \<le> k_dest k \<or> k_dend k \<le> k_hist k)"

lemma enc_okD:
  assumes "enc_ok k m0"
  shows "k_dictSize k = int (k_pre k)" "dict_mode_ok k" "k_output k \<noteq> fillOutput"
    "k_tableType k = byU16 \<or> k_tableType k = byU32" "1 \<le> k_acceleration k" "0 < k_inputSize k"
    "0 \<le> k_startIndex k" "k_startIndex k + k_inputSize k < 4294901760"
    "k_tableType k = byU16 \<Longrightarrow> k_startIndex k + k_inputSize k \<le> 65547"
    "0 \<le> enc_cap k" "region m0 (k_source k) (k_iend k)" "region m0 (k_dest k) (k_dend k)"
    "k_iend k \<le> k_dest k \<or> k_dend k \<le> k_source k" "k_maybe_extMem k \<Longrightarrow> k_tableType k = byU32"
    "region m0 (k_hist k) (k_hist k + int (k_pre k))"
    "k_hist k + int (k_pre k) \<le> k_dest k \<or> k_dend k \<le> k_hist k"
    "k_maybe_extMem k \<Longrightarrow> k_dictionary k \<noteq> k_source k"
    "k_maybe_extMem k \<Longrightarrow> 0 < k_pre k \<Longrightarrow> k_dictEnd k = k_dictionary k + int (k_pre k)"
  using assms by (auto simp: enc_ok_def k_maybe_extMem_def k_pre_def k_dictEnd_def dict_mode_ok_def)

lemma k_text_pre: "k_text k + int (k_pre k) = k_source k"
  by (simp add: k_text_def)

text \<open>The text as a list.\<close>

definition enc_src :: "enc_cfg \<Rightarrow> mem \<Rightarrow> byte list" where
  "enc_src k m0 = bytes m0 (k_hist k) (k_pre k) @ bytes m0 (k_source k) (nat (k_inputSize k))"

lemma length_enc_src: "enc_ok k m0 \<Longrightarrow> int (length (enc_src k m0)) = int (k_pre k) + k_inputSize k"
  by (drule enc_okD(6)) (simp add: enc_src_def)

lemma iend_text: "enc_ok k m0 \<Longrightarrow> k_iend k = k_text k + int (length (enc_src k m0))"
  by (simp add: length_enc_src k_iend_def k_text_def)

lemma pre_le_src: "k_pre k \<le> length (enc_src k m0)"
  by (simp add: enc_src_def)

definition enc_framed :: "enc_cfg \<Rightarrow> mem \<Rightarrow> mem \<Rightarrow> bool" where
  "enc_framed k m0 m \<longleftrightarrow> dom m = dom m0 \<and> (\<forall>x. x < k_dest k \<or> k_dend k \<le> x \<longrightarrow> m x = m0 x)"

lemma enc_framed_region: "enc_framed k m0 m \<Longrightarrow> region m a b = region m0 a b"
  by (rule region_dom) (simp add: enc_framed_def)

lemma enc_framed_input:
  "enc_framed k m0 m \<Longrightarrow> enc_ok k m0 \<Longrightarrow> k_source k \<le> x \<Longrightarrow> x < k_iend k \<Longrightarrow> m x = m0 x"
  by (drule enc_okD(13)) (auto simp: enc_framed_def)

lemma enc_framed_hist:
  "enc_framed k m0 m \<Longrightarrow> enc_ok k m0 \<Longrightarrow> k_hist k \<le> x \<Longrightarrow> x < k_hist k + int (k_pre k) \<Longrightarrow> m x = m0 x"
  by (drule enc_okD(16)) (auto simp: enc_framed_def)

lemma enc_framed_src:
  assumes "enc_framed k m0 m" and "enc_ok k m0" and "k_pre k \<le> a" and "a + n \<le> length (enc_src k m0)"
  shows "bytes m (k_text k + int a) n = take n (drop a (enc_src k m0))"
proof (rule nth_equalityI)
  show "length (bytes m (k_text k + int a) n) = length (take n (drop a (enc_src k m0)))"
    using assms(4) by simp
  fix i
  assume "i < length (bytes m (k_text k + int a) n)"
  then have i: "i < n" by simp
  have at: "k_text k + int a + int i = k_source k + int (a + i - k_pre k)"
    using assms(3) by (simp add: k_text_def of_nat_diff)
  have "m (k_text k + int a + int i) = m0 (k_text k + int a + int i)"
    by (rule enc_framed_input [OF assms(1,2)])
      (use assms(3,4) i k_text_pre [of k] iend_text [OF assms(2)] in auto)
  then have "m (k_source k + int (a + i - k_pre k)) = m0 (k_source k + int (a + i - k_pre k))"
    by (simp only: at)
  moreover have "a + i - k_pre k < nat (k_inputSize k)"
    using assms(3,4) i length_enc_src [OF assms(2)] by linarith
  ultimately show "bytes m (k_text k + int a) n ! i = take n (drop a (enc_src k m0)) ! i"
    using assms(3,4) i by (simp add: enc_src_def nth_append at)
qed

lemma enc_framed_step:
  assumes "enc_framed k m0 m" and "emitted m m' p bs hi" and "k_dest k \<le> p" and "hi \<le> k_dend k"
  shows "enc_framed k m0 m'"
  using assms emitted_frame [OF assms(2)] by (auto simp: enc_framed_def emitted_def)

section \<open>Positions of the text\<close>

text \<open>Where a position of the text is in memory, and where its segment begins: the dictionary
  is a segment of its own in the modes with external memory.\<close>

definition in_dict :: "enc_cfg \<Rightarrow> nat \<Rightarrow> bool" where
  "in_dict k t \<longleftrightarrow> k_maybe_extMem k \<and> t < k_pre k"

definition k_at :: "enc_cfg \<Rightarrow> nat \<Rightarrow> ptr" where
  "k_at k t = (if in_dict k t then k_dictionary k else k_text k) + int t"

definition k_low :: "enc_cfg \<Rightarrow> nat \<Rightarrow> ptr" where
  "k_low k t = (if in_dict k t then k_dictionary k
                else if k_maybe_extMem k then k_source k else k_text k)"

lemma k_at_input: "k_pre k \<le> t \<Longrightarrow> k_at k t = k_text k + int t"
  by (simp add: k_at_def in_dict_def)

lemma k_at_add: "in_dict k t \<Longrightarrow> t + i < k_pre k \<Longrightarrow> k_at k (t + i) = k_at k t + int i"
  and k_at_add': "\<not> in_dict k t \<Longrightarrow> k_at k (t + i) = k_at k t + int i"
  by (auto simp: k_at_def in_dict_def)

lemma k_at_diff:
  assumes "k_low k t \<le> k_at k t - j" and "0 \<le> j"
  shows "j \<le> int t" and "k_at k (t - nat j) = k_at k t - j" and "k_low k (t - nat j) = k_low k t"
    and "in_dict k (t - nat j) = in_dict k t"
proof -
  have j: "j \<le> int t" "\<not> in_dict k t \<Longrightarrow> k_maybe_extMem k \<Longrightarrow> int (k_pre k) \<le> int t - j"
    using assms(1) by (auto simp: k_low_def k_at_def k_text_def split: if_splits)
  then show "j \<le> int t"
    by blast
  have "int (t - nat j) = int t - j"
    using j(1) assms(2) by (simp add: of_nat_diff)
  then show same: "in_dict k (t - nat j) = in_dict k t"
    using j assms(2) unfolding in_dict_def by linarith
  show "k_at k (t - nat j) = k_at k t - j" "k_low k (t - nat j) = k_low k t"
    using j(1) assms(2) by (simp_all add: k_at_def k_low_def same of_nat_diff)
qed

lemma enc_src_nth:
  assumes "enc_framed k m0 m" and "enc_ok k m0" and "j < length (enc_src k m0)"
  shows "m (k_at k j) = Some (enc_src k m0 ! j)"
proof (cases "j < k_pre k")
  case True
  then have at: "k_at k j = k_hist k + int j"
    by (simp add: k_at_def k_hist_def in_dict_def)
  have "m (k_hist k + int j) = m0 (k_hist k + int j)"
    by (rule enc_framed_hist [OF assms(1,2)]) (use True in simp_all)
  moreover have "\<exists>b. m0 (k_hist k + int j) = Some b"
    by (rule region_Some [OF enc_okD(15) [OF assms(2)]]) (use True in simp_all)
  ultimately show ?thesis
    using True by (auto simp: at enc_src_def nth_append)
next
  case False
  then have at: "k_at k j = k_source k + int (j - k_pre k)"
    by (simp add: k_at_input k_text_def of_nat_diff)
  have j: "int (j - k_pre k) < k_inputSize k"
    using assms(3) False length_enc_src [OF assms(2)] by linarith
  have "m (k_source k + int (j - k_pre k)) = m0 (k_source k + int (j - k_pre k))"
    by (rule enc_framed_input [OF assms(1,2)]) (use j in \<open>simp_all add: k_iend_def\<close>)
  moreover have "\<exists>b. m0 (k_source k + int (j - k_pre k)) = Some b"
    by (rule region_Some [OF enc_okD(11) [OF assms(2)]]) (use j in \<open>simp_all add: k_iend_def\<close>)
  ultimately show ?thesis
    using False j by (auto simp: at enc_src_def nth_append)
qed

text \<open>The bytes from a position to the end of its segment are allocated.\<close>

lemma segment_region:
  assumes "enc_framed k m0 m" and "enc_ok k m0" and "t + n \<le> length (enc_src k m0)"
    and "in_dict k t \<Longrightarrow> t + n \<le> k_pre k" and "p = k_at k t"
  shows "region m p (p + int n)"
  unfolding region_def
proof (intro allI impI)
  fix x
  assume x: "p \<le> x \<and> x < p + int n"
  define i where "i = nat (x - p)"
  have i: "x = k_at k t + int i" "i < n"
    using x assms(5) by (auto simp: i_def)
  have "k_at k (t + i) = k_at k t + int i"
    using assms(4) i(2) by (cases "in_dict k t") (simp_all add: k_at_add k_at_add')
  moreover have "m (k_at k (t + i)) = Some (enc_src k m0 ! (t + i))"
    by (rule enc_src_nth [OF assms(1,2)]) (use assms(3) i(2) in simp)
  ultimately show "x \<in> dom m"
    using i(1) by auto
qed

text \<open>Agreement in memory is agreement in the text.\<close>

lemma src_run:
  assumes "enc_framed k m0 m" and "enc_ok k m0" and "off \<le> i" and "k_pre k \<le> i"
    and "i + n \<le> length (enc_src k m0)" and "in_dict k (i - off) \<Longrightarrow> i - off + n \<le> k_pre k"
    and "\<And>t. 0 \<le> t \<Longrightarrow> t < int n \<Longrightarrow> m (k_text k + int i + t) = m (k_at k (i - off) + t)"
    and "i \<le> j" and "j < i + n"
  shows "enc_src k m0 ! j = enc_src k m0 ! (j - off)"
proof -
  define t where "t = j - i"
  have t: "j = i + t" "t < n" "j - off = i - off + t"
    using assms(3,8,9) by (auto simp: t_def)
  have "k_at k (i - off + t) = k_at k (i - off) + int t"
    using assms(6) t(2) by (cases "in_dict k (i - off)") (simp_all add: k_at_add k_at_add')
  moreover have "k_at k j = k_text k + int i + int t"
    using assms(4) t(1) by (simp add: k_at_input)
  moreover have "m (k_text k + int i + int t) = m (k_at k (i - off) + int t)"
    by (rule assms(7)) (use t(2) in simp_all)
  ultimately have "m (k_at k j) = m (k_at k (j - off))"
    by (simp add: t(3))
  then show ?thesis
    using enc_src_nth [OF assms(1,2), of j] enc_src_nth [OF assms(1,2), of "j - off"] assms(5,9) by simp
qed

section \<open>The hash table\<close>

text \<open>An entry is a position before the current one. An entry of an earlier use of the state that is
  not in the history is one the encoder rejects, and of a dictionary elsewhere there are four bytes
  left from an entry on.\<close>

definition index_of :: "enc_cfg \<Rightarrow> ptr \<Rightarrow> int" where
  "index_of k p = k_startIndex k + (p - k_source k)"

definition stale_ok :: "enc_cfg \<Rightarrow> int \<Rightarrow> bool" where
  "stale_ok k j \<longleftrightarrow>
     k_dictIssue k = dictSmall \<or> (k_tableType k = byU32 \<and> j + 65536 \<le> k_startIndex k)"

definition entry_ok :: "enc_cfg \<Rightarrow> ptr \<Rightarrow> int \<Rightarrow> bool" where
  "entry_ok k p j \<longleftrightarrow>
     0 \<le> j \<and> j < index_of k p \<and> (j = 0 \<or> j + 4 \<le> index_of k (k_iend k)) \<and>
     (k_dict k \<noteq> usingDictCtx \<and> j < k_startIndex k - k_dictSize k \<longrightarrow> stale_ok k j) \<and>
     (k_dict k = usingExtDict \<and> k_startIndex k - k_dictSize k \<le> j \<and> j < k_startIndex k \<longrightarrow>
        j + 4 \<le> k_startIndex k)"

definition tab_ok :: "enc_cfg \<Rightarrow> ptr \<Rightarrow> lz4_ctx \<Rightarrow> bool" where
  "tab_ok k p ctx \<longleftrightarrow>
     length (hashTable ctx) = LZ4_HASH_SIZE_U32 \<and> (\<forall>j \<in> entries (k_tableType k) ctx. entry_ok k p j)"

lemma tab_ok_mono: "tab_ok k p ctx \<Longrightarrow> p \<le> q \<Longrightarrow> tab_ok k q ctx"
  by (force simp: tab_ok_def entry_ok_def index_of_def)

lemma index_of_base: "index_of k p = p - k_base k"
  by (simp add: index_of_def k_base_def)

lemma index_U32:
  assumes "enc_ok k m0" and "k_source k \<le> p" and "p \<le> k_iend k"
  shows "U32 (p - k_base k) = index_of k p"
  using assms enc_okD(7,8) [OF assms(1)] by (simp add: k_base_def index_of_def k_iend_def)

lemma tab_get:
  assumes "tab_ok k p ctx" and "enc_ok k m0" and "h < slots (k_tableType k)"
  shows "\<exists>j. LZ4_getIndexOnHash h ctx (k_tableType k) = Some j \<and> entry_ok k p j"
proof (cases "k_tableType k = byU16")
  case True
  then show ?thesis
    using u16.get_invariant [where c = ctx and h = h and P = "entry_ok k p"] assms by (simp add: tab_ok_def slots_def)
next
  case False
  then show ?thesis
    using u32.get_invariant [where c = ctx and h = h and P = "entry_ok k p"] assms enc_okD(4) [OF assms(2)]
    by (simp add: tab_ok_def slots_def)
qed

lemma tab_put:
  assumes "tab_ok k p ctx" and ok: "enc_ok k m0" and "h < slots (k_tableType k)"
    and "k_source k \<le> x" and "x < q" and "p \<le> q" and "x + 12 \<le> k_iend k"
  shows "\<exists>ctx'. LZ4_putIndexOnHash (index_of k x) h ctx (k_tableType k) = Some ctx' \<and>
           tab_ok k q ctx' \<and> tab_rest ctx' = tab_rest ctx"
proof -
  have entries: "entry_ok k q j" if "j \<in> entries (k_tableType k) ctx" for j
    using tab_ok_mono [OF assms(1,6)] that by (simp add: tab_ok_def)
  have new: "entry_ok k q (index_of k x)"
    using assms(4,5,7) enc_okD(1,7) [OF ok] by (simp add: entry_ok_def index_of_def)
  have len: "length (hashTable ctx) = LZ4_HASH_SIZE_U32"
    using assms(1) by (simp add: tab_ok_def)
  show ?thesis
  proof (cases "k_tableType k = byU16")
    case True
    then have "0 \<le> index_of k x \<and> index_of k x < 65536"
      using enc_okD(7,9) [OF ok] assms(4,7) by (auto simp: index_of_def k_iend_def)
    with True show ?thesis
      using u16.put_invariant [where c = ctx and h = h and i = "index_of k x" and P = "entry_ok k q"] assms(3) entries new len
      by (simp add: tab_ok_def slots_def)
  next
    case False
    then show ?thesis
      using u32.put_invariant [where c = ctx and h = h and i = "index_of k x" and P = "entry_ok k q"] assms(3) entries new len
        enc_okD(4) [OF ok]
      by (auto simp: tab_ok_def slots_def)
  qed
qed

section \<open>Candidates\<close>

text \<open>The tests of the search, and what a candidate that passes them is: a position of the text in
  front of the current one, at most 65535 bytes back, with four bytes in its segment.\<close>

definition passes :: "enc_cfg \<Rightarrow> ptr \<Rightarrow> int \<Rightarrow> bool" where
  "passes k p mi \<longleftrightarrow>
     \<not> (k_dictIssue k = dictSmall \<and> mi < k_prefixIdxLimit k) \<and>
     \<not> (k_tableType k \<noteq> byU16 \<and> U32 (mi + 65535) < index_of k p)"

definition candidate_at :: "enc_cfg \<Rightarrow> ptr \<Rightarrow> int \<Rightarrow> ptr \<Rightarrow> ptr \<Rightarrow> nat \<Rightarrow> bool" where
  "candidate_at k p mi match low t \<longleftrightarrow>
     match = k_at k t \<and> low = k_low k t \<and> k_text k + int t < p \<and> p - (k_text k + int t) \<le> 65535 \<and>
     (k_maybe_extMem k \<longrightarrow> U32 (index_of k p - mi) = p - (k_text k + int t)) \<and>
     (in_dict k t \<longrightarrow> t + 4 \<le> k_pre k)"

lemma prefix_limit:
  assumes "enc_ok k m0" and "k_dict k \<noteq> usingDictCtx"
  shows "k_prefixIdxLimit k = k_startIndex k - k_dictSize k" and "k_dictSize k \<le> k_startIndex k"
proof -
  show "k_dictSize k \<le> k_startIndex k"
    using enc_okD(2,7) [OF assms(1)] assms(2) by (cases "k_dict k") (auto simp: dict_mode_ok_def)
  then show "k_prefixIdxLimit k = k_startIndex k - k_dictSize k"
    using enc_okD(1,6,7,8) [OF assms(1)] by (simp add: k_prefixIdxLimit_def)
qed

text \<open>An index of the table of the state that passes the tests is in the text.\<close>

lemma index_passes:
  assumes entry: "entry_ok k p j" and ok: "enc_ok k m0" and p: "k_source k \<le> p" "p + 12 \<le> k_iend k"
    and pass: "passes k p j" and mode: "k_dict k \<noteq> usingDictCtx \<or> k_startIndex k \<le> j"
  shows "k_startIndex k - k_dictSize k \<le> j" and "index_of k p - j \<le> 65535"
proof -
  have j: "0 \<le> j" "j < index_of k p"
    using entry by (simp_all add: entry_ok_def)
  have idx: "index_of k p \<le> k_startIndex k + k_inputSize k - 12"
    using p by (simp add: index_of_def k_iend_def)
  then have j32: "U32 (j + 65535) = j + 65535"
    using j enc_okD(8) [OF ok] by simp
  show "index_of k p - j \<le> 65535"
  proof (cases "k_tableType k = byU16")
    case True
    then show ?thesis
      using enc_okD(9) [OF ok] idx j by simp
  next
    case False
    with pass j32 show ?thesis
      by (simp add: passes_def)
  qed
  show "k_startIndex k - k_dictSize k \<le> j"
  proof (rule ccontr)
    assume small: "\<not> k_startIndex k - k_dictSize k \<le> j"
    then have ctx: "k_dict k \<noteq> usingDictCtx"
      using mode enc_okD(1) [OF ok] by auto
    then have "stale_ok k j"
      using entry small by (simp add: entry_ok_def)
    then have "k_tableType k = byU32" "j + 65536 \<le> k_startIndex k"
      using pass small prefix_limit(1) [OF ok ctx] by (auto simp: stale_ok_def passes_def)
    with pass j32 p(1) show False
      by (simp add: passes_def index_of_def)
  qed
qed

lemma index_candidate:
  assumes entry: "entry_ok k p j" and ok: "enc_ok k m0" and p: "k_source k \<le> p" "p + 12 \<le> k_iend k"
    and pass: "passes k p j" and mode: "k_dict k \<noteq> usingDictCtx \<or> k_startIndex k \<le> j"
  defines "t \<equiv> nat (j - (k_startIndex k - k_dictSize k))"
  shows "candidate_at k p j (k_at k t) (k_low k t) t" and "k_text k + int t = k_base k + j"
    and "in_dict k t \<longleftrightarrow> k_maybe_extMem k \<and> j < k_startIndex k"
proof -
  note j = index_passes [OF entry ok p pass mode]
  have D: "k_dictSize k = int (k_pre k)"
    by (rule enc_okD(1) [OF ok])
  have t: "int t = j - (k_startIndex k - int (k_pre k))"
    using j(1) by (simp add: t_def D)
  then show base: "k_text k + int t = k_base k + j"
    by (simp add: k_text_def k_base_def)
  have "t < k_pre k \<longleftrightarrow> j < k_startIndex k"
    using t by linarith
  then show dict: "in_dict k t \<longleftrightarrow> k_maybe_extMem k \<and> j < k_startIndex k"
    by (auto simp: in_dict_def)
  have pos: "p - (k_text k + int t) = index_of k p - j"
    by (simp add: base index_of_base)
  have j2: "0 \<le> j" "j < index_of k p"
    using entry by (simp_all add: entry_ok_def)
  have "t + 4 \<le> k_pre k" if "in_dict k t"
  proof -
    have "k_dict k = usingExtDict"
      using that dict mode by (auto simp: k_maybe_extMem_def)
    then show ?thesis
      using entry j(1) that dict t by (auto simp: entry_ok_def)
  qed
  moreover have "U32 (index_of k p - j) = index_of k p - j"
    using j(2) j2 by simp
  moreover have "k_text k + int t < p"
    using pos j2(2) by simp
  ultimately show "candidate_at k p j (k_at k t) (k_low k t) t"
    unfolding candidate_at_def pos using j(2) by blast
qed

text \<open>The same for the table of the attached state, whose indexes are shifted.\<close>

lemma attached_candidate:
  assumes ok: "enc_ok k m0" and mode: "k_dict k = usingDictCtx" and p: "k_source k \<le> p" "p + 12 \<le> k_iend k"
    and d: "k_dictCtx k = Some d" and i: "i \<in> entries byU32 d"
    and pass: "passes k p (U32 (i + k_dictDelta k))"
  defines "t \<equiv> nat (i - (65536 - k_dictSize k))"
  shows "candidate_at k p (U32 (i + k_dictDelta k)) (k_dictBase k + i) (k_dictionary k) t"
proof -
  let ?mi = "U32 (i + k_dictDelta k)"
  have ext: "k_maybe_extMem k"
    using mode by (simp add: k_maybe_extMem_def)
  have tt: "k_tableType k \<noteq> byU16"
    using enc_okD(14) [OF ok ext] by simp
  have att: "attached_ok (k_dictSize k) d" and start: "0 < k_startIndex k"
    using enc_okD(2) [OF ok] mode d by (auto simp: dict_mode_ok_def)
  have D: "k_dictSize k = int (k_pre k)"
    by (rule enc_okD(1) [OF ok])
  have co: "currentOffset d = 65536"
    and ent: "i = 0 \<or> 65536 - int (k_pre k) \<le> i \<and> i + 4 \<le> 65536" and D64: "int (k_pre k) \<le> 65536"
    using att i D by (auto simp: attached_ok_def)
  have i0: "0 \<le> i" "i \<le> 65532"
    using ent D64 by auto
  have delta: "k_dictDelta k = U32 (k_startIndex k - 65536)"
    using mode d co by (simp add: k_dictDelta_def)
  have idx: "index_of k p \<le> k_startIndex k + k_inputSize k - 12" "k_startIndex k \<le> index_of k p"
    using p by (simp_all add: index_of_def k_iend_def)
  have "U32 (?mi + 65535) = U32 (k_startIndex k + i - 1)"
    by (simp add: delta U32_def mod_simps algebra_simps)
  also have "\<dots> = k_startIndex k + i - 1"
    using start i0 idx enc_okD(6,8) [OF ok] by simp
  finally have near: "index_of k p \<le> k_startIndex k + i - 1"
    using pass tt by (auto simp: passes_def)
  then have "i \<noteq> 0"
    using idx by auto
  with ent have i: "65536 - int (k_pre k) \<le> i" "i + 4 \<le> 65536"
    by auto
  have t: "int t = i - (65536 - int (k_pre k))" "t + 4 \<le> k_pre k"
    using i by (auto simp: t_def D)
  have dict: "in_dict k t"
    using ext t(2) by (simp add: in_dict_def)
  have null: "k_dictionary k \<noteq> NULL"
    using enc_okD(2) [OF ok] ext D t(2) by (auto simp: dict_mode_ok_def)
  have "k_dictBase k + i = k_at k t"
    using dict mode d co null D t(1) by (simp add: k_dictBase_def k_at_def)
  moreover have pos: "p - (k_text k + int t) = index_of k p - k_startIndex k + 65536 - i"
    by (simp add: t(1) k_text_def index_of_def)
  moreover have "U32 (index_of k p - ?mi) = U32 (index_of k p - k_startIndex k + 65536 - i)"
    by (simp add: delta U32_def mod_simps algebra_simps)
  moreover have "U32 (index_of k p - k_startIndex k + 65536 - i) = index_of k p - k_startIndex k + 65536 - i"
    using near idx(2) i by simp
  moreover have "0 < p - (k_text k + int t)" "p - (k_text k + int t) \<le> 65535"
    unfolding pos using near idx(2) i by auto
  ultimately show ?thesis
    using dict t(2) by (simp add: candidate_at_def k_low_def)
qed

text \<open>The low limit the search keeps is fixed where there is one segment only.\<close>

definition low_ok :: "enc_cfg \<Rightarrow> ptr \<Rightarrow> bool" where
  "low_ok k low \<longleftrightarrow> k_maybe_extMem k \<or> low = k_text k"

lemma enc_candidate_ok:
  assumes entry: "entry_ok k p j" and ok: "enc_ok k m0" and p: "k_source k \<le> p" "p + 12 \<le> k_iend k"
    and low: "low_ok k low" and h: "h < slots (k_tableType k)"
  shows "\<exists>mi match low'. enc_candidate k h j low = Some (mi, match, low') \<and> low_ok k low' \<and>
           (passes k p mi \<longrightarrow> (\<exists>t. candidate_at k p mi match low' t))"
proof -
  have D: "k_dictSize k = int (k_pre k)"
    by (rule enc_okD(1) [OF ok])
  define t where "t = nat (j - (k_startIndex k - k_dictSize k))"
  note cand = index_candidate [OF entry ok p, folded t_def]
  note at = cand(1) [unfolded k_at_def k_low_def]
  consider (plain) "k_dict k = noDict \<or> k_dict k = withPrefix64k"
    | (table) "k_dict k = usingExtDict \<or> k_dict k = usingDictCtx \<and> k_startIndex k \<le> j"
    | (attached) "k_dict k = usingDictCtx" "j < k_startIndex k"
    by (cases "k_dict k"; cases "k_startIndex k \<le> j") auto
  then show ?thesis
  proof cases
    case plain
    then have ext: "\<not> k_maybe_extMem k"
      by (auto simp: k_maybe_extMem_def)
    have "enc_candidate k h j low = Some (j, k_base k + j, low)"
      using plain by (auto simp: enc_candidate_def)
    moreover have "candidate_at k p j (k_base k + j) low t" if "passes k p j"
      using at [OF that] cand(2,3) [OF that] plain ext low by (auto simp: low_ok_def)
    ultimately show ?thesis
      using low by blast
  next
    case table
    then have ext: "k_maybe_extMem k"
      by (auto simp: k_maybe_extMem_def)
    show ?thesis
    proof (cases "j < k_startIndex k")
      case True
      then have mode: "k_dict k = usingExtDict"
        using table by auto
      have "enc_candidate k h j low = Some (j, k_dictBase k + j, k_dictionary k)"
        using mode True by (simp add: enc_candidate_def)
      moreover have "candidate_at k p j (k_dictBase k + j) (k_dictionary k) t" if "passes k p j"
      proof -
        note c = at [OF that] cand(2,3) [OF that]
        have dict: "in_dict k t"
          using c(3) mode True ext by simp
        then have "k_dictionary k \<noteq> NULL"
          using enc_okD(2) [OF ok] ext D by (auto simp: dict_mode_ok_def in_dict_def)
        then have "k_dictBase k + j = k_dictionary k + int t"
          using c(2) mode D by (simp add: k_dictBase_def k_base_def k_text_def)
        with c(1) dict mode show ?thesis
          by simp
      qed
      ultimately show ?thesis
        using ext by (auto simp: low_ok_def)
    next
      case False
      have "enc_candidate k h j low = Some (j, k_base k + j, k_source k)"
        using table False by (auto simp: enc_candidate_def)
      moreover have "candidate_at k p j (k_base k + j) (k_source k) t" if "passes k p j"
        using at [OF that] cand(2,3) [OF that] table False ext by auto
      ultimately show ?thesis
        using ext by (auto simp: low_ok_def)
    qed
  next
    case attached
    then have ext: "k_maybe_extMem k"
      by (auto simp: k_maybe_extMem_def)
    obtain d where d: "k_dictCtx k = Some d" "attached_ok (k_dictSize k) d"
      using enc_okD(2) [OF ok] attached(1) by (auto simp: dict_mode_ok_def)
    have "h < length (hashTable d)"
      using h d(2) enc_okD(14) [OF ok ext] by (simp add: slots_def attached_ok_def)
    then obtain i where i: "LZ4_getIndexOnHash h d byU32 = Some i" "i \<in> entries byU32 d"
      by (auto simp: LZ4_getIndexOnHash_def entries_def)
    have "enc_candidate k h j low = Some (U32 (i + k_dictDelta k), k_dictBase k + i, k_dictionary k)"
      using attached d i by (simp add: enc_candidate_def)
    then show ?thesis
      using attached_candidate [OF ok attached(1) p d(1) i(2)] ext by (auto simp: low_ok_def)
  qed
qed

section \<open>Results\<close>

text \<open>A good outcome: the buffers are respected and the output is a legal block for the input behind
  the history, with a table that holds only positions up to the end, or the limit was too small.\<close>

definition enc_result_ok :: "enc_cfg \<Rightarrow> mem \<Rightarrow> int \<Rightarrow> enc_state \<Rightarrow> bool" where
  "enc_result_ok k m0 r s \<longleftrightarrow>
     enc_framed k m0 (e_mem s) \<and>
     (r = 0 \<and> \<not> roomy k \<or>
      (\<exists>a qs. parse_ok (k_pre k) (enc_src k m0) a qs \<and> tab_ok k (k_iend k + 1) (e_ctx s) \<and>
         r = int (length (enc_block qs (drop a (enc_src k m0)))) \<and> r \<le> enc_cap k \<and>
         bytes (e_mem s) (k_dest k) (nat r) = enc_block qs (drop a (enc_src k m0))))"

definition enc_good :: "enc_cfg \<Rightarrow> mem \<Rightarrow> enc_pc \<Rightarrow> enc_state \<Rightarrow> bool" where
  "enc_good k m0 pc s \<longleftrightarrow> (\<exists>r s'. enc_run k pc s = Some (r, s') \<and> enc_result_ok k m0 r s')"

lemma enc_good_step:
  assumes "enc_step k pc s = Some (pc', s')" and "enc_good k m0 pc' s'" and "\<And>r. pc \<noteq> Finished r"
  shows "enc_good k m0 pc s"
proof -
  have "enc_run k pc s = enc_run k pc' s'"
    by (subst enc_run.simps) (use assms(1,3) in \<open>auto split: enc_pc.splits\<close>)
  with assms(2) show ?thesis
    by (simp add: enc_good_def)
qed

lemma enc_good_finished: "enc_result_ok k m0 r s \<Longrightarrow> enc_good k m0 (Finished r) s"
  unfolding enc_good_def by (subst enc_run.simps) simp

section \<open>Between two sequences\<close>

text \<open>The output holds the encoding of the sequences found so far, which reproduce the input up to
  the anchor.\<close>

definition seqs_bytes :: "lz_seq list \<Rightarrow> byte list" where
  "seqs_bytes qs = concat (map enc_seq qs)"

definition written :: "enc_cfg \<Rightarrow> mem \<Rightarrow> nat \<Rightarrow> lz_seq list \<Rightarrow> enc_state \<Rightarrow> bool" where
  "written k m0 a qs s \<longleftrightarrow>
     enc_framed k m0 (e_mem s) \<and> parse_ok (k_pre k) (enc_src k m0) a qs \<and>
     e_anchor s = k_text k + int a \<and> e_op s = k_dest k + int (length (seqs_bytes qs)) \<and>
     e_op s \<le> k_dend k \<and>
     bytes (e_mem s) (k_dest k) (length (seqs_bytes qs)) = seqs_bytes qs"

lemma written_cost:
  assumes "written k m0 a qs s"
  shows "length (seqs_bytes qs) \<le> (a - k_pre k) + (a - k_pre k) div 255"
    and "k_pre k \<le> a" and "a \<le> length (enc_src k m0)"
  using assms parse_okD [of "k_pre k" "enc_src k m0" a qs] by (simp_all add: written_def seqs_bytes_def)

lemma written_end:
  "written k m0 a qs s \<Longrightarrow> enc_ok k m0 \<Longrightarrow> e_anchor s + int (length (enc_src k m0) - a) = k_iend k"
  using written_cost(3) [of k m0 a qs s] by (simp add: written_def iend_text of_nat_diff)

text \<open>At the end of the search, with a table that can be used for a next block.\<close>

definition at_end :: "enc_cfg \<Rightarrow> mem \<Rightarrow> nat \<Rightarrow> lz_seq list \<Rightarrow> enc_state \<Rightarrow> bool" where
  "at_end k m0 a qs s \<longleftrightarrow> written k m0 a qs s \<and> tab_ok k (k_iend k + 1) (e_ctx s)"

text \<open>The room left, if there is enough for the worst case: the cost of what is still to be written is bounded by the
  input still to be read.\<close>

lemma int_div255: "int (n div 255) = int n div 255"
  by (simp add: zdiv_int)

lemma unlimited_room:
  assumes ok: "enc_ok k m0" and room: "roomy k"
    and "c \<le> (a - k_pre k) + (a - k_pre k) div 255" and "k_pre k \<le> a" and "a + b \<le> length (enc_src k m0)"
  shows "k_dest k + int c + int b + int (b div 255) + 16 \<le> k_dend k"
proof -
  define d where "d = a - k_pre k"
  define n where "n = nat (k_inputSize k)"
  have n: "k_inputSize k = int n" "d + b \<le> n"
    using length_enc_src [OF ok] enc_okD(6) [OF ok] assms(4,5) by (auto simp: n_def d_def)
  have "c + b + b div 255 \<le> (d + b) + (d + b) div 255"
    using assms(3) div255_add [of d b] unfolding d_def [symmetric] by linarith
  also have "\<dots> \<le> n + n div 255"
    by (intro add_mono div_le_mono n(2))
  finally have "int c + int b + int (b div 255) \<le> k_inputSize k + k_inputSize k div 255"
    unfolding n(1) int_div255 [symmetric] by linarith
  then show ?thesis
    using room by (simp add: k_dend_def roomy_def)
qed

lemma bytes_append_iff:
  "bytes m p (length (xs @ ys)) = xs @ ys \<longleftrightarrow>
     bytes m p (length xs) = xs \<and> bytes m (p + int (length xs)) (length ys) = ys"
  by (simp add: bytes_add)

text \<open>Writing behind the sequences keeps them.\<close>

lemma emitted_after:
  assumes "bytes m p (length xs) = xs" and "emitted m m' (p + int (length xs)) ys hi"
  shows "bytes m' p (length (xs @ ys)) = xs @ ys"
  unfolding bytes_append_iff
  using assms emitted_before [OF assms(2), of p "length xs"] emitted_bytes [OF assms(2)] by simp

section \<open>The last literals\<close>

lemma good_LastLiterals:
  assumes fin: "at_end k m0 a qs s" and ok: "enc_ok k m0"
  shows "enc_good k m0 LastLiterals s"
proof -
  let ?src = "enc_src k m0" and ?E = "seqs_bytes qs"
  define l where "l = length ?src - a"
  have w: "written k m0 a qs s" and tab: "tab_ok k (k_iend k + 1) (e_ctx s)"
    using fin by (simp_all add: at_end_def)
  note a = written_cost [OF w]
  have frame: "enc_framed k m0 (e_mem s)" and parse: "parse_ok (k_pre k) ?src a qs"
    and anchor: "e_anchor s = k_text k + int a" and op: "e_op s = k_dest k + int (length ?E)"
    and E: "bytes (e_mem s) (k_dest k) (length ?E) = ?E"
    using w by (auto simp: written_def)
  have iend: "e_anchor s + int l = k_iend k" and src: "k_source k \<le> e_anchor s"
    using written_end [OF w ok] a(2) k_text_pre [of k] anchor by (auto simp: l_def)
  then have n: "k_iend k - e_anchor s = int l"
    by simp
  let ?h = "length (lit_header l)"
  have h: "?h = (l + 240) div 255"
    by (simp add: length_headers)
  have lits: "drop a ?src = take l (drop a ?src)"
    by (simp add: l_def)
  have hdiv: "(int l + 255 - 15) div 255 = int ?h"
    by (simp add: h zdiv_int)
  have al: "a + l \<le> length ?src"
    using a(3) by (simp add: l_def)
  have roomy: "e_op s + 1 + int ?h + int l \<le> k_dend k" if "roomy k"
    using unlimited_room [OF ok that a(1,2) al] lit_cost [of l] unfolding op h by linarith
  show ?thesis
  proof (cases "k_output k = limitedOutput \<and>
      e_op s + int l + 1 + (int l + 255 - 15) div 255 > k_olimit k")
    case True
    then have "\<not> roomy k"
      using roomy hdiv by (auto simp: k_dend_def k_olimit_def enc_cap_def)
    then have "enc_result_ok k m0 0 s"
      using frame by (simp add: enc_result_ok_def)
    moreover from True have "enc_step k LastLiterals s = Some (Finished 0, s)"
      using n by (simp add: enc_last_literals_def enc_last_run_def Let_def)
    ultimately show ?thesis
      by (auto intro: enc_good_step enc_good_finished)
  next
    case False
    have run: "enc_last_run k s = Some (int l)"
      using False n enc_okD(3) [OF ok]
      by (cases "k_output k") (auto simp: enc_last_run_def Let_def)
    have room: "e_op s + 1 + int ?h + int l \<le> k_dend k"
      using roomy False hdiv unlimited_roomy [of k]
      by (cases "roomy k") (simp_all add: k_dend_def k_olimit_def enc_cap_def)
    note outreg = region_sub [OF enc_okD(12) [OF ok]]
    have "region (e_mem s) (e_op s) (e_op s + 1 + int ?h)"
      unfolding enc_framed_region [OF frame] by (rule outreg) (use room op in auto)
    from put_lit_header_emitted [OF this] obtain m1 where
      m1: "put_lit_header (e_mem s) (e_op s) (e_op s + 1) (int l) = Some (m1, e_op s + 1 + int ?h)"
      and e1: "emitted (e_mem s) m1 (e_op s) (token_byte l 0 # lit_header l) (e_op s + 1 + int ?h)"
      by blast
    have frame1: "enc_framed k m0 m1"
      by (rule enc_framed_step [OF frame e1]) (use room op in auto)
    let ?p = "e_op s + 1 + int ?h"
    have regs: "region m1 (e_anchor s) (e_anchor s + int l)" "region m1 ?p (?p + int l)"
      unfolding enc_framed_region [OF frame1]
      by (rule region_sub [OF enc_okD(11) [OF ok]] outreg; use iend src room op in simp)+
    have apart: "e_anchor s + int l \<le> ?p \<or> ?p + int l \<le> e_anchor s"
      using enc_okD(13) [OF ok] iend src room op by auto
    have "\<exists>m'. LZ4_memcpy m1 ?p (e_anchor s) l = Some m' \<and>
        copied m1 m' ?p (e_anchor s) (?p + int l) (?p + int l)"
      by (rule LZ4_memcpy_copied [OF regs]) (use apart in auto)
    then obtain m2 where m2: "LZ4_memcpy m1 ?p (e_anchor s) l = Some m2"
      and c2: "copied m1 m2 ?p (e_anchor s) (?p + int l) (?p + int l)"
      by blast
    have e2: "emitted m1 m2 ?p (drop a ?src) (?p + int l)"
      using copied_emitted [OF c2 regs(1) apart] enc_framed_src [OF frame1 ok a(2), of l] a(3) lits
      by (simp add: anchor l_def)
    let ?B = "enc_block qs (drop a ?src)"
    have ll: "length (drop a ?src) = l"
      by (simp add: l_def)
    have B: "?B = ?E @ (token_byte l 0 # lit_header l) @ drop a ?src"
      by (simp add: enc_block_def enc_last_def seqs_bytes_def l_def)
    have "emitted (e_mem s) m2 (e_op s) ((token_byte l 0 # lit_header l) @ drop a ?src) (?p + int l)"
      by (rule emitted_trans [OF emitted_widen [OF e1]]) (use e2 in \<open>simp_all add: add.assoc\<close>)
    then have bytes: "bytes m2 (k_dest k) (length ?B) = ?B"
      unfolding B by (intro emitted_after [OF E]) (simp add: op)
    let ?s = "s\<lparr>e_mem := m2, e_ip := e_anchor s + int l, e_op := ?p + int l\<rparr>"
    have len: "int (length ?B) = ?p + int l - k_dest k"
      unfolding B using ll by (simp add: op)
    have "enc_step k LastLiterals s = Some (Finished (?p + int l - k_dest k), ?s)"
      using run m1 m2 by (simp add: enc_last_literals_def)
    moreover have "enc_result_ok k m0 (?p + int l - k_dest k) ?s"
    proof -
      have "enc_framed k m0 m2"
        by (rule enc_framed_step [OF frame1 e2]) (use room op in auto)
      moreover have "nat (?p + int l - k_dest k) = length ?B"
        using len by simp
      ultimately show ?thesis
        using parse bytes len room tab unfolding enc_result_ok_def k_dend_def
        by (intro conjI disjI2 exI [of _ a] exI [of _ qs]) simp_all
    qed
    ultimately show ?thesis
      by (auto intro: enc_good_step enc_good_finished)
  qed
qed

section \<open>Going back from a match\<close>

lemma catch_up_loop_law:
  assumes "region m anchor ip" and "region m low match" and "anchor \<le> ip" and "low \<le> match"
  shows "\<exists>j. 0 \<le> j \<and> catch_up_loop m ip match anchor low = Some (ip - j, match - j) \<and>
           anchor \<le> ip - j \<and> low \<le> match - j \<and>
           (\<forall>i. 1 \<le> i \<and> i \<le> j \<longrightarrow> m (ip - i) = m (match - i))"
  using assms
proof (induction m ip match anchor low rule: catch_up_loop.induct)
  case (1 m ip match anchor low)
  show ?case
  proof (cases "ip > anchor \<and> match > low")
    case False
    then show ?thesis
      using "1.prems" by (subst catch_up_loop.simps) (auto intro!: exI [of _ 0])
  next
    case True
    then obtain x y where xy: "m (ip - 1) = Some x" "m (match - 1) = Some y"
      using region_Some [OF "1.prems"(1), of "ip - 1"] region_Some [OF "1.prems"(2), of "match - 1"] by auto
    show ?thesis
    proof (cases "x = y")
      case False
      then show ?thesis
        using "1.prems" True xy by (subst catch_up_loop.simps) (auto intro!: exI [of _ 0])
    next
      case eq: True
      have "\<exists>j. 0 \<le> j \<and> catch_up_loop m (ip - 1) (match - 1) anchor low = Some (ip - 1 - j, match - 1 - j) \<and>
           anchor \<le> ip - 1 - j \<and> low \<le> match - 1 - j \<and>
           (\<forall>i. 1 \<le> i \<and> i \<le> j \<longrightarrow> m (ip - 1 - i) = m (match - 1 - i))"
        by (rule "1.IH" [OF True xy eq])
          (use True in \<open>auto intro: region_sub [OF "1.prems"(1)] region_sub [OF "1.prems"(2)]\<close>)
      then obtain j where j: "0 \<le> j" "catch_up_loop m (ip - 1) (match - 1) anchor low = Some (ip - 1 - j, match - 1 - j)"
        "anchor \<le> ip - 1 - j" "low \<le> match - 1 - j"
        "\<forall>i. 1 \<le> i \<and> i \<le> j \<longrightarrow> m (ip - 1 - i) = m (match - 1 - i)"
        by blast
      have "m (ip - i) = m (match - i)" if "1 \<le> i" "i \<le> j + 1" for i
      proof (cases "i = 1")
        case False
        then have "m (ip - 1 - (i - 1)) = m (match - 1 - (i - 1))"
          using that by (intro j(5) [rule_format]) auto
        then show ?thesis
          by simp
      qed (use xy eq in simp)
      moreover have "catch_up_loop m ip match anchor low = Some (ip - (j + 1), match - (j + 1))"
        using True xy eq j(2) by (subst catch_up_loop.simps) (simp add: algebra_simps)
      ultimately show ?thesis
        using j(1,3,4) by (intro exI [of _ "j + 1"]) auto
    qed
  qed
qed

lemma catch_up_law:
  assumes "region m anchor ip" and "region m low match" and "anchor < ip" and "low \<le> match"
  shows "\<exists>j. 0 \<le> j \<and> catch_up m ip match anchor low = Some (ip - j, match - j) \<and>
           anchor \<le> ip - j \<and> low \<le> match - j \<and>
           (\<forall>i. 1 \<le> i \<and> i \<le> j \<longrightarrow> m (ip - i) = m (match - i))"
proof -
  have "catch_up m ip match anchor low = catch_up_loop m ip match anchor low"
    using assms(3) by (subst catch_up_loop.simps) (simp add: catch_up_def)
  then show ?thesis
    using catch_up_loop_law [of m anchor ip low match] assms by simp
qed

section \<open>At a match\<close>

definition lits_bytes :: "byte list \<Rightarrow> nat \<Rightarrow> nat \<Rightarrow> byte list" where
  "lits_bytes src a i = token_byte (i - a) 0 # lit_header (i - a) @ take (i - a) (drop a src)"

text \<open>The pointers of a match: the position \<open>t\<close> of the text is at distance \<open>off\<close>, and \<open>len\<close> bytes from
  it on are in its segment if that is the dictionary.\<close>

definition match_ptr :: "enc_cfg \<Rightarrow> nat \<Rightarrow> nat \<Rightarrow> nat \<Rightarrow> enc_state \<Rightarrow> bool" where
  "match_ptr k t off len s \<longleftrightarrow>
     e_match s = k_at k t \<and> e_lowLimit s = k_low k t \<and> (k_maybe_extMem k \<longrightarrow> e_offset s = int off) \<and>
     (in_dict k t \<longrightarrow> t + len \<le> k_pre k)"

text \<open>Literals from \<open>a\<close> to \<open>i\<close> are written; at \<open>i\<close> there is a match of at least \<open>len\<close> bytes at
  distance \<open>off\<close>.\<close>

definition at_match ::
  "enc_cfg \<Rightarrow> mem \<Rightarrow> nat \<Rightarrow> lz_seq list \<Rightarrow> nat \<Rightarrow> nat \<Rightarrow> nat \<Rightarrow> enc_state \<Rightarrow> bool" where
  "at_match k m0 a qs i off len s \<longleftrightarrow>
     enc_framed k m0 (e_mem s) \<and> parse_ok (k_pre k) (enc_src k m0) a qs \<and> a \<le> i \<and>
     e_ip s = k_text k + int i \<and> match_ptr k (i - off) off len s \<and>
     0 < off \<and> off \<le> i \<and> off < 65536 \<and> 4 \<le> len \<and>
     i + 12 \<le> length (enc_src k m0) \<and> i + len + 5 \<le> length (enc_src k m0) \<and>
     (\<forall>j. i \<le> j \<and> j < i + len \<longrightarrow> enc_src k m0 ! j = enc_src k m0 ! (j - off)) \<and>
     e_token s = k_dest k + int (length (seqs_bytes qs)) \<and>
     e_op s = e_token s + int (length (lits_bytes (enc_src k m0) a i)) \<and>
     e_op s + 5 \<le> k_dend k \<and>
     bytes (e_mem s) (k_dest k) (length (seqs_bytes qs @ lits_bytes (enc_src k m0) a i)) =
       seqs_bytes qs @ lits_bytes (enc_src k m0) a i \<and>
     tab_ok k (k_text k + int (i + len)) (e_ctx s)"

text \<open>The head of the main loop, and the state between a sequence and the next one.\<close>

definition at_main :: "enc_cfg \<Rightarrow> mem \<Rightarrow> nat \<Rightarrow> lz_seq list \<Rightarrow> enc_state \<Rightarrow> bool" where
  "at_main k m0 a qs s \<longleftrightarrow>
     written k m0 a qs s \<and> e_anchor s < e_ip s \<and> e_ip s \<le> k_mflimitPlusOne k \<and>
     e_forwardH s < slots (k_tableType k) \<and> tab_ok k (e_ip s) (e_ctx s) \<and> low_ok k (e_lowLimit s)"

definition after_seq :: "enc_cfg \<Rightarrow> mem \<Rightarrow> nat \<Rightarrow> lz_seq list \<Rightarrow> enc_state \<Rightarrow> bool" where
  "after_seq k m0 a qs s \<longleftrightarrow>
     written k m0 a qs s \<and> e_ip s = e_anchor s \<and> k_pre k + 4 \<le> a \<and> e_op s + 6 \<le> k_dend k \<and>
     tab_ok k (e_ip s) (e_ctx s) \<and> low_ok k (e_lowLimit s)"

lemma k_low_ok: "low_ok k (k_low k t)"
  by (simp add: low_ok_def k_low_def in_dict_def)

lemma at_endI: "written k m0 a qs s \<Longrightarrow> tab_ok k p (e_ctx s) \<Longrightarrow> p \<le> k_iend k + 1 \<Longrightarrow> at_end k m0 a qs s"
  using tab_ok_mono by (simp add: at_end_def)

lemma hash_in_input:
  assumes "enc_framed k m0 m" and "enc_ok k m0" and "k_source k \<le> p" and "p + 8 \<le> k_iend k"
  shows "\<exists>h. LZ4_hashPosition m p tt = Some h \<and> h < slots tt"
proof -
  have "region m p (p + 8)"
    unfolding enc_framed_region [OF assms(1)]
    by (rule region_sub [OF enc_okD(11) [OF assms(2)]]) (use assms(3,4) in auto)
  then show ?thesis
    by (rule hash_readable)
qed

text \<open>A candidate with four equal bytes is the start of a match.\<close>

lemma candidate_match:
  assumes frame: "enc_framed k m0 m" and ok: "enc_ok k m0" and p: "k_source k \<le> p" "p + 12 \<le> k_iend k"
    and cand: "candidate_at k p mi match low t"
  shows "\<exists>x y. LZ4_read32 m match = Some x \<and> LZ4_read32 m p = Some y \<and>
           (x = y \<longrightarrow> (\<forall>i. 0 \<le> i \<and> i < 4 \<longrightarrow> m (p + i) = m (match + i)))"
proof -
  have match: "match = k_at k t" and near: "k_text k + int t < p" and dict: "in_dict k t \<Longrightarrow> t + 4 \<le> k_pre k"
    using cand by (auto simp: candidate_at_def)
  have "t + 4 \<le> length (enc_src k m0)"
    using near p(2) iend_text [OF ok] by linarith
  from segment_region [OF frame ok this dict match] have regs: "region m match (match + 4)"
    by simp
  have regp: "region m p (p + 4)"
    unfolding enc_framed_region [OF frame]
    by (rule region_sub [OF enc_okD(11) [OF ok]]) (use p in simp_all)
  have "m (p + i) = m (match + i)"
    if "LZ4_read32 m match = LZ4_read32 m p" "0 \<le> i" "i < 4" for i
  proof -
    have "nat i < 4"
      using that by simp
    then have "m (match + int (nat i)) = m (p + int (nat i))"
      using read32_eq_iff [OF regs regp] that(1) by blast
    then show ?thesis
      using that(2) by simp
  qed
  then show ?thesis
    using read_words(2) [OF regs] read_words(2) [OF regp] by auto
qed

lemma enc_after_match_cases:
  assumes after: "after_seq k m0 a qs s" and ok: "enc_ok k m0"
  shows "\<exists>pc' s'. enc_after_match k s = Some (pc', s') \<and>
     (pc' = LastLiterals \<and> at_end k m0 a qs s' \<or>
      pc' = NextMatch \<and> (\<exists>off. at_match k m0 a qs a off 4 s') \<or>
      pc' = MainLoop \<and> at_main k m0 a qs s')"
proof -
  have w: "written k m0 a qs s" and ip: "e_ip s = k_text k + int a" and a4: "k_pre k + 4 \<le> a"
    and room: "e_op s + 6 \<le> k_dend k" and tab: "tab_ok k (e_ip s) (e_ctx s)" and low: "low_ok k (e_lowLimit s)"
    using after by (auto simp: after_seq_def written_def)
  have frame: "enc_framed k m0 (e_mem s)" and parse: "parse_ok (k_pre k) (enc_src k m0) a qs"
    and op: "e_op s = k_dest k + int (length (seqs_bytes qs))"
    and E: "bytes (e_mem s) (k_dest k) (length (seqs_bytes qs)) = seqs_bytes qs"
    and anchor: "e_anchor s = k_text k + int a"
    using w by (auto simp: written_def)
  have ipsrc: "k_source k + 4 \<le> e_ip s"
    using ip a4 k_text_pre [of k] by linarith
  show ?thesis
  proof (cases "e_ip s \<ge> k_mflimitPlusOne k")
    case True
    have "e_ip s \<le> k_iend k + 1"
      using written_cost(3) [OF w] ip iend_text [OF ok] by simp
    with True show ?thesis
      using at_endI [OF w tab] by (simp add: enc_after_match_def)
  next
    case False
    then have ipend: "e_ip s + 12 \<le> k_iend k"
      by (simp add: k_mflimitPlusOne_def)
    have ip0: "k_source k \<le> e_ip s - 2" "k_source k \<le> e_ip s"
      using ipsrc by simp_all
    obtain h1 where h1: "LZ4_hashPosition (e_mem s) (e_ip s - 2) (k_tableType k) = Some h1" "h1 < slots (k_tableType k)"
      using hash_in_input [OF frame ok ip0(1)] ipend by auto
    obtain h2 where h2: "LZ4_hashPosition (e_mem s) (e_ip s) (k_tableType k) = Some h2" "h2 < slots (k_tableType k)"
      using hash_in_input [OF frame ok ip0(2)] ipend by auto
    obtain h3 where h3: "LZ4_hashPosition (e_mem s) (e_ip s + 1) (k_tableType k) = Some h3" "h3 < slots (k_tableType k)"
      using hash_in_input [OF frame ok, of "e_ip s + 1"] ip0 ipend by auto
    obtain ctx1 where ctx1: "LZ4_putIndexOnHash (index_of k (e_ip s - 2)) h1 (e_ctx s) (k_tableType k) = Some ctx1"
      and tab1: "tab_ok k (e_ip s) ctx1"
      using tab_put [OF tab ok h1(2) ip0(1), of "e_ip s"] ipend by auto
    obtain j where j: "LZ4_getIndexOnHash h2 ctx1 (k_tableType k) = Some j" and entry: "entry_ok k (e_ip s) j"
      using tab_get [OF tab1 ok h2(2)] by blast
    obtain ctx2 where ctx2: "LZ4_putIndexOnHash (index_of k (e_ip s)) h2 ctx1 (k_tableType k) = Some ctx2"
      and tab2: "tab_ok k (e_ip s + 1) ctx2"
      using tab_put [OF tab1 ok h2(2), of "e_ip s" "e_ip s + 1"] ip0 ipend by auto
    obtain mi match low' where cand: "enc_candidate k h2 j (e_lowLimit s) = Some (mi, match, low')"
      and low': "low_ok k low'" and found: "passes k (e_ip s) mi \<longrightarrow> (\<exists>t. candidate_at k (e_ip s) mi match low' t)"
      using enc_candidate_ok [OF entry ok ip0(2) ipend low h2(2)] by blast
    have idx: "U32 (e_ip s - 2 - k_base k) = index_of k (e_ip s - 2)" "U32 (e_ip s - k_base k) = index_of k (e_ip s)"
      using index_U32 [OF ok] ip0 ipend by simp_all
    define s1 where "s1 = s\<lparr>e_ctx := ctx2, e_match := match, e_lowLimit := low'\<rparr>"
    have pass: "(k_dictIssue k = dictSmall \<longrightarrow> k_prefixIdxLimit k \<le> mi) \<and>
        (k_tableType k = byU16 \<or> index_of k (e_ip s) \<le> U32 (mi + 65535)) \<longleftrightarrow> passes k (e_ip s) mi"
      by (auto simp: passes_def)
    have step: "enc_after_match k s =
        (do { found \<leftarrow> (if passes k (e_ip s) mi
                then do { x \<leftarrow> LZ4_read32 (e_mem s) match; y \<leftarrow> LZ4_read32 (e_mem s) (e_ip s);
                          Some (x = y) }
                else Some False);
              if found then
                do { m \<leftarrow> store_bytes (e_mem s) (e_op s) [0];
                     Some (NextMatch,
                       (if k_maybe_extMem k then s1\<lparr>e_offset := U32 (index_of k (e_ip s) - mi)\<rparr> else s1)
                       \<lparr>e_mem := m, e_token := e_op s, e_op := e_op s + 1\<rparr>) }
              else Some (MainLoop, s1\<lparr>e_ip := e_ip s + 1, e_forwardH := h3\<rparr>) })"
      using False h1 h2 h3 ctx1 j ctx2 idx cand pass
      by (simp add: enc_after_match_def s1_def Let_def cong: if_cong)
    have main: "at_main k m0 a qs (s1\<lparr>e_ip := e_ip s + 1, e_forwardH := h3\<rparr>)"
      using w ip anchor h3 tab2 False low' by (simp add: at_main_def written_def s1_def)
    show ?thesis
    proof (cases "passes k (e_ip s) mi")
      case False
      have "enc_after_match k s = Some (MainLoop, s1\<lparr>e_ip := e_ip s + 1, e_forwardH := h3\<rparr>)"
        unfolding step if_not_P [OF False] by simp
      then show ?thesis
        using main by blast
    next
      case tests: True
      then obtain t where t: "candidate_at k (e_ip s) mi match low' t"
        using found by blast
      obtain x y where xy: "LZ4_read32 (e_mem s) match = Some x" "LZ4_read32 (e_mem s) (e_ip s) = Some y"
        "x = y \<longrightarrow> (\<forall>i. 0 \<le> i \<and> i < 4 \<longrightarrow> e_mem s (e_ip s + i) = e_mem s (match + i))"
        using candidate_match [OF frame ok ip0(2) ipend t] by auto
      show ?thesis
      proof (cases "x = y")
        case False
        have "enc_after_match k s = Some (MainLoop, s1\<lparr>e_ip := e_ip s + 1, e_forwardH := h3\<rparr>)"
          unfolding step using tests xy(1,2) False by simp
        then show ?thesis
          using main by blast
      next
        case True
        have "region (e_mem s) (e_op s) (e_op s + int (length [0 :: byte]))"
          unfolding enc_framed_region [OF frame]
          by (rule region_sub [OF enc_okD(12) [OF ok]]) (use op room in auto)
        from store_bytes_emitted [OF this] obtain m where m: "store_bytes (e_mem s) (e_op s) [0] = Some m"
          and e: "emitted (e_mem s) m (e_op s) [0] (e_op s + 1)"
          by auto
        define s' where "s' = (if k_maybe_extMem k then s1\<lparr>e_offset := U32 (index_of k (e_ip s) - mi)\<rparr> else s1)
            \<lparr>e_mem := m, e_token := e_op s, e_op := e_op s + 1\<rparr>"
        define off where "off = a - t"
        have off: "0 < off" "off \<le> a" "off < 65536" "a - off = t" and dict: "in_dict k t \<longrightarrow> t + 4 \<le> k_pre k"
          and match: "match = k_at k t" "low' = k_low k t"
            "k_maybe_extMem k \<Longrightarrow> U32 (index_of k (e_ip s) - mi) = int off"
          using t ip by (auto simp: off_def candidate_at_def of_nat_diff)
        have len: "a + 12 \<le> length (enc_src k m0)"
          using ipend ip iend_text [OF ok] by simp
        have "enc_src k m0 ! i = enc_src k m0 ! (i - off)" if "a \<le> i" "i < a + 4" for i
          by (rule src_run [OF frame ok off(2), of 4]) (use xy(3) True ip a4 off(4) dict match(1) len that in auto)
        moreover have "bytes m (k_dest k) (length (seqs_bytes qs @ [0])) = seqs_bytes qs @ [0]"
          by (rule emitted_after [OF E]) (use e op in simp)
        moreover have "enc_framed k m0 m"
          by (rule enc_framed_step [OF frame e]) (use op room in auto)
        moreover have "lits_bytes (enc_src k m0) a a = [0]"
          by (simp add: lits_bytes_def lit_header_def token_byte_def)
        moreover have "tab_ok k (k_text k + int (a + 4)) ctx2"
          by (rule tab_ok_mono [OF tab2]) (use ip in simp)
        moreover have "match_ptr k (a - off) off 4 s'"
          using match dict off(4) by (simp add: match_ptr_def s'_def s1_def)
        moreover have "e_mem s' = m" "e_ip s' = e_ip s" "e_token s' = e_op s" "e_op s' = e_op s + 1" "e_ctx s' = ctx2"
          by (simp_all add: s'_def s1_def)
        ultimately have "at_match k m0 a qs a off 4 s'"
          using parse ip off len op room by (simp add: at_match_def)
        moreover have "enc_after_match k s = Some (NextMatch, s')"
          unfolding step s'_def using tests xy(1,2) True m by simp
        ultimately show ?thesis
          by blast
      qed
    qed
  qed
qed

text \<open>The length of the match: in one segment, and from the dictionary into the input.\<close>

lemma run_in_memory:
  assumes frame: "enc_framed k m0 m" and ok: "enc_ok k m0" and "k_pre k \<le> i" and "off \<le> i"
    and "i + len \<le> length (enc_src k m0)" and dict: "in_dict k (i - off) \<longrightarrow> i - off + len \<le> k_pre k"
    and eq: "\<And>j. i \<le> j \<Longrightarrow> j < i + len \<Longrightarrow> enc_src k m0 ! j = enc_src k m0 ! (j - off)"
    and "4 + t < len"
  shows "m (k_text k + int i + 4 + int t) = m (k_at k (i - off) + 4 + int t)"
proof -
  have "k_at k (i - off + (4 + t)) = k_at k (i - off) + int (4 + t)"
    using dict assms(8) by (cases "in_dict k (i - off)") (simp_all add: k_at_add k_at_add')
  moreover have "m (k_at k (i + (4 + t))) = Some (enc_src k m0 ! (i + (4 + t)))"
    by (rule enc_src_nth [OF frame ok]) (use assms(5,8) in simp)
  moreover have "m (k_at k (i - off + (4 + t))) = Some (enc_src k m0 ! (i - off + (4 + t)))"
    by (rule enc_src_nth [OF frame ok]) (use assms(5,8) in simp)
  moreover have "enc_src k m0 ! (i + (4 + t)) = enc_src k m0 ! (i - off + (4 + t))"
    using eq [of "i + (4 + t)"] assms(4,8) by simp
  ultimately show ?thesis
    using assms(3) by (simp add: k_at_input add.assoc)
qed

text \<open>Counting \<open>r\<close> bytes from a position of the input and one in front of it, up to \<open>lim\<close>.\<close>

lemma count_segment:
  assumes frame: "enc_framed k m0 m" and ok: "enc_ok k m0"
    and i: "k_pre k \<le> i" and off: "0 < off" "off \<le> i" and n: "i + n + 5 \<le> length (enc_src k m0)"
    and dict: "in_dict k (i - off) \<Longrightarrow> i - off + n \<le> k_pre k"
  shows "\<exists>r \<le> n. LZ4_count m (k_text k + int i) (k_at k (i - off)) (k_text k + int i + int n) = Some (int r) \<and>
           (\<forall>j. i \<le> j \<and> j < i + r \<longrightarrow> enc_src k m0 ! j = enc_src k m0 ! (j - off)) \<and>
           (\<forall>c \<le> n. (\<forall>t < c. m (k_text k + int i + int t) = m (k_at k (i - off) + int t)) \<longrightarrow> c \<le> r)"
proof -
  let ?p = "k_text k + int i" and ?q = "k_at k (i - off)"
  obtain R where R: "common_run m ?p ?q (int n) R"
    using common_run_exists [of "int n" m ?p ?q] by auto
  have Rb: "0 \<le> R" "R \<le> int n" "\<And>t. 0 \<le> t \<Longrightarrow> t < R \<Longrightarrow> m (?p + t) = m (?q + t)"
    using R by (auto simp: common_run_def)
  have "region m ?p (?p + int n)"
    by (rule segment_region [OF frame ok, of i]) (use n i in \<open>auto simp: k_at_input in_dict_def\<close>)
  moreover have "region m ?q (?q + int n)"
    by (rule segment_region [OF frame ok _ _ refl]) (use n off dict in auto)
  ultimately have "LZ4_count m ?p ?q (?p + int n) = Some R"
    using R by (intro LZ4_count_run) simp_all
  moreover have "enc_src k m0 ! j = enc_src k m0 ! (j - off)" if "i \<le> j" "j < i + nat R" for j
    by (rule src_run [OF frame ok off(2) i, of "nat R"]) (use n dict Rb that in auto)
  moreover have "c \<le> nat R" if "c \<le> n" "\<forall>t < c. m (?p + int t) = m (?q + int t)" for c
    using common_run_test [OF R, of c] that by auto
  moreover have "nat R \<le> n" "R = int (nat R)"
    using Rb(1,2) by simp_all
  ultimately show ?thesis
    by (intro exI [of _ "nat R"]) auto
qed

lemma count_empty: "LZ4_count m p q p = Some 0"
  by (rule LZ4_count_run) (auto simp: common_run_def region_def)

lemma at_match_length:
  assumes at: "at_match k m0 a qs i off len s" and ok: "enc_ok k m0"
    and frame: "enc_framed k m0 m"
    and s1: "e_mem s1 = m" "e_ip s1 = e_ip s" "e_match s1 = e_match s" "e_lowLimit s1 = e_lowLimit s"
  shows "\<exists>mc. enc_match_length k s1 = Some (int mc, k_text k + int (i + mc + 4)) \<and>
           len \<le> mc + 4 \<and> i + mc + 9 \<le> length (enc_src k m0) \<and>
           (\<forall>j. i \<le> j \<and> j < i + (mc + 4) \<longrightarrow> enc_src k m0 ! j = enc_src k m0 ! (j - off))"
proof -
  let ?src = "enc_src k m0"
  have ip: "e_ip s = k_text k + int i" and ptr: "e_match s = k_at k (i - off)" "e_lowLimit s = k_low k (i - off)"
    and dict: "in_dict k (i - off) \<longrightarrow> i - off + len \<le> k_pre k"
    and off: "0 < off" "off \<le> i" and len: "4 \<le> len" "i + len + 5 \<le> length ?src"
    and eq: "\<And>j. i \<le> j \<Longrightarrow> j < i + len \<Longrightarrow> ?src ! j = ?src ! (j - off)"
    and "parse_ok (k_pre k) ?src a qs" "a \<le> i"
    using at by (auto simp: at_match_def match_ptr_def)
  then have pre: "k_pre k \<le> i"
    using parse_okD(1) by fastforce
  have four: "?src ! j = ?src ! (j - off)" if "i \<le> j" "j < i + 4" for j
    by (rule eq) (use that len in auto)
  have lim: "k_matchlimit k = k_text k + int (length ?src) - 5"
    by (simp add: k_matchlimit_def iend_text [OF ok])
  have known: "m (k_text k + int (i + 4) + int t) = m (k_at k (i + 4 - off) + int t)" if "t < len - 4" for t
  proof -
    have "k_at k (i + 4 - off) = k_at k (i - off) + 4"
    proof (cases "in_dict k (i - off)")
      case True
      moreover have "i + 4 - off < k_pre k"
        using dict True that off by simp
      ultimately show ?thesis
        using k_at_add [of k "i - off" 4] off by simp
    qed (use k_at_add' [of k "i - off" 4] off in simp)
    then show ?thesis
      using run_in_memory [OF frame ok pre off(2) _ dict eq, of t] len that by (simp add: algebra_simps)
  qed
  show ?thesis
  proof (cases "in_dict k (i - off)")
    case False
    define n where "n = length ?src - 5 - (i + 4)"
    have n: "i + 4 + n + 5 = length ?src"
      using len by (simp add: n_def)
    have at4: "k_at k (i + 4 - off) = k_at k (i - off) + 4"
      using k_at_add' [OF False, of 4] off by simp
    have "\<not> in_dict k (i + 4 - off)"
      using False off by (auto simp: in_dict_def)
    then obtain r where r: "r \<le> n" "LZ4_count m (k_text k + int (i + 4)) (k_at k (i - off) + 4) (k_text k + int (i + 4) + int n) = Some (int r)"
      "\<forall>j. i + 4 \<le> j \<and> j < i + 4 + r \<longrightarrow> ?src ! j = ?src ! (j - off)"
      "\<forall>c \<le> n. (\<forall>t < c. m (k_text k + int (i + 4) + int t) = m (k_at k (i + 4 - off) + int t)) \<longrightarrow> c \<le> r"
      using count_segment [OF frame ok, of "i + 4" off n] pre off n unfolding at4 by auto
    have "len - 4 \<le> r"
      using r(4) known len n by auto
    moreover have "(k_maybe_extMem k \<and> e_lowLimit s = k_dictionary k) = False"
      using False enc_okD(17) [OF ok] by (auto simp: ptr k_low_def)
    moreover have "k_matchlimit k = k_text k + int (i + 4) + int n"
      unfolding lim n [symmetric] by simp
    then have "LZ4_count m (e_ip s + 4) (e_match s + 4) (k_matchlimit k) = Some (int r)"
      using r(2) by (simp add: ip ptr add.assoc)
    ultimately have "enc_match_length k s1 = Some (int r, k_text k + int (i + r + 4))" and "len - 4 \<le> r"
      by (simp_all only: enc_match_length_def Let_def s1 if_False) (simp_all add: ip)
    moreover have "?src ! j = ?src ! (j - off)" if "i \<le> j" "j < i + (r + 4)" for j
      using four [of j] r(3) that by (cases "j < i + 4") auto
    ultimately show ?thesis
      using len r(1) n by (intro exI [of _ r]) auto
  next
    case True
    then have ext: "k_maybe_extMem k"
      by (simp add: in_dict_def)
    define L where "L = k_pre k - (i - off)"
    define n where "n = min L (length ?src - 5 - i) - 4"
    have L: "len \<le> L" "i - off + L = k_pre k"
      using dict True by (auto simp: L_def in_dict_def)
    have n: "i + (n + 4) + 5 \<le> length ?src" "n + 4 \<le> L" "n + 4 = L \<or> i + (n + 4) + 5 = length ?src"
      using len L(1) by (auto simp: n_def)
    have lenn: "len \<le> n + 4"
      using len L(1) by (auto simp: n_def)
    have limit: "min (e_ip s + (k_dictEnd k - e_match s)) (k_matchlimit k) = k_text k + int (i + 4) + int n"
    proof -
      have "k_dictEnd k - e_match s = int L"
        using enc_okD(18) [OF ok ext] True L(2) unfolding ptr(1) k_at_def by (simp add: in_dict_def)
      then show ?thesis
        using n by (auto simp: ip lim)
    qed
    obtain r where r: "r \<le> n" "LZ4_count m (k_text k + int (i + 4)) (k_at k (i - off) + 4) (k_text k + int (i + 4) + int n) = Some (int r)"
      "\<forall>j. i + 4 \<le> j \<and> j < i + 4 + r \<longrightarrow> ?src ! j = ?src ! (j - off)" "len - 4 \<le> r"
    proof (cases "n = 0")
      case True
      then show ?thesis
        by (intro that [of 0]) (use count_empty lenn in auto)
    next
      case False
      have at4: "k_at k (i + 4 - off) = k_at k (i - off) + 4"
        using k_at_add [OF True, of 4] False n(2) L(2) off by simp
      have dn: "i + 4 - off + n \<le> k_pre k" and n4: "i + 4 + n + 5 \<le> length ?src"
        and i4: "k_pre k \<le> i + 4" and off4: "off \<le> i + 4"
        using n(1,2) L(2) off pre by linarith+
      obtain r where "r \<le> n" "LZ4_count m (k_text k + int (i + 4)) (k_at k (i - off) + 4) (k_text k + int (i + 4) + int n) = Some (int r)"
        "\<forall>j. i + 4 \<le> j \<and> j < i + 4 + r \<longrightarrow> ?src ! j = ?src ! (j - off)"
        "\<forall>c \<le> n. (\<forall>t < c. m (k_text k + int (i + 4) + int t) = m (k_at k (i + 4 - off) + int t)) \<longrightarrow> c \<le> r"
        using count_segment [OF frame ok i4 off(1) off4 n4 dn] unfolding at4 by blast
      then show ?thesis
        using that known lenn by auto
    qed
    have low: "e_lowLimit s = k_dictionary k"
      using True by (simp add: ptr k_low_def)
    have upto: "?src ! j = ?src ! (j - off)" if "i \<le> j" "j < i + (r + 4)" for j
      using four [of j] r(3) that by (cases "j < i + 4") auto
    have first: "LZ4_count m (e_ip s + 4) (e_match s + 4) (k_text k + int (i + 4) + int n) = Some (int r)"
      using r(2) by (simp add: ip ptr add.assoc)
    show ?thesis
    proof (cases "r = n")
      case False
      have "enc_match_length k s1 = Some (int r, k_text k + int (i + r + 4))"
        using False first ext low limit by (simp add: enc_match_length_def Let_def s1 ip)
      then show ?thesis
        using r(1,4) n(1) upto by (intro exI [of _ r]) auto
    next
      case eqn: True
      let ?l = "k_text k + int (i + 4) + int n"
      have "\<exists>r2. LZ4_count m ?l (k_source k) (k_matchlimit k) = Some (int r2) \<and>
          i + 4 + n + r2 + 5 \<le> length ?src \<and>
          (\<forall>j. i + 4 + n \<le> j \<and> j < i + 4 + n + r2 \<longrightarrow> ?src ! j = ?src ! (j - off))"
      proof (cases "i + (n + 4) + 5 = length ?src")
        case True
        have "k_matchlimit k = ?l"
          unfolding lim True [symmetric] by simp
        then show ?thesis
          using count_empty True by (intro exI [of _ 0]) auto
      next
        case False
        then have "n + 4 = L"
          using n(3) by blast
        then have at: "i + 4 + n - off = k_pre k" "k_at k (i + 4 + n - off) = k_source k" "k_pre k \<le> i + 4 + n"
          using L(2) off pre k_text_pre [of k] by (auto simp: k_at_input)
        define n2 where "n2 = length ?src - 5 - (i + 4 + n)"
        have n2: "i + 4 + n + n2 + 5 = length ?src"
          using n(1) by (simp add: n2_def)
        obtain r2 where "r2 \<le> n2"
          "LZ4_count m (k_text k + int (i + 4 + n)) (k_source k) (k_text k + int (i + 4 + n) + int n2) = Some (int r2)"
          "\<forall>j. i + 4 + n \<le> j \<and> j < i + 4 + n + r2 \<longrightarrow> ?src ! j = ?src ! (j - off)"
          using count_segment [OF frame ok at(3) off(1), of n2] at off(2) n2
          unfolding at(2) by (auto simp: in_dict_def)
        moreover have "k_text k + int (i + 4 + n) = ?l" "k_text k + int (i + 4 + n) + int n2 = k_matchlimit k"
          unfolding lim n2 [symmetric] by simp_all
        ultimately show ?thesis
          using n2 by (intro exI [of _ r2]) (simp add: add.assoc)
      qed
      then obtain r2 where r2: "LZ4_count m ?l (k_source k) (k_matchlimit k) = Some (int r2)"
          "i + 4 + n + r2 + 5 \<le> length ?src"
          "\<forall>j. i + 4 + n \<le> j \<and> j < i + 4 + n + r2 \<longrightarrow> ?src ! j = ?src ! (j - off)"
        by blast
      have "enc_match_length k s1 = Some (int r + int r2, k_text k + int (i + (r + r2) + 4))"
        using first ext low limit r2(1) eqn by (simp add: enc_match_length_def Let_def s1 ip algebra_simps)
      moreover have "?src ! j = ?src ! (j - off)" if "i \<le> j" "j < i + (r + r2 + 4)" for j
        using upto [of j] r2(3) that eqn by (cases "j < i + (r + 4)") auto
      ultimately show ?thesis
        using r(4) r2(2) eqn by (intro exI [of _ "r + r2"]) auto
    qed
  qed
qed

text \<open>Without a limit the code of the match fits; with one it is tested.\<close>

lemma match_room:
  assumes ok: "enc_ok k m0" and parse: "parse_ok (k_pre k) (enc_src k m0) a qs" and "a \<le> i"
    and "i + mc + 9 \<le> length (enc_src k m0)"
    and op: "op = k_dest k + int (length (seqs_bytes qs)) + int (length (lits_bytes (enc_src k m0) a i)) + 2"
    and fit: "\<not> roomy k \<Longrightarrow> op + 6 + int ((mc + 240) div 255) \<le> k_olimit k"
  shows "op + 6 + int ((mc + 240) div 255) \<le> k_dend k"
proof (cases "roomy k")
  case False
  with fit show ?thesis
    by (simp add: k_dend_def k_olimit_def enc_cap_def unlimited_roomy)
next
  case True
  define ll where "ll = i - a"
  have lits: "length (lits_bytes (enc_src k m0) a i) = 1 + (ll + 240) div 255 + ll"
    using assms(3,4) by (simp add: lits_bytes_def length_headers ll_def)
  have E: "length (seqs_bytes qs) \<le> (a - k_pre k) + (a - k_pre k) div 255"
    using parse_okD(4) [OF parse] by (simp add: seqs_bytes_def)
  have "a + (ll + mc + 9) \<le> length (enc_src k m0)"
    using assms(3,4) by (simp add: ll_def)
  from unlimited_room [OF ok True E parse_okD(1) [OF parse] this]
  have *: "k_dest k + int (length (seqs_bytes qs)) + int (ll + mc + 9) + int ((ll + mc + 9) div 255) + 16 \<le> k_dend k" .
  have "(ll + mc) div 255 \<le> (ll + mc + 9) div 255"
    by (rule div_le_mono) simp
  moreover have "(mc + 240) div 255 \<le> mc div 255 + 1" "(ll + 240) div 255 \<le> ll div 255 + 1"
    by (rule lit_cost)+
  ultimately show ?thesis
    using * lits div255_add [of ll mc] unfolding op by linarith
qed

lemma enc_next_match_cases:
  assumes at: "at_match k m0 a qs i off len s" and ok: "enc_ok k m0"
  shows "\<exists>pc' s'. enc_next_match k s = Some (pc', s') \<and>
     (pc' = Finished 0 \<and> enc_result_ok k m0 0 s' \<or>
      (\<exists>a' qs'. a < a' \<and>
        (pc' = LastLiterals \<and> at_end k m0 a' qs' s' \<or>
         pc' = NextMatch \<and> (\<exists>off'. at_match k m0 a' qs' a' off' 4 s') \<or>
         pc' = MainLoop \<and> at_main k m0 a' qs' s')))"
proof -
  let ?src = "enc_src k m0" and ?E = "seqs_bytes qs"
  let ?P = "lits_bytes ?src a i"
  have frame: "enc_framed k m0 (e_mem s)" and parse: "parse_ok (k_pre k) ?src a qs" and ai: "a \<le> i"
    and ip: "e_ip s = k_text k + int i" and ptr: "match_ptr k (i - off) off len s"
    and off: "0 < off" "off \<le> i" "off < 65536" and len: "4 \<le> len"
    and i12: "i + 12 \<le> length ?src"
    and token: "e_token s = k_dest k + int (length ?E)" and op: "e_op s = e_token s + int (length ?P)"
    and room5: "e_op s + 5 \<le> k_dend k"
    and out: "bytes (e_mem s) (k_dest k) (length (?E @ ?P)) = ?E @ ?P"
    and tab: "tab_ok k (k_text k + int (i + len)) (e_ctx s)"
    using at by (auto simp: at_match_def)
  have "region (e_mem s) (e_op s) (e_op s + 2)"
    unfolding enc_framed_region [OF frame]
    by (rule region_sub [OF enc_okD(12) [OF ok]]) (use token op room5 in auto)
  from writeLE16_emitted [OF this off(3)] obtain m1 where
    m1: "LZ4_writeLE16 (e_mem s) (e_op s) (int off) = Some m1"
    and e1: "emitted (e_mem s) m1 (e_op s) (offset_bytes off) (e_op s + 2)"
    by blast
  have frame1: "enc_framed k m0 m1"
    by (rule enc_framed_step [OF frame e1]) (use token op room5 in auto)
  have out1: "bytes m1 (k_dest k) (length (?E @ (?P @ offset_bytes off))) = ?E @ (?P @ offset_bytes off)"
    using emitted_after [OF out, of m1 "offset_bytes off"] e1 token op by (simp add: add.assoc)
  define s1 where "s1 = s\<lparr>e_mem := m1, e_op := e_op s + 2\<rparr>"
  obtain mc where ml: "enc_match_length k s1 = Some (int mc, k_text k + int (i + mc + 4))"
    and mc: "len \<le> mc + 4" "i + mc + 9 \<le> length ?src"
    and run: "\<And>j. i \<le> j \<Longrightarrow> j < i + (mc + 4) \<Longrightarrow> ?src ! j = ?src ! (j - off)"
    using at_match_length [OF at ok frame1, of s1] by (auto simp: s1_def)
  define a' where "a' = i + mc + 4"
  have diff: "(if k_maybe_extMem k then e_offset s else e_ip s - e_match s) = int off"
    using ip ptr off(2) by (auto simp: match_ptr_def k_at_def in_dict_def of_nat_diff)
  have low: "low_ok k (e_lowLimit s)"
    using ptr k_low_ok by (simp add: match_ptr_def)
  have mcdiv: "(int mc + 240) div 255 = int ((mc + 240) div 255)"
    by (simp add: zdiv_int)
  show ?thesis
  proof (cases "k_output k = limitedOutput \<and> e_op s + 2 + 6 + int ((mc + 240) div 255) > k_olimit k")
    case True
    have "enc_next_match k s = Some (Finished 0, s1\<lparr>e_ip := k_text k + int (i + mc + 4)\<rparr>)"
      using m1 ml True diff enc_okD(3) [OF ok]
      by (simp add: enc_next_match_def s1_def [symmetric] enc_fit_match_def mcdiv)
    moreover have "\<not> roomy k"
      using match_room [OF ok parse ai mc(2) refl] True token op by (auto simp: k_dend_def k_olimit_def enc_cap_def)
    then have "enc_result_ok k m0 0 (s1\<lparr>e_ip := k_text k + int (i + mc + 4)\<rparr>)"
      using frame1 by (simp add: enc_result_ok_def s1_def)
    ultimately show ?thesis
      by blast
  next
    case False
    then have fit: "enc_fit_match k s1 (int mc) (k_text k + int a') =
        Some (Some (int mc, k_text k + int a', e_ctx s))"
      using enc_okD(3) [OF ok] by (cases "k_output k") (auto simp: enc_fit_match_def s1_def mcdiv)
    have room: "e_op s + 2 + 6 + int ((mc + 240) div 255) \<le> k_dend k"
      by (rule match_room [OF ok parse ai mc(2)]) (use False token op unlimited_roomy [of k] in auto)
    have mcd: "mc div 255 \<le> (mc + 240) div 255"
      by (rule div_le_mono) simp
    have "m1 (e_token s) = Some (token_byte (i - a) 0)"
    proof -
      have "bytes m1 (e_token s) (length (?P @ offset_bytes off)) = ?P @ offset_bytes off"
        using out1 unfolding bytes_append_iff token by simp
      then have "the (m1 (e_token s)) = token_byte (i - a) 0"
        by (simp add: lits_bytes_def bytes_Suc)
      moreover have "region m1 (k_dest k) (k_dend k)"
        using enc_okD(12) [OF ok] by (simp add: enc_framed_region [OF frame1])
      then have "\<exists>b. m1 (e_token s) = Some b"
        by (rule region_Some) (use token op room5 in auto)
      ultimately show ?thesis
        by auto
    qed
    moreover have "e_token s < e_op s + 2"
      using op by simp
    moreover have "region m1 (e_op s + 2) (e_op s + 2 + int (mc div 255) + 4)"
      unfolding enc_framed_region [OF frame1]
      by (rule region_sub [OF enc_okD(12) [OF ok]]) (use token op room mcd in auto)
    ultimately obtain m2 where
      m2: "put_match_code m1 (e_token s) (e_op s + 2) (int mc) =
          Some (m2, e_op s + 2 + int (length (match_header mc)))"
      and dom2: "dom m2 = dom m1" and tok2: "m2 (e_token s) = Some (token_byte (i - a) mc)"
      and mh: "bytes m2 (e_op s + 2) (length (match_header mc)) = match_header mc"
      and keep: "\<And>x. x < e_op s + 2 \<and> x \<noteq> e_token s \<or> e_op s + 2 + int (mc div 255) + 4 \<le> x \<Longrightarrow> m2 x = m1 x"
      using put_match_code_emitted by blast
    define q where "q = \<lparr>sq_lits = take (i - a) (drop a ?src), sq_off = off, sq_mlen = mc + 4\<rparr>"
    let ?tl = "lit_header (i - a) @ take (i - a) (drop a ?src) @ offset_bytes off"
    have ll: "min (length ?src - a) (i - a) = i - a"
      using ai mc(2) by simp
    have enc: "enc_seq q = (token_byte (i - a) mc # ?tl) @ match_header mc"
      by (simp add: enc_seq_def q_def ll)
    have P: "?P @ offset_bytes off = token_byte (i - a) 0 # ?tl"
      by (simp add: lits_bytes_def)
    have lenP: "length ?P + 2 = Suc (length ?tl)"
      using arg_cong [OF P, of length] by simp
    have tl: "bytes m2 (e_token s + 1) (length ?tl) = ?tl"
    proof -
      have "bytes m2 (e_token s + 1) (length ?tl) = bytes m1 (e_token s + 1) (length ?tl)"
        by (rule bytes_cong, rule keep) (use op lenP in auto)
      moreover have "bytes m1 (e_token s) (length (?P @ offset_bytes off)) = ?P @ offset_bytes off"
        using out1 unfolding bytes_append_iff token by simp
      then have "bytes m1 (e_token s + 1) (length ?tl) = ?tl"
        unfolding P by (simp add: bytes_Suc)
      ultimately show ?thesis
        by simp
    qed
    have "bytes m2 (e_token s) (length (token_byte (i - a) mc # ?tl)) = token_byte (i - a) mc # ?tl"
      using tl tok2 by (simp add: bytes_Suc)
    moreover have "e_token s + int (length (token_byte (i - a) mc # ?tl)) = e_op s + 2"
      using op lenP by simp
    ultimately have seq: "bytes m2 (e_token s) (length (enc_seq q)) = enc_seq q"
      unfolding enc bytes_append_iff using mh by (simp only: simp_thms)
    have "bytes m2 (k_dest k) (length ?E) = bytes m1 (k_dest k) (length ?E)"
      by (rule bytes_cong, rule keep) (use token op in auto)
    also have "\<dots> = ?E"
      using out1 unfolding bytes_append_iff by simp
    finally have E2: "bytes m2 (k_dest k) (length ?E) = ?E" .
    have out2: "bytes m2 (k_dest k) (length (seqs_bytes (qs @ [q]))) = seqs_bytes (qs @ [q])"
      using E2 seq token bytes_append_iff [of m2 "k_dest k" ?E "enc_seq q"] by (simp add: seqs_bytes_def)
    have parse2: "parse_ok (k_pre k) ?src a' (qs @ [q])"
      unfolding a'_def q_def add.assoc
      by (rule parse_ok_extend [OF parse ai off _ i12]) (use mc run in auto)
    have frame2: "enc_framed k m0 m2"
      using frame1 dom2 keep token op room mcd by (auto simp: enc_framed_def)
    define s2 where "s2 = s1\<lparr>e_mem := m2, e_op := e_op s + 2 + int (length (match_header mc)),
        e_ip := k_text k + int a', e_anchor := k_text k + int a', e_ctx := e_ctx s\<rparr>"
    have op2: "e_op s2 = k_dest k + int (length (seqs_bytes (qs @ [q])))"
      using op token lenP enc by (simp add: s2_def seqs_bytes_def)
    have room2: "e_op s2 + 6 \<le> k_dend k"
      using room by (simp add: s2_def length_headers)
    have "after_seq k m0 a' (qs @ [q]) s2"
      using frame2 parse2 op2 room2 out2 len mc ai parse_okD(1) [OF parse] tab_ok_mono [OF tab, of "k_text k + int a'"] low
      by (simp add: after_seq_def written_def) (simp add: s2_def s1_def a'_def)
    from enc_after_match_cases [OF this ok] obtain pc' s' where
      am: "enc_after_match k s2 = Some (pc', s')" and cases: "pc' = LastLiterals \<and> at_end k m0 a' (qs @ [q]) s' \<or>
        pc' = NextMatch \<and> (\<exists>off. at_match k m0 a' (qs @ [q]) a' off 4 s') \<or>
        pc' = MainLoop \<and> at_main k m0 a' (qs @ [q]) s'"
      by blast
    have "enc_next_match k s = enc_after_match k s2"
      using m1 ml fit m2 diff enc_okD(3) [OF ok]
      by (simp add: enc_next_match_def s1_def [symmetric] a'_def [symmetric])
        (simp add: s2_def s1_def)
    moreover have "a < a'"
      using ai by (simp add: a'_def)
    ultimately show ?thesis
      using am cases by auto
  qed
qed

section \<open>A match is found\<close>

definition at_found :: "enc_cfg \<Rightarrow> mem \<Rightarrow> nat \<Rightarrow> lz_seq list \<Rightarrow> enc_state \<Rightarrow> bool" where
  "at_found k m0 a qs s \<longleftrightarrow>
     written k m0 a qs s \<and> e_anchor s < e_ip s \<and> e_ip s + 12 \<le> k_iend k \<and>
     (\<exists>t. e_match s = k_at k t \<and> e_lowLimit s = k_low k t \<and> k_text k + int t < e_ip s \<and>
        e_ip s - (k_text k + int t) \<le> 65535 \<and>
        (k_maybe_extMem k \<longrightarrow> e_offset s = e_ip s - (k_text k + int t)) \<and> (in_dict k t \<longrightarrow> t + 4 \<le> k_pre k)) \<and>
     (\<forall>t. 0 \<le> t \<and> t < 4 \<longrightarrow> e_mem s (e_ip s + t) = e_mem s (e_match s + t)) \<and>
     tab_ok k (e_ip s + 1) (e_ctx s)"

text \<open>The room for the literals.\<close>

lemma literals_room:
  assumes ok: "enc_ok k m0" and E: "length (seqs_bytes qs) \<le> (a - k_pre k) + (a - k_pre k) div 255"
    and pre: "k_pre k \<le> a" and len: "a + ll \<le> length (enc_src k m0)" and op: "op = k_dest k + int (length (seqs_bytes qs))"
    and fit: "\<not> roomy k \<Longrightarrow> op + 1 + int ll + 8 + int ll div 255 \<le> k_olimit k"
  shows "op + 1 + int (length (lit_header ll)) + int (max (ll + 7) 8) \<le> k_dend k"
proof -
  have h: "length (lit_header ll) \<le> ll div 255 + 1" "ll = 0 \<Longrightarrow> length (lit_header ll) = 0"
    using lit_cost [of ll] by (simp_all add: length_headers)
  have "op + 1 + int ll + 8 + int (ll div 255) \<le> k_dend k"
  proof (cases "roomy k")
    case False
    with fit show ?thesis
      by (simp add: k_dend_def k_olimit_def enc_cap_def int_div255 unlimited_roomy)
  next
    case True
    from unlimited_room [OF ok True E pre len] show ?thesis
      by (simp add: op)
  qed
  then show ?thesis
    using h by (cases "ll = 0") (auto simp: max_def)
qed

lemma enc_match_found_cases:
  assumes found: "at_found k m0 a qs s" and ok: "enc_ok k m0"
  shows "\<exists>pc' s'. enc_match_found k s = Some (pc', s') \<and>
     (pc' = Finished 0 \<and> enc_result_ok k m0 0 s' \<or>
      pc' = NextMatch \<and> (\<exists>i off len. at_match k m0 a qs i off len s'))"
proof -
  let ?src = "enc_src k m0" and ?E = "seqs_bytes qs"
  have w: "written k m0 a qs s" and ip: "e_anchor s < e_ip s" "e_ip s + 12 \<le> k_iend k"
    and four: "\<And>t. 0 \<le> t \<Longrightarrow> t < 4 \<Longrightarrow> e_mem s (e_ip s + t) = e_mem s (e_match s + t)"
    and tab: "tab_ok k (e_ip s + 1) (e_ctx s)"
    using found by (auto simp: at_found_def)
  obtain t where match: "e_match s = k_at k t" "e_lowLimit s = k_low k t" "k_text k + int t < e_ip s"
      "e_ip s - (k_text k + int t) \<le> 65535"
    and offset: "k_maybe_extMem k \<Longrightarrow> e_offset s = e_ip s - (k_text k + int t)"
    and dict: "in_dict k t \<Longrightarrow> t + 4 \<le> k_pre k"
    using found by (auto simp: at_found_def)
  have frame: "enc_framed k m0 (e_mem s)" and parse: "parse_ok (k_pre k) ?src a qs"
    and op: "e_op s = k_dest k + int (length ?E)"
    and E: "bytes (e_mem s) (k_dest k) (length ?E) = ?E"
    and anchor: "e_anchor s = k_text k + int a"
    using w by (auto simp: written_def)
  note cost = written_cost [OF w]
  have src: "k_source k \<le> e_anchor s"
    using cost(2) anchor k_text_pre [of k] by simp
  have tlen: "t < length ?src"
    using match(3) ip(2) iend_text [OF ok] by simp
  have reg1: "region (e_mem s) (e_anchor s) (e_ip s)"
    unfolding enc_framed_region [OF frame] by (rule region_sub [OF enc_okD(11) [OF ok]]) (use ip src in simp_all)
  define b where "b = nat (k_low k t - (k_at k t - int t))"
  have b: "k_low k t = k_at k b" "b \<le> t" "in_dict k b = in_dict k t" "k_at k t = k_at k b + int (t - b)"
    by (auto simp: b_def k_low_def k_at_def k_text_def in_dict_def)
  have "region (e_mem s) (k_low k t) (k_low k t + int (t - b))"
    by (rule segment_region [OF frame ok _ _ b(1)]) (use tlen b(2,3) dict in auto)
  then have "region (e_mem s) (k_low k t) (e_match s)" "k_low k t \<le> e_match s"
    using b(1,4) match(1) by simp_all
  from catch_up_law [OF reg1 this(1) ip(1) this(2)] obtain j where
    cu: "catch_up (e_mem s) (e_ip s) (e_match s) (e_anchor s) (e_lowLimit s) = Some (e_ip s - j, e_match s - j)"
    and j: "0 \<le> j" "e_anchor s \<le> e_ip s - j" "k_low k t \<le> e_match s - j"
    and behind: "\<And>t. 1 \<le> t \<Longrightarrow> t \<le> j \<Longrightarrow> e_mem s (e_ip s - t) = e_mem s (e_match s - t)"
    unfolding match(2) by auto
  note seg = k_at_diff [OF j(3) [unfolded match(1)] j(1)]
  define i where "i = nat (e_ip s - j - k_text k)"
  define off where "off = nat (e_ip s - (k_text k + int t))"
  define len where "len = nat j + 4"
  define ll where "ll = i - a"
  have i: "e_ip s - j = k_text k + int i" "a \<le> i"
    using j(2) anchor by (simp_all add: i_def)
  have offp: "int off = e_ip s - (k_text k + int t)" "0 < off" "off < 65536"
    using match(3,4) by (simp_all add: off_def)
  have off: "off \<le> i" "i - off = t - nat j"
    using offp(1) i(1) seg(1) j(1) by linarith+
  have mptr: "e_match s - j = k_at k (i - off)" "k_low k (i - off) = k_low k t" "in_dict k (i - off) = in_dict k t"
    using seg(2-4) match(1) by (simp_all add: off(2))
  have seglen: "in_dict k (i - off) \<Longrightarrow> i - off + len \<le> k_pre k"
    using dict mptr(3) off(2) seg(1) j(1) by (simp add: len_def)
  have ll: "e_ip s - j - e_anchor s = int ll"
    using i anchor by (simp add: ll_def)
  have iplen: "e_ip s + 4 = k_text k + int (i + len)" "i + len + 8 \<le> length ?src"
    using i(1) j(1) ip(2) iend_text [OF ok] by (simp_all add: len_def)
  have run: "?src ! x = ?src ! (x - off)" if x: "i \<le> x" "x < i + len" for x
  proof (rule src_run [OF frame ok off(1), of len])
    show "k_pre k \<le> i" "i + len \<le> length ?src"
      using iplen i(2) cost(2) by simp_all
    show "i - off + len \<le> k_pre k" if "in_dict k (i - off)"
      by (rule seglen [OF that])
    fix t
    assume t: "0 \<le> t" "t < int len"
    have "e_mem s (e_ip s - j + t) = e_mem s (e_match s - j + t)"
    proof (cases "t < j")
      case True
      then show ?thesis
        using behind [of "j - t"] t by (simp add: algebra_simps)
    next
      case False
      then show ?thesis
        using four [of "t - j"] t j(1) by (simp add: len_def algebra_simps)
    qed
    then show "e_mem s (k_text k + int i + t) = e_mem s (k_at k (i - off) + t)"
      by (simp only: i(1) mptr(1))
  qed (use x in auto)
  have alen: "a + ll \<le> length ?src"
    using i(2) iplen(2) by (simp add: ll_def)
  define s1 where "s1 = s\<lparr>e_filledIp := e_ip s, e_ip := e_ip s - j, e_match := e_match s - j\<rparr>"
  show ?thesis
  proof (cases "k_output k = limitedOutput \<and>
      e_op s + 1 + int ll + 8 + int ll div 255 > k_olimit k")
    case True
    let ?s = "s1\<lparr>e_token := e_op s, e_op := e_op s + 1\<rparr>"
    have "enc_match_found k s = Some (Finished 0, ?s)"
      using True cu ll by (simp add: enc_match_found_def s1_def Let_def)
    moreover have "\<not> roomy k"
      using unlimited_room [OF ok _ cost(1,2) alen] True op by (auto simp: k_dend_def k_olimit_def enc_cap_def int_div255)
    then have "enc_result_ok k m0 0 ?s"
      using frame by (simp add: enc_result_ok_def s1_def)
    ultimately show ?thesis
      by blast
  next
    case False
    let ?h = "int (length (lit_header ll))"
    have room: "e_op s + 1 + ?h + int (max (ll + 7) 8) \<le> k_dend k"
      by (rule literals_room [OF ok cost(1,2) alen op]) (use False unlimited_roomy [of k] in auto)
    have "region (e_mem s) (e_op s) (e_op s + 1 + ?h)"
      unfolding enc_framed_region [OF frame]
      by (rule region_sub [OF enc_okD(12) [OF ok]]) (use room op in auto)
    from put_lit_header_emitted [OF this] obtain m1 where
      m1: "put_lit_header (e_mem s) (e_op s) (e_op s + 1) (int ll) = Some (m1, e_op s + 1 + ?h)"
      and e1: "emitted (e_mem s) m1 (e_op s) (token_byte ll 0 # lit_header ll) (e_op s + 1 + ?h)"
      by blast
    have frame1: "enc_framed k m0 m1"
      by (rule enc_framed_step [OF frame e1]) (use room op in auto)
    let ?p = "e_op s + 1 + ?h"
    let ?hi = "?p + int (max (ll + 7) 8)"
    have end8: "e_anchor s + int ll + 8 \<le> k_iend k"
      using ll ip(2) j(1) by simp
    have regs: "region m1 (e_anchor s) (e_anchor s + int ll + 8)" "region m1 ?p ?hi"
      unfolding enc_framed_region [OF frame1]
      by (rule region_sub [OF enc_okD(11) [OF ok]] region_sub [OF enc_okD(12) [OF ok]];
          use end8 src room op in simp)+
    have "e_anchor s + int ll + 8 \<le> ?p \<or> ?hi \<le> e_anchor s"
      using enc_okD(13) [OF ok] end8 src room op by auto
    then have "\<exists>m'. LZ4_wildCopy8 m1 ?p (e_anchor s) (?p + int ll) = Some m' \<and>
        emitted m1 m' ?p (bytes m1 (e_anchor s) ll) ?hi"
      by (intro literals_emitted [OF regs]) auto
    then obtain m2 where m2: "LZ4_wildCopy8 m1 ?p (e_anchor s) (?p + int ll) = Some m2"
      and e2: "emitted m1 m2 ?p (bytes m1 (e_anchor s) ll) ?hi"
      by blast
    have lits: "bytes m1 (e_anchor s) ll = take ll (drop a ?src)"
      unfolding anchor by (rule enc_framed_src [OF frame1 ok cost(2) alen])
    have lb: "lits_bytes ?src a i = (token_byte ll 0 # lit_header ll) @ take ll (drop a ?src)"
      by (simp add: lits_bytes_def ll_def)
    have e12: "emitted (e_mem s) m2 (e_op s) (lits_bytes ?src a i) ?hi"
      unfolding lb by (rule emitted_trans [OF emitted_widen [OF e1]]) (use e2 lits in \<open>simp_all add: add.assoc\<close>)
    have minll: "min (length ?src - a) ll = ll"
      using alen by simp
    have lblen: "int (length (lits_bytes ?src a i)) = 1 + ?h + int ll"
      by (simp add: lb minll)
    have out: "bytes m2 (k_dest k) (length (?E @ lits_bytes ?src a i)) = ?E @ lits_bytes ?src a i"
      by (rule emitted_after [OF E]) (use e12 op in simp)
    have frame2: "enc_framed k m0 m2"
      by (rule enc_framed_step [OF frame e12]) (use room op in auto)
    let ?s = "s1\<lparr>e_mem := m2, e_token := e_op s, e_op := ?p + int ll\<rparr>"
    have "enc_match_found k s = Some (NextMatch, ?s)"
      using False cu ll m1 m2 enc_okD(3) [OF ok]
      by (simp add: enc_match_found_def s1_def Let_def)
    moreover have "match_ptr k (i - off) off len ?s"
      using mptr seglen offset offp(1) match(2) by (auto simp: match_ptr_def s1_def)
    then have "at_match k m0 a qs i off len ?s"
      unfolding at_match_def
      using frame2 parse i off offp iplen run op lblen room out tab_ok_mono [OF tab, of "k_text k + int (i + len)"]
      by (simp add: s1_def) (simp add: len_def)
    ultimately show ?thesis
      by blast
  qed
qed

section \<open>The search\<close>

definition at_search :: "enc_cfg \<Rightarrow> mem \<Rightarrow> nat \<Rightarrow> lz_seq list \<Rightarrow> enc_state \<Rightarrow> bool" where
  "at_search k m0 a qs s \<longleftrightarrow>
     written k m0 a qs s \<and> e_anchor s < e_forwardIp s \<and> e_forwardIp s \<le> k_mflimitPlusOne k \<and>
     1 \<le> e_step s \<and> 64 \<le> e_searchMatchNb s \<and> e_forwardH s < slots (k_tableType k) \<and>
     tab_ok k (e_forwardIp s) (e_ctx s) \<and> low_ok k (e_lowLimit s)"

lemma enc_search_cases:
  assumes search: "at_search k m0 a qs s" and ok: "enc_ok k m0"
  shows "\<exists>pc' s'. enc_search k s = Some (pc', s') \<and>
     (pc' = LastLiterals \<and> at_end k m0 a qs s' \<or>
      pc' = MatchFound \<and> at_found k m0 a qs s' \<or>
      pc' = Search \<and> at_search k m0 a qs s' \<and> e_forwardIp s < e_forwardIp s')"
proof -
  let ?p = "e_forwardIp s" and ?q = "e_forwardIp s + e_step s" and ?h = "e_forwardH s"
  have w: "written k m0 a qs s" and p: "e_anchor s < ?p" "?p \<le> k_mflimitPlusOne k"
    and step: "1 \<le> e_step s" "64 \<le> e_searchMatchNb s" and h: "?h < slots (k_tableType k)"
    and tab: "tab_ok k ?p (e_ctx s)" and low: "low_ok k (e_lowLimit s)"
    using search by (auto simp: at_search_def)
  have frame: "enc_framed k m0 (e_mem s)" and anchor: "e_anchor s = k_text k + int a"
    using w by (auto simp: written_def)
  have psrc: "k_source k \<le> ?p"
    using p(1) anchor written_cost(2) [OF w] k_text_pre [of k] by simp
  obtain j where j: "LZ4_getIndexOnHash ?h (e_ctx s) (k_tableType k) = Some j" and entry: "entry_ok k ?p j"
    using tab_get [OF tab ok h] by blast
  define s1 where "s1 = s\<lparr>e_ip := ?p, e_forwardIp := ?q, e_step := e_searchMatchNb s div 64,
      e_searchMatchNb := e_searchMatchNb s + 1\<rparr>"
  have w1: "written k m0 a qs s1"
    using w by (simp add: written_def s1_def)
  show ?thesis
  proof (cases "?q > k_mflimitPlusOne k")
    case True
    have "enc_search k s = Some (LastLiterals, s1)"
      using True j by (simp add: enc_search_def s1_def Let_def)
    moreover have "at_end k m0 a qs s1"
      by (rule at_endI [OF w1, of ?p]) (use tab p(2) in \<open>simp_all add: s1_def k_mflimitPlusOne_def\<close>)
    ultimately show ?thesis
      by blast
  next
    case False
    then have q: "?q \<le> k_mflimitPlusOne k" "?p + 12 \<le> k_iend k"
      using step(1) by (simp_all add: k_mflimitPlusOne_def)
    obtain h2 where h2: "LZ4_hashPosition (e_mem s) ?q (k_tableType k) = Some h2" "h2 < slots (k_tableType k)"
      using hash_in_input [OF frame ok, of ?q] psrc q(1) step(1) by (auto simp: k_mflimitPlusOne_def)
    obtain ctx where ctx: "LZ4_putIndexOnHash (index_of k ?p) ?h (e_ctx s) (k_tableType k) = Some ctx"
      and tab1: "tab_ok k (?p + 1) ctx"
      using tab_put [OF tab ok h psrc, of "?p + 1"] q(2) by auto
    have idx: "U32 (?p - k_base k) = index_of k ?p"
      by (rule index_U32 [OF ok psrc]) (use q(2) in simp)
    obtain mi match low' where cand: "enc_candidate k ?h j (e_lowLimit s) = Some (mi, match, low')"
      and low': "low_ok k low'" and found: "passes k ?p mi \<longrightarrow> (\<exists>t. candidate_at k ?p mi match low' t)"
      using enc_candidate_ok [OF entry ok psrc q(2) low h] by blast
    define s2 where "s2 = s1\<lparr>e_match := match, e_lowLimit := low', e_forwardH := h2, e_ctx := ctx\<rparr>"
    define s3 where "s3 = (if k_maybe_extMem k then s2\<lparr>e_offset := U32 (index_of k ?p - mi)\<rparr> else s2)"
    let ?near = "\<not> (k_dictIssue k = dictSmall \<and> mi < k_prefixIdxLimit k)"
    let ?dist = "\<not> (k_tableType k \<noteq> byU16 \<and> U32 (mi + 65535) < index_of k ?p)"
    have run: "enc_search k s =
        (if \<not> ?near then Some (Search, s2) else if \<not> ?dist then Some (Search, s2)
         else do { x \<leftarrow> LZ4_read32 (e_mem s) match; y \<leftarrow> LZ4_read32 (e_mem s) ?p;
                   if x = y then Some (MatchFound, s3) else Some (Search, s2) })"
      using False j h2 ctx idx cand
      by (simp add: enc_search_def s1_def s2_def s3_def Let_def cong: if_cong)
    have "64 div 64 \<le> e_searchMatchNb s div 64"
      by (rule zdiv_mono1) (use step(2) in simp_all)
    then have "at_search k m0 a qs s2"
      using w p(1) q(1) step h2(2) tab_ok_mono [OF tab1, of ?q] low'
      by (simp add: at_search_def written_def s2_def s1_def)
    moreover have "?p < e_forwardIp s2"
      using step(1) by (simp add: s2_def s1_def)
    ultimately have again: "at_search k m0 a qs s2 \<and> ?p < e_forwardIp s2"
      by blast
    show ?thesis
    proof (cases "?near \<and> ?dist")
      case False
      have "enc_search k s = Some (Search, s2)"
        unfolding run using False by auto
      with again show ?thesis
        by blast
    next
      case True
      then obtain t where t: "candidate_at k ?p mi match low' t"
        using found unfolding passes_def by blast
      obtain x y where xy: "LZ4_read32 (e_mem s) match = Some x" "LZ4_read32 (e_mem s) ?p = Some y"
        "x = y \<longrightarrow> (\<forall>t. 0 \<le> t \<and> t < 4 \<longrightarrow> e_mem s (?p + t) = e_mem s (match + t))"
        using candidate_match [OF frame ok psrc q(2) t] by auto
      have run2: "enc_search k s = (if x = y then Some (MatchFound, s3) else Some (Search, s2))"
        unfolding run using True xy(1,2) by auto
      show ?thesis
      proof (cases "x = y")
        case False
        with run2 again show ?thesis
          by auto
      next
        case True
        have sel: "e_mem s3 = e_mem s" "e_ip s3 = ?p" "e_anchor s3 = e_anchor s" "e_op s3 = e_op s"
          "e_match s3 = match" "e_lowLimit s3 = low'" "e_ctx s3 = ctx"
          "k_maybe_extMem k \<Longrightarrow> e_offset s3 = U32 (index_of k ?p - mi)"
          by (simp_all add: s3_def s2_def s1_def)
        have "at_found k m0 a qs s3"
          using w p(1) q(2) t xy(3) True tab1
          unfolding at_found_def written_def sel candidate_at_def by (auto simp: sel(8))
        with run2 True show ?thesis
          by auto
      qed
    qed
  qed
qed

section \<open>The whole run\<close>

lemma good_Search:
  assumes "at_search k m0 a qs s" and ok: "enc_ok k m0"
    and onward: "\<And>i off len s'. at_match k m0 a qs i off len s' \<Longrightarrow> enc_good k m0 NextMatch s'"
  shows "enc_good k m0 Search s"
  using assms(1)
proof (induction "nat (k_mflimitPlusOne k - e_forwardIp s)" arbitrary: s rule: less_induct)
  case less
  from enc_search_cases [OF less.prems ok] obtain pc' s' where
    step: "enc_step k Search s = Some (pc', s')" and
    cases: "pc' = LastLiterals \<and> at_end k m0 a qs s' \<or> pc' = MatchFound \<and> at_found k m0 a qs s' \<or>
      pc' = Search \<and> at_search k m0 a qs s' \<and> e_forwardIp s < e_forwardIp s'"
    by auto
  have "enc_good k m0 pc' s'"
    using cases
  proof (elim disjE conjE)
    assume "pc' = LastLiterals" "at_end k m0 a qs s'"
    then show ?thesis
      using good_LastLiterals [OF _ ok] by simp
  next
    assume pc: "pc' = MatchFound" and "at_found k m0 a qs s'"
    from enc_match_found_cases [OF this(2) ok] obtain pc2 s2 where
      step2: "enc_step k MatchFound s' = Some (pc2, s2)" and
      cases2: "pc2 = Finished 0 \<and> enc_result_ok k m0 0 s2 \<or>
        pc2 = NextMatch \<and> (\<exists>i off len. at_match k m0 a qs i off len s2)"
      unfolding enc_step.simps by blast
    have "enc_good k m0 pc2 s2"
      using cases2 onward enc_good_finished by blast
    with step2 show ?thesis
      unfolding pc by (rule enc_good_step) simp
  next
    assume "pc' = Search" "at_search k m0 a qs s'" "e_forwardIp s < e_forwardIp s'"
    moreover have "e_forwardIp s' \<le> k_mflimitPlusOne k"
      using \<open>at_search k m0 a qs s'\<close> by (simp add: at_search_def)
    ultimately show ?thesis
      using less.hyps [of s'] by simp
  qed
  with step show ?case
    by (rule enc_good_step) simp
qed

lemma good_MainLoop:
  assumes main: "at_main k m0 a qs s" and ok: "enc_ok k m0"
    and onward: "\<And>i off len s'. at_match k m0 a qs i off len s' \<Longrightarrow> enc_good k m0 NextMatch s'"
  shows "enc_good k m0 MainLoop s"
proof -
  let ?s = "s\<lparr>e_forwardIp := e_ip s, e_step := 1, e_searchMatchNb := k_acceleration k * 64\<rparr>"
  have "at_search k m0 a qs ?s"
    using main enc_okD(5) [OF ok] by (simp add: at_main_def at_search_def written_def)
  then have "enc_good k m0 Search ?s"
    by (rule good_Search [OF _ ok]) (rule onward)
  moreover have "enc_step k MainLoop s = Some (Search, ?s)"
    by (simp add: enc_main_loop_def)
  ultimately show ?thesis
    using enc_good_step by blast
qed

text \<open>Every round of the outer loop advances the anchor.\<close>

lemma good_NextMatch:
  assumes "at_match k m0 a qs i off len s" and ok: "enc_ok k m0"
  shows "enc_good k m0 NextMatch s"
  using assms(1)
proof (induction "length (enc_src k m0) - a" arbitrary: a qs i off len s rule: less_induct)
  case less
  from enc_next_match_cases [OF less.prems ok] obtain pc' s' where
    step: "enc_step k NextMatch s = Some (pc', s')" and
    cases: "pc' = Finished 0 \<and> enc_result_ok k m0 0 s' \<or>
      (\<exists>a' qs'. a < a' \<and>
        (pc' = LastLiterals \<and> at_end k m0 a' qs' s' \<or>
         pc' = NextMatch \<and> (\<exists>off'. at_match k m0 a' qs' a' off' 4 s') \<or>
         pc' = MainLoop \<and> at_main k m0 a' qs' s'))"
    unfolding enc_step.simps by blast
  have a: "a < length (enc_src k m0)"
    using less.prems by (simp add: at_match_def)
  have again: "enc_good k m0 NextMatch s2" if "at_match k m0 a2 qs2 i2 off2 len2 s2" "a < a2"
    for a2 qs2 i2 off2 len2 s2
    by (rule less.hyps [OF _ that(1)]) (use that(2) a in simp)
  have "enc_good k m0 pc' s'"
    using cases
  proof (elim disjE conjE exE)
    fix a' qs'
    assume "a < a'" "pc' = MainLoop" "at_main k m0 a' qs' s'"
    then show ?thesis
      using good_MainLoop [OF _ ok] again by blast
  qed (use again good_LastLiterals [OF _ ok] enc_good_finished in blast)+
  with step show ?case
    by (rule enc_good_step) simp
qed

lemma good_Main:
  assumes "at_main k m0 a qs s" and "enc_ok k m0"
  shows "enc_good k m0 MainLoop s"
  by (rule good_MainLoop [OF assms]) (rule good_NextMatch [OF _ assms(2)])

end
