(* ===== verification/Lz4_Compress_Props.thy ===== *)
theory Lz4_Compress_Props
  imports Lz4_Compress_Correct Lz4_Decode_Props
begin

text \<open>
  What a caller of the encoder of src/lz4.c relies on: it returns, keeps to its buffers, its
  output is a legal block for the input, \<open>LZ4_compressBound\<close> bytes of room are always enough,
  and the decoder gives the input back.
\<close>

section \<open>Legal blocks\<close>

text \<open>The bytes are a block of the format for the content: sequences with offsets that are not 0
  and stay inside the content, the restrictions at the end, and last literals.\<close>

definition legal_block :: "byte list \<Rightarrow> byte list \<Rightarrow> bool" where
  "legal_block xs content \<longleftrightarrow>
     (\<exists>qs l. xs = enc_block qs l \<and> list_all seq_ok qs \<and> list_all (\<lambda>q. 0 < sq_off q) qs \<and>
        offsets_ok [] qs \<and> end_ok [] qs (length content) \<and> exec_seqs [] qs @ l = content)"

lemma legal_block_iff: "legal_block xs content \<longleftrightarrow> legal_after [] xs content"
  by (simp add: legal_block_def legal_after_def)

text \<open>A parse behind a history is a legal block after it.\<close>

lemma parse_legal:
  assumes "parse_ok (length h) (h @ content) a qs"
  shows "legal_after h (enc_block qs (drop a (h @ content))) content"
  unfolding legal_after_def
  by (intro exI [of _ qs] exI [of _ "drop a (h @ content)"])
    (use assms parse_ok_block(1) [OF assms refl] in \<open>simp add: parse_ok_def\<close>)

lemma legal_after_nil: "legal_after h [0] []"
  by (auto simp: legal_after_def enc_block_def enc_last_def token_byte_def lit_header_def intro!: exI [of _ "[]"])

section \<open>The arguments of a call\<close>

definition encode_args :: "mem \<Rightarrow> ptr \<Rightarrow> int \<Rightarrow> ptr \<Rightarrow> int \<Rightarrow> bool" where
  "encode_args m source n dest cap \<longleftrightarrow>
     - (2 ^ 31) \<le> n \<and> n < 2 ^ 31 \<and> 0 \<le> cap \<and> cap < 2 ^ 31 \<and>
     mapped m source (nat n) \<and> mapped m dest (nat cap) \<and>
     (source + n \<le> dest \<or> dest + cap \<le> source)"

text \<open>A good result of a call: only the output buffer has changed, the result is 0 or the size of
  a block for the input that is in it and is legal after the history.\<close>

definition encoded :: "byte list \<Rightarrow> mem \<Rightarrow> ptr \<Rightarrow> int \<Rightarrow> ptr \<Rightarrow> int \<Rightarrow> int \<Rightarrow> mem \<Rightarrow> bool" where
  "encoded h m source n dest cap r m' \<longleftrightarrow>
     only_changed dest cap m m' \<and> 0 \<le> r \<and> r \<le> cap \<and> r \<le> LZ4_compressBound n \<and>
     (0 < r \<longrightarrow> legal_after h (bytes m' dest (nat r)) (bytes m source (nat n)))"

lemma compressBound_pos: "0 \<le> n \<Longrightarrow> n \<le> 2113929216 \<Longrightarrow> LZ4_compressBound n = n + n div 255 + 16"
  by (simp add: LZ4_compressBound_def LZ4_MAX_INPUT_SIZE_def)

lemma compressBound_refused:
  assumes "- (2 ^ 31) \<le> n" and "n < 2 ^ 31" and "n < 0 \<or> 2113929216 < n"
  shows "LZ4_compressBound n = 0" and "LZ4_MAX_INPUT_SIZE < U32 n"
proof -
  have "2113929216 < U32 n"
  proof (cases "n < 0")
    case True
    then have "n mod 2 ^ 32 = (n + 2 ^ 32) mod 2 ^ 32"
      by simp
    also have "\<dots> = n + 2 ^ 32"
      by (rule mod_pos_pos_trivial) (use True assms(1) in simp_all)
    finally show ?thesis
      using assms(1) by (simp add: U32_def)
  next
    case False
    with assms show ?thesis
      by simp
  qed
  then show "LZ4_compressBound n = 0" "LZ4_MAX_INPUT_SIZE < U32 n"
    by (simp_all add: LZ4_compressBound_def LZ4_MAX_INPUT_SIZE_def)
qed

section \<open>The generic function\<close>

lemma start_written:
  assumes ok: "enc_ok k m0"
  shows "written k m0 (k_pre k) [] (enc_start k m0 ctx)"
  using enc_okD(10) [OF ok] parse_ok_nil [OF pre_le_src] k_text_pre [of k]
  by (simp add: written_def enc_start_def enc_framed_def seqs_bytes_def k_dend_def)

lemma start_low:
  assumes ok: "enc_ok k m0"
  shows "low_ok k (e_lowLimit (enc_start k m0 ctx))"
  using enc_okD(1,2) [OF ok]
  by (cases "k_dict k") (auto simp: low_ok_def enc_start_def k_text_def k_maybe_extMem_def dict_mode_ok_def)

lemma enc_enter_table: "hashTable (enc_enter ctx k) = hashTable ctx"
  by (simp add: enc_enter_def Let_def)

lemma tab_ok_enter: "tab_ok k p (enc_enter ctx k) = tab_ok k p ctx"
  by (simp add: tab_ok_def entries_def enc_enter_table)

lemma enc_first_byte_main:
  assumes ok: "enc_ok k m0" and tab: "tab_ok k (k_source k + 1) ctx" and n: "13 \<le> k_inputSize k"
  shows "\<exists>s. enc_first_byte k (enc_start k m0 ctx) = Some s \<and> at_main k m0 (k_pre k) [] s"
proof -
  let ?s = "enc_start k m0 ctx" and ?p = "k_source k"
  have frame: "enc_framed k m0 m0"
    by (simp add: enc_framed_def)
  have sel: "e_mem ?s = m0" "e_ip ?s = ?p" "e_ctx ?s = ctx"
    by (simp_all add: enc_start_def)
  have iend: "k_iend k = ?p + k_inputSize k"
    by (simp add: k_iend_def)
  obtain h where h: "LZ4_hashPosition m0 ?p (k_tableType k) = Some h" "h < slots (k_tableType k)"
    using hash_in_input [OF frame ok, of ?p] n iend by auto
  obtain h1 where h1: "LZ4_hashPosition m0 (?p + 1) (k_tableType k) = Some h1" "h1 < slots (k_tableType k)"
    using hash_in_input [OF frame ok, of "?p + 1"] n iend by auto
  obtain ctx1 where ctx1: "LZ4_putIndexOnHash (index_of k ?p) h ctx (k_tableType k) = Some ctx1"
    and tab1: "tab_ok k (?p + 1) ctx1"
    using tab_put [OF tab ok h(2), of ?p "?p + 1"] n iend by auto
  have "index_of k ?p = k_startIndex k"
    by (simp add: index_of_def)
  then have "enc_first_byte k ?s = Some (?s\<lparr>e_ctx := ctx1, e_ip := ?p + 1, e_forwardH := h1\<rparr>)"
    using h h1 ctx1 by (simp add: enc_first_byte_def sel)
  moreover have "at_main k m0 (k_pre k) [] (?s\<lparr>e_ctx := ctx1, e_ip := ?p + 1, e_forwardH := h1\<rparr>)"
    using start_written [OF ok, of ctx] tab1 h1(2) n start_low [OF ok, of ctx] k_text_pre [of k]
    by (simp add: at_main_def written_def k_mflimitPlusOne_def iend)
  ultimately show ?thesis
    by blast
qed

text \<open>In every mode the call returns a good result.\<close>

lemma validated_ok:
  assumes k: "k = enc_config ctx src dst n cap out tt dict issue acc"
    and ok: "enc_ok k m" and tab: "tab_ok k (src + 1) ctx"
  shows "\<exists>r s. LZ4_compress_generic_validated m ctx src dst n cap out tt dict issue acc =
             Some (r, None, e_ctx s, e_mem s) \<and> enc_result_ok k m r s"
proof -
  let ?s = "enc_start k m (enc_enter ctx k)"
  have sel: "k_source k = src" "k_inputSize k = n" "k_output k = out"
    by (simp_all add: k enc_config_def)
  have good: "\<exists>r s. (if n < 13 then enc_run k LastLiterals ?s
      else do { s \<leftarrow> enc_first_byte k ?s; enc_run k MainLoop s }) = Some (r, s) \<and> enc_result_ok k m r s"
  proof (cases "n < 13")
    case True
    have "tab_ok k (k_source k + 1) (e_ctx ?s)"
      using tab by (simp add: enc_start_def tab_ok_enter sel)
    then have "at_end k m (k_pre k) [] ?s"
      by (rule at_endI [OF start_written [OF ok]]) (use enc_okD(6) [OF ok] in \<open>simp add: k_iend_def\<close>)
    from good_LastLiterals [OF this ok] True show ?thesis
      by (simp add: enc_good_def)
  next
    case False
    then obtain s where "enc_first_byte k ?s = Some s" "at_main k m (k_pre k) [] s"
      using enc_first_byte_main [OF ok, of "enc_enter ctx k"] tab sel by (auto simp: tab_ok_enter)
    with good_Main [OF _ ok] False show ?thesis
      by (auto simp: enc_good_def)
  qed
  then obtain r s where run: "(if n < 13 then enc_run k LastLiterals ?s
      else do { s \<leftarrow> enc_first_byte k ?s; enc_run k MainLoop s }) = Some (r, s)" and res: "enc_result_ok k m r s"
    by blast
  have "out \<noteq> fillOutput"
    using enc_okD(3) [OF ok] by (simp add: sel)
  then have "LZ4_compress_generic_validated m ctx src dst n cap out tt dict issue acc =
      Some (r, None, e_ctx s, e_mem s)"
    unfolding LZ4_compress_generic_validated_def k [symmetric] Let_def run
    by (simp only: simp_thms if_False Option.bind.bind_lunit prod.case)
  with res show ?thesis
    by blast
qed

lemma result_encoded:
  assumes res: "enc_result_ok k m r s" and ok: "enc_ok k m" and room: "enc_cap k \<le> cap"
    and n: "k_inputSize k \<le> 2113929216"
  shows "encoded (bytes m (k_hist k) (k_pre k)) m (k_source k) (k_inputSize k) (k_dest k) cap r (e_mem s)"
    and "roomy k \<Longrightarrow> 0 < r"
proof -
  have frame: "only_changed (k_dest k) cap m (e_mem s)"
    using res room by (auto simp: enc_result_ok_def enc_framed_def only_changed_def k_dend_def)
  let ?src = "enc_src k m" and ?h = "bytes m (k_hist k) (k_pre k)"
  have n0: "0 < k_inputSize k"
    by (rule enc_okD(6) [OF ok])
  have len: "int (length ?src - k_pre k) = k_inputSize k"
    using length_enc_src [OF ok] n0 by linarith
  have bound: "LZ4_compressBound (k_inputSize k) = k_inputSize k + k_inputSize k div 255 + 16"
    by (rule compressBound_pos) (use n n0 in simp_all)
  have "encoded ?h m (k_source k) (k_inputSize k) (k_dest k) cap r (e_mem s) \<and>
      (roomy k \<longrightarrow> 0 < r)"
  proof (cases "r = 0 \<and> \<not> roomy k")
    case True
    with frame room enc_okD(10) [OF ok] bound n0 show ?thesis
      by (simp add: encoded_def pos_imp_zdiv_nonneg_iff)
  next
    case False
    with res obtain a qs where parse: "parse_ok (k_pre k) ?src a qs" and r: "r = int (length (enc_block qs (drop a ?src)))"
      "r \<le> enc_cap k" "bytes (e_mem s) (k_dest k) (nat r) = enc_block qs (drop a ?src)"
      by (auto simp: enc_result_ok_def)
    have "r \<le> int ((length ?src - k_pre k) + (length ?src - k_pre k) div 255 + 2)"
      using parse_ok_block(3) [OF parse refl] r(1) by linarith
    also have "\<dots> \<le> LZ4_compressBound (k_inputSize k)"
      unfolding bound unfolding len [symmetric] by (simp add: zdiv_int)
    finally have "r \<le> LZ4_compressBound (k_inputSize k)" .
    moreover have "0 < r"
      using r(1) by (simp add: enc_block_def enc_last_def)
    moreover have "legal_after ?h (bytes (e_mem s) (k_dest k) (nat r)) (bytes m (k_source k) (nat (k_inputSize k)))"
      unfolding r(3) enc_src_def by (rule parse_legal) (use parse in \<open>simp add: enc_src_def\<close>)
    ultimately show ?thesis
      using frame r(2) room by (simp add: encoded_def)
  qed
  then show "encoded ?h m (k_source k) (k_inputSize k) (k_dest k) cap r (e_mem s)"
    "roomy k \<Longrightarrow> 0 < r"
    by blast+
qed

section \<open>A fresh state\<close>

lemma zero_entries: "j \<in> entries tt zero_ctx \<Longrightarrow> j = 0"
  by (auto simp: entries_def zero_ctx_def half_def split: tableType_t.splits if_splits)

lemma zero_sized: "length (hashTable zero_ctx) = LZ4_HASH_SIZE_U32"
  by (simp add: zero_ctx_def)

text \<open>One call on a state with an all-zero table: with a limit, or without one if there is room for
  the worst case.\<close>

lemma generic_fresh:
  assumes args: "encode_args m src n dst cap" and n: "0 < n" "n \<le> 2113929216"
    and mode: "out = limitedOutput \<and> lim = cap \<or> out = notLimited \<and> LZ4_compressBound n \<le> cap"
    and tt: "tt = byU16 \<and> n \<le> 65547 \<or> tt = byU32" and acc: "1 \<le> acc"
  shows "\<exists>r ctx' m'. LZ4_compress_generic m zero_ctx src dst n lim out tt noDict noDictIssue acc =
             Some (r, None, ctx', m') \<and> encoded [] m src n dst cap r m' \<and> (out = notLimited \<longrightarrow> 0 < r)"
proof -
  define k where "k = enc_config zero_ctx src dst n lim out tt noDict noDictIssue acc"
  have sel: "k_source k = src" "k_inputSize k = n" "k_dest k = dst" "k_output k = out" "k_startIndex k = 0"
    "k_tableType k = tt" "k_iend k = src + n" "k_maxOutputSize k = lim"
    by (simp_all add: k_def enc_config_def zero_ctx_def k_iend_def)
  have cap: "enc_cap k \<le> cap" "0 \<le> enc_cap k"
    using mode args n compressBound_pos [of n] by (auto simp: enc_cap_def sel encode_args_def)
  have regs: "region m src (src + n)" "region m dst (dst + cap)"
    using args n by (auto simp: encode_args_def mapped_region)
  have dend: "k_dend k \<le> dst + cap"
    using cap by (simp add: k_dend_def sel)
  have dict: "k_dict k = noDict" "k_dictSize k = 0" "k_pre k = 0" "1 \<le> k_acceleration k"
    using acc by (simp_all add: k_def enc_config_def zero_ctx_def k_pre_def)
  have ok: "enc_ok k m"
    unfolding enc_ok_def sel
  proof (intro conjI)
    show "dict_mode_ok k"
      using dict by (simp add: dict_mode_ok_def k_maybe_extMem_def)
    show "tt = byU16 \<and> k_dict k = noDict \<and> 0 + n \<le> 65547 \<or> tt = byU32"
      using tt dict by auto
    have hist: "k_hist k = src"
      using dict by (simp add: k_hist_def k_maybe_extMem_def k_text_def sel)
    show "region m (k_hist k) (k_hist k + k_dictSize k)"
      by (auto simp: hist dict region_def)
    show "k_hist k + k_dictSize k \<le> dst \<or> k_dend k \<le> k_hist k"
      using args dend n by (auto simp: encode_args_def hist dict)
    show "region m dst (k_dend k)"
      by (rule region_sub [OF regs(2)]) (use dend in simp_all)
    show "src + n \<le> dst \<or> k_dend k \<le> src"
      using args dend by (auto simp: encode_args_def)
  qed (use n mode cap regs dict in auto)
  have "entry_ok k (src + 1) 0"
    using dict by (simp add: entry_ok_def index_of_def sel)
  then have tab: "tab_ok k (src + 1) zero_ctx"
    using zero_entries zero_sized by (auto simp: tab_ok_def)
  obtain r s where run: "LZ4_compress_generic_validated m zero_ctx src dst n lim out tt noDict noDictIssue acc =
      Some (r, None, e_ctx s, e_mem s)" and res: "enc_result_ok k m r s"
    using validated_ok [OF k_def ok tab] by blast
  have "encoded [] m src n dst cap r (e_mem s)" "out = notLimited \<longrightarrow> 0 < r"
    using result_encoded [OF res ok cap(1)] n dict(3) unlimited_roomy [of k] by (auto simp: sel)
  moreover have "LZ4_compress_generic m zero_ctx src dst n lim out tt noDict noDictIssue acc =
      Some (r, None, e_ctx s, e_mem s)"
    using run n by (simp add: LZ4_compress_generic_def LZ4_MAX_INPUT_SIZE_def)
  ultimately show ?thesis
    by blast
qed

lemma generic_refused:
  assumes "encode_args m src n dst cap" and "n < 0 \<or> 2113929216 < n"
  shows "LZ4_compress_generic m ctx src dst n lim out tt dict issue acc = Some (0, None, ctx, m)"
  using compressBound_refused(2) [of n] assms by (simp add: LZ4_compress_generic_def encode_args_def)

lemma generic_empty:
  assumes "encode_args m src 0 dst cap" and "out \<noteq> fillOutput"
    and "out = limitedOutput \<and> lim = cap \<or> out = notLimited \<and> LZ4_compressBound 0 \<le> cap"
  shows "\<exists>r m'. LZ4_compress_generic m ctx src dst 0 lim out tt dict issue acc = Some (r, None, ctx, m') \<and>
           encoded h m src 0 dst cap r m' \<and> (out = notLimited \<longrightarrow> 0 < r)"
proof (cases "0 < cap")
  case False
  then have "cap = 0"
    using assms(1) by (simp add: encode_args_def)
  with assms(3) show ?thesis
    by (auto simp: LZ4_compress_generic_def LZ4_MAX_INPUT_SIZE_def encoded_def LZ4_compressBound_def)
next
  case True
  have "region m dst (dst + cap)"
    using assms(1) True by (auto simp: encode_args_def mapped_region)
  then have "region m dst (dst + int (length [0 :: byte]))"
    by (rule region_sub) (use True in simp_all)
  from store_bytes_emitted [OF this] obtain m' where m': "store_bytes m dst [0] = Some m'"
    and e: "emitted m m' dst [0] (dst + 1)"
    by auto
  have "encoded h m src 0 dst cap 1 m'"
    using emitted_dom [OF e] emitted_frame [OF e] emitted_bytes [OF e] True legal_after_nil
    by (simp add: encoded_def only_changed_def compressBound_pos)
  with m' True assms(2,3) show ?thesis
    by (auto simp: LZ4_compress_generic_def LZ4_MAX_INPUT_SIZE_def)
qed

lemma encoded_refused: "0 \<le> cap \<Longrightarrow> LZ4_compressBound n = 0 \<Longrightarrow> encoded [] m src n dst cap 0 m"
  by (simp add: encoded_def)

text \<open>The modes in which the entry points call the generic function.\<close>

lemma generic_call:
  assumes args: "encode_args m src n dst cap"
    and mode: "out = limitedOutput \<and> lim = cap \<or> out = notLimited \<and> LZ4_compressBound n \<le> cap"
    and tt: "tt = byU16 \<and> n \<le> 65547 \<or> tt = byU32" and acc: "1 \<le> acc"
  shows "\<exists>r ctx' m'. LZ4_compress_generic m zero_ctx src dst n lim out tt noDict noDictIssue acc =
             Some (r, None, ctx', m') \<and> encoded [] m src n dst cap r m' \<and>
             (out = notLimited \<and> 0 \<le> n \<and> n \<le> 2113929216 \<longrightarrow> 0 < r) \<and>
             (n < 0 \<or> 2113929216 < n \<longrightarrow> r = 0 \<and> m' = m)"
proof -
  consider "n < 0 \<or> 2113929216 < n" | "n = 0" | "0 < n" "n \<le> 2113929216"
    by linarith
  then show ?thesis
  proof cases
    case 1
    then have "LZ4_compressBound n = 0" "0 \<le> cap"
      using compressBound_refused(1) [of n] args by (simp_all add: encode_args_def)
    with 1 generic_refused [OF args 1] encoded_refused show ?thesis
      by auto
  next
    case 2
    with generic_empty [where h = "[]", of m src dst cap out lim zero_ctx tt noDict noDictIssue acc] args mode show ?thesis
      by auto
  next
    case 3
    with generic_fresh [OF args 3 mode tt acc] show ?thesis
      by auto
  qed
qed

lemma clamp_acceleration_pos: "1 \<le> clamp_acceleration a"
  by (simp add: clamp_acceleration_def Let_def)

lemma initStream_local: "LZ4_initStream local_state sizeof_LZ4_stream_t = Some zero_ctx"
  by (simp add: LZ4_initStream_def NULL_def LZ4_isAligned_def LZ4_stream_t_alignment_def local_state_def)

lemma compress_fast_call:
  assumes args: "encode_args m src n dst cap"
  shows "\<exists>r m'. LZ4_compress_fast m src dst n cap acc = Some (r, m') \<and> encoded [] m src n dst cap r m' \<and>
           (0 \<le> n \<and> n \<le> 2113929216 \<and> LZ4_compressBound n \<le> cap \<longrightarrow> 0 < r) \<and>
           (n < 0 \<or> 2113929216 < n \<longrightarrow> r = 0 \<and> m' = m)"
proof -
  let ?a = "clamp_acceleration acc"
  define tt where "tt = (if n < LZ4_64Klimit then byU16 else byU32)"
  define out where "out = (if LZ4_compressBound n \<le> cap then notLimited else limitedOutput)"
  define lim where "lim = (if LZ4_compressBound n \<le> cap then 0 else cap)"
  have mode: "out = limitedOutput \<and> lim = cap \<or> out = notLimited \<and> LZ4_compressBound n \<le> cap"
    and tt: "tt = byU16 \<and> n \<le> 65547 \<or> tt = byU32"
    by (simp_all add: out_def lim_def tt_def)
  obtain r ctx' m' where run: "LZ4_compress_generic m zero_ctx src dst n lim out tt noDict noDictIssue ?a =
      Some (r, None, ctx', m')" and res: "encoded [] m src n dst cap r m'"
      "out = notLimited \<and> 0 \<le> n \<and> n \<le> 2113929216 \<longrightarrow> 0 < r" "n < 0 \<or> 2113929216 < n \<longrightarrow> r = 0 \<and> m' = m"
    using generic_call [OF args mode tt clamp_acceleration_pos] by blast
  have "LZ4_compress_fast m src dst n cap acc = Some (r, m')"
    using run by (auto simp: LZ4_compress_fast_def LZ4_compress_fast_extState_def initStream_local
        out_def lim_def tt_def split: if_splits)
  with res show ?thesis
    by (auto simp: out_def)
qed

section \<open>Properties of the encoder\<close>

abbreviation text_mem :: mem where
  "text_mem \<equiv> two_buffers 16 (replicate 20 97) 64 (replicate 128 0)"

lemma text_region:
  assumes "a = 16 \<and> b = 36 \<or> 64 \<le> a \<and> b \<le> 192"
  shows "region text_mem a b"
proof -
  have "decode_args text_mem 16 20 64 128 0"
    by (rule two_buffers_args) simp_all
  then have "region text_mem 16 36" "region text_mem 64 192"
    by (simp_all add: decode_args_def mapped_region)
  with assms show ?thesis
    by (auto intro: region_sub)
qed

lemma text_args: "encode_args text_mem 16 20 64 64"
  using text_region [of 16 36] text_region [of 64 128] by (simp add: encode_args_def mapped_region)

text \<open>C3: \<open>LZ4_compress_fast\<close> returns for every input, size and acceleration, without an access
  outside the two buffers, and writes nothing but the output buffer. The result is 0 or the size
  of a legal block for the input that is in the output buffer; it is at most the room given and
  at most \<open>LZ4_compressBound\<close>.\<close>

theorem LZ4_compress_fast_correct:
  assumes "encode_args m src n dst cap"
  shows "\<exists>r m'. LZ4_compress_fast m src dst n cap acc = Some (r, m') \<and>
           only_changed dst cap m m' \<and> 0 \<le> r \<and> r \<le> cap \<and> r \<le> LZ4_compressBound n \<and>
           (0 < r \<longrightarrow> legal_block (bytes m' dst (nat r)) (bytes m src (nat n)))"
  using compress_fast_call [OF assms, of acc] by (auto simp: encoded_def legal_block_iff)

theorem LZ4_compress_fast_correct_witness:
  "\<exists>r m'. LZ4_compress_fast text_mem 16 64 20 64 7 = Some (r, m') \<and> only_changed 64 64 text_mem m' \<and>
     0 < r \<and> r \<le> 64 \<and> legal_block (bytes m' 64 (nat r)) (bytes text_mem 16 (nat 20))"
proof -
  obtain r m' where run: "LZ4_compress_fast text_mem 16 64 20 64 7 = Some (r, m')" "0 < r"
    using compress_fast_call [OF text_args, of 7] by (auto simp: compressBound_pos)
  from LZ4_compress_fast_correct [OF text_args, of 7] run show ?thesis
    by auto
qed

text \<open>C23: With \<open>LZ4_compressBound\<close> bytes of room the compression of a supported size does not
  fail.\<close>

theorem LZ4_compress_bound_suffices:
  assumes "encode_args m src n dst cap" and "0 \<le> n" and "n \<le> LZ4_MAX_INPUT_SIZE"
    and "LZ4_compressBound n \<le> cap"
  shows "\<exists>r m'. LZ4_compress_default m src dst n cap = Some (r, m') \<and> 0 < r"
  using compress_fast_call [OF assms(1), of 1] assms
  by (auto simp: LZ4_compress_default_def LZ4_MAX_INPUT_SIZE_def)

theorem LZ4_compress_bound_suffices_witness:
  "\<exists>r m'. LZ4_compress_default text_mem 16 64 20 64 = Some (r, m') \<and> 0 < r"
  by (rule LZ4_compress_bound_suffices [OF text_args])
    (simp_all add: LZ4_MAX_INPUT_SIZE_def compressBound_pos)

text \<open>C1: What \<open>LZ4_compress_default\<close> has written, \<open>LZ4_decompress_safe\<close> turns back into the
  input.\<close>

theorem LZ4_roundtrip:
  assumes enc: "encode_args m src n dst cap" and dec: "decode_args m dst cap out capo 0"
    and run: "LZ4_compress_default m src dst n cap = Some (r, m')" and "0 < r" and "n \<le> capo"
  shows "\<exists>m''. LZ4_decompress_safe m' dst out r capo = Some (n, m'') \<and>
           bytes m'' out (nat n) = bytes m src (nat n) \<and> only_changed out capo m' m''"
proof -
  from compress_fast_call [OF enc, of 1] run
  have res: "encoded [] m src n dst cap r m'" and n: "0 \<le> n"
    using \<open>0 < r\<close> by (auto simp: LZ4_compress_default_def)
  then have r: "r \<le> cap" "dom m' = dom m" "legal_block (bytes m' dst (nat r)) (bytes m src (nat n))"
    using \<open>0 < r\<close> by (simp_all add: encoded_def only_changed_def legal_block_iff)
  have "region m dst (dst + cap)"
    using dec by (auto simp: decode_args_def mapped_region)
  then have "region m dst (dst + r)"
    by (rule region_sub) (use r(1) in simp_all)
  then have args: "decode_args m' dst r out capo 0"
    using dec r(1) \<open>0 < r\<close> by (auto simp: decode_args_def mapped_region region_dom [OF r(2)])
  from r(3) obtain qs l where block: "bytes m' dst (nat r) = enc_block qs l"
    and seqs: "list_all seq_ok qs" "offsets_ok [] qs" "end_ok [] qs (length (bytes m src (nat n)))"
    and content: "exec_seqs [] qs @ l = bytes m src (nat n)"
    by (auto simp: legal_block_def)
  have "int (length (bytes m src (nat n))) \<le> capo"
    using \<open>n \<le> capo\<close> n by simp
  from plain_complete [OF safe_cfg_plain, of m' dst out r capo 0 qs l "bytes m src (nat n)"] args block seqs content this
  show ?thesis
    using n by (simp add: LZ4_decompress_safe_cfg)
qed

theorem LZ4_roundtrip_witness:
  "\<exists>r m' m''. LZ4_compress_default text_mem 16 64 20 64 = Some (r, m') \<and>
     LZ4_decompress_safe m' 64 128 r 64 = Some (20, m'') \<and> bytes m'' 128 (nat 20) = bytes text_mem 16 (nat 20)"
proof -
  obtain r m' where run: "LZ4_compress_default text_mem 16 64 20 64 = Some (r, m')" "0 < r"
    using compress_fast_call [OF text_args, of 1] by (auto simp: LZ4_compress_default_def compressBound_pos)
  have "decode_args text_mem 64 64 128 64 0"
    using text_region [of 64 128] text_region [of 128 192] by (simp add: decode_args_def mapped_region)
  from LZ4_roundtrip [OF text_args this run] run show ?thesis
    by auto
qed

text \<open>A negative size and one above \<open>LZ4_MAX_INPUT_SIZE\<close> are refused, and nothing is
  written.\<close>

theorem LZ4_compress_refused:
  assumes "encode_args m src n dst cap" and "n < 0 \<or> LZ4_MAX_INPUT_SIZE < n"
  shows "LZ4_compress_fast m src dst n cap acc = Some (0, m)"
  using compress_fast_call [OF assms(1), of acc] assms(2) by (auto simp: LZ4_MAX_INPUT_SIZE_def)

theorem LZ4_compress_refused_witness: "LZ4_compress_fast text_mem 16 64 (- 1) 64 1 = Some (0, text_mem)"
  by (rule LZ4_compress_refused) (use text_args in \<open>auto simp: encode_args_def mapped_def\<close>)

end
