(* ===== verification/Lz4_Stream_State.thy ===== *)
theory Lz4_Stream_State
  imports Lz4_Stream Lz4_Compress_Props
begin

text \<open>
  The states of the streaming encoder of src/lz4.c. \<open>stream_ok\<close> is the invariant of a state between two
  calls: its table holds positions of data it has seen, its dictionary lies within the index range. Every
  operation keeps it: \<open>LZ4_loadDict\<close>, \<open>LZ4_attach_dictionary\<close>, \<open>LZ4_saveDict\<close>, \<open>LZ4_renormDictT\<close> and
  \<open>LZ4_compress_fast_continue\<close>.
\<close>

section \<open>The encoder changes only the table of its state\<close>

lemma put_rest: "LZ4_putIndexOnHash i h c tt = Some c' \<Longrightarrow> tab_rest c' = tab_rest c"
  by (auto simp: LZ4_putIndexOnHash_def tab_rest_def split: tableType_t.splits if_splits)

lemma clear_rest: "LZ4_clearHash h c tt = Some c' \<Longrightarrow> tab_rest c' = tab_rest c"
  by (auto simp: LZ4_clearHash_def tab_rest_def split: tableType_t.splits if_splits)

lemma clear_positions_rest: "clear_positions k m c p f = Some c' \<Longrightarrow> tab_rest c' = tab_rest c"
proof (induction k m c p f rule: clear_positions.induct)
  case (1 k m ctx p f)
  show ?case
  proof (cases "p \<le> f")
    case True
    with "1.prems" obtain h c1 where "LZ4_hashPosition m p (k_tableType k) = Some h"
        "LZ4_clearHash h ctx (k_tableType k) = Some c1" "clear_positions k m c1 (p + 1) f = Some c'"
      by (subst (asm) clear_positions.simps) (auto split: bind_splits)
    then show ?thesis
      using "1.IH" [OF True] clear_rest [of h ctx "k_tableType k" c1] by simp
  next
    case False
    with "1.prems" show ?thesis
      by (subst (asm) clear_positions.simps) simp
  qed
qed

lemma enc_fit_match_rest:
  "enc_fit_match k s mc ip = Some (Some (mc', ip', c)) \<Longrightarrow> tab_rest c = tab_rest (e_ctx s)"
  by (auto simp: enc_fit_match_def Let_def split: if_splits bind_splits dest: clear_positions_rest)

lemma enc_after_match_rest: "enc_after_match k s = Some (pc, s') \<Longrightarrow> tab_rest (e_ctx s') = tab_rest (e_ctx s)"
  by (auto simp: enc_after_match_def Let_def split: if_splits bind_splits dest!: put_rest)

lemma enc_step_rest: "enc_step k pc s = Some (pc', s') \<Longrightarrow> tab_rest (e_ctx s') = tab_rest (e_ctx s)"
proof (cases pc)
  case NextMatch
  assume "enc_step k pc s = Some (pc', s')"
  then show ?thesis
    unfolding NextMatch
    by (auto simp: enc_next_match_def Let_def split: if_splits bind_splits option.splits
        dest!: enc_after_match_rest enc_fit_match_rest)
qed (auto simp: enc_main_loop_def enc_search_def enc_match_found_def enc_last_literals_def Let_def
    split: if_splits bind_splits option.splits dest!: put_rest)

lemma enc_run_rest:
  assumes "enc_run k pc s = Some y"
  shows "tab_rest (e_ctx (snd y)) = tab_rest (e_ctx s)"
proof (rule enc_run.raw_induct [where P = "\<lambda>k pc s y. tab_rest (e_ctx (snd y)) = tab_rest (e_ctx s)", OF _ assms])
  fix run k pc s y
  assume ih: "\<And>k pc s y. run k pc s = Some y \<Longrightarrow> tab_rest (e_ctx (snd y)) = tab_rest (e_ctx s)"
    and ret: "(case pc of Finished r \<Rightarrow> Some (r, s)
      | _ \<Rightarrow> Option.bind (enc_step k pc s) (\<lambda>r. run k (fst r) (snd r))) = Some y"
  show "tab_rest (e_ctx (snd y)) = tab_rest (e_ctx s)"
  proof (cases "\<exists>r. pc = Finished r")
    case True
    with ret show ?thesis
      by auto
  next
    case False
    with ret obtain pc2 s2 where "enc_step k pc s = Some (pc2, s2)" "run k pc2 s2 = Some y"
      by (cases pc) (auto split: bind_splits)
    with ih enc_step_rest show ?thesis
      by metis
  qed
qed

lemma validated_rest:
  assumes run: "LZ4_compress_generic_validated m c src dst n cap out tt dict issue acc = Some (r, x, c', m')"
    and "out \<noteq> fillOutput"
  shows "tab_rest c' = tab_rest (enc_enter c (enc_config c src dst n cap out tt dict issue acc))"
proof -
  let ?k = "enc_config c src dst n cap out tt dict issue acc"
  let ?s = "enc_start ?k m (enc_enter c ?k)"
  have ctx: "e_ctx ?s = enc_enter c ?k"
    by (simp add: enc_start_def)
  obtain y where "(if n < 13 then enc_run ?k LastLiterals ?s
      else do { s \<leftarrow> enc_first_byte ?k ?s; enc_run ?k MainLoop s }) = Some y" and c': "c' = e_ctx (snd y)"
    using run assms(2) unfolding LZ4_compress_generic_validated_def Let_def
    by (auto split: bind_splits if_splits)
  moreover have "tab_rest (e_ctx s) = tab_rest (e_ctx ?s)" if "enc_first_byte ?k ?s = Some s" for s
    using that by (auto simp: enc_first_byte_def split: bind_splits dest!: put_rest)
  ultimately show ?thesis
    by (auto simp: ctx c' split: if_splits bind_splits dest!: enc_run_rest)
qed

section \<open>The states between two calls\<close>

definition index_ok :: "int \<Rightarrow> int \<Rightarrow> bool" where
  "index_ok n j \<longleftrightarrow> 0 \<le> j \<and> (j = 0 \<or> j + 4 \<le> n)"

text \<open>A state that can be attached: the table of \<open>LZ4_loadDict\<close> holds positions of its dictionary, whose
  end has the index 64 KB.\<close>

definition dict_stream :: "lz4_tab \<Rightarrow> bool" where
  "dict_stream d \<longleftrightarrow> 4 \<le> dictSize d \<and> 0 < dictionary d \<and> attached_ok (dictSize d) d"

definition stream_ok :: "lz4_ctx \<Rightarrow> bool" where
  "stream_ok ctx \<longleftrightarrow>
     length (hashTable ctx) = LZ4_HASH_SIZE_U32 \<and> 0 \<le> dictSize ctx \<and> dictSize ctx \<le> currentOffset ctx \<and>
     currentOffset ctx \<le> 2 ^ 31 \<and> (\<forall>j \<in> set (hashTable ctx). index_ok (currentOffset ctx) j) \<and>
     (dictSize ctx = 0 \<or> 0 < dictionary ctx) \<and>
     (case dictCtx ctx of None \<Rightarrow> True | Some d \<Rightarrow> 0 < currentOffset ctx \<and> dict_stream d)"

lemma stream_okD:
  assumes "stream_ok ctx"
  shows "length (hashTable ctx) = LZ4_HASH_SIZE_U32" "0 \<le> dictSize ctx" "dictSize ctx \<le> currentOffset ctx"
    "currentOffset ctx \<le> 2147483648" "\<And>j. j \<in> set (hashTable ctx) \<Longrightarrow> index_ok (currentOffset ctx) j"
    "dictSize ctx = 0 \<or> 0 < dictionary ctx"
    "\<And>d. dictCtx ctx = Some d \<Longrightarrow> 0 < currentOffset ctx \<and> dict_stream d"
  using assms by (auto simp: stream_ok_def)

lemma zero_stream_ok: "stream_ok zero_ctx"
  by (simp add: stream_ok_def zero_ctx_def index_ok_def)

lemma entries_byU32: "entries byU32 tab = set (hashTable tab)"
  by (simp add: entries_def)

section \<open>The dictionary of a call\<close>

text \<open>What \<open>LZ4_compress_fast_continue\<close> does to its state before it compresses, and the end of the
  dictionary it compares with the start of the input.\<close>

definition prepared :: "lz4_ctx \<Rightarrow> ptr \<Rightarrow> int \<Rightarrow> lz4_ctx \<times> ptr" where
  "prepared ctx source n =
     (let dictEnd = (if dictSize ctx \<noteq> 0 then dictionary ctx + dictSize ctx else NULL);
          (ctx, dictEnd) = drop_tiny_dict (LZ4_renormDictT ctx n) dictEnd source n
      in (shorten_dict ctx dictEnd (source + n), dictEnd))"

text \<open>Renormalising moves all indexes down, so that those of the last 64 KB stay valid.\<close>

lemma renorm_ok:
  assumes ok: "stream_ok ctx" and n: "0 \<le> n" "n \<le> 2113929216"
  defines "c \<equiv> LZ4_renormDictT ctx n"
  shows "stream_ok c" and "currentOffset c + n \<le> 2147483648" and "dictCtx c = dictCtx ctx"
    and "dictSize c \<le> dictSize ctx" and "dictionary c + dictSize c = dictionary ctx + dictSize ctx"
    and "dictSize c = 0 \<longleftrightarrow> dictSize ctx = 0"
proof -
  note D = stream_okD [OF ok]
  have sum: "U32 (currentOffset ctx + U32 n) = currentOffset ctx + n"
    using D(2-4) n by simp
  have "stream_ok c \<and> currentOffset c + n \<le> 2147483648 \<and> dictCtx c = dictCtx ctx \<and>
      dictSize c \<le> dictSize ctx \<and> dictionary c + dictSize c = dictionary ctx + dictSize ctx \<and>
      (dictSize c = 0 \<longleftrightarrow> dictSize ctx = 0)"
  proof (cases "currentOffset ctx + n > 2147483648")
    case False
    then have "c = ctx"
      by (simp add: c_def LZ4_renormDictT_def sum)
    with ok False show ?thesis
      by simp
  next
    case True
    define delta where "delta = currentOffset ctx - 65536"
    have delta: "U32 (currentOffset ctx - 65536) = delta" "0 \<le> delta"
      using True n(2) D(4) by (simp_all add: delta_def)
    define t where "t = map (\<lambda>e. if e < delta then 0 else e - delta) (hashTable ctx)"
    have c: "hashTable c = t" "currentOffset c = 65536" "dictSize c = min (dictSize ctx) 65536"
      "dictionary c = dictionary ctx + dictSize ctx - dictSize c" "dictCtx c = dictCtx ctx"
      using True by (auto simp: c_def LZ4_renormDictT_def sum delta t_def Let_def)
    have "index_ok 65536 (if e < delta then 0 else e - delta)" if "e \<in> set (hashTable ctx)" for e
      using D(5) [OF that] True n(2) by (auto simp: index_ok_def delta_def)
    then have "\<forall>j \<in> set t. index_ok 65536 j"
      unfolding t_def set_map ball_simps by blast
    moreover have "dictSize c = 0 \<or> 0 < dictionary c"
      using D(2,6) c(3,4) by auto
    ultimately show ?thesis
      using c D n by (auto simp: stream_ok_def t_def split: option.splits)
  qed
  then show "stream_ok c" "currentOffset c + n \<le> 2147483648" "dictCtx c = dictCtx ctx"
    "dictSize c \<le> dictSize ctx" "dictionary c + dictSize c = dictionary ctx + dictSize ctx"
    "dictSize c = 0 \<longleftrightarrow> dictSize ctx = 0"
    by blast+
qed

text \<open>The adjustments keep the invariant. The dictionary keeps its end, unless it is given up; it ends at the
  input, or it is empty or has at least four bytes.\<close>

lemma prepared_facts:
  assumes ok: "stream_ok ctx" and n: "0 < n" "n \<le> 2113929216" and source: "0 < source"
    and prep: "prepared ctx source n = (c, dictEnd)"
  shows "dictSize c = 0 \<or> dictSize c \<le> dictSize ctx \<and> dictionary c + dictSize c = dictionary ctx + dictSize ctx"
    and "stream_ok c" and "currentOffset c + n \<le> 2147483648" and "dictCtx c = dictCtx ctx"
    and "dictEnd = source \<Longrightarrow> dictionary c + dictSize c = source"
    and "dictEnd \<noteq> source \<Longrightarrow> dictCtx ctx = None \<Longrightarrow> dictSize c = 0 \<or> 4 \<le> dictSize c"
    and "dictEnd \<noteq> source \<Longrightarrow> dictSize c = 0 \<Longrightarrow> dictCtx ctx = None \<Longrightarrow> dictionary c \<noteq> source"
proof -
  define c1 where "c1 = LZ4_renormDictT ctx n"
  define e1 where "e1 = (if dictSize ctx \<noteq> 0 then dictionary ctx + dictSize ctx else NULL)"
  have n0: "0 \<le> n"
    using n by simp
  note R = renorm_ok [OF ok n0 n(2), folded c1_def]
  have e1: "e1 = (if dictSize c1 \<noteq> 0 then dictionary c1 + dictSize c1 else NULL)"
    using R(5,6) by (simp add: e1_def)
  define drop where "drop \<longleftrightarrow> dictSize c1 < 4 \<and> e1 \<noteq> source \<and> dictCtx c1 = None"
  define c2 where "c2 = (if drop then c1\<lparr>dictSize := 0, dictionary := source\<rparr> else c1)"
  have c: "c = shorten_dict c2 dictEnd (source + n)" and e: "dictEnd = (if drop then source else e1)"
    using prep n(1) unfolding prepared_def e1_def [symmetric] c1_def [symmetric] drop_tiny_dict_def
    by (auto simp: c2_def drop_def Let_def split: if_splits)
  have c2: "stream_ok c2" "currentOffset c2 + n \<le> 2147483648" "dictCtx c2 = dictCtx ctx"
      "dictSize c2 = 0 \<or> dictSize c2 \<le> dictSize ctx \<and> dictionary c2 + dictSize c2 = dictionary ctx + dictSize ctx"
    using R(1-5) by (auto simp: c2_def stream_ok_def split: option.splits)
  note D2 = stream_okD [OF c2(1)]
  have "stream_ok c \<and> currentOffset c + n \<le> 2147483648 \<and> dictCtx c = dictCtx ctx \<and>
      (dictEnd = source \<longrightarrow> dictionary c + dictSize c = source) \<and>
      (dictEnd \<noteq> source \<and> dictCtx ctx = None \<longrightarrow>
        (dictSize c = 0 \<or> 4 \<le> dictSize c) \<and> (dictSize c = 0 \<longrightarrow> dictionary c \<noteq> source)) \<and>
      (dictSize c = 0 \<or> dictSize c \<le> dictSize ctx \<and> dictionary c + dictSize c = dictionary ctx + dictSize ctx)"
  proof (cases "source + n > dictionary c2 \<and> source + n < dictEnd")
    case False
    then have "c = c2"
      by (auto simp: c shorten_dict_def)
    moreover have "dictionary c2 + dictSize c2 = source" if "dictEnd = source"
      using that source e1 by (auto simp: e c2_def NULL_def split: if_splits)
    moreover have "4 \<le> dictSize c2" if "dictEnd \<noteq> source" "dictCtx ctx = None"
      using that R(3) e by (auto simp: c2_def drop_def split: if_splits)
    ultimately show ?thesis
      using c2 by auto
  next
    case True
    then have "\<not> drop"
      using n(1) e by auto
    then have c2': "c2 = c1" and dictEnd: "dictEnd = dictionary c2 + dictSize c2"
      using True e e1 source n(1) by (auto simp: c2_def NULL_def split: if_splits)
    define k where "k = (let k = min (dictEnd - (source + n)) 65536 in if k < 4 then 0 else k)"
    have k: "0 \<le> k" "k \<le> dictEnd - (source + n)" "k = 0 \<or> 4 \<le> k"
      using True by (auto simp: k_def Let_def)
    have "dictEnd - (source + n) \<le> dictSize c2"
      using True dictEnd by simp
    moreover have "dictSize c2 \<le> 2147483648"
      using D2(3,4) by simp
    ultimately have "U32 (dictEnd - (source + n)) = dictEnd - (source + n)" and ks: "k \<le> dictSize c2"
      using True k(2) by simp_all
    then have c': "dictSize c = k" "dictionary c = dictEnd - k" "hashTable c = hashTable c2"
      "currentOffset c = currentOffset c2" "dictCtx c = dictCtx c2"
      using True by (auto simp: c shorten_dict_def Let_def k_def)
    have "stream_ok c"
      using c2(1) c' k ks source n(1) by (auto simp: stream_ok_def split: option.splits)
    then show ?thesis
      using c' c2 k(3) ks dictEnd True n(1) by auto
  qed
  then show "dictSize c = 0 \<or> dictSize c \<le> dictSize ctx \<and> dictionary c + dictSize c = dictionary ctx + dictSize ctx"
    "stream_ok c" "currentOffset c + n \<le> 2147483648" "dictCtx c = dictCtx ctx"
    "dictEnd = source \<Longrightarrow> dictionary c + dictSize c = source"
    "dictEnd \<noteq> source \<Longrightarrow> dictCtx ctx = None \<Longrightarrow> dictSize c = 0 \<or> 4 \<le> dictSize c"
    "dictEnd \<noteq> source \<Longrightarrow> dictSize c = 0 \<Longrightarrow> dictCtx ctx = None \<Longrightarrow> dictionary c \<noteq> source"
    by blast+
qed

lemmas prepared_dict = prepared_facts(1)
lemmas prepared_ok = prepared_facts(2-)

section \<open>Loading a dictionary\<close>

definition dict_index :: "int \<Rightarrow> int \<Rightarrow> bool" where
  "dict_index n j \<longleftrightarrow> j = 0 \<or> 65536 - n \<le> j \<and> j + 4 \<le> 65536"

definition dict_table :: "int \<Rightarrow> lz4_ctx \<Rightarrow> bool" where
  "dict_table n c \<longleftrightarrow> length (hashTable c) = LZ4_HASH_SIZE_U32 \<and> (\<forall>j \<in> set (hashTable c). dict_index n j)"

lemma put_dict:
  assumes "dict_table n c" and "h < slots byU32" and "dict_index n i"
  shows "\<exists>c'. LZ4_putIndexOnHash i h c byU32 = Some c' \<and> dict_table n c' \<and> tab_rest c' = tab_rest c"
  using u32.put_invariant [where c = c and h = h and i = i and P = "dict_index n"] assms
  by (simp add: dict_table_def slots_def entries_byU32)

lemma get_dict: "dict_table n c \<Longrightarrow> h < slots byU32 \<Longrightarrow> \<exists>i. LZ4_getIndexOnHash h c byU32 = Some i"
  by (simp add: dict_table_def slots_def LZ4_getIndexOnHash_def)

lemma load_positions_ok:
  assumes "region m p e" and "dict_table n c" and "i = 65536 - (e - p)" and "0 \<le> i" and "65536 - n \<le> i"
  shows "\<exists>c'. load_positions m p e i c = Some c' \<and> dict_table n c' \<and> tab_rest c' = tab_rest c"
  using assms
proof (induction m p e i c rule: load_positions.induct)
  case (1 m p e i c)
  show ?case
  proof (cases "p \<le> e - 8")
    case False
    with "1.prems"(2) show ?thesis
      by (subst load_positions.simps) simp
  next
    case True
    have "region m p (p + 8)"
      by (rule region_sub [OF "1.prems"(1)]) (use True in simp_all)
    then obtain h where h: "LZ4_hashPosition m p byU32 = Some h" "h < slots byU32"
      using hash_readable by blast
    have "dict_index n i"
      using "1.prems"(3,5) True by (simp add: dict_index_def)
    then obtain c1 where c1: "LZ4_putIndexOnHash i h c byU32 = Some c1" "dict_table n c1" "tab_rest c1 = tab_rest c"
      using put_dict [OF "1.prems"(2) h(2)] by blast
    have i3: "U32 (i + 3) = i + 3"
      using "1.prems"(3,4) True by simp
    have "\<exists>c'. load_positions m (p + 3) e (U32 (i + 3)) c1 = Some c' \<and> dict_table n c' \<and> tab_rest c' = tab_rest c1"
      by (rule "1.IH" [OF True h(1) c1(1)])
        (use c1(2) "1.prems" i3 region_sub [OF "1.prems"(1), of "p + 3" e] in simp_all)
    with True h(1) c1 show ?thesis
      by (subst load_positions.simps) simp
  qed
qed

lemma fill_positions_ok:
  assumes "region m p e" and "dict_table n c" and "i = 65536 - (e - p)" and "0 \<le> i" and "65536 - n \<le> i"
  shows "\<exists>c'. fill_positions m p e i c = Some c' \<and> dict_table n c' \<and> tab_rest c' = tab_rest c"
  using assms
proof (induction m p e i c rule: fill_positions.induct)
  case (1 m p e i c)
  show ?case
  proof (cases "p \<le> e - 8")
    case False
    with "1.prems"(2) show ?thesis
      by (subst fill_positions.simps) simp
  next
    case True
    let ?limit = "U32 (currentOffset c - 64 * KB)"
    have "region m p (p + 8)"
      by (rule region_sub [OF "1.prems"(1)]) (use True in simp_all)
    then obtain h where h: "LZ4_hashPosition m p byU32 = Some h" "h < slots byU32"
      using hash_readable by blast
    obtain j where j: "LZ4_getIndexOnHash h c byU32 = Some j"
      using get_dict [OF "1.prems"(2) h(2)] by blast
    have "dict_index n i"
      using "1.prems"(3,5) True by (simp add: dict_index_def)
    then obtain c1 where c1: "(if j \<le> ?limit then LZ4_putIndexOnHash i h c byU32 else Some c) = Some c1"
        "dict_table n c1" "tab_rest c1 = tab_rest c"
      using put_dict [OF "1.prems"(2) h(2)] "1.prems"(2) by (cases "j \<le> ?limit") auto
    have i1: "U32 (i + 1) = i + 1"
      using "1.prems"(3,4) True by simp
    have "\<exists>c'. fill_positions m (p + 1) e (U32 (i + 1)) c1 = Some c' \<and> dict_table n c' \<and> tab_rest c' = tab_rest c1"
      by (rule "1.IH" [OF True h(1) refl j c1(1)])
        (use c1(2) "1.prems" i1 region_sub [OF "1.prems"(1), of "p + 1" e] in simp_all)
    with True h(1) j c1 show ?thesis
      by (subst fill_positions.simps) (simp add: Let_def)
  qed
qed

text \<open>Loading returns; the state then describes the last 64 KB of the dictionary, and can be used or
  attached. A dictionary of less than eight bytes is refused and leaves an empty state.\<close>

lemma loadDict_ok:
  assumes "mapped m dict (nat dsz)" and len: "0 \<le> dsz" "dsz < 2 ^ 31" and dict: "8 \<le> dsz \<Longrightarrow> 0 < dict"
  shows "\<exists>r ctx'. LZ4_loadDict_internal m ctx dict dsz ld = Some (r, ctx') \<and>
           r = (if dsz < 8 then 0 else min dsz 65536) \<and> dictSize ctx' = r \<and> dictCtx ctx' = None \<and>
           currentOffset ctx' = 65536 \<and> stream_ok ctx' \<and>
           (0 < r \<longrightarrow> dictionary ctx' + r = dict + dsz \<and> dict_stream (lz4_tab.truncate ctx'))"
proof -
  define z where "z = zero_ctx\<lparr>currentOffset := 65536\<rparr>"
  have z: "(LZ4_resetStream ctx)\<lparr>currentOffset := U32 (currentOffset (LZ4_resetStream ctx) + 64 * KB)\<rparr> = z"
    by (simp add: z_def LZ4_resetStream_def zero_ctx_def)
  show ?thesis
  proof (cases "dsz < 8")
    case True
    have "stream_ok z" "dictSize z = 0" "dictCtx z = None" "currentOffset z = 65536"
      by (simp_all add: z_def stream_ok_def zero_ctx_def index_ok_def)
    with True show ?thesis
      unfolding LZ4_loadDict_internal_def Let_def z by simp
  next
    case False
    define n where "n = min dsz 65536"
    define p where "p = dict + dsz - n"
    have n: "0 < n" "n \<le> 65536" "8 \<le> n" and p: "dict \<le> p" "0 < p"
      using False len dict by (auto simp: n_def p_def)
    define c where "c = z\<lparr>dictionary := p, dictSize := n, tableType := byU32\<rparr>"
    have start: "(if dict + dsz - dict > 64 * KB then dict + dsz - 64 * KB else dict) = p"
      by (simp add: p_def n_def min_def)
    have c: "dict_table n c" "dictSize c = n" "dictionary c = p" "currentOffset c = 65536" "dictCtx c = None"
      by (simp_all add: c_def z_def dict_table_def zero_ctx_def dict_index_def)
    have reg: "region m p (dict + dsz)"
      using assms(1) len by (auto simp: mapped_region intro: region_sub [OF _ p(1)])
    let ?i = "65536 - n"
    obtain c1 where c1: "load_positions m p (dict + dsz) ?i c = Some c1" "dict_table n c1" "tab_rest c1 = tab_rest c"
      using load_positions_ok [OF reg c(1), of ?i] n by (auto simp: p_def)
    have rest1: "dictSize c1 = n" "dictionary c1 = p" "currentOffset c1 = 65536"
      using c1(3) c by (simp_all add: tab_rest_def)
    obtain c2 where c2: "(if ld = ld_slow then fill_positions m p (dict + dsz) ?i c1 else Some c1) = Some c2"
        "dict_table n c2" "tab_rest c2 = tab_rest c1"
      using fill_positions_ok [OF reg c1(2), of ?i] n c1(2) by (cases ld) (auto simp: p_def)
    have i: "U32 (65536 - n) = ?i" "U32 n = n"
      using n by simp_all
    have pn: "dict + dsz - p = n"
      by (simp add: p_def)
    have run: "LZ4_loadDict_internal m ctx dict dsz ld = Some (n, c2)"
      using False c1(1) c2(1) rest1 c2(3)
      unfolding LZ4_loadDict_internal_def Let_def z start pn i
      by (simp add: c_def z_def zero_ctx_def i tab_rest_def cong: if_cong)
    have rest2: "dictSize c2 = n" "dictionary c2 = p" "currentOffset c2 = 65536" "dictCtx c2 = None"
      using c2(3) c1(3) c by (simp_all add: tab_rest_def)
    have "stream_ok c2"
      using c2(2) rest2 n p by (auto simp: stream_ok_def dict_table_def dict_index_def index_ok_def)
    moreover have "dict_stream (lz4_tab.truncate c2)"
      using c2(2) rest2 n p
      by (auto simp: dict_stream_def attached_ok_def entries_byU32 lz4_tab.defs dict_table_def dict_index_def)
    ultimately show ?thesis
      using run rest2 False by (auto simp: n_def p_def)
  qed
qed

text \<open>Attaching such a state keeps the invariant.\<close>

lemma attach_ok:
  assumes "stream_ok w" and "dict_stream (lz4_tab.truncate d)"
  shows "stream_ok (LZ4_attach_dictionary w (Some d))"
    and "dictCtx (LZ4_attach_dictionary w (Some d)) = Some (lz4_tab.truncate d)"
  using assms by (auto simp: LZ4_attach_dictionary_def stream_ok_def Let_def dict_stream_def lz4_tab.defs index_ok_def)

section \<open>Saving a dictionary\<close>

text \<open>The size that \<open>LZ4_saveDict\<close> saves, and what it is called with.\<close>

definition saved_size :: "lz4_ctx \<Rightarrow> int \<Rightarrow> int" where
  "saved_size ctx n = min (dictSize ctx) (if 0 \<le> n then min n 65536 else 65536)"

definition save_call :: "mem \<Rightarrow> lz4_ctx \<Rightarrow> ptr \<Rightarrow> int \<Rightarrow> bool" where
  "save_call m ctx buf n \<longleftrightarrow>
     - (2 ^ 31) \<le> n \<and> n < 2 ^ 31 \<and> mapped m (dictionary ctx) (nat (dictSize ctx)) \<and>
     mapped m buf (nat (saved_size ctx n)) \<and> 0 < buf"

lemma bytes_last:
  assumes "0 \<le> r" and "r \<le> n"
  shows "\<exists>g. bytes m p (nat n) = g @ bytes m (p + n - r) (nat r)"
proof -
  define k where "k = nat (n - r)"
  have k: "nat n = k + nat r" "p + n - r = p + int k"
    using assms by (auto simp: k_def)
  show ?thesis
    unfolding k bytes_add by blast
qed

text \<open>The buffer gets the end of the dictionary, which the state describes then.\<close>

lemma saveDict_ok:
  assumes ok: "stream_ok ctx" and call: "save_call m ctx buf n"
  defines "r \<equiv> saved_size ctx n"
  shows "\<exists>ctx' m'. LZ4_saveDict m ctx buf n = Some (r, ctx', m') \<and> only_changed buf r m m' \<and> stream_ok ctx' \<and>
           dictionary ctx' = buf \<and> dictSize ctx' = r \<and> dictCtx ctx' = dictCtx ctx \<and>
           (\<exists>g. bytes m (dictionary ctx) (nat (dictSize ctx)) = g @ bytes m' buf (nat r))"
proof -
  note D = stream_okD [OF ok]
  let ?src = "dictionary ctx + dictSize ctx - r"
  have r: "0 \<le> r" "r \<le> dictSize ctx" "r \<le> 65536"
    using D(2) by (auto simp: r_def saved_size_def)
  have n: "- 2147483648 \<le> n" "n < 2147483648" and buf: "0 < buf"
    and regs: "region m (dictionary ctx) (dictionary ctx + dictSize ctx)" "region m buf (buf + r)"
    using call r D(2) by (auto simp: save_call_def mapped_region r_def [symmetric])
  have size: "(if U32 (if U32 n > 64 * KB then 64 * KB else n) > dictSize ctx then dictSize ctx
      else if U32 n > 64 * KB then 64 * KB else n) = r"
  proof (cases "0 \<le> n")
    case True
    then have "U32 n = n"
      using n by simp
    with True show ?thesis
      by (auto simp: r_def saved_size_def)
  next
    case False
    then have "U32 n = n + 4294967296"
      using n mod_pos_pos_trivial [of "n + 4294967296" 4294967296] by (simp add: U32_def)
    with False n show ?thesis
      by (auto simp: r_def saved_size_def)
  qed
  define m' where "m' = (if 0 < r then put m buf (bytes m ?src (nat r)) else m)"
  have move: "(if r > 0 then LZ4_memmove m buf ?src (nat r) else Some m) = Some m'"
    using regs r by (auto simp: m'_def intro!: LZ4_memmove_Some intro: region_sub)
  let ?c = "ctx\<lparr>dictionary := buf, dictSize := r\<rparr>"
  have "LZ4_saveDict m ctx buf n = Some (r, ?c, m')"
    unfolding LZ4_saveDict_def Let_def size move using r by simp
  moreover have "only_changed buf r m m'"
    using regs(2) by (auto simp: m'_def only_changed_def put_apply dom_put)
  moreover have "stream_ok ?c"
    using ok r buf by (auto simp: stream_ok_def split: option.splits)
  moreover have "bytes m' buf (nat r) = bytes m ?src (nat r)"
    using bytes_put_same [of m buf "bytes m ?src (nat r)"] by (auto simp: m'_def)
  moreover obtain g where "bytes m (dictionary ctx) (nat (dictSize ctx)) = g @ bytes m ?src (nat r)"
    using bytes_last [OF r(1,2)] by blast
  ultimately show ?thesis
    by (intro exI [of _ ?c] exI [of _ m']) simp
qed

section \<open>Resetting\<close>

text \<open>A fast reset keeps the table, with indexes that lie too far back, unless it clears it.\<close>

lemma resetStream_fast_ok:
  assumes "stream_ok ctx" and "tableType ctx \<noteq> clearedTable \<or> currentOffset ctx \<le> GB"
  shows "stream_ok (LZ4_resetStream_fast ctx)" and "dictSize (LZ4_resetStream_fast ctx) = 0"
    and "dictCtx (LZ4_resetStream_fast ctx) = None"
proof -
  note D = stream_okD [OF assms(1)]
  have "index_ok (currentOffset ctx + 65536) j" if "j \<in> set (hashTable ctx)" for j
    using D(5) [OF that] by (auto simp: index_ok_def)
  moreover have "index_ok k 0" for k
    by (simp add: index_ok_def)
  ultimately show "stream_ok (LZ4_resetStream_fast ctx)"
    using D(1-5) assms(2) by (auto simp: LZ4_resetStream_fast_def LZ4_prepareTable_def Let_def stream_ok_def)
qed (simp_all add: LZ4_resetStream_fast_def LZ4_prepareTable_def Let_def)

end
