(* ===== verification/Lz4_Stream_Props.thy ===== *)
theory Lz4_Stream_Props
  imports Lz4_Stream_State Lz4_Decode_Dict
begin

text \<open>
  What a caller of the streaming functions of src/lz4.c relies on: a block that
  \<open>LZ4_compress_fast_continue\<close> writes is legal after the data its state describes, the state it leaves
  describes the data a next block can refer to, and \<open>LZ4_decompress_safe_continue\<close> gives every block back
  as long as its own history covers that data.
\<close>

section \<open>One call of the encoder\<close>

text \<open>The part of the dictionary that a call uses, and its bytes.\<close>

definition used_dict :: "lz4_ctx \<Rightarrow> ptr \<Rightarrow> int \<Rightarrow> ptr \<times> int" where
  "used_dict ctx source n =
     (let (c, dictEnd) = prepared ctx source n
      in if dictEnd = source then (dictionary c, dictSize c)
         else case dictCtx c of
                None \<Rightarrow> (dictionary c, dictSize c)
              | Some d \<Rightarrow> (dictionary d, dictSize d))"

definition stream_history :: "mem \<Rightarrow> lz4_ctx \<Rightarrow> ptr \<Rightarrow> int \<Rightarrow> byte list" where
  "stream_history m ctx source n = (case used_dict ctx source n of (p, k) \<Rightarrow> bytes m p (nat k))"

text \<open>The dictionary is still there, and apart from the two buffers of the call.\<close>

definition dict_there :: "mem \<Rightarrow> ptr \<times> int \<Rightarrow> ptr \<Rightarrow> int \<Rightarrow> ptr \<Rightarrow> int \<Rightarrow> bool" where
  "dict_there m d source n dest cap \<longleftrightarrow>
     (case d of (p, k) \<Rightarrow> region m p (p + k) \<and> (p + k \<le> dest \<or> dest + cap \<le> p) \<and>
        (p + k \<le> source \<or> source + n \<le> p))"

lemma stream_call:
  assumes k: "k = enc_config c source dest n cap limitedOutput byU32 mode issue acc"
    and ok: "enc_ok k m" and tab: "tab_ok k (source + 1) c" and n: "0 < n" "n \<le> 2113929216"
  shows "\<exists>r c' m'. LZ4_compress_generic m c source dest n cap limitedOutput byU32 mode issue acc =
             Some (r, None, c', m') \<and> encoded (bytes m (k_hist k) (k_pre k)) m source n dest cap r m' \<and>
           (LZ4_compressBound n \<le> cap \<longrightarrow> 0 < r) \<and> tab_rest c' = tab_rest (enc_enter c k) \<and>
           (0 < r \<longrightarrow> tab_ok k (k_iend k + 1) c')"
proof -
  obtain r s where run: "LZ4_compress_generic_validated m c source dest n cap limitedOutput byU32 mode issue acc =
      Some (r, None, e_ctx s, e_mem s)" and res: "enc_result_ok k m r s"
    using validated_ok [OF k ok tab] by blast
  have sel: "k_source k = source" "k_inputSize k = n" "k_dest k = dest" "enc_cap k = cap"
    by (simp_all add: k enc_config_def enc_cap_def)
  have roomy: "roomy k" if "LZ4_compressBound n \<le> cap"
    using that compressBound_pos [of n] n by (simp add: roomy_def sel)
  note enc = result_encoded [OF res ok, of cap, unfolded sel]
  have "tab_rest (e_ctx s) = tab_rest (enc_enter c k)"
    using validated_rest [OF run] by (simp add: k)
  moreover have "0 < r \<longrightarrow> tab_ok k (k_iend k + 1) (e_ctx s)"
    using res by (auto simp: enc_result_ok_def)
  moreover have "LZ4_compress_generic m c source dest n cap limitedOutput byU32 mode issue acc =
      Some (r, None, e_ctx s, e_mem s)"
    using run n by (simp add: LZ4_compress_generic_def LZ4_MAX_INPUT_SIZE_def)
  ultimately show ?thesis
    using enc roomy n by blast
qed

text \<open>The invariant on the table is what the search needs, and holds again at the end.\<close>

lemma tab_ok_stream:
  assumes ok: "stream_ok c" and k: "k = enc_config c source dest n cap limitedOutput byU32 mode issue acc"
    and n: "0 < n"
    and issue: "\<And>j. mode \<noteq> usingDictCtx \<Longrightarrow> j \<in> set (hashTable c) \<Longrightarrow> j < currentOffset c - dictSize c \<Longrightarrow>
      issue = dictSmall \<or> j + 65536 \<le> currentOffset c"
    and ext: "mode = usingExtDict \<Longrightarrow> dictSize c = 0 \<or> 4 \<le> dictSize c"
  shows "tab_ok k (source + 1) c"
proof -
  note D = stream_okD [OF ok]
  have sel: "k_startIndex k = currentOffset c" "k_dict k = mode" "k_dictIssue k = issue" "k_source k = source"
    "mode \<noteq> usingDictCtx \<Longrightarrow> k_dictSize k = dictSize c" "k_tableType k = byU32" "k_iend k = source + n"
    by (simp_all add: k enc_config_def k_iend_def)
  have "entry_ok k (source + 1) j" if "j \<in> set (hashTable c)" for j
  proof -
    have j: "0 \<le> j" "j = 0 \<or> j + 4 \<le> currentOffset c"
      using D(5) [OF that] by (auto simp: index_ok_def)
    have "stale_ok k j" if "mode \<noteq> usingDictCtx" "j < currentOffset c - dictSize c"
      using that(2) issue [OF that(1) \<open>j \<in> set (hashTable c)\<close>] by (auto simp: stale_ok_def sel)
    moreover have "j + 4 \<le> currentOffset c"
      if "mode = usingExtDict" "currentOffset c - dictSize c \<le> j" "j < currentOffset c"
      using that ext j D(3) by auto
    ultimately show ?thesis
      using j D(2,3) n sel(5) by (auto simp: entry_ok_def index_of_def sel)
  qed
  then show ?thesis
    using D(1) by (simp add: tab_ok_def sel entries_byU32)
qed

lemma stream_ok_after:
  assumes tab: "tab_ok k (k_iend k + 1) c" and k: "k_tableType k = byU32"
    and off: "currentOffset c = k_startIndex k + k_inputSize k" "currentOffset c \<le> 2147483648"
    and size: "0 \<le> dictSize c" "dictSize c \<le> currentOffset c" "0 < dictionary c"
    and dict: "dictCtx c = None \<or> 0 < currentOffset c \<and> dict_stream (the (dictCtx c))"
  shows "stream_ok c"
proof -
  have "index_ok (currentOffset c) j" if "j \<in> set (hashTable c)" for j
    using tab that unfolding tab_ok_def entries_byU32 k
    by (auto simp: entry_ok_def index_ok_def off index_of_def k_iend_def)
  then show ?thesis
    using tab off(2) size dict by (auto simp: stream_ok_def tab_ok_def split: option.splits)
qed

section \<open>The modes of a call\<close>

text \<open>The state, the mode and the treatment of old entries that a call of \<open>LZ4_compress_fast_continue\<close> hands to
  the encoder.\<close>

definition call_mode :: "lz4_ctx \<Rightarrow> ptr \<Rightarrow> int \<Rightarrow> lz4_ctx \<times> dict_directive \<times> dictIssue_directive" where
  "call_mode ctx source n =
     (let (c, dictEnd) = prepared ctx source n
      in if dictEnd = source then (c, withPrefix64k, dict_issue c)
         else case dictCtx c of
                None \<Rightarrow> (c, usingExtDict, dict_issue c)
              | Some d \<Rightarrow>
                  if n > 4 * KB then (lz4_tab.extend d \<lparr>dictCtx = None\<rparr>, usingExtDict, noDictIssue)
                  else (c, usingDictCtx, noDictIssue))"

lemma fast_continue_call:
  assumes "prepared ctx source n = (c, dictEnd)" and "call_mode ctx source n = (b, mode, issue)"
  shows "LZ4_compress_fast_continue m ctx source dest n cap acc =
     do { (r, x, c', m') \<leftarrow> LZ4_compress_generic m b source dest n cap limitedOutput byU32 mode issue
            (clamp_acceleration acc);
          Some (r, x, if dictEnd = source then c' else c'\<lparr>dictionary := source, dictSize := U32 n\<rparr>, m') }"
proof -
  let ?e = "if dictSize ctx \<noteq> 0 then dictionary ctx + dictSize ctx else NULL"
  obtain c1 where c1: "drop_tiny_dict (LZ4_renormDictT ctx n) ?e source n = (c1, dictEnd)"
    and c: "c = shorten_dict c1 dictEnd (source + n)"
    using assms(1) unfolding prepared_def Let_def by (auto split: prod.splits)
  have run: "LZ4_compress_fast_continue m ctx source dest n cap acc =
      (if dictEnd = source then
         LZ4_compress_generic m c source dest n cap limitedOutput byU32 withPrefix64k (dict_issue c)
           (clamp_acceleration acc)
       else
         do { (r, x, c', m') \<leftarrow>
                (case dictCtx c of
                   Some d \<Rightarrow>
                     if n > 4 * KB then
                       LZ4_compress_generic m (lz4_tab.extend d \<lparr>dictCtx = None\<rparr>) source dest n cap limitedOutput
                         byU32 usingExtDict noDictIssue (clamp_acceleration acc)
                     else
                       LZ4_compress_generic m c source dest n cap limitedOutput byU32 usingDictCtx noDictIssue
                         (clamp_acceleration acc)
                 | None \<Rightarrow>
                     LZ4_compress_generic m c source dest n cap limitedOutput byU32 usingExtDict (dict_issue c)
                       (clamp_acceleration acc));
              Some (r, x, c'\<lparr>dictionary := source, dictSize := U32 n\<rparr>, m') })"
    unfolding LZ4_compress_fast_continue_def Let_def c1 c by simp
  show ?thesis
    using assms(2) unfolding run call_mode_def assms(1)
    by (auto split: option.splits if_splits bind_split)
qed

lemma extend_stream_ok:
  assumes "dict_stream d"
  shows "stream_ok (lz4_tab.extend d \<lparr>dictCtx = None\<rparr>)"
    and "\<And>j. j \<in> set (hashTable d) \<Longrightarrow> j < currentOffset d - dictSize d \<Longrightarrow> j + 65536 \<le> currentOffset d"
  using assms by (auto simp: dict_stream_def attached_ok_def stream_ok_def index_ok_def entries_byU32 lz4_tab.defs)

text \<open>In each mode the state is sane, and the configuration is one the encoder handles; its history is the
  dictionary used.\<close>

lemma call_mode_ok:
  assumes ok: "stream_ok ctx" and n: "0 < n" "n \<le> 2113929216" and source: "0 < source"
    and prep: "prepared ctx source n = (c, dictEnd)" and mode: "call_mode ctx source n = (b, mode, issue)"
    and apart: "\<And>p l. used_dict ctx source n = (p, l) \<Longrightarrow> p + l \<le> source \<or> source + n \<le> p"
    and k: "k = enc_config b source dest n cap limitedOutput byU32 mode issue acc"
  shows "stream_ok b" and "currentOffset b + n \<le> 2147483648" and "tab_ok k (source + 1) b" and "dict_mode_ok k"
    and "used_dict ctx source n = (k_hist k, k_dictSize k)"
    and "dictEnd = source \<longleftrightarrow> mode = withPrefix64k" and "mode \<noteq> noDict"
proof -
  note P = prepared_ok [OF ok n source prep]
  have dict: "\<And>d. dictCtx c = Some d \<Longrightarrow> dict_stream d \<and> 0 < currentOffset c"
    using stream_okD(7) [OF P(1)] by blast
  have issue0: "dict_issue c = dictSmall \<or> j + 65536 \<le> currentOffset c"
    if "j \<in> set (hashTable c)" "j < currentOffset c - dictSize c" for j
    using that stream_okD(5) [OF P(1) that(1)] by (auto simp: dict_issue_def index_ok_def)
  have used: "used_dict ctx source n =
      (if dictEnd = source then (dictionary c, dictSize c)
       else case dictCtx c of None \<Rightarrow> (dictionary c, dictSize c) | Some d \<Rightarrow> (dictionary d, dictSize d))"
    by (simp add: used_dict_def prep)
  have size: "0 \<le> dictSize c" "dictSize c \<le> currentOffset c"
    by (rule stream_okD [OF P(1)])+
  consider (prefix) "dictEnd = source" "b = c" "mode = withPrefix64k" "issue = dict_issue c"
    | (elsewhere) "dictEnd \<noteq> source" "dictCtx c = None" "b = c" "mode = usingExtDict" "issue = dict_issue c"
    | (copied) d where "dictEnd \<noteq> source" "dictCtx c = Some d" "b = lz4_tab.extend d \<lparr>dictCtx = None\<rparr>"
        "mode = usingExtDict" "issue = noDictIssue"
    | (attached) d where "dictEnd \<noteq> source" "dictCtx c = Some d" "b = c" "mode = usingDictCtx" "issue = noDictIssue"
    using mode unfolding call_mode_def prep by (auto split: option.splits if_splits)
  then have "stream_ok b \<and> currentOffset b + n \<le> 2147483648 \<and> tab_ok k (source + 1) b \<and> dict_mode_ok k \<and>
      used_dict ctx source n = (k_hist k, k_dictSize k) \<and> (dictEnd = source \<longleftrightarrow> mode = withPrefix64k) \<and> mode \<noteq> noDict"
  proof cases
    case prefix
    have "tab_ok k (source + 1) b"
      by (rule tab_ok_stream [OF _ k n(1)]) (use prefix P(1) issue0 in auto)
    moreover have "k_hist k = dictionary c" "k_dictSize k = dictSize c" "dict_mode_ok k"
      using prefix P(4) size
      by (auto simp: k enc_config_def k_hist_def k_maybe_extMem_def k_text_def k_pre_def dict_mode_ok_def)
    ultimately show ?thesis
      using prefix P(1,2) used by simp
  next
    case elsewhere
    have "dictSize c = 0 \<or> 4 \<le> dictSize c" and d0: "dictSize c = 0 \<Longrightarrow> dictionary c \<noteq> source"
      using P(3,5,6) elsewhere by auto
    moreover from this(1) have "tab_ok k (source + 1) b"
      by (intro tab_ok_stream [OF _ k n(1)]) (use elsewhere P(1) issue0 in auto)
    moreover have sel: "k_hist k = dictionary c" "k_dictSize k = dictSize c" "k_dictionary k = dictionary c"
        "k_source k = source" "k_startIndex k = currentOffset c" "k_dict k = usingExtDict" "k_maybe_extMem k"
      using elsewhere by (simp_all add: k enc_config_def k_hist_def k_maybe_extMem_def)
    moreover have "dictionary c + dictSize c \<le> source \<or> source + n \<le> dictionary c"
      using apart used elsewhere by simp
    ultimately have "dict_mode_ok k"
      using n(1) size stream_okD(6) [OF P(1)] by (auto simp: dict_mode_ok_def NULL_def)
    with \<open>tab_ok k (source + 1) b\<close> sel show ?thesis
      using elsewhere P(1,2) used by simp
  next
    case (copied d)
    have d: "dict_stream d"
      using dict copied by blast
    note E = extend_stream_ok [OF d]
    have b: "currentOffset b = 65536" "dictSize b = dictSize d" "dictionary b = dictionary d"
        "hashTable b = hashTable d" "4 \<le> dictSize d" "0 < dictionary d" "dictSize d \<le> 65536"
        "currentOffset d = 65536"
      using d copied by (auto simp: dict_stream_def attached_ok_def lz4_tab.defs)
    have "tab_ok k (source + 1) b"
      by (intro tab_ok_stream [OF _ k n(1)]) (use copied E(1) E(2) [unfolded b(8)] b in auto)
    moreover have sel: "k_hist k = dictionary d" "k_dictSize k = dictSize d" "k_dictionary k = dictionary d"
        "k_source k = source" "k_startIndex k = 65536" "k_dict k = usingExtDict" "k_maybe_extMem k"
      using copied b by (simp_all add: k enc_config_def k_hist_def k_maybe_extMem_def)
    moreover have "dictionary d + dictSize d \<le> source \<or> source + n \<le> dictionary d"
      using apart used copied by simp
    ultimately have "dict_mode_ok k"
      using n(1) b by (auto simp: dict_mode_ok_def NULL_def)
    with \<open>tab_ok k (source + 1) b\<close> sel show ?thesis
      using copied b n E used by simp
  next
    case (attached d)
    have d: "dict_stream d" "0 < currentOffset c"
      using dict attached by blast+
    have "tab_ok k (source + 1) b"
      by (rule tab_ok_stream [OF _ k n(1)]) (use attached P(1) in auto)
    moreover have sel: "k_hist k = dictionary d" "k_dictSize k = dictSize d" "k_dictionary k = dictionary d"
        "k_source k = source" "k_startIndex k = currentOffset c" "k_dict k = usingDictCtx" "k_maybe_extMem k"
        "k_dictCtx k = Some d" "k_dictIssue k = noDictIssue"
      using attached by (simp_all add: k enc_config_def k_hist_def k_maybe_extMem_def)
    moreover have "dictionary d + dictSize d \<le> source \<or> source + n \<le> dictionary d"
      using apart used attached by simp
    ultimately have "dict_mode_ok k"
      using n(1) d by (auto simp: dict_mode_ok_def dict_stream_def NULL_def)
    with \<open>tab_ok k (source + 1) b\<close> sel show ?thesis
      using attached P(1,2) used by simp
  qed
  then show "stream_ok b" "currentOffset b + n \<le> 2147483648" "tab_ok k (source + 1) b" "dict_mode_ok k"
    "used_dict ctx source n = (k_hist k, k_dictSize k)"
    "dictEnd = source \<longleftrightarrow> mode = withPrefix64k" "mode \<noteq> noDict"
    by blast+
qed

section \<open>The next block of a stream\<close>

text \<open>The state left behind describes data that is still there: the dictionary of the call and the input, if
  the input lies right behind it, and else the input.\<close>

lemma fast_continue_ok:
  assumes ok: "stream_ok ctx" and args: "encode_args m source n dest cap" and n: "0 < n" "n \<le> 2113929216"
    and source: "0 < source" and there: "dict_there m (used_dict ctx source n) source n dest cap"
  shows "\<exists>r ctx' m'. LZ4_compress_fast_continue m ctx source dest n cap acc = Some (r, None, ctx', m') \<and>
           encoded (stream_history m ctx source n) m source n dest cap r m' \<and>
           (LZ4_compressBound n \<le> cap \<longrightarrow> 0 < r) \<and>
           (0 < r \<longrightarrow> stream_ok ctx' \<and> dictionary ctx' + dictSize ctx' = source + n \<and>
              (dictCtx ctx = None \<longrightarrow> dictCtx ctx' = None) \<and>
              (\<exists>g. stream_history m ctx source n @ bytes m source (nat n) =
                 g @ bytes m' (dictionary ctx') (nat (dictSize ctx'))))"
proof -
  obtain c dictEnd where prep: "prepared ctx source n = (c, dictEnd)"
    by fastforce
  obtain b mode issue where mode: "call_mode ctx source n = (b, mode, issue)"
    by (cases "call_mode ctx source n")
  let ?a = "clamp_acceleration acc"
  define k where "k = enc_config b source dest n cap limitedOutput byU32 mode issue ?a"
  note P = prepared_ok [OF ok n source prep]
  note C = call_mode_ok [OF ok n source prep mode _ k_def]
  have apart: "p + l \<le> source \<or> source + n \<le> p" if "used_dict ctx source n = (p, l)" for p l
    using there that by (simp add: dict_there_def)
  have used: "used_dict ctx source n = (k_hist k, k_dictSize k)"
    by (rule C(5)) (rule apart)
  have b: "stream_ok b" "currentOffset b + n \<le> 2147483648" "tab_ok k (source + 1) b" "dict_mode_ok k"
      "dictEnd = source \<longleftrightarrow> mode = withPrefix64k" "mode \<noteq> noDict"
    by (rule C, erule apart)+
  note D = stream_okD [OF b(1)]
  have sel: "k_source k = source" "k_inputSize k = n" "k_dest k = dest" "k_maxOutputSize k = cap" "k_output k = limitedOutput"
    "k_tableType k = byU32" "k_startIndex k = currentOffset b" "k_acceleration k = ?a" "k_dict k = mode"
    "k_iend k = source + n" "enc_cap k = cap" "k_dend k = dest + cap"
    by (simp_all add: k_def enc_config_def k_iend_def enc_cap_def k_dend_def)
  have size: "0 \<le> k_dictSize k"
    using b(4) D(2) D(7) by (auto simp: dict_mode_ok_def k_def enc_config_def dict_stream_def split: option.splits)
  have regs: "region m source (source + n)" "region m dest (dest + cap)" "source + n \<le> dest \<or> dest + cap \<le> source" "0 \<le> cap"
    using args n by (auto simp: encode_args_def mapped_region)
  have ok_k: "enc_ok k m"
    unfolding enc_ok_def sel
    using size b(2,4) D(2,3) n regs clamp_acceleration_pos there [unfolded used] by (simp add: dict_there_def)
  have pre: "k_dictSize k = int (k_pre k)"
    by (rule enc_okD(1) [OF ok_k])
  have hist: "stream_history m ctx source n = bytes m (k_hist k) (k_pre k)"
    by (simp add: stream_history_def used k_pre_def)
  obtain r c' m' where run: "LZ4_compress_generic m b source dest n cap limitedOutput byU32 mode issue ?a = Some (r, None, c', m')"
    and enc: "encoded (stream_history m ctx source n) m source n dest cap r m'" "LZ4_compressBound n \<le> cap \<longrightarrow> 0 < r"
    and rest: "tab_rest c' = tab_rest (enc_enter b k)" and tab: "0 < r \<longrightarrow> tab_ok k (k_iend k + 1) c'"
    using stream_call [OF k_def ok_k b(3) n] unfolding hist by blast
  define f where "f = (if dictEnd = source then c' else c'\<lparr>dictionary := source, dictSize := U32 n\<rparr>)"
  have call: "LZ4_compress_fast_continue m ctx source dest n cap acc = Some (r, None, f, m')"
    by (simp add: fast_continue_call [OF prep mode] run f_def)
  have frame: "only_changed dest cap m m'"
    using enc(1) by (simp add: encoded_def)
  have input: "bytes m' source (nat n) = bytes m source (nat n)"
    by (rule only_changed_bytes [OF frame]) (use regs(3) n in auto)
  have f: "currentOffset f = currentOffset b + n" "dictCtx f = (if mode = usingDictCtx then None else dictCtx b)"
      "hashTable f = hashTable c'"
    and f_size: "dictEnd = source \<Longrightarrow> dictionary f = dictionary b \<and> dictSize f = dictSize b + n"
    and f_ext: "dictEnd \<noteq> source \<Longrightarrow> dictionary f = source \<and> dictSize f = n"
    using rest b(2,5) D(2,3) n by (auto simp: f_def tab_rest_def enc_enter_def Let_def sel)
  have nxt: "0 < dictionary f \<and> dictionary f + dictSize f = source + n \<and>
      (\<exists>g. stream_history m ctx source n @ bytes m source (nat n) = g @ bytes m' (dictionary f) (nat (dictSize f)))"
  proof (cases "dictEnd = source")
    case False
    with f_ext source input show ?thesis
      by auto
  next
    case True
    then have bc: "b = c"
      using mode unfolding call_mode_def prep by simp
    have hist_k: "k_hist k = dictionary b" "k_dictSize k = dictSize b"
      using used True unfolding used_dict_def prep bc by simp_all
    have "bytes m' (dictionary b) (nat (dictSize b)) = bytes m (dictionary b) (nat (dictSize b))"
      by (rule only_changed_bytes [OF frame]) (use there [unfolded used hist_k] D(2) in \<open>auto simp: dict_there_def\<close>)
    moreover have "nat (dictSize b + n) = nat (dictSize b) + nat n"
      using D(2) n by simp
    moreover have "dictionary b + int (nat (dictSize b)) = source"
      using P(4) True D(2) by (simp add: bc)
    moreover have "0 < dictionary b"
      using D(6) P(4) True source by (auto simp: bc)
    ultimately show ?thesis
      using f_size [OF True] input P(4) [OF True]
      by (auto simp: hist hist_k(1) k_pre_def hist_k(2) bytes_add bc intro!: exI [of _ "[]"])
  qed
  have "stream_ok f" if "0 < r"
  proof (rule stream_ok_after)
    show "tab_ok k (k_iend k + 1) f"
      using tab that f(3) by (simp add: tab_ok_def entries_byU32 sel)
    show "0 \<le> dictSize f" "dictSize f \<le> currentOffset f"
      using f_size f_ext f(1) D(2,3) n by (cases "dictEnd = source"; simp)+
    show "dictCtx f = None \<or> 0 < currentOffset f \<and> dict_stream (the (dictCtx f))"
      using f(1,2) D(7) n by (cases "dictCtx b") auto
  qed (use f(1) b(2) nxt in \<open>simp_all add: sel\<close>)
  moreover have "dictCtx f = None" if "dictCtx ctx = None"
    using mode P(3) that f(2) unfolding call_mode_def prep by (auto split: if_splits)
  ultimately show ?thesis
    using call enc nxt by (intro exI [of _ r] exI [of _ f] exI [of _ m']) simp
qed

text \<open>Without an attached dictionary the part that is used is the end of the dictionary of the state.\<close>

lemma stream_history_suffix:
  assumes ok: "stream_ok ctx" and n: "0 < n" "n \<le> 2113929216" and source: "0 < source" and none: "dictCtx ctx = None"
  shows "\<exists>g. bytes m (dictionary ctx) (nat (dictSize ctx)) = g @ stream_history m ctx source n"
proof -
  obtain c dictEnd where prep: "prepared ctx source n = (c, dictEnd)"
    by fastforce
  note P = prepared_ok [OF ok n source prep]
  have used: "used_dict ctx source n = (dictionary c, dictSize c)"
    using P(3) none by (simp add: used_dict_def prep)
  have "dictSize c = 0 \<or> dictSize c \<le> dictSize ctx \<and> dictionary c + dictSize c = dictionary ctx + dictSize ctx"
    by (rule prepared_dict [OF ok n source prep])
  then show ?thesis
  proof
    assume "dictSize c = 0"
    then show ?thesis
      by (simp add: stream_history_def used)
  next
    assume c: "dictSize c \<le> dictSize ctx \<and> dictionary c + dictSize c = dictionary ctx + dictSize ctx"
    define k where "k = nat (dictSize ctx - dictSize c)"
    have k: "nat (dictSize ctx) = k + nat (dictSize c)" "dictionary ctx + int k = dictionary c"
      using c stream_okD(2) [OF P(1)] by (auto simp: k_def)
    show ?thesis
      unfolding k(1) bytes_add k(2) stream_history_def used by simp
  qed
qed

end
