(* ===== verification/Lz4_Stream_Roundtrip.thy ===== *)
theory Lz4_Stream_Roundtrip
  imports Lz4_Stream_Props
begin

text \<open>
  The streaming encoder and the streaming decoder of src/lz4.c together. A sender compresses block after
  block, a receiver decodes them in another memory; each keeps its own state, and the data it refers to may
  lie in different places. \<open>covers\<close> relates the two: the receiver still has the data the sender may refer
  to. Every block keeps the relation, so what is received is what was sent.
\<close>

section \<open>The histories of the two sides\<close>

text \<open>The history \<open>dh\<close> of the decoder ends with the history \<open>eh\<close> of the encoder, or it is the end of it and
  reaches back far enough for every distance.\<close>

definition covers :: "byte list \<Rightarrow> byte list \<Rightarrow> bool" where
  "covers dh eh \<longleftrightarrow> (\<exists>g. dh = g @ eh) \<or> (\<exists>g. eh = g @ dh \<and> 65535 \<le> length dh)"

lemma covers_append:
  assumes "covers dh eh" and "eh @ xs = g @ s"
  shows "covers (dh @ xs) s"
proof -
  from assms(1) consider g1 where "dh = g1 @ eh" | g1 where "eh = g1 @ dh" "65535 \<le> length dh"
    by (auto simp: covers_def)
  then show ?thesis
  proof cases
    case 1
    then have "dh @ xs = (g1 @ g) @ s"
      using assms(2) by simp
    then show ?thesis
      unfolding covers_def by blast
  next
    case 2
    then have "g1 @ (dh @ xs) = g @ s"
      using assms(2) by simp
    then consider us where "dh @ xs = us @ s" | us where "s = us @ (dh @ xs)"
      by (auto simp: append_eq_append_conv2)
    then show ?thesis
      using 2(2) by cases (auto simp: covers_def)
  qed
qed

lemma covers_suffix: "covers dh eh \<Longrightarrow> eh = g @ s \<Longrightarrow> covers dh s"
  using covers_append [of dh eh "[]" g s] by simp

text \<open>Of the history of the decoder only the end \<open>r\<close> is left; that is enough if it is long, or still all that
  the encoder has.\<close>

lemma covers_end:
  assumes "covers (e @ g @ r) eh" and "65535 \<le> length r \<or> g = [] \<and> length eh \<le> length r"
  shows "covers r eh"
proof -
  from assms(1) consider h where "e @ g @ r = h @ eh" | h where "eh = h @ e @ g @ r"
    by (auto simp: covers_def)
  then show ?thesis
  proof cases
    case 1
    then have "(e @ g) @ r = h @ eh"
      by simp
    from iffD1 [OF append_eq_append_conv2 this]
    consider us where "e @ g = h @ us" "us @ r = eh" | us where "(e @ g) @ us = h" "r = us @ eh"
      by blast
    then show ?thesis
    proof cases
      case 1
      with assms(2) show ?thesis
        by (auto simp: covers_def)
    qed (auto simp: covers_def)
  next
    case 2
    then have "eh = (h @ e @ g) @ r"
      by simp
    with assms(2) show ?thesis
      unfolding covers_def by (auto simp: append_eq_append_conv2)
  qed
qed

lemma legal_after_covers:
  assumes "legal_after eh xs content" and "covers dh eh"
  shows "legal_after dh xs content"
proof -
  from assms(2) consider g where "dh = g @ eh" | g where "eh = g @ dh" "65535 \<le> length dh"
    by (auto simp: covers_def)
  then show ?thesis
  proof cases
    case 1
    then show ?thesis
      using legal_after_history [OF assms(1)] by simp
  next
    case 2
    obtain qs l where block: "block_after eh xs qs l content" and offs: "list_all (\<lambda>q. 0 < sq_off q) qs"
      using assms(1) by (auto simp: legal_after_def block_after_def)
    have "block_after dh xs qs l content"
      by (rule block_after_recent [of g]) (use block 2 in simp_all)
    with offs show ?thesis
      by (auto simp: legal_after_def block_after_def)
  qed
qed

section \<open>One block\<close>

lemma continue_prefixSize:
  assumes "LZ4_decompress_safe_continue m sd source dest n cap = Some (r, sd', m')" and "0 \<le> prefixSize sd"
  shows "0 \<le> prefixSize sd'"
  using assms by (auto simp: LZ4_decompress_safe_continue_def Let_def split: if_splits bind_splits)

text \<open>A block that was written by the encoder is decoded, and the decoder covers the encoder again.\<close>

lemma block_received:
  assumes ok: "stream_ok ctx" and enc: "encode_args ms source n dest cap" and n: "0 < n" "n \<le> 2113929216"
    and source: "0 < source" and there: "dict_there ms (used_dict ctx source n) source n dest cap"
    and run: "LZ4_compress_fast_continue ms ctx source dest n cap acc = Some (r, x, ctx', ms')" and r: "0 < r"
    and sd: "sd_ok mr sd out capo" and dec: "decode_args mr blk r out capo (sd_prefix sd out)" and fits: "n \<le> capo"
    and sent: "bytes mr blk (nat r) = bytes ms' dest (nat r)"
    and covers: "covers (sd_history sd mr out) (stream_history ms ctx source n)"
  shows "\<exists>mr' sd'. LZ4_decompress_safe_continue mr sd blk out r capo = Some (n, sd', mr') \<and>
           bytes mr' out (nat n) = bytes ms source (nat n) \<and> only_changed out capo mr mr' \<and>
           prefixEnd sd' = out + n \<and> covers (sd_history sd' mr' (out + n)) (bytes ms' (dictionary ctx') (nat (dictSize ctx')))"
    and "stream_ok ctx'" and "dictCtx ctx = None \<Longrightarrow> dictCtx ctx' = None"
proof -
  let ?eh = "stream_history ms ctx source n" and ?in = "bytes ms source (nat n)"
  obtain g where res: "encoded ?eh ms source n dest cap r ms'" and ctx': "stream_ok ctx'"
      "dictCtx ctx = None \<longrightarrow> dictCtx ctx' = None" and nxt: "?eh @ ?in = g @ bytes ms' (dictionary ctx') (nat (dictSize ctx'))"
    using fast_continue_ok [OF ok enc n source there, of acc] run r by auto
  have "legal_after (sd_history sd mr out) (bytes mr blk (nat r)) ?in"
    unfolding sent by (rule legal_after_covers [OF _ covers]) (use res r in \<open>simp add: encoded_def\<close>)
  from safe_continue_decodes [OF dec sd this] obtain mr' sd' where
    "LZ4_decompress_safe_continue mr sd blk out r capo = Some (n, sd', mr')"
    "bytes mr' out (nat n) = ?in" "only_changed out capo mr mr'" "prefixEnd sd' = out + n"
    "sd_history sd' mr' (out + n) = sd_history sd mr out @ ?in"
    using n fits by auto
  with covers_append [OF covers nxt] show "\<exists>mr' sd'. LZ4_decompress_safe_continue mr sd blk out r capo = Some (n, sd', mr') \<and>
           bytes mr' out (nat n) = ?in \<and> only_changed out capo mr mr' \<and>
           prefixEnd sd' = out + n \<and> covers (sd_history sd' mr' (out + n)) (bytes ms' (dictionary ctx') (nat (dictSize ctx')))"
    by auto
  show "stream_ok ctx'" "dictCtx ctx = None \<Longrightarrow> dictCtx ctx' = None"
    using ctx' by auto
qed

text \<open>A receiver that writes the next block elsewhere has its last segment as its history.\<close>

lemma sd_history_moved:
  assumes "0 \<le> prefixSize sd" and "covers (sd_history sd m (prefixEnd sd)) eh"
    and "out = prefixEnd sd \<or> 65535 \<le> prefixSize sd \<or> length eh \<le> nat (prefixSize sd)"
  shows "covers (sd_history sd m out) eh"
proof (cases "out = prefixEnd sd \<or> prefixSize sd = 0")
  case True
  then show ?thesis
    using assms(2) by (auto simp: sd_history_def)
next
  case False
  let ?p = "bytes m (prefixEnd sd - prefixSize sd) (nat (prefixSize sd))"
    and ?r = "recent_bytes m (prefixEnd sd - prefixSize sd) (prefixSize sd)"
  obtain g where g: "?p = g @ ?r" "g = [] \<or> 65535 \<le> length ?r"
    using recent_suffix [OF assms(1)] by blast
  have len: "length ?r = nat (min (prefixSize sd) 65535)"
    by (simp add: recent_bytes_def recent_def)
  have "covers (recent_bytes m (externalDict sd) (extDictSize sd) @ g @ ?r) eh"
    using assms(2) False g(1) by (simp add: sd_history_def)
  moreover have "65535 \<le> length ?r \<or> g = [] \<and> length eh \<le> length ?r"
    using g(2) assms(3) False len by (auto simp: min_def)
  ultimately have "covers ?r eh"
    by (rule covers_end)
  with False show ?thesis
    by (simp add: sd_history_def)
qed

section \<open>Sessions\<close>

text \<open>What the two sides see to when they call: allocated buffers that do not overlap, data that is still
  there, and on the receiving side room for the block. A receiver that does not go on right behind its
  last block needs a last segment of 64 KB, or one that holds all that the sender refers to.\<close>

definition sender_call :: "mem \<Rightarrow> lz4_ctx \<Rightarrow> ptr \<Rightarrow> int \<Rightarrow> ptr \<Rightarrow> int \<Rightarrow> bool" where
  "sender_call ms ctx source n dest cap \<longleftrightarrow>
     encode_args ms source n dest cap \<and> 0 < n \<and> n \<le> LZ4_MAX_INPUT_SIZE \<and> 0 < source \<and>
     dict_there ms (used_dict ctx source n) source n dest cap"

definition receiver_call :: "mem \<Rightarrow> stream_decode \<Rightarrow> ptr \<Rightarrow> int \<Rightarrow> ptr \<Rightarrow> int \<Rightarrow> byte list \<Rightarrow> bool" where
  "receiver_call mr sd blk r out capo h \<longleftrightarrow>
     sd_ok mr sd out capo \<and> decode_args mr blk r out capo (sd_prefix sd out) \<and>
     (out = prefixEnd sd \<or> 65535 \<le> prefixSize sd \<or> length h \<le> nat (prefixSize sd))"

text \<open>A session: the sender loads a dictionary or none, the receiver sets the same one; then blocks are
  compressed, moved and decoded. Between two blocks both sides may write to their memories, as
  long as the data they refer to next is left as it was; the sender may save its dictionary, and the
  receiver may set another place where the end of its data is.\<close>

inductive streaming ::
  "mem \<Rightarrow> lz4_ctx \<Rightarrow> mem \<Rightarrow> stream_decode \<Rightarrow> byte list \<Rightarrow> byte list \<Rightarrow> bool" where
  start: "mapped ms dict (nat len) \<Longrightarrow> 0 \<le> len \<Longrightarrow> len < 2 ^ 31 \<Longrightarrow> 0 < dict \<or> len < 8 \<Longrightarrow>
    LZ4_loadDict ms ctx0 dict len = Some (d, ctx) \<Longrightarrow> LZ4_setStreamDecode sd0 dict' len = (1, sd) \<Longrightarrow>
    bytes mr dict' (nat len) = bytes ms dict (nat len) \<Longrightarrow> streaming ms ctx mr sd [] []"
| block: "streaming ms0 ctx mr0 sd sent got \<Longrightarrow>
    stream_history ms ctx source n = stream_history ms0 ctx source n \<Longrightarrow>
    sd_history sd mr out = sd_history sd mr0 out \<Longrightarrow> sender_call ms ctx source n dest cap \<Longrightarrow>
    LZ4_compress_fast_continue ms ctx source dest n cap acc = Some (r, x, ctx', ms') \<Longrightarrow> 0 < r \<Longrightarrow>
    receiver_call mr sd blk r out capo (stream_history ms ctx source n) \<Longrightarrow> n \<le> capo \<Longrightarrow>
    bytes mr blk (nat r) = bytes ms' dest (nat r) \<Longrightarrow>
    LZ4_decompress_safe_continue mr sd blk out r capo = Some (k, sd', mr') \<Longrightarrow>
    streaming ms' ctx' mr' sd' (sent @ bytes ms source (nat n)) (got @ bytes mr' out (nat k))"
| save: "streaming ms0 ctx mr sd sent got \<Longrightarrow>
    bytes ms (dictionary ctx) (nat (dictSize ctx)) = bytes ms0 (dictionary ctx) (nat (dictSize ctx)) \<Longrightarrow>
    save_call ms ctx buf n \<Longrightarrow> LZ4_saveDict ms ctx buf n = Some (r, ctx', ms') \<Longrightarrow>
    streaming ms' ctx' mr sd sent got"
| set: "streaming ms ctx mr0 sd sent got \<Longrightarrow> LZ4_setStreamDecode sd dict' len = (1, sd') \<Longrightarrow>
    0 \<le> len \<Longrightarrow> len < 2 ^ 31 \<Longrightarrow> sd_history sd mr0 (prefixEnd sd) = e @ bytes mr dict' (nat len) \<Longrightarrow>
    65535 \<le> len \<or> dictSize ctx \<le> len \<Longrightarrow> streaming ms ctx mr sd' sent got"

inductive_cases streamingE: "streaming ms ctx mr sd sent got"

definition in_step :: "mem \<Rightarrow> lz4_ctx \<Rightarrow> mem \<Rightarrow> stream_decode \<Rightarrow> bool" where
  "in_step ms ctx mr sd \<longleftrightarrow>
     stream_ok ctx \<and> dictCtx ctx = None \<and> 0 \<le> prefixSize sd \<and>
     covers (sd_history sd mr (prefixEnd sd)) (bytes ms (dictionary ctx) (nat (dictSize ctx)))"

lemma set_history:
  assumes "LZ4_setStreamDecode sd0 dict' len = (1, sd)" and "0 \<le> len" and "len < 2 ^ 31"
  shows "prefixSize sd = len" and "sd_history sd m (prefixEnd sd) = bytes m dict' (nat len)"
proof -
  have sd: "prefixSize sd = len" "prefixEnd sd = dict' + len" "extDictSize sd = 0"
    using assms by (auto simp: LZ4_setStreamDecode_def Let_def U64_def)
  then show "prefixSize sd = len" "sd_history sd m (prefixEnd sd) = bytes m dict' (nat len)"
    using assms(2) by (simp_all add: sd_history_def recent_bytes_def recent_def)
qed

lemma start_in_step:
  assumes "mapped ms dict (nat len)" and len: "0 \<le> len" "len < 2 ^ 31" and "0 < dict \<or> len < 8"
    and load: "LZ4_loadDict ms ctx0 dict len = Some (d, ctx)" and set: "LZ4_setStreamDecode sd0 dict' len = (1, sd)"
    and same: "bytes mr dict' (nat len) = bytes ms dict (nat len)"
  shows "in_step ms ctx mr sd"
proof -
  have ctx: "stream_ok ctx" "dictCtx ctx = None" "dictSize ctx = (if len < 8 then 0 else min len 65536)"
      "0 < dictSize ctx \<Longrightarrow> dictionary ctx + dictSize ctx = dict + len"
    using loadDict_ok [OF assms(1) len, of ctx0 ld_fast] assms(4) load by (auto simp: LZ4_loadDict_def)
  note sd = set_history [OF set len]
  have "\<exists>g. bytes ms dict (nat len) = g @ bytes ms (dictionary ctx) (nat (dictSize ctx))"
  proof (cases "dictSize ctx = 0")
    case False
    then have "0 < dictSize ctx" "dictSize ctx \<le> len"
      using ctx(3) len by (auto split: if_splits)
    moreover from this have "dictionary ctx = dict + len - dictSize ctx"
      using ctx(4) by simp
    ultimately show ?thesis
      using bytes_last [of "dictSize ctx" len ms dict] by simp
  qed simp
  then have "covers (sd_history sd mr (prefixEnd sd)) (bytes ms (dictionary ctx) (nat (dictSize ctx)))"
    unfolding sd(2) same covers_def by blast
  then show ?thesis
    using ctx(1,2) sd(1) len by (simp add: in_step_def)
qed

text \<open>Saving the dictionary, and setting another place, keep the two sides in step.\<close>

lemma in_step_save:
  assumes step: "in_step ms0 ctx mr sd"
    and same: "bytes ms (dictionary ctx) (nat (dictSize ctx)) = bytes ms0 (dictionary ctx) (nat (dictSize ctx))"
    and call: "save_call ms ctx buf n" and run: "LZ4_saveDict ms ctx buf n = Some (r, ctx', ms')"
  shows "in_step ms' ctx' mr sd"
proof -
  have ok: "stream_ok ctx" "dictCtx ctx = None" "0 \<le> prefixSize sd"
      "covers (sd_history sd mr (prefixEnd sd)) (bytes ms (dictionary ctx) (nat (dictSize ctx)))"
    using step by (auto simp: in_step_def same)
  from saveDict_ok [OF ok(1) call] run obtain g where ctx': "stream_ok ctx'" "dictionary ctx' = buf" "dictSize ctx' = r"
      "dictCtx ctx' = None" "bytes ms (dictionary ctx) (nat (dictSize ctx)) = g @ bytes ms' buf (nat r)"
    using ok(2) by auto
  from covers_suffix [OF ok(4) ctx'(5)] show ?thesis
    using ctx'(1-4) ok(3) by (simp add: in_step_def)
qed

lemma in_step_set:
  assumes step: "in_step ms ctx mr0 sd" and set: "LZ4_setStreamDecode sd dict' len = (1, sd')"
    and len: "0 \<le> len" "len < 2 ^ 31" and last: "sd_history sd mr0 (prefixEnd sd) = e @ bytes mr dict' (nat len)"
    and enough: "65535 \<le> len \<or> dictSize ctx \<le> len"
  shows "in_step ms ctx mr sd'"
proof -
  let ?eh = "bytes ms (dictionary ctx) (nat (dictSize ctx))"
  have ok: "stream_ok ctx" "dictCtx ctx = None" "covers (sd_history sd mr0 (prefixEnd sd)) ?eh"
    using step by (auto simp: in_step_def)
  have "covers (e @ [] @ bytes mr dict' (nat len)) ?eh"
    using ok(3) last by simp
  moreover have "65535 \<le> length (bytes mr dict' (nat len)) \<or> [] = [] \<and> length ?eh \<le> length (bytes mr dict' (nat len))"
    using enough by auto
  ultimately have "covers (bytes mr dict' (nat len)) ?eh"
    by (rule covers_end)
  then show ?thesis
    using ok(1,2) set_history [OF set len] len(1) by (simp add: in_step_def)
qed

text \<open>The next block goes through, and keeps the two sides in step.\<close>

lemma in_step_block:
  assumes step: "in_step ms0 ctx mr0 sd"
    and eh: "stream_history ms ctx source n = stream_history ms0 ctx source n"
    and dh: "sd_history sd mr out = sd_history sd mr0 out" and sender: "sender_call ms ctx source n dest cap"
    and run: "LZ4_compress_fast_continue ms ctx source dest n cap acc = Some (r, x, ctx', ms')" and r: "0 < r"
    and receiver: "receiver_call mr sd blk r out capo (stream_history ms ctx source n)" and fits: "n \<le> capo"
    and moved: "bytes mr blk (nat r) = bytes ms' dest (nat r)"
  shows "\<exists>sd' mr'. LZ4_decompress_safe_continue mr sd blk out r capo = Some (n, sd', mr') \<and>
           bytes mr' out (nat n) = bytes ms source (nat n) \<and> only_changed out capo mr mr' \<and>
           in_step ms' ctx' mr' sd'"
proof -
  have n: "0 < n" "n \<le> 2113929216" and enc: "encode_args ms source n dest cap" and source: "0 < source"
    and there: "dict_there ms (used_dict ctx source n) source n dest cap"
    using sender by (auto simp: sender_call_def LZ4_MAX_INPUT_SIZE_def)
  have ok: "stream_ok ctx" "dictCtx ctx = None" "0 \<le> prefixSize sd"
      "covers (sd_history sd mr0 (prefixEnd sd)) (bytes ms0 (dictionary ctx) (nat (dictSize ctx)))"
    using step by (auto simp: in_step_def)
  have sd: "sd_ok mr sd out capo" "decode_args mr blk r out capo (sd_prefix sd out)"
      "out = prefixEnd sd \<or> 65535 \<le> prefixSize sd \<or> length (stream_history ms ctx source n) \<le> nat (prefixSize sd)"
    using receiver by (auto simp: receiver_call_def)
  obtain g where "bytes ms0 (dictionary ctx) (nat (dictSize ctx)) = g @ stream_history ms0 ctx source n"
    using stream_history_suffix [OF ok(1) n source ok(2)] by blast
  from covers_suffix [OF ok(4) this] have "covers (sd_history sd mr0 (prefixEnd sd)) (stream_history ms ctx source n)"
    by (simp only: eh)
  from sd_history_moved [OF ok(3) this sd(3)] have "covers (sd_history sd mr out) (stream_history ms ctx source n)"
    by (simp only: dh)
  note B = block_received [OF ok(1) enc n source there run r sd(1,2) fits moved this]
  from B(1) obtain mr' sd' where res: "LZ4_decompress_safe_continue mr sd blk out r capo = Some (n, sd', mr')"
    "bytes mr' out (nat n) = bytes ms source (nat n)" "only_changed out capo mr mr'" "prefixEnd sd' = out + n"
    "covers (sd_history sd' mr' (out + n)) (bytes ms' (dictionary ctx') (nat (dictSize ctx')))"
    by blast
  have "0 \<le> prefixSize sd'"
    by (rule continue_prefixSize [OF res(1) ok(3)])
  with res B(2) B(3) [OF ok(2)] show ?thesis
    by (auto simp: in_step_def)
qed

lemma streaming_in_step: "streaming ms ctx mr sd sent got \<Longrightarrow> in_step ms ctx mr sd \<and> got = sent"
proof (induction rule: streaming.induct)
  case (start ms dict len ctx0 d ctx sd0 dict' sd mr)
  then show ?case
    using start_in_step by blast
next
  case (block ms0 ctx mr0 sd sent got ms source n mr out dest cap acc r x ctx' ms' blk capo k sd' mr')
  then have "in_step ms0 ctx mr0 sd" "got = sent"
    by auto
  from in_step_block [OF this(1) block.hyps(2-9)] block.hyps(10) this(2) show ?case
    by auto
next
  case (save ms0 ctx mr sd sent got ms buf n r ctx' ms')
  then show ?case
    using in_step_save by blast
next
  case (set ms ctx mr0 sd sent got dict' len sd' e mr)
  then show ?case
    using in_step_set [OF _ set.hyps(2-6)] by blast
qed

section \<open>Properties of the streams\<close>

text \<open>C17: \<open>LZ4_compress_fast_continue\<close> returns in every state between two calls, whatever mode it chooses, without
  an access outside its buffers. With \<open>LZ4_compressBound\<close> bytes of room it does not fail. A result other than 0 is
  the size of a block that is legal after the data the state described; the state stays sane, and
  describes data that ends with the input.\<close>

theorem LZ4_compress_fast_continue_correct:
  assumes "stream_ok ctx" and "sender_call m ctx source n dest cap"
  shows "\<exists>r ctx' m'. LZ4_compress_fast_continue m ctx source dest n cap acc = Some (r, None, ctx', m') \<and>
           only_changed dest cap m m' \<and> 0 \<le> r \<and> r \<le> cap \<and> r \<le> LZ4_compressBound n \<and>
           (LZ4_compressBound n \<le> cap \<longrightarrow> 0 < r) \<and>
           (0 < r \<longrightarrow> legal_after (stream_history m ctx source n) (bytes m' dest (nat r)) (bytes m source (nat n)) \<and>
              stream_ok ctx' \<and> dictionary ctx' + dictSize ctx' = source + n \<and>
              (\<exists>g. stream_history m ctx source n @ bytes m source (nat n) =
                 g @ bytes m' (dictionary ctx') (nat (dictSize ctx'))))"
  using fast_continue_ok [OF assms(1), of m source n dest cap acc] assms(2)
  by (auto simp: sender_call_def encoded_def LZ4_MAX_INPUT_SIZE_def)

text \<open>A state with ten bytes in front of the input.\<close>

abbreviation ten_ctx :: lz4_ctx where
  "ten_ctx \<equiv> zero_ctx\<lparr>dictionary := 16, dictSize := 10, currentOffset := 10\<rparr>"

lemma ten_ctx_facts:
  "stream_ok ten_ctx" "used_dict ten_ctx 26 10 = (16, 10)" "sender_call text_mem ten_ctx 26 10 64 64"
proof -
  have enc: "encode_args text_mem 26 10 64 64"
    using region_sub [OF text_region [of 16 36], of 26 36] text_region [of 64 128]
    by (simp add: encode_args_def mapped_region)
  show "stream_ok ten_ctx"
    by (simp add: stream_ok_def zero_ctx_def index_ok_def)
  show used: "used_dict ten_ctx 26 10 = (16, 10)"
    by (simp add: used_dict_def prepared_def LZ4_renormDictT_def drop_tiny_dict_def shorten_dict_def zero_ctx_def)
  show "sender_call text_mem ten_ctx 26 10 64 64"
    using enc region_sub [OF text_region [of 16 36], of 16 26]
    unfolding sender_call_def used by (simp add: dict_there_def LZ4_MAX_INPUT_SIZE_def)
qed

theorem LZ4_compress_fast_continue_correct_witness:
  "\<exists>r ctx' m'. LZ4_compress_fast_continue text_mem ten_ctx 26 64 10 64 1 = Some (r, None, ctx', m') \<and> 0 < r \<and>
     legal_after (bytes text_mem 16 10) (bytes m' 64 (nat r)) (bytes text_mem 26 10) \<and> stream_ok ctx'"
proof -
  have hist: "stream_history text_mem ten_ctx 26 10 = bytes text_mem 16 10"
    by (simp only: stream_history_def ten_ctx_facts(2) prod.case) simp
  from LZ4_compress_fast_continue_correct [OF ten_ctx_facts(1,3), of 1] show ?thesis
    unfolding hist by (auto simp: compressBound_pos)
qed

text \<open>A session with a dictionary of ten bytes, and a block behind it; the receiver decodes the block over the
  bytes it was made from.\<close>

abbreviation ten_sd :: stream_decode where
  "ten_sd \<equiv> \<lparr>externalDict = NULL, prefixEnd = 26, extDictSize = 0, prefixSize = 10\<rparr>"

lemma ten_session:
  "\<exists>ctx. streaming text_mem ctx text_mem ten_sd [] [] \<and> stream_ok ctx \<and> used_dict ctx 26 10 = (16, 10) \<and>
     sender_call text_mem ctx 26 10 64 64"
proof -
  have dict: "mapped text_mem 16 (nat 10)"
    using region_sub [OF text_region [of 16 36], of 16 26] by (simp add: mapped_region)
  obtain ctx where load: "LZ4_loadDict text_mem zero_ctx 16 10 = Some (10, ctx)"
    and ctx: "dictSize ctx = 10" "dictCtx ctx = None" "currentOffset ctx = 65536" "stream_ok ctx" "dictionary ctx = 16"
    using loadDict_ok [OF dict, of zero_ctx ld_fast] by (auto simp: LZ4_loadDict_def)
  have "LZ4_setStreamDecode zero_stream_decode 16 10 = (1, ten_sd)"
    by (simp add: LZ4_setStreamDecode_def zero_stream_decode_def U64_def)
  from streaming.start [OF dict _ _ _ load this refl] have "streaming text_mem ctx text_mem ten_sd [] []"
    by simp
  moreover have used: "used_dict ctx 26 10 = (16, 10)"
    using ctx by (simp add: used_dict_def prepared_def LZ4_renormDictT_def drop_tiny_dict_def shorten_dict_def)
  moreover have "sender_call text_mem ctx 26 10 64 64"
    using ten_ctx_facts(3) unfolding sender_call_def ten_ctx_facts(2) used .
  ultimately show ?thesis
    using ctx(4) by blast
qed

lemma ten_receiver:
  assumes "only_changed 64 64 text_mem m" and "0 < r" and "r \<le> 64"
  shows "receiver_call m ten_sd 64 r 26 10 h" and "sd_history ten_sd m 26 = sd_history ten_sd text_mem 26"
proof -
  have dom: "dom m = dom text_mem"
    using assms(1) by (simp add: only_changed_def)
  have "region text_mem 64 (64 + r)" "region text_mem 16 36"
    by (rule region_sub [OF text_region [of 64 192]] text_region; use assms(3) in simp)+
  then have "region m 64 (64 + r)" "region m 16 36"
    by (simp_all add: region_dom [OF dom])
  then show "receiver_call m ten_sd 64 r 26 10 h"
    using assms(2,3) by (auto simp: receiver_call_def sd_ok_def dict_ok_def decode_args_def sd_prefix_def
        mapped_region region_def recent_def)
  have "bytes m 16 10 = bytes text_mem 16 10"
    by (rule only_changed_bytes [OF assms(1)]) simp
  then show "sd_history ten_sd m 26 = sd_history ten_sd text_mem 26"
    by (simp add: sd_history_def recent_bytes_def recent_def)
qed

lemma ten_block:
  "\<exists>ms ctx mr sd got. streaming ms ctx mr sd (bytes text_mem 26 10) got"
proof -
  obtain ctx where s: "streaming text_mem ctx text_mem ten_sd [] []" "stream_ok ctx" "used_dict ctx 26 10 = (16, 10)"
      "sender_call text_mem ctx 26 10 64 64"
    using ten_session by blast
  obtain r ctx' ms' where run: "LZ4_compress_fast_continue text_mem ctx 26 64 10 64 1 = Some (r, None, ctx', ms')"
      "0 < r" "r \<le> 64" "only_changed 64 64 text_mem ms'"
    using fast_continue_ok [OF s(2), of text_mem 26 10 64 64 1] s(4)
    by (auto simp: sender_call_def encoded_def compressBound_pos)
  note rec = ten_receiver [OF run(4,2,3)]
  have step: "in_step text_mem ctx text_mem ten_sd"
    using streaming_in_step [OF s(1)] by blast
  from in_step_block [OF step refl rec(2) s(4) run(1,2) rec(1) _ refl] obtain sd' mr' where
    dec: "LZ4_decompress_safe_continue ms' ten_sd 64 26 r 10 = Some (10, sd', mr')"
    by auto
  from streaming.block [OF s(1) refl rec(2) s(4) run(1,2) rec(1) _ refl dec]
  have "streaming ms' ctx' mr' sd' (bytes text_mem 26 10) (bytes mr' 26 10)"
    by simp
  then show ?thesis
    by blast
qed

text \<open>C15: What is received in a session is what was sent: blocks that are compressed one after the other,
  from and to any places in memory, and decoded in another memory, give the input back.\<close>

theorem LZ4_stream_roundtrip:
  assumes "streaming ms ctx mr sd sent got"
  shows "got = sent"
  using streaming_in_step [OF assms] by blast

theorem LZ4_stream_roundtrip_witness:
  "\<exists>ms ctx mr sd got. streaming ms ctx mr sd (bytes text_mem 26 10) got \<and> got = bytes text_mem 26 10"
  using ten_block LZ4_stream_roundtrip by blast

text \<open>C16: A session does not get stuck: with \<open>LZ4_compressBound\<close> bytes of room the next block is compressed, and
  once its bytes are moved it is decoded, and the session goes on.\<close>

theorem LZ4_stream_progress:
  assumes "streaming ms0 ctx mr0 sd sent got" and "stream_history ms ctx source n = stream_history ms0 ctx source n"
    and "sender_call ms ctx source n dest cap" and "LZ4_compressBound n \<le> cap"
  shows "\<exists>r ctx' ms'. LZ4_compress_fast_continue ms ctx source dest n cap acc = Some (r, None, ctx', ms') \<and> 0 < r \<and>
    (\<forall>mr out blk capo. sd_history sd mr out = sd_history sd mr0 out \<and> n \<le> capo \<and>
        receiver_call mr sd blk r out capo (stream_history ms ctx source n) \<and>
        bytes mr blk (nat r) = bytes ms' dest (nat r) \<longrightarrow>
      (\<exists>sd' mr'. LZ4_decompress_safe_continue mr sd blk out r capo = Some (n, sd', mr') \<and>
         bytes mr' out (nat n) = bytes ms source (nat n) \<and> only_changed out capo mr mr' \<and>
         streaming ms' ctx' mr' sd' (sent @ bytes ms source (nat n)) (got @ bytes mr' out (nat n))))"
proof -
  have step: "in_step ms0 ctx mr0 sd"
    using streaming_in_step [OF assms(1)] by blast
  then have "stream_ok ctx"
    by (simp add: in_step_def)
  from fast_continue_ok [OF this, of ms source n dest cap acc] assms(3,4) obtain r ctx' ms' where
    run: "LZ4_compress_fast_continue ms ctx source dest n cap acc = Some (r, None, ctx', ms')" "0 < r"
    by (auto simp: sender_call_def LZ4_MAX_INPUT_SIZE_def)
  have "\<exists>sd' mr'. LZ4_decompress_safe_continue mr sd blk out r capo = Some (n, sd', mr') \<and>
         bytes mr' out (nat n) = bytes ms source (nat n) \<and> only_changed out capo mr mr' \<and>
         streaming ms' ctx' mr' sd' (sent @ bytes ms source (nat n)) (got @ bytes mr' out (nat n))"
    if r: "sd_history sd mr out = sd_history sd mr0 out" "n \<le> capo"
      "receiver_call mr sd blk r out capo (stream_history ms ctx source n)"
      "bytes mr blk (nat r) = bytes ms' dest (nat r)" for mr out blk capo
  proof -
    from in_step_block [OF step assms(2) r(1) assms(3) run r(3,2,4)] obtain sd' mr' where
      dec: "LZ4_decompress_safe_continue mr sd blk out r capo = Some (n, sd', mr')"
      "bytes mr' out (nat n) = bytes ms source (nat n)" "only_changed out capo mr mr'"
      by blast
    with streaming.block [OF assms(1,2) r(1) assms(3) run r(3,2,4) dec(1)] show ?thesis
      by blast
  qed
  with run show ?thesis
    by blast
qed

theorem LZ4_stream_progress_witness:
  "\<exists>ctx r ctx' ms' sd' mr'. LZ4_compress_fast_continue text_mem ctx 26 64 10 64 1 = Some (r, None, ctx', ms') \<and> 0 < r \<and>
     LZ4_decompress_safe_continue ms' ten_sd 64 26 r 10 = Some (10, sd', mr') \<and>
     bytes mr' 26 10 = bytes text_mem 26 10 \<and> streaming ms' ctx' mr' sd' (bytes text_mem 26 10) (bytes mr' 26 10)"
proof -
  obtain ctx where s: "streaming text_mem ctx text_mem ten_sd [] []" "stream_ok ctx"
      "sender_call text_mem ctx 26 10 64 64"
    using ten_session by blast
  obtain r ctx' ms' where run: "LZ4_compress_fast_continue text_mem ctx 26 64 10 64 1 = Some (r, None, ctx', ms')" "0 < r"
      "r \<le> 64" "only_changed 64 64 text_mem ms'"
    using fast_continue_ok [OF s(2), of text_mem 26 10 64 64 1] s(3)
    by (auto simp: sender_call_def encoded_def compressBound_pos)
  note rec = ten_receiver [OF run(4,2,3)]
  have "LZ4_compressBound 10 \<le> 64"
    by (simp add: compressBound_pos)
  from LZ4_stream_progress [OF s(1) refl s(3) this, of 1] run(1)
  have "\<exists>sd' mr'. LZ4_decompress_safe_continue ms' ten_sd 64 26 r 10 = Some (10, sd', mr') \<and>
      bytes mr' 26 (nat 10) = bytes text_mem 26 (nat 10) \<and> only_changed 26 10 ms' mr' \<and>
      streaming ms' ctx' mr' sd' ([] @ bytes text_mem 26 (nat 10)) ([] @ bytes mr' 26 (nat 10))"
    using rec by simp
  then obtain sd' mr' where "LZ4_decompress_safe_continue ms' ten_sd 64 26 r 10 = Some (10, sd', mr')"
      "bytes mr' 26 10 = bytes text_mem 26 10" "streaming ms' ctx' mr' sd' (bytes text_mem 26 10) (bytes mr' 26 10)"
    by auto
  with run(1,2) show ?thesis
    by blast
qed

end
