(* ===== verification/Lz4_Dict_Props.thy ===== *)
theory Lz4_Dict_Props
  imports Lz4_Stream_Roundtrip
begin

text \<open>
  Dictionaries: what \<open>LZ4_loadDict\<close>, \<open>LZ4_attach_dictionary\<close> and \<open>LZ4_saveDict\<close> of src/lz4.c promise, the states
  that the calls of the streaming interface can reach, and the round trip of a block that is compressed
  with an attached dictionary.
\<close>

section \<open>Loaded dictionaries\<close>

definition dict_args :: "mem \<Rightarrow> ptr \<Rightarrow> int \<Rightarrow> bool" where
  "dict_args m dict len \<longleftrightarrow> mapped m dict (nat len) \<and> 0 \<le> len \<and> len < 2 ^ 31 \<and> 0 < dict"

text \<open>The state of a dictionary: less than eight bytes are ignored, of more the last 64 KB are kept.\<close>

definition dict_loaded :: "ptr \<Rightarrow> int \<Rightarrow> lz4_ctx \<Rightarrow> bool" where
  "dict_loaded dict len ctx \<longleftrightarrow>
     stream_ok ctx \<and> dictCtx ctx = None \<and> currentOffset ctx = 65536 \<and>
     dictSize ctx = (if len < 8 then 0 else min len 65536) \<and>
     (8 \<le> len \<longrightarrow> dictionary ctx + dictSize ctx = dict + len \<and> dict_stream (lz4_tab.truncate ctx))"

lemma loadDict_loaded:
  assumes "dict_args m dict len"
  shows "\<exists>d. LZ4_loadDict_internal m ctx dict len ld = Some (dictSize d, d) \<and> dict_loaded dict len d"
proof -
  have a: "mapped m dict (nat len)" "0 \<le> len" "len < 2 ^ 31" "8 \<le> len \<Longrightarrow> 0 < dict"
    using assms by (auto simp: dict_args_def)
  obtain r d where load: "LZ4_loadDict_internal m ctx dict len ld = Some (r, d)"
    and r: "r = (if len < 8 then 0 else min len 65536)" "dictSize d = r"
    and d: "dictCtx d = None" "currentOffset d = 65536" "stream_ok d"
      "0 < r \<longrightarrow> dictionary d + r = dict + len \<and> dict_stream (lz4_tab.truncate d)"
    using loadDict_ok [OF a, of ctx ld] by blast
  have "dictionary d + dictSize d = dict + len \<and> dict_stream (lz4_tab.truncate d)" if "8 \<le> len"
    using that r d(4) by simp
  then have "dict_loaded dict len d"
    using r d(1-3) by (simp add: dict_loaded_def)
  with load r(2) show ?thesis
    by blast
qed

lemma dict_loadedI: "dict_args m dict len \<Longrightarrow> LZ4_loadDict_internal m ctx dict len ld = Some (r, d) \<Longrightarrow> dict_loaded dict len d"
  using loadDict_loaded [of m dict len ctx ld] by auto

lemma attach_loaded:
  assumes "stream_ok w" and "dict_loaded dict len d"
  shows "stream_ok (LZ4_attach_dictionary w (Some d))"
    and "dictCtx (LZ4_attach_dictionary w (Some d)) = (if len < 8 then None else Some (lz4_tab.truncate d))"
    and "dictSize (LZ4_attach_dictionary w (Some d)) = dictSize w"
proof -
  have "stream_ok (LZ4_attach_dictionary w (Some d)) \<and>
      dictCtx (LZ4_attach_dictionary w (Some d)) = (if len < 8 then None else Some (lz4_tab.truncate d))"
  proof (cases "len < 8")
    case True
    then show ?thesis
      using assms by (auto simp: dict_loaded_def LZ4_attach_dictionary_def Let_def stream_ok_def index_ok_def)
  next
    case False
    then show ?thesis
      using attach_ok [OF assms(1)] assms(2) by (simp add: dict_loaded_def)
  qed
  then show "stream_ok (LZ4_attach_dictionary w (Some d))"
    "dictCtx (LZ4_attach_dictionary w (Some d)) = (if len < 8 then None else Some (lz4_tab.truncate d))"
    by blast+
qed (simp add: LZ4_attach_dictionary_def Let_def)

text \<open>The dictionary that a state without own data uses is the one that is attached to it.\<close>

lemma attached_used:
  assumes w: "stream_ok w" "dictSize w = 0" and d: "dict_loaded dict len d" and source: "0 < source" "0 < n"
  shows "used_dict (LZ4_attach_dictionary w (Some d)) source n =
           (if len < 8 then (source, 0) else (dict + len - dictSize d, dictSize d))"
proof -
  let ?c = "LZ4_attach_dictionary w (Some d)"
  note A = attach_loaded [OF w(1) d]
  have c1: "dictSize (LZ4_renormDictT ?c n) = 0" "dictCtx (LZ4_renormDictT ?c n) = dictCtx ?c"
    using A(3) w(2) by (simp_all add: LZ4_renormDictT_def Let_def)
  show ?thesis
  proof (cases "len < 8")
    case True
    then show ?thesis
      using c1 A(2,3) w(2) source
      by (simp add: used_dict_def prepared_def drop_tiny_dict_def shorten_dict_def NULL_def)
  next
    case False
    then have "dictionary d = dict + len - dictSize d"
      using d by (simp add: dict_loaded_def)
    with False show ?thesis
      using c1 A(2,3) w(2) source
      by (simp add: used_dict_def prepared_def drop_tiny_dict_def shorten_dict_def NULL_def lz4_tab.defs)
  qed
qed

lemma attached_history:
  assumes "stream_ok w" and "dictSize w = 0" and d: "dict_loaded dict len d" and "0 < source" and "0 < n"
  shows "\<exists>g. bytes m dict (nat len) = g @ stream_history m (LZ4_attach_dictionary w (Some d)) source n"
proof (cases "len < 8")
  case False
  then have "0 \<le> dictSize d" "dictSize d \<le> len"
    using d by (auto simp: dict_loaded_def)
  from bytes_last [OF this, of m dict] False show ?thesis
    by (simp add: stream_history_def attached_used [OF assms])
qed (simp add: stream_history_def attached_used [OF assms])

section \<open>The states of a stream\<close>

text \<open>The states that the calls reach, each with the memory it finds. After a failure a stream has to be reset, as
  include/lz4.h says. A fast reset of a state with a cleared table adds 64 KB to its offset; the side condition
  keeps a long row of such resets from wrapping it around.\<close>

inductive stream_reach :: "lz4_ctx \<Rightarrow> bool" where
  init: "LZ4_initStream p size_s = Some ctx \<Longrightarrow> stream_reach ctx"
| reset: "stream_reach (LZ4_resetStream ctx)"
| fast_reset: "stream_reach ctx \<Longrightarrow> tableType ctx \<noteq> clearedTable \<or> currentOffset ctx \<le> GB \<Longrightarrow>
    stream_reach (LZ4_resetStream_fast ctx)"
| load: "dict_args m dict len \<Longrightarrow> LZ4_loadDict_internal m ctx dict len ld = Some (r, ctx') \<Longrightarrow> stream_reach ctx'"
| attach: "stream_reach w \<Longrightarrow> dict_args m dict len \<Longrightarrow> LZ4_loadDict_internal m ctx dict len ld = Some (r, d) \<Longrightarrow>
    stream_reach (LZ4_attach_dictionary w (Some d))"
| detach: "stream_reach w \<Longrightarrow> stream_reach (LZ4_attach_dictionary w None)"
| compress: "stream_reach ctx \<Longrightarrow> sender_call m ctx source n dest cap \<Longrightarrow>
    LZ4_compress_fast_continue m ctx source dest n cap acc = Some (r, x, ctx', m') \<Longrightarrow> 0 < r \<Longrightarrow> stream_reach ctx'"
| save: "stream_reach ctx \<Longrightarrow> save_call m ctx buf n \<Longrightarrow> LZ4_saveDict m ctx buf n = Some (r, ctx', m') \<Longrightarrow>
    stream_reach ctx'"

lemma sender_call_ok:
  assumes "stream_ok ctx" and "sender_call m ctx source n dest cap"
  shows "\<exists>r ctx' m'. LZ4_compress_fast_continue m ctx source dest n cap acc = Some (r, None, ctx', m') \<and>
           encoded (stream_history m ctx source n) m source n dest cap r m' \<and>
           (LZ4_compressBound n \<le> cap \<longrightarrow> 0 < r) \<and> (0 < r \<longrightarrow> stream_ok ctx')"
  using fast_continue_ok [OF assms(1), of m source n dest cap acc] assms(2)
  by (auto simp: sender_call_def LZ4_MAX_INPUT_SIZE_def)

lemma stream_reach_ok: "stream_reach ctx \<Longrightarrow> stream_ok ctx"
proof (induction rule: stream_reach.induct)
  case (init p size_s ctx)
  then show ?case
    by (auto simp: LZ4_initStream_def zero_stream_ok split: if_splits)
next
  case (load m dict len ctx ld r ctx')
  then show ?case
    using dict_loadedI by (auto simp: dict_loaded_def)
next
  case (attach w m dict len ctx ld r d)
  then show ?case
    using attach_loaded(1) [OF _ dict_loadedI] by blast
next
  case (detach w)
  then show ?case
    by (simp add: LZ4_attach_dictionary_def stream_ok_def)
next
  case (compress ctx m source n dest cap acc r x ctx' m')
  with sender_call_ok [OF compress.IH, of m source n dest cap acc] show ?case
    by auto
next
  case (save ctx m buf n r ctx' m')
  with saveDict_ok [OF save.IH, of m buf n] show ?case
    by auto
qed (simp_all add: LZ4_resetStream_def zero_stream_ok resetStream_fast_ok)

section \<open>Properties of dictionaries\<close>

text \<open>C20: \<open>LZ4_loadDict\<close> and \<open>LZ4_loadDictSlow\<close> return for every dictionary and in whatever state they find, without
  an access outside the dictionary. Of a dictionary of at least eight bytes the last 64 KB are kept; the state is
  sane, and so is every state it is attached to.\<close>

theorem LZ4_loadDict_correct:
  assumes "mapped m dict (nat len)" and "0 \<le> len" and "len < 2 ^ 31" and "0 < dict"
  shows "\<exists>d d'. LZ4_loadDict m ctx dict len = Some (dictSize d, d) \<and>
           LZ4_loadDictSlow m ctx dict len = Some (dictSize d', d') \<and>
           dict_loaded dict len d \<and> dict_loaded dict len d' \<and>
           (stream_ok w \<longrightarrow> stream_ok (LZ4_attach_dictionary w (Some d)) \<and>
              stream_ok (LZ4_attach_dictionary w (Some d')))"
proof -
  have args: "dict_args m dict len"
    using assms by (simp add: dict_args_def)
  show ?thesis
    unfolding LZ4_loadDict_def LZ4_loadDictSlow_def
    using loadDict_loaded [OF args, of ctx] attach_loaded(1) by meson
qed

lemma text_mapped: "mapped text_mem 16 (nat 10)"
  using region_sub [OF text_region [of 16 36], of 16 26] by (simp add: mapped_region)

theorem LZ4_loadDict_correct_witness:
  "\<exists>d. LZ4_loadDict text_mem zero_ctx 16 10 = Some (10, d) \<and> dictionary d = 16 \<and>
     stream_ok (LZ4_attach_dictionary zero_ctx (Some d))"
proof -
  have "(0::int) \<le> 10" "(10::int) < 2 ^ 31" "(0::int) < 16"
    by simp_all
  from LZ4_loadDict_correct [OF text_mapped this, of zero_ctx zero_ctx] show ?thesis
    using zero_stream_ok by (auto simp: dict_loaded_def)
qed

text \<open>C18: A block that is compressed in a state with an attached dictionary comes back by \<open>LZ4_decompress_safe_usingDict\<close>
  with the same dictionary, wherever that is in the memory of the receiver. With \<open>LZ4_compressBound\<close> bytes of room the
  compression does not fail.\<close>

theorem LZ4_attach_dictionary_roundtrip:
  assumes "mapped m0 dict (nat len)" and "0 \<le> len" and "len < 2 ^ 31" and "0 < dict"
    and "LZ4_loadDict m0 ctx0 dict len = Some (k, d)" and "stream_ok w" and "dictSize w = 0"
    and "encode_args m source n dest cap" and "0 < n" and "n \<le> LZ4_MAX_INPUT_SIZE" and "0 < source"
    and "mapped m dict (nat len)" and "dict + len \<le> source \<or> source + n \<le> dict" and "dict + len \<le> dest \<or> dest + cap \<le> dict"
    and "LZ4_compressBound n \<le> cap"
  shows "\<exists>r ctx' m'. LZ4_compress_fast_continue m (LZ4_attach_dictionary w (Some d)) source dest n cap acc =
             Some (r, None, ctx', m') \<and> 0 < r \<and> only_changed dest cap m m' \<and>
    (\<forall>m2 blk out room dict2. decode_args m2 blk r out room (if dict2 + len = out then recent len else 0) \<and>
        dict_ok m2 dict2 len out room \<and> n \<le> room \<and> bytes m2 blk (nat r) = bytes m' dest (nat r) \<and>
        bytes m2 dict2 (nat len) = bytes m dict (nat len) \<longrightarrow>
      (\<exists>m3. LZ4_decompress_safe_usingDict m2 blk out r room dict2 len = Some (n, m3) \<and>
         bytes m3 out (nat n) = bytes m source (nat n) \<and> only_changed out room m2 m3))"
proof -
  let ?c = "LZ4_attach_dictionary w (Some d)" and ?in = "bytes m source (nat n)"
  have d: "dict_loaded dict len d"
    by (rule dict_loadedI [of m0 dict len ctx0 ld_fast k]) (use assms(1-5) in \<open>simp_all add: dict_args_def LZ4_loadDict_def\<close>)
  note used = attached_used [OF assms(6,7) d assms(11,9)]
  have reg: "region m dict (dict + len)" and apart: "source + n \<le> dest \<or> dest + cap \<le> source"
    using assms(2,8,12) by (simp_all add: mapped_region encode_args_def)
  have "dict_there m (used_dict ?c source n) source n dest cap"
  proof (cases "len < 8")
    case True
    then show ?thesis
      using apart assms(9) by (auto simp: used dict_there_def region_def)
  next
    case False
    then have size: "0 \<le> dictSize d" "dictSize d \<le> len"
      using d by (auto simp: dict_loaded_def)
    then have "region m (dict + len - dictSize d) (dict + len)"
      by (intro region_sub [OF reg]) simp_all
    with False size show ?thesis
      using assms(13,14) by (auto simp: used dict_there_def)
  qed
  then have "sender_call m ?c source n dest cap"
    using assms by (simp add: sender_call_def)
  from sender_call_ok [OF attach_loaded(1) [OF assms(6) d] this, of acc] obtain r ctx' m' where
    run: "LZ4_compress_fast_continue m ?c source dest n cap acc = Some (r, None, ctx', m')" "0 < r"
    and enc: "encoded (stream_history m ?c source n) m source n dest cap r m'"
    using assms(15) by blast
  obtain g where g: "bytes m dict (nat len) = g @ stream_history m ?c source n"
    using attached_history [OF assms(6,7) d assms(11,9)] by blast
  have legal: "legal_after (bytes m dict (nat len)) (bytes m' dest (nat r)) ?in"
    unfolding g by (rule legal_after_history) (use enc run(2) in \<open>simp add: encoded_def\<close>)
  have "\<exists>m3. LZ4_decompress_safe_usingDict m2 blk out r room dict2 len = Some (n, m3) \<and>
      bytes m3 out (nat n) = ?in \<and> only_changed out room m2 m3"
    if a: "decode_args m2 blk r out room (if dict2 + len = out then recent len else 0)" "dict_ok m2 dict2 len out room"
      "n \<le> room" "bytes m2 blk (nat r) = bytes m' dest (nat r)" "bytes m2 dict2 (nat len) = bytes m dict (nat len)"
    for m2 blk out room dict2
  proof -
    obtain qs l where "block_after (bytes m2 dict2 (nat len)) (bytes m2 blk (nat r)) qs l ?in"
      using legal unfolding a(4,5) legal_after_def block_after_def by blast
    moreover have "decode_args m2 blk r out room 0" "dict2 + len = out \<Longrightarrow> decode_args m2 blk r out room (recent len)"
      using a(1) by (auto simp: decode_args_def mapped_region region_def split: if_splits)
    ultimately show ?thesis
      using usingDict_decodes [of m2 blk r out room dict2 len qs l ?in] a(2,3) assms(9) by simp
  qed
  with run enc show ?thesis
    by (auto simp: encoded_def)
qed

text \<open>The text with its first ten bytes as the dictionary.\<close>

lemma text_dict:
  "\<exists>d. LZ4_loadDict text_mem zero_ctx 16 10 = Some (10, d) \<and> dict_loaded 16 10 d \<and>
     used_dict (LZ4_attach_dictionary zero_ctx (Some d)) 26 10 = (16, 10) \<and>
     sender_call text_mem (LZ4_attach_dictionary zero_ctx (Some d)) 26 10 64 64"
proof -
  have "dict_args text_mem 16 10"
    using text_mapped by (simp add: dict_args_def)
  from loadDict_loaded [OF this, of zero_ctx ld_fast] obtain d where
    d: "LZ4_loadDict text_mem zero_ctx 16 10 = Some (dictSize d, d)" "dict_loaded 16 10 d"
    by (auto simp: LZ4_loadDict_def)
  then have "dictSize d = 10"
    by (simp add: dict_loaded_def)
  moreover from this have used: "used_dict (LZ4_attach_dictionary zero_ctx (Some d)) 26 10 = (16, 10)"
    using attached_used [OF zero_stream_ok _ d(2), of 26 10] by (simp add: zero_ctx_def)
  moreover have "sender_call text_mem (LZ4_attach_dictionary zero_ctx (Some d)) 26 10 64 64"
    using ten_ctx_facts(3) unfolding sender_call_def ten_ctx_facts(2) used .
  ultimately show ?thesis
    using d by auto
qed

theorem LZ4_attach_dictionary_roundtrip_witness:
  "\<exists>d r ctx' m' m3. LZ4_loadDict text_mem zero_ctx 16 10 = Some (10, d) \<and>
     LZ4_compress_fast_continue text_mem (LZ4_attach_dictionary zero_ctx (Some d)) 26 64 10 64 1 = Some (r, None, ctx', m') \<and>
     0 < r \<and> LZ4_decompress_safe_usingDict m' 64 26 r 10 16 10 = Some (10, m3) \<and>
     bytes m3 26 10 = bytes text_mem 26 10"
proof -
  obtain d where d: "LZ4_loadDict text_mem zero_ctx 16 10 = Some (10, d)" "dict_loaded 16 10 d"
      "sender_call text_mem (LZ4_attach_dictionary zero_ctx (Some d)) 26 10 64 64"
    using text_dict by blast
  have args: "encode_args text_mem 26 10 64 64"
    using d(3) by (simp add: sender_call_def)
  have "(0::int) \<le> 10" "(10::int) < 2 ^ 31" "(0::int) < 16" "(0::int) < 10" "(10::int) \<le> LZ4_MAX_INPUT_SIZE" "(0::int) < 26"
    "(16::int) + 10 \<le> 26 \<or> 26 + 10 \<le> (16::int)" "(16::int) + 10 \<le> 64 \<or> 64 + 64 \<le> (16::int)"
    "LZ4_compressBound 10 \<le> 64" "dictSize zero_ctx = 0"
    by (simp_all add: LZ4_MAX_INPUT_SIZE_def compressBound_pos zero_ctx_def)
  note RT = LZ4_attach_dictionary_roundtrip [OF text_mapped this(1-3) d(1) zero_stream_ok this(10) args this(4-6)
      text_mapped this(7-9), of 1]
  obtain r ctx' m' where
    run: "LZ4_compress_fast_continue text_mem (LZ4_attach_dictionary zero_ctx (Some d)) 26 64 10 64 1 =
      Some (r, None, ctx', m')" "0 < r" "only_changed 64 64 text_mem m'"
    and dec: "decode_args m' 64 r 26 10 (if (16::int) + 10 = 26 then recent 10 else 0) \<and> dict_ok m' 16 10 26 10 \<and>
      (10::int) \<le> 10 \<and> bytes m' 64 (nat r) = bytes m' 64 (nat r) \<and> bytes m' 16 (nat 10) = bytes text_mem 16 (nat 10) \<Longrightarrow>
      \<exists>m3. LZ4_decompress_safe_usingDict m' 64 26 r 10 16 10 = Some (10, m3) \<and>
        bytes m3 26 (nat 10) = bytes text_mem 26 (nat 10) \<and> only_changed 26 10 m' m3"
    using RT by blast
  have "r \<le> 64"
    using sender_call_ok [OF attach_loaded(1) [OF zero_stream_ok d(2)] d(3), of 1] run(1)
    by (auto simp: encoded_def)
  have "dom m' = dom text_mem"
    using run(3) by (simp add: only_changed_def)
  from region_dom [OF this] have reg: "region m' 64 (64 + r)" "region m' 16 36"
    using text_region [of 64 "64 + r"] text_region [of 16 36] \<open>r \<le> 64\<close> by simp_all
  have "bytes m' 16 10 = bytes text_mem 16 10"
    by (rule only_changed_bytes [OF run(3)]) simp
  then have "\<exists>m3. LZ4_decompress_safe_usingDict m' 64 26 r 10 16 10 = Some (10, m3) \<and>
      bytes m3 26 (nat 10) = bytes text_mem 26 (nat 10) \<and> only_changed 26 10 m' m3"
    using reg run(2) \<open>r \<le> 64\<close>
    by (intro dec) (auto simp: decode_args_def dict_ok_def recent_def NULL_def mapped_region region_def)
  with d(1) run show ?thesis
    by auto
qed

text \<open>C19: In every state that the calls of the streaming interface can reach, after resets, dictionaries, blocks and saves
  in any order, the next call returns: a block is compressed inside its buffers, and with \<open>LZ4_compressBound\<close> bytes
  of room it does not fail; \<open>LZ4_saveDict\<close> leaves the end of the data that the state describes in its buffer.\<close>

theorem LZ4_stream_calls_return:
  assumes "stream_reach ctx"
  shows "stream_ok ctx \<and>
    (\<forall>m source n dest cap acc. sender_call m ctx source n dest cap \<longrightarrow>
      (\<exists>r ctx' m'. LZ4_compress_fast_continue m ctx source dest n cap acc = Some (r, None, ctx', m') \<and>
         only_changed dest cap m m' \<and> (LZ4_compressBound n \<le> cap \<longrightarrow> 0 < r \<and> stream_reach ctx'))) \<and>
    (\<forall>m buf n. save_call m ctx buf n \<longrightarrow>
      (\<exists>ctx' m'. LZ4_saveDict m ctx buf n = Some (saved_size ctx n, ctx', m') \<and> stream_reach ctx' \<and>
         only_changed buf (saved_size ctx n) m m' \<and>
         (\<exists>g. bytes m (dictionary ctx) (nat (dictSize ctx)) = g @ bytes m' buf (nat (saved_size ctx n)))))"
proof (intro conjI allI impI)
  show ok: "stream_ok ctx"
    by (rule stream_reach_ok [OF assms])
  show "\<exists>r ctx' m'. LZ4_compress_fast_continue m ctx source dest n cap acc = Some (r, None, ctx', m') \<and>
      only_changed dest cap m m' \<and> (LZ4_compressBound n \<le> cap \<longrightarrow> 0 < r \<and> stream_reach ctx')"
    if call: "sender_call m ctx source n dest cap" for m source n dest cap acc
    using sender_call_ok [OF ok call, of acc] stream_reach.compress [OF assms call]
    unfolding encoded_def by blast
  show "\<exists>ctx' m'. LZ4_saveDict m ctx buf n = Some (saved_size ctx n, ctx', m') \<and> stream_reach ctx' \<and>
      only_changed buf (saved_size ctx n) m m' \<and>
      (\<exists>g. bytes m (dictionary ctx) (nat (dictSize ctx)) = g @ bytes m' buf (nat (saved_size ctx n)))"
    if call: "save_call m ctx buf n" for m buf n
    using saveDict_ok [OF ok call] stream_reach.save [OF assms call] by blast
qed

theorem LZ4_stream_calls_return_witness:
  "\<exists>ctx r ctx' m'. stream_reach ctx \<and> dictCtx ctx \<noteq> None \<and>
     LZ4_compress_fast_continue text_mem ctx 26 64 10 64 1 = Some (r, None, ctx', m') \<and> 0 < r \<and> stream_reach ctx'"
proof -
  obtain d where d: "LZ4_loadDict text_mem zero_ctx 16 10 = Some (10, d)" "dict_loaded 16 10 d"
      "sender_call text_mem (LZ4_attach_dictionary zero_ctx (Some d)) 26 10 64 64"
    using text_dict by blast
  let ?c = "LZ4_attach_dictionary zero_ctx (Some d)"
  have "stream_reach zero_ctx"
    using stream_reach.reset by (simp add: LZ4_resetStream_def)
  moreover have "dict_args text_mem 16 10"
    using text_mapped by (simp add: dict_args_def)
  ultimately have reach: "stream_reach ?c"
    using d(1) unfolding LZ4_loadDict_def by (rule stream_reach.attach)
  have "dictCtx ?c \<noteq> None"
    using attach_loaded(2) [OF zero_stream_ok d(2)] by simp
  moreover have "LZ4_compressBound 10 \<le> 64"
    by (simp add: compressBound_pos)
  ultimately show ?thesis
    using LZ4_stream_calls_return [OF reach] d(3) reach by blast
qed

end
