(* ===== verification/Lz4_Compressor.thy ===== *)
theory Lz4_Compressor
  imports Lz4_Compress_Props
begin

text \<open>
  The class \<open>LZ4Compressor\<close> (src/lz4_compressor.cpp, include/lz4_compressor.hpp): compression of
  one 4 KB page, the reverse, and the slot a compressed size needs. It calls the encoder and the
  decoder of \<open>Lz4_Compress\<close> and \<open>Lz4_Decode\<close>. A pointer argument is an option, with the null
  pointer as \<^term>\<open>None\<close>; the arrays are byte lists.
\<close>

abbreviation FLASH_PAGE_SIZE :: nat where "FLASH_PAGE_SIZE \<equiv> 4096"

datatype SlotAllocation = SPARSE_ZERO | SLOT_1KB | SLOT_2KB | SLOT_3KB | FULL_4KB

fun SlotToString :: "SlotAllocation \<Rightarrow> string" where
  "SlotToString SPARSE_ZERO = ''Sparse-Zero (0B)''"
| "SlotToString SLOT_1KB = ''Quarter-Page (1KB)''"
| "SlotToString SLOT_2KB = ''Half-Page (2KB)''"
| "SlotToString SLOT_3KB = ''Three-Quarter (3KB)''"
| "SlotToString FULL_4KB = ''Full-Page (4KB)''"

record CompressedBlock =
  is_zero_block :: bool
  is_compressed :: bool
  compressed_size :: "16 word"
  slot :: SlotAllocation
  data :: "byte list"

definition new_CompressedBlock :: CompressedBlock where
  "new_CompressedBlock =
     \<lparr>is_zero_block = False, is_compressed = False, compressed_size = 4096, slot = FULL_4KB,
      data = replicate FLASH_PAGE_SIZE 0\<rparr>"

definition QuantizeSlot :: "16 word \<Rightarrow> bool \<Rightarrow> SlotAllocation" where
  "QuantizeSlot n is_zero =
     (if is_zero \<or> n = 0 then SPARSE_ZERO
      else if n \<le> 1024 then SLOT_1KB
      else if n \<le> 2048 then SLOT_2KB
      else if n \<le> 3072 then SLOT_3KB
      else FULL_4KB)"

text \<open>The loop over the 512 words of a page, left at the first one that is not zero.\<close>

definition u64_at :: "byte list \<Rightarrow> nat \<Rightarrow> 64 word option" where
  "u64_at src i = (if 8 * i + 8 \<le> length src then Some (le_word (take 8 (drop (8 * i) src))) else None)"

function zero_words :: "byte list \<Rightarrow> nat \<Rightarrow> bool option" where
  "zero_words src i =
     (if i < 512 then
        do { w \<leftarrow> u64_at src i;
             if w \<noteq> 0 then Some False else zero_words src (i + 1) }
      else Some True)"
  by pat_completeness auto
termination
  by (relation "measure (\<lambda>(src, i). 512 - i)") auto

declare zero_words.simps [simp del]

text \<open>The two buffers of a call of the LZ4 functions are separate objects; they are laid out at
  two fixed addresses.\<close>

definition Compress :: "byte list option \<Rightarrow> CompressedBlock option" where
  "Compress src_4kb =
     (let block = new_CompressedBlock in
      case src_4kb of
        None \<Rightarrow> Some block
      | Some src \<Rightarrow>
          do { all_zeros \<leftarrow> zero_words src 0;
               if all_zeros then
                 Some (block\<lparr>is_zero_block := True, is_compressed := True, compressed_size := 0,
                             slot := SPARSE_ZERO\<rparr>)
               else do {
                 (comp_size, m) \<leftarrow>
                   LZ4_compress_default (two_buffers 4096 src 65536 (data block)) 4096 65536 4096 4096;
                 let block = block\<lparr>data := bytes m 65536 FLASH_PAGE_SIZE\<rparr>;
                 if comp_size \<le> 0 \<or> comp_size \<ge> 3072 then
                   do { d \<leftarrow> array_copy (data block) 0 src 0 FLASH_PAGE_SIZE;
                        Some (block\<lparr>is_compressed := False, compressed_size := 4096, slot := FULL_4KB,
                                    data := d\<rparr>) }
                 else
                   let n = word_of_int comp_size
                   in Some (block\<lparr>is_compressed := True, compressed_size := n,
                                  slot := QuantizeSlot n False\<rparr>) } })"

text \<open>The value returned and the bytes of the destination afterwards.\<close>

definition Decompress :: "CompressedBlock \<Rightarrow> byte list option \<Rightarrow> (bool \<times> byte list) option" where
  "Decompress block dest_4kb =
     (case dest_4kb of
        None \<Rightarrow> Some (False, [])
      | Some dest \<Rightarrow>
          if is_zero_block block then
            do { d \<leftarrow> array_fill dest 0 FLASH_PAGE_SIZE; Some (True, d) }
          else if \<not> is_compressed block then
            do { d \<leftarrow> array_copy dest 0 (data block) 0 FLASH_PAGE_SIZE; Some (True, d) }
          else
            do { (decomp_size, m) \<leftarrow>
                   LZ4_decompress_safe (two_buffers 4096 (data block) 65536 dest) 4096 65536
                     (uint (compressed_size block)) 4096;
                 Some (decomp_size = 4096, bytes m 65536 (length dest)) })"

section \<open>What a block stands for\<close>

definition block_stores :: "CompressedBlock \<Rightarrow> byte list \<Rightarrow> bool" where
  "block_stores blk page \<longleftrightarrow>
     length page = FLASH_PAGE_SIZE \<and> length (data blk) = FLASH_PAGE_SIZE \<and>
     (if is_zero_block blk then page = replicate FLASH_PAGE_SIZE 0
      else if is_compressed blk then
        0 < unat (compressed_size blk) \<and> unat (compressed_size blk) < 3072 \<and>
        legal_block (take (unat (compressed_size blk)) (data blk)) page
      else unat (compressed_size blk) = FLASH_PAGE_SIZE \<and> data blk = page)"

section \<open>The zero test\<close>

lemma le_word_8_zero: "length bs = 8 \<Longrightarrow> (le_word bs :: 64 word) = 0 \<longleftrightarrow> bs = replicate 8 0"
proof -
  assume "length bs = 8"
  moreover have "(le_word (replicate n 0) :: 64 word) = 0" for n
    by (induction n) simp_all
  ultimately show ?thesis
    using le_word_eq_iff [of bs 8 "replicate 8 0", where 'a = 64] by simp
qed

lemma zero_words_eq:
  assumes "length src = FLASH_PAGE_SIZE"
  shows "i \<le> 512 \<Longrightarrow> zero_words src i = Some (drop (8 * i) src = replicate (8 * (512 - i)) 0)"
proof (induction "512 - i" arbitrary: i)
  case 0
  then show ?case
    using assms by (subst zero_words.simps) simp
next
  case (Suc n)
  then have i: "i < 512" and n: "n = 512 - (i + 1)"
    by simp_all
  let ?w = "take 8 (drop (8 * i) src)"
  have w: "u64_at src i = Some (le_word ?w)" "length ?w = 8"
    using i assms by (simp_all add: u64_at_def)
  have split: "drop (8 * i) src = ?w @ drop (8 * (i + 1)) src"
    using append_take_drop_id [of 8 "drop (8 * i) src", symmetric] by (simp add: add.commute)
  have rep: "replicate (8 * (512 - i)) (0 :: byte) = replicate 8 0 @ replicate (8 * (512 - (i + 1))) 0"
    using i by (simp only: replicate_add [symmetric]) simp
  have "drop (8 * i) src = replicate (8 * (512 - i)) 0 \<longleftrightarrow>
      ?w = replicate 8 0 \<and> drop (8 * (i + 1)) src = replicate (8 * (512 - (i + 1))) 0"
    by (subst split, subst rep, subst append_eq_append_conv) (use w(2) in simp_all)
  moreover have "zero_words src (i + 1) = Some (drop (8 * (i + 1)) src = replicate (8 * (512 - (i + 1))) 0)"
    using Suc.hyps(1) [OF n] i by simp
  ultimately show ?case
    using i w le_word_8_zero [OF w(2)] by (subst zero_words.simps) auto
qed

lemma zero_words_page:
  "length src = FLASH_PAGE_SIZE \<Longrightarrow> zero_words src 0 = Some (src = replicate FLASH_PAGE_SIZE 0)"
  using zero_words_eq [of src 0] by simp

section \<open>Compressing and decompressing\<close>

lemma page_args:
  assumes "length src = FLASH_PAGE_SIZE" and "length dst = FLASH_PAGE_SIZE"
  shows "decode_args (two_buffers 4096 src 65536 dst) 4096 4096 65536 4096 0"
    and "encode_args (two_buffers 4096 src 65536 dst) 4096 4096 65536 4096"
proof -
  show *: "decode_args (two_buffers 4096 src 65536 dst) 4096 4096 65536 4096 0"
    by (rule two_buffers_args) (use assms in simp_all)
  then show "encode_args (two_buffers 4096 src 65536 dst) 4096 4096 65536 4096"
    by (simp add: decode_args_def encode_args_def)
qed

lemma unat_word16: "0 \<le> x \<Longrightarrow> x < 65536 \<Longrightarrow> unat (word_of_int x :: 16 word) = nat x"
  by (simp add: unat_eq_nat_uint uint_word_of_int)

lemma take_bytes: "k \<le> n \<Longrightarrow> take k (bytes m a n) = bytes m a k"
  by (simp add: bytes_def take_map_upt)

lemma length_bytes_eq: "bytes m a n = xs \<Longrightarrow> length xs = n"
  by auto

text \<open>Every page compresses to a block that stands for it.\<close>

lemma Compress_stores:
  assumes page: "length page = FLASH_PAGE_SIZE"
  shows "\<exists>blk. Compress (Some page) = Some blk \<and> block_stores blk page \<and>
           is_zero_block blk = (page = replicate FLASH_PAGE_SIZE 0) \<and>
           slot blk = QuantizeSlot (compressed_size blk) (is_zero_block blk)"
proof (cases "page = replicate FLASH_PAGE_SIZE 0")
  case True
  have "Compress (Some page) = Some (new_CompressedBlock\<lparr>is_zero_block := True, is_compressed := True,
      compressed_size := 0, slot := SPARSE_ZERO\<rparr>)"
    unfolding Compress_def option.case Let_def zero_words_page [OF page] Option.bind.bind_lunit
    by (subst if_P [OF True]) (rule refl)
  with True page show ?thesis
    by (simp add: block_stores_def new_CompressedBlock_def QuantizeSlot_def)
next
  case False
  let ?d = "data new_CompressedBlock"
  let ?m = "two_buffers 4096 page 65536 ?d"
  have d: "length ?d = FLASH_PAGE_SIZE"
    by (simp add: new_CompressedBlock_def)
  note args = page_args [OF page d]
  obtain r m' where run: "LZ4_compress_default ?m 4096 65536 4096 4096 = Some (r, m')"
    and res: "encoded [] ?m 4096 4096 65536 4096 r m'"
    using compress_fast_call [OF args(2), of 1] by (auto simp: LZ4_compress_default_def)
  have src: "bytes ?m 4096 (nat 4096) = page"
    by (rule two_buffers_read) (use page in simp_all)
  let ?b = "new_CompressedBlock\<lparr>data := bytes m' 65536 FLASH_PAGE_SIZE\<rparr>"
  have step: "Compress (Some page) =
      (if r \<le> 0 \<or> r \<ge> 3072 then
         do { d \<leftarrow> array_copy (data ?b) 0 page 0 FLASH_PAGE_SIZE;
              Some (?b\<lparr>is_compressed := False, compressed_size := 4096, slot := FULL_4KB, data := d\<rparr>) }
       else Some (?b\<lparr>is_compressed := True, compressed_size := word_of_int r,
                      slot := QuantizeSlot (word_of_int r) False\<rparr>))"
    unfolding Compress_def option.case Let_def zero_words_page [OF page] Option.bind.bind_lunit
      if_not_P [OF False] run prod.case by (rule refl)
  show ?thesis
  proof (cases "r \<le> 0 \<or> r \<ge> 3072")
    case True
    then have "Compress (Some page) = Some (?b\<lparr>is_compressed := False, compressed_size := 4096,
        slot := FULL_4KB, data := page\<rparr>)"
      unfolding step using page by simp
    with False page show ?thesis
      by (simp add: block_stores_def new_CompressedBlock_def QuantizeSlot_def)
  next
    case small: False
    then have n: "unat (word_of_int r :: 16 word) = nat r" "nat r < 3072"
      by (simp_all add: unat_word16 nat_less_iff)
    have "legal_block (bytes m' 65536 (nat r)) page"
      using res small src by (simp add: encoded_def legal_block_iff)
    then have "legal_block (take (nat r) (bytes m' 65536 FLASH_PAGE_SIZE)) page"
      by (subst take_bytes) (use small in linarith)
    then have "block_stores (?b\<lparr>is_compressed := True, compressed_size := word_of_int r,
        slot := QuantizeSlot (word_of_int r) False\<rparr>) page"
      using small n page unfolding block_stores_def by (simp add: new_CompressedBlock_def)
    moreover have "Compress (Some page) = Some (?b\<lparr>is_compressed := True, compressed_size := word_of_int r,
        slot := QuantizeSlot (word_of_int r) False\<rparr>)"
      unfolding step using small by simp
    ultimately show ?thesis
      using False by (simp add: new_CompressedBlock_def)
  qed
qed

text \<open>A block that stands for a page is decompressed to it; only the bytes of the payload are
  looked at.\<close>

lemma Decompress_stores:
  assumes blk: "block_stores blk page" and dest: "length dest = FLASH_PAGE_SIZE"
  shows "Decompress blk (Some dest) = Some (True, page)"
proof -
  consider "is_zero_block blk" | "\<not> is_zero_block blk" "\<not> is_compressed blk"
    | "\<not> is_zero_block blk" "is_compressed blk"
    by blast
  then show ?thesis
  proof cases
    case 1
    with blk dest show ?thesis
      by (simp add: Decompress_def block_stores_def)
  next
    case 2
    with blk dest show ?thesis
      by (simp add: Decompress_def block_stores_def)
  next
    case 3
    let ?n = "unat (compressed_size blk)"
    let ?m = "two_buffers 4096 (data blk) 65536 dest"
    have d: "length (data blk) = FLASH_PAGE_SIZE" "length page = FLASH_PAGE_SIZE" "?n < 3072"
      and block: "legal_block (take ?n (data blk)) page"
      using blk 3 by (auto simp: block_stores_def)
    have u: "uint (compressed_size blk) = int ?n" "nat (int ?n) = ?n"
      by simp_all
    have "int ?n < 3072"
      using d(3) by linarith
    then have u3: "uint (compressed_size blk) < 3072"
      by simp
    have regs: "region ?m 4096 (4096 + 4096)" "region ?m 65536 (65536 + 4096)"
      using page_args(1) [OF d(1) dest] by (simp_all add: decode_args_def mapped_region)
    have "region ?m 4096 (4096 + int ?n)"
      by (rule region_sub [OF regs(1)]) (use u3 in simp_all)
    then have args: "decode_args ?m 4096 (int ?n) 65536 4096 0"
      using u3 regs(2) by (simp add: decode_args_def mapped_region)
    have "bytes ?m 4096 FLASH_PAGE_SIZE = data blk"
      by (rule two_buffers_read) (use d in simp_all)
    then have input: "bytes ?m 4096 (nat (int ?n)) = take ?n (data blk)"
      using take_bytes [of ?n FLASH_PAGE_SIZE ?m 4096] d(3) unfolding u(2) by simp
    from block obtain qs l where enc: "take ?n (data blk) = enc_block qs l"
      and seqs: "list_all seq_ok qs" "offsets_ok [] qs" "end_ok [] qs (0 + length page)"
      and content: "exec_seqs [] qs @ l = page"
      by (auto simp: legal_block_def)
    obtain m' where run: "LZ4_decompress_generic ?m (safe_cfg 4096 65536 (int ?n) 4096 0) = Some (int (length page), m')"
      and out: "bytes m' 65536 (length page) = page"
      using plain_complete [OF safe_cfg_plain, of ?m 4096 65536 "int ?n" 4096 0 qs l page, unfolded safe_cfg_sel bytes_0]
        args input enc seqs content d(2) by auto
    have "LZ4_decompress_safe ?m 4096 65536 (uint (compressed_size blk)) 4096 = Some (4096, m')"
      using run unfolding LZ4_decompress_safe_cfg u(1) d(2) by simp
    moreover have "bytes m' 65536 (length dest) = page"
      using out d(2) dest by simp
    ultimately show ?thesis
      unfolding Decompress_def option.case using 3 by (simp only: if_False simp_thms Option.bind.bind_lunit prod.case)
  qed
qed

interpretation lz: block_codec FLASH_PAGE_SIZE "\<lambda>p. Compress (Some p)" block_stores "\<lambda>b d. Decompress b (Some d)"
  by unfold_locales (use Compress_stores Decompress_stores in blast)+

section \<open>Properties\<close>

text \<open>C5: \<open>Compress\<close> and \<open>Decompress\<close> are inverse on every 4 KB page: compression returns, and
  decompression of its result reports success and gives the page back.\<close>

theorem Compressor_roundtrip:
  assumes "length page = FLASH_PAGE_SIZE" and "length dest = FLASH_PAGE_SIZE"
  shows "\<exists>blk. Compress (Some page) = Some blk \<and> Decompress blk (Some dest) = Some (True, page)"
  by (rule lz.roundtrip [OF assms])

theorem Compressor_roundtrip_witness:
  "\<exists>blk. Compress (Some (replicate FLASH_PAGE_SIZE 7)) = Some blk \<and>
     Decompress blk (Some (replicate FLASH_PAGE_SIZE 0)) = Some (True, replicate FLASH_PAGE_SIZE 7)"
  by (rule Compressor_roundtrip) (rule length_replicate)+



text \<open>C29: \<open>Decompress\<close> returns for every block whose size fits its array, corrupted or not, and
  stays inside the arrays.\<close>

theorem Decompress_total:
  assumes "length (data blk) = FLASH_PAGE_SIZE" and "unat (compressed_size blk) \<le> FLASH_PAGE_SIZE"
    and "length dest = FLASH_PAGE_SIZE"
  shows "\<exists>ok out. Decompress blk (Some dest) = Some (ok, out) \<and> length out = FLASH_PAGE_SIZE"
proof (cases "is_zero_block blk \<or> \<not> is_compressed blk")
  case True
  with assms show ?thesis
    by (auto simp: Decompress_def)
next
  case False
  let ?m = "two_buffers 4096 (data blk) 65536 dest" and ?n = "uint (compressed_size blk)"
  have "int (unat (compressed_size blk)) \<le> 4096"
    using assms(2) by linarith
  then have n: "?n \<le> 4096"
    by simp
  have regs: "region ?m 4096 (4096 + 4096)" "region ?m 65536 (65536 + 4096)"
    using page_args(1) [OF assms(1,3)] by (simp_all add: decode_args_def mapped_region)
  have "region ?m 4096 (4096 + ?n)"
    by (rule region_sub [OF regs(1)]) (use n in simp_all)
  then have "decode_args ?m 4096 ?n 65536 4096 0"
    using n regs(2) by (simp add: decode_args_def mapped_region)
  from plain_total [OF safe_cfg_plain, of ?m 4096 65536 ?n 4096 0, unfolded safe_cfg_sel] this
  obtain ret m' where "LZ4_decompress_safe ?m 4096 65536 ?n 4096 = Some (ret, m')"
    by (auto simp: LZ4_decompress_safe_cfg)
  then have "Decompress blk (Some dest) = Some (ret = 4096, bytes m' 65536 (length dest))"
    unfolding Decompress_def option.case using False by (simp only: if_False simp_thms Option.bind.bind_lunit prod.case de_Morgan_disj)
  with assms(3) show ?thesis
    by simp
qed

theorem Decompress_total_witness:
  "\<exists>ok out. Decompress (new_CompressedBlock\<lparr>is_compressed := True\<rparr>) (Some (replicate FLASH_PAGE_SIZE 0)) =
       Some (ok, out) \<and> length out = FLASH_PAGE_SIZE"
  by (rule Decompress_total) (simp_all add: new_CompressedBlock_def)

end
