(* ===== verification/Flash_Model.thy ===== *)
theory Flash_Model
  imports Prelude Complex_Main
begin

text \<open>
  The flash array (src/flash_model.cpp, include/flash_model.hpp): blocks of pages that can be
  programmed once between two erases of their block, the validity marks of the pages, and the
  wear counters. Sizes and indexes of type \<open>size_t\<close> are natural numbers; the 32-bit and 64-bit
  counters keep their width. The \<open>double\<close> values are real numbers: with latencies that are whole
  numbers of microseconds, as the default ones are, the sums are exact. An atomic operation is
  one step.
\<close>

section \<open>Data\<close>

record FlashConfig =
  page_size_bytes :: nat
  pages_per_block :: nat
  total_blocks :: nat
  cfg_max_pe_cycles :: "32 word"
  prog_latency_us :: real
  read_latency_us :: real
  erase_latency_us :: real

definition default_FlashConfig :: FlashConfig where
  "default_FlashConfig =
     \<lparr>page_size_bytes = 4096, pages_per_block = 64, total_blocks = 256, cfg_max_pe_cycles = 500,
      prog_latency_us = 800, read_latency_us = 50, erase_latency_us = 3500\<rparr>"

record PhysicalPage =
  is_programmed :: bool
  page_data :: "byte list"

definition new_PhysicalPage :: PhysicalPage where
  "new_PhysicalPage = \<lparr>is_programmed = False, page_data = replicate 4096 0\<rparr>"

record FlashBlock =
  erase_count :: "32 word"
  free_page_idx :: "32 word"
  invalid_page_count :: "32 word"
  pages :: "PhysicalPage list"
  page_valid :: "bool list"

definition new_FlashBlock :: "nat \<Rightarrow> FlashBlock" where
  "new_FlashBlock num_pages =
     \<lparr>erase_count = 0, free_page_idx = 0, invalid_page_count = 0,
      pages = replicate num_pages new_PhysicalPage, page_valid = replicate num_pages False\<rparr>"

record FlashModel =
  config :: FlashConfig
  blocks :: "FlashBlock list"
  total_pages_programmed :: "64 word"
  total_pages_read :: "64 word"
  total_blocks_erased :: "64 word"
  simulated_time_us :: real

record FlashTelemetry =
  tel_pages_programmed :: "64 word"
  tel_pages_read :: "64 word"
  tel_blocks_erased :: "64 word"
  tel_physical_bytes_written :: "64 word"
  tel_max_pe_cycles :: real
  tel_avg_pe_cycles :: real
  tel_simulated_time_ms :: real

definition new_FlashModel :: "FlashConfig \<Rightarrow> FlashModel" where
  "new_FlashModel cfg =
     \<lparr>config = cfg, blocks = map (\<lambda>_. new_FlashBlock (pages_per_block cfg)) [0..<total_blocks cfg],
      total_pages_programmed = 0, total_pages_read = 0, total_blocks_erased = 0,
      simulated_time_us = 0\<rparr>"

section \<open>Operations\<close>

text \<open>The value returned and the array afterwards; a copy outside an array is undefined.\<close>

definition ProgramPage ::
  "FlashModel \<Rightarrow> nat \<Rightarrow> nat \<Rightarrow> byte list option \<Rightarrow> (bool \<times> FlashModel) option" where
  "ProgramPage f block_idx page_idx src_4kb =
     (case src_4kb of
        None \<Rightarrow> Some (False, f)
      | Some src \<Rightarrow>
          if block_idx \<ge> length (blocks f) \<or> page_idx \<ge> pages_per_block (config f) then Some (False, f)
          else
            let blk = blocks f ! block_idx; page = pages blk ! page_idx in
            if is_programmed page then Some (False, f)
            else do {
              d \<leftarrow> array_copy (page_data page) 0 src 0 (page_size_bytes (config f));
              let page = page\<lparr>is_programmed := True, page_data := d\<rparr>;
              let blk = blk\<lparr>pages := (pages blk)[page_idx := page],
                            page_valid := (page_valid blk)[page_idx := True]\<rparr>;
              Some (True, f\<lparr>blocks := (blocks f)[block_idx := blk],
                            total_pages_programmed := total_pages_programmed f + 1,
                            simulated_time_us := simulated_time_us f + prog_latency_us (config f)\<rparr>) })"

text \<open>The value returned, the destination and the array afterwards.\<close>

definition ReadPage ::
  "FlashModel \<Rightarrow> nat \<Rightarrow> nat \<Rightarrow> byte list option \<Rightarrow> (bool \<times> byte list \<times> FlashModel) option" where
  "ReadPage f block_idx page_idx dest_4kb =
     (case dest_4kb of
        None \<Rightarrow> Some (False, [], f)
      | Some dest \<Rightarrow>
          if block_idx \<ge> length (blocks f) \<or> page_idx \<ge> pages_per_block (config f)
          then Some (False, dest, f)
          else
            let page = pages (blocks f ! block_idx) ! page_idx in
            do { d \<leftarrow> (if \<not> is_programmed page
                      then array_fill dest 0xFF (page_size_bytes (config f))
                      else array_copy dest 0 (page_data page) 0 (page_size_bytes (config f)));
                 Some (True, d,
                   f\<lparr>total_pages_read := total_pages_read f + 1,
                     simulated_time_us := simulated_time_us f + read_latency_us (config f)\<rparr>) })"

text \<open>The loop of \<open>EraseBlock\<close> over the pages of the block.\<close>

fun erase_pages :: "nat \<Rightarrow> nat list \<Rightarrow> FlashBlock \<Rightarrow> FlashBlock option" where
  "erase_pages page_size [] blk = Some blk"
| "erase_pages page_size (p # ps) blk =
     do { d \<leftarrow> array_fill (page_data (pages blk ! p)) 0xFF page_size;
          erase_pages page_size ps
            (blk\<lparr>pages := (pages blk)[p := (pages blk ! p)\<lparr>is_programmed := False, page_data := d\<rparr>],
                 page_valid := (page_valid blk)[p := False]\<rparr>) }"

definition EraseBlock :: "FlashModel \<Rightarrow> nat \<Rightarrow> (bool \<times> FlashModel) option" where
  "EraseBlock f block_idx =
     (if block_idx \<ge> length (blocks f) then Some (False, f)
      else
        let blk = blocks f ! block_idx;
            blk = blk\<lparr>erase_count := erase_count blk + 1, free_page_idx := 0, invalid_page_count := 0\<rparr>
        in do {
          blk \<leftarrow> erase_pages (page_size_bytes (config f)) [0..<pages_per_block (config f)] blk;
          Some (True, f\<lparr>blocks := (blocks f)[block_idx := blk],
                        total_blocks_erased := total_blocks_erased f + 1,
                        simulated_time_us := simulated_time_us f + erase_latency_us (config f)\<rparr>) })"

definition InvalidatePage :: "FlashModel \<Rightarrow> nat \<Rightarrow> nat \<Rightarrow> FlashModel" where
  "InvalidatePage f block_idx page_idx =
     (if block_idx \<ge> length (blocks f) \<or> page_idx \<ge> pages_per_block (config f) then f
      else
        let blk = blocks f ! block_idx in
        if page_valid blk ! page_idx
        then f\<lparr>blocks := (blocks f)[block_idx :=
                 blk\<lparr>invalid_page_count := invalid_page_count blk + 1,
                     page_valid := (page_valid blk)[page_idx := False]\<rparr>]\<rparr>
        else f)"

definition IsPageProgrammed :: "FlashModel \<Rightarrow> nat \<Rightarrow> nat \<Rightarrow> bool" where
  "IsPageProgrammed f block_idx page_idx =
     (if block_idx \<ge> length (blocks f) \<or> page_idx \<ge> pages_per_block (config f) then False
      else is_programmed (pages (blocks f ! block_idx) ! page_idx))"

definition IsPageValid :: "FlashModel \<Rightarrow> nat \<Rightarrow> nat \<Rightarrow> bool" where
  "IsPageValid f block_idx page_idx =
     (if block_idx \<ge> length (blocks f) \<or> page_idx \<ge> pages_per_block (config f) then False
      else page_valid (blocks f ! block_idx) ! page_idx)"

definition GetEraseCount :: "FlashModel \<Rightarrow> nat \<Rightarrow> 32 word" where
  "GetEraseCount f block_idx =
     (if block_idx \<ge> length (blocks f) then 0 else erase_count (blocks f ! block_idx))"

definition GetInvalidCount :: "FlashModel \<Rightarrow> nat \<Rightarrow> 32 word" where
  "GetInvalidCount f block_idx =
     (if block_idx \<ge> length (blocks f) then 0 else invalid_page_count (blocks f ! block_idx))"

definition GetTotalBlocks :: "FlashModel \<Rightarrow> nat" where
  "GetTotalBlocks f = total_blocks (config f)"

definition GetPagesPerBlock :: "FlashModel \<Rightarrow> nat" where
  "GetPagesPerBlock f = pages_per_block (config f)"

definition Flash_GetTelemetry :: "FlashModel \<Rightarrow> FlashTelemetry" where
  "Flash_GetTelemetry f =
     (let (max_e, sum_e) =
            fold (\<lambda>blk (m, s). (max m (erase_count blk), s + ucast (erase_count blk)))
              (blocks f) (0 :: 32 word, 0 :: 64 word)
      in \<lparr>tel_pages_programmed = total_pages_programmed f,
          tel_pages_read = total_pages_read f,
          tel_blocks_erased = total_blocks_erased f,
          tel_physical_bytes_written = total_pages_programmed f * of_nat (page_size_bytes (config f)),
          tel_max_pe_cycles = real (unat max_e),
          tel_avg_pe_cycles = (if blocks f = [] then 0 else real (unat sum_e) / real (length (blocks f))),
          tel_simulated_time_ms = simulated_time_us f / 1000\<rparr>)"

definition Flash_ResetTelemetry :: "FlashModel \<Rightarrow> FlashModel" where
  "Flash_ResetTelemetry f =
     f\<lparr>total_pages_programmed := 0, total_pages_read := 0, total_blocks_erased := 0,
       simulated_time_us := 0\<rparr>"

section \<open>Shape of the array\<close>

definition page_wf :: "PhysicalPage \<Rightarrow> bool" where
  "page_wf pg \<longleftrightarrow> length (page_data pg) = 4096"

definition block_wf :: "nat \<Rightarrow> FlashBlock \<Rightarrow> bool" where
  "block_wf n blk \<longleftrightarrow>
     length (pages blk) = n \<and> length (page_valid blk) = n \<and> list_all page_wf (pages blk)"

text \<open>The vectors have the sizes of the configuration, and a page fits its array.\<close>

definition flash_wf :: "FlashModel \<Rightarrow> bool" where
  "flash_wf f \<longleftrightarrow>
     page_size_bytes (config f) \<le> 4096 \<and> length (blocks f) = total_blocks (config f) \<and>
     list_all (block_wf (pages_per_block (config f))) (blocks f)"

definition in_flash :: "FlashModel \<Rightarrow> nat \<Rightarrow> nat \<Rightarrow> bool" where
  "in_flash f b p \<longleftrightarrow> b < total_blocks (config f) \<and> p < pages_per_block (config f)"

text \<open>The content of a page that can be read.\<close>

definition page_at :: "FlashModel \<Rightarrow> nat \<Rightarrow> nat \<Rightarrow> PhysicalPage" where
  "page_at f b p = pages (blocks f ! b) ! p"

definition content :: "FlashModel \<Rightarrow> nat \<Rightarrow> nat \<Rightarrow> byte list option" where
  "content f b p =
     (if in_flash f b p \<and> is_programmed (page_at f b p) then Some (page_data (page_at f b p)) else None)"

lemma block_wf_nth: "flash_wf f \<Longrightarrow> b < total_blocks (config f) \<Longrightarrow> block_wf (pages_per_block (config f)) (blocks f ! b)"
  by (simp add: flash_wf_def list_all_length)

lemma page_wf_nth: "flash_wf f \<Longrightarrow> in_flash f b p \<Longrightarrow> length (page_data (page_at f b p)) = 4096"
  by (frule block_wf_nth [of f b])
    (simp_all add: in_flash_def block_wf_def list_all_length page_wf_def page_at_def)

lemma content_length: "flash_wf f \<Longrightarrow> content f b p = Some d \<Longrightarrow> length d = 4096"
  by (auto simp: content_def page_wf_nth split: if_splits)

lemma list_all_update: "list_all P xs \<Longrightarrow> P x \<Longrightarrow> list_all P (xs[i := x])"
  by (auto simp: list_all_iff dest!: set_update_subset_insert [THEN subsetD])

lemma flash_wf_new: "page_size_bytes cfg \<le> 4096 \<Longrightarrow> flash_wf (new_FlashModel cfg)"
  by (simp add: flash_wf_def new_FlashModel_def block_wf_def new_FlashBlock_def page_wf_def
      new_PhysicalPage_def list_all_length)

lemma content_new: "content (new_FlashModel cfg) b p = None"
  by (simp add: content_def page_at_def new_FlashModel_def in_flash_def new_FlashBlock_def new_PhysicalPage_def)

section \<open>The interface of a page store\<close>

text \<open>What a client relies on: which pages there are, what they hold, which are marked valid. A
  page that holds something cannot be programmed again before its block is erased.\<close>

locale page_store =
  fixes ok :: "'s \<Rightarrow> bool"
    and inside :: "'s \<Rightarrow> nat \<Rightarrow> nat \<Rightarrow> bool"
    and holds :: "'s \<Rightarrow> nat \<Rightarrow> nat \<Rightarrow> byte list option"
    and valid :: "'s \<Rightarrow> nat \<Rightarrow> nat \<Rightarrow> bool"
    and program :: "'s \<Rightarrow> nat \<Rightarrow> nat \<Rightarrow> byte list option \<Rightarrow> (bool \<times> 's) option"
    and read :: "'s \<Rightarrow> nat \<Rightarrow> nat \<Rightarrow> byte list option \<Rightarrow> (bool \<times> byte list \<times> 's) option"
    and erase :: "'s \<Rightarrow> nat \<Rightarrow> (bool \<times> 's) option"
    and invalidate :: "'s \<Rightarrow> nat \<Rightarrow> nat \<Rightarrow> 's"
  assumes holds_page: "ok s \<Longrightarrow> holds s b p = Some d \<Longrightarrow> inside s b p \<and> length d = 4096"
    and program_free: "ok s \<Longrightarrow> inside s b p \<Longrightarrow> holds s b p = None \<Longrightarrow> length d = 4096 \<Longrightarrow>
      \<exists>s'. program s b p (Some d) = Some (True, s') \<and> ok s' \<and> inside s' = inside s \<and>
        holds s' = (holds s)(b := (holds s b)(p := Some d)) \<and>
        valid s' = (valid s)(b := (valid s b)(p := True))"
    and program_used: "ok s \<Longrightarrow> \<not> inside s b p \<or> holds s b p \<noteq> None \<Longrightarrow>
      program s b p (Some d) = Some (False, s)"
    and read_inside: "ok s \<Longrightarrow> inside s b p \<Longrightarrow> length dest = 4096 \<Longrightarrow>
      \<exists>s'. read s b p (Some dest) =
          Some (True, (case holds s b p of None \<Rightarrow> replicate 4096 255 | Some d \<Rightarrow> d), s') \<and>
        ok s' \<and> inside s' = inside s \<and> holds s' = holds s \<and> valid s' = valid s"
    and erase_inside: "ok s \<Longrightarrow> inside s b p \<Longrightarrow>
      \<exists>s'. erase s b = Some (True, s') \<and> ok s' \<and> inside s' = inside s \<and>
        holds s' = (holds s)(b := \<lambda>_. None) \<and> valid s' = (valid s)(b := \<lambda>_. False)"
    and invalidate_any: "ok s \<Longrightarrow>
      ok (invalidate s b p) \<and> inside (invalidate s b p) = inside s \<and>
        holds (invalidate s b p) = holds s \<and>
        valid (invalidate s b p) = (valid s)(b := (valid s b)(p := False))"
begin

lemma program_any:
  assumes "ok s" and "length d = 4096"
  shows "\<exists>r s'. program s b p (Some d) = Some (r, s') \<and> ok s' \<and> inside s' = inside s"
proof (cases "inside s b p \<and> holds s b p = None")
  case True
  with program_free [OF assms(1) _ _ assms(2), of b p] show ?thesis
    by auto
next
  case False
  with program_used [OF assms(1), of b p d] assms(1) show ?thesis
    by auto
qed

lemma program_keeps:
  assumes "ok s" and "length d = 4096" and "program s b p (Some d) = Some (r, s')"
    and "holds s b2 p2 = Some d2"
  shows "holds s' b2 p2 = Some d2"
proof (cases "inside s b p \<and> holds s b p = None")
  case True
  with program_free [OF assms(1) _ _ assms(2), of b p] assms(3,4) show ?thesis
    by auto
next
  case False
  with program_used [OF assms(1), of b p d] assms(3,4) show ?thesis
    by auto
qed

text \<open>A page cannot be overwritten.\<close>

lemma program_twice:
  assumes "ok s" and "inside s b p" and "holds s b p = None" and "length d = 4096"
  shows "\<exists>s'. program s b p (Some d) = Some (True, s') \<and> program s' b p (Some e) = Some (False, s')"
  using program_free [OF assms] program_used [of _ b p e] by fastforce

text \<open>Copying a page to a free one keeps everything else.\<close>

lemma copy_page:
  assumes "ok s" and "holds s b p = Some d" and "inside s r q" and "holds s r q = None"
    and "length buf = 4096"
  shows "\<exists>s1 s2. read s b p (Some buf) = Some (True, d, s1) \<and> program s1 r q (Some d) = Some (True, s2) \<and>
           ok s2 \<and> inside s2 = inside s \<and> holds s2 = (holds s)(r := (holds s r)(q := Some d)) \<and>
           valid s2 = (valid s)(r := (valid s r)(q := True))"
proof -
  have d: "inside s b p" "length d = 4096"
    using holds_page [OF assms(1,2)] by auto
  from read_inside [OF assms(1) d(1) assms(5)] assms(2) obtain s1 where
    s1: "read s b p (Some buf) = Some (True, d, s1)" "ok s1" "inside s1 = inside s"
      "holds s1 = holds s" "valid s1 = valid s"
    by auto
  from program_free [OF s1(2), of r q d] s1 assms(3,4) d(2) show ?thesis
    by auto
qed

lemma erase_then_program:
  assumes "ok s" and "inside s b p" and "length d = 4096"
  shows "\<exists>s1 s2. erase s b = Some (True, s1) \<and> program s1 b p (Some d) = Some (True, s2) \<and>
           holds s2 b p = Some d"
proof -
  from erase_inside [OF assms(1,2)] obtain s1 where
    s1: "erase s b = Some (True, s1)" "ok s1" "inside s1 = inside s" "holds s1 = (holds s)(b := \<lambda>_. None)"
    by auto
  from program_free [OF s1(2), of b p d] s1 assms(2,3) show ?thesis
    by auto
qed

end

section \<open>The flash array is a page store\<close>

definition flash_ok :: "FlashModel \<Rightarrow> bool" where
  "flash_ok f \<longleftrightarrow> flash_wf f \<and> page_size_bytes (config f) = 4096"

lemma flash_okD: "flash_ok f \<Longrightarrow> flash_wf f" "flash_ok f \<Longrightarrow> page_size_bytes (config f) = 4096"
  "flash_ok f \<Longrightarrow> length (blocks f) = total_blocks (config f)"
  by (simp_all add: flash_ok_def flash_wf_def)

lemma in_flash_eq: "config f' = config f \<Longrightarrow> in_flash f' = in_flash f"
  by (simp add: fun_eq_iff in_flash_def)

text \<open>Replacing one block.\<close>

lemma flash_ok_update:
  assumes "flash_ok f" and "block_wf (pages_per_block (config f)) blk"
    and "config f' = config f" and "blocks f' = (blocks f)[b := blk]"
  shows "flash_ok f'"
  using assms by (simp add: flash_ok_def flash_wf_def list_all_update)

lemma ProgramPage_free:
  assumes ok: "flash_ok f" and inside: "in_flash f b p" and free: "content f b p = None" and d: "length d = 4096"
  shows "\<exists>f'. ProgramPage f b p (Some d) = Some (True, f') \<and> flash_ok f' \<and> in_flash f' = in_flash f \<and>
           content f' = (content f)(b := (content f b)(p := Some d)) \<and>
           IsPageValid f' = (IsPageValid f)(b := (IsPageValid f b)(p := True))"
proof -
  let ?blk = "blocks f ! b"
  let ?pg = "(pages ?blk ! p)\<lparr>is_programmed := True, page_data := d\<rparr>"
  let ?blk' = "?blk\<lparr>pages := (pages ?blk)[p := ?pg], page_valid := (page_valid ?blk)[p := True]\<rparr>"
  let ?f = "f\<lparr>blocks := (blocks f)[b := ?blk'], total_pages_programmed := total_pages_programmed f + 1,
      simulated_time_us := simulated_time_us f + prog_latency_us (config f)\<rparr>"
  have b: "b < length (blocks f)" "p < pages_per_block (config f)"
    using inside flash_okD [OF ok] by (simp_all add: in_flash_def)
  have wf: "block_wf (pages_per_block (config f)) ?blk"
    by (rule block_wf_nth) (use inside flash_okD [OF ok] in \<open>simp_all add: in_flash_def\<close>)
  then have p: "p < length (pages ?blk)" "p < length (page_valid ?blk)"
    using b by (simp_all add: block_wf_def)
  have len: "length (page_data (pages ?blk ! p)) = 4096"
    using page_wf_nth [OF flash_okD(1) [OF ok] inside] by (simp add: page_at_def)
  have "\<not> is_programmed (pages ?blk ! p)"
    using free inside by (simp add: content_def page_at_def split: if_splits)
  then have run: "ProgramPage f b p (Some d) = Some (True, ?f)"
    using b d len flash_okD(2) [OF ok] by (simp add: ProgramPage_def Let_def)
  have "block_wf (pages_per_block (config f)) ?blk'"
    using wf d by (simp add: block_wf_def list_all_update page_wf_def)
  then have "flash_ok ?f"
    by (rule flash_ok_update [OF ok]) simp_all
  moreover have "content ?f = (content f)(b := (content f b)(p := Some d))"
    using b p inside by (auto simp: fun_eq_iff content_def page_at_def in_flash_def nth_list_update)
  moreover have "IsPageValid ?f = (IsPageValid f)(b := (IsPageValid f b)(p := True))"
    using b p by (auto simp: fun_eq_iff IsPageValid_def nth_list_update)
  ultimately show ?thesis
    using run in_flash_eq [of ?f f] by auto
qed

lemma ProgramPage_used:
  assumes "flash_ok f" and "\<not> in_flash f b p \<or> content f b p \<noteq> None"
  shows "ProgramPage f b p (Some d) = Some (False, f)"
  using assms flash_okD(3) [OF assms(1)]
  by (auto simp: ProgramPage_def content_def in_flash_def page_at_def Let_def split: if_splits)

lemma ReadPage_inside:
  assumes ok: "flash_ok f" and inside: "in_flash f b p" and dest: "length dest = 4096"
  shows "\<exists>f'. ReadPage f b p (Some dest) =
             Some (True, (case content f b p of None \<Rightarrow> replicate 4096 255 | Some d \<Rightarrow> d), f') \<and>
           flash_ok f' \<and> in_flash f' = in_flash f \<and> content f' = content f \<and> IsPageValid f' = IsPageValid f"
proof -
  let ?f = "f\<lparr>total_pages_read := total_pages_read f + 1,
      simulated_time_us := simulated_time_us f + read_latency_us (config f)\<rparr>"
  have len: "length (page_data (pages (blocks f ! b) ! p)) = 4096"
    using page_wf_nth [OF flash_okD(1) [OF ok] inside] by (simp add: page_at_def)
  have run: "ReadPage f b p (Some dest) =
      Some (True, (case content f b p of None \<Rightarrow> replicate 4096 255 | Some d \<Rightarrow> d), ?f)"
    using inside dest len flash_okD [OF ok]
    by (auto simp: ReadPage_def content_def page_at_def in_flash_def Let_def)
  have "flash_ok ?f" "content ?f = content f" "IsPageValid ?f = IsPageValid f"
    using ok by (simp_all add: flash_ok_def flash_wf_def fun_eq_iff content_def page_at_def in_flash_def IsPageValid_def)
  with run in_flash_eq [of ?f f] show ?thesis
    by auto
qed

lemma erase_pages_law:
  assumes "block_wf n blk" and "list_all (\<lambda>p. p < n) ps"
  shows "\<exists>blk'. erase_pages 4096 ps blk = Some blk' \<and> block_wf n blk' \<and>
           erase_count blk' = erase_count blk \<and> invalid_page_count blk' = invalid_page_count blk \<and>
           (\<forall>p < n. is_programmed (pages blk' ! p) = (is_programmed (pages blk ! p) \<and> p \<notin> set ps) \<and>
              page_valid blk' ! p = (page_valid blk ! p \<and> p \<notin> set ps) \<and>
              page_data (pages blk' ! p) =
                (if p \<in> set ps then replicate 4096 255 else page_data (pages blk ! p)))"
  using assms
proof (induction ps arbitrary: blk)
  case (Cons p ps)
  let ?pg = "(pages blk ! p)\<lparr>is_programmed := False, page_data := replicate 4096 255\<rparr>"
  let ?blk = "blk\<lparr>pages := (pages blk)[p := ?pg], page_valid := (page_valid blk)[p := False]\<rparr>"
  have p: "p < n" "length (pages blk) = n" "length (page_valid blk) = n"
    using Cons.prems by (simp_all add: block_wf_def)
  have "length (page_data (pages blk ! p)) = 4096"
    using Cons.prems p by (simp add: block_wf_def list_all_length page_wf_def)
  then have step: "erase_pages 4096 (p # ps) blk = erase_pages 4096 ps ?blk"
    by simp
  have "block_wf n ?blk"
    using Cons.prems(1) by (simp add: block_wf_def list_all_update page_wf_def)
  moreover have "list_all (\<lambda>p. p < n) ps"
    using Cons.prems(2) by simp
  ultimately obtain blk' where blk': "erase_pages 4096 ps ?blk = Some blk'" "block_wf n blk'"
      "erase_count blk' = erase_count ?blk" "invalid_page_count blk' = invalid_page_count ?blk"
    and pages: "\<And>q. q < n \<Longrightarrow> is_programmed (pages blk' ! q) = (is_programmed (pages ?blk ! q) \<and> q \<notin> set ps) \<and>
        page_valid blk' ! q = (page_valid ?blk ! q \<and> q \<notin> set ps) \<and>
        page_data (pages blk' ! q) =
          (if q \<in> set ps then replicate 4096 255 else page_data (pages ?blk ! q))"
    using Cons.IH by blast
  then show ?case
    unfolding step using blk' pages p by (auto simp: nth_list_update)
qed (use assms in simp)

lemma EraseBlock_block:
  assumes ok: "flash_ok f" and b: "b < total_blocks (config f)"
  shows "\<exists>f' blk. EraseBlock f b = Some (True, f') \<and> config f' = config f \<and>
           blocks f' = (blocks f)[b := blk] \<and> block_wf (pages_per_block (config f)) blk \<and>
           erase_count blk = erase_count (blocks f ! b) + 1 \<and> invalid_page_count blk = 0 \<and>
           (\<forall>p < pages_per_block (config f). \<not> is_programmed (pages blk ! p) \<and> \<not> page_valid blk ! p \<and>
              page_data (pages blk ! p) = replicate 4096 255)"
proof -
  let ?n = "pages_per_block (config f)"
  let ?blk = "(blocks f ! b)\<lparr>erase_count := erase_count (blocks f ! b) + 1, free_page_idx := 0,
      invalid_page_count := 0\<rparr>"
  have "block_wf ?n ?blk"
    using block_wf_nth [OF flash_okD(1) [OF ok] b] by (simp add: block_wf_def)
  moreover have "list_all (\<lambda>p. p < ?n) [0..<?n]"
    by (simp add: list_all_iff)
  ultimately obtain blk where blk: "erase_pages 4096 [0..<?n] ?blk = Some blk" "block_wf ?n blk"
      "erase_count blk = erase_count ?blk" "invalid_page_count blk = invalid_page_count ?blk"
      "\<forall>p < ?n. \<not> is_programmed (pages blk ! p) \<and> \<not> page_valid blk ! p \<and>
         page_data (pages blk ! p) = replicate 4096 255"
    using erase_pages_law [of ?n ?blk "[0..<?n]"] by auto
  then show ?thesis
    using b flash_okD(2,3) [OF ok] by (simp add: EraseBlock_def Let_def) (rule exI [of _ blk], simp)
qed

lemma EraseBlock_inside:
  assumes ok: "flash_ok f" and inside: "in_flash f b p"
  shows "\<exists>f'. EraseBlock f b = Some (True, f') \<and> flash_ok f' \<and> in_flash f' = in_flash f \<and>
           content f' = (content f)(b := \<lambda>_. None) \<and> IsPageValid f' = (IsPageValid f)(b := \<lambda>_. False)"
proof -
  have b: "b < total_blocks (config f)"
    using inside by (simp add: in_flash_def)
  from EraseBlock_block [OF ok b] obtain f' blk where
    run: "EraseBlock f b = Some (True, f')" and f': "config f' = config f" "blocks f' = (blocks f)[b := blk]"
    and wf: "block_wf (pages_per_block (config f)) blk"
    and erased: "\<And>p. p < pages_per_block (config f) \<Longrightarrow> \<not> is_programmed (pages blk ! p) \<and> \<not> page_valid blk ! p"
    by blast
  have "flash_ok f'"
    by (rule flash_ok_update [OF ok wf f'])
  moreover have "content f' = (content f)(b := \<lambda>_. None)"
    using b erased flash_okD(3) [OF ok] by (auto simp: fun_eq_iff content_def page_at_def in_flash_def f' nth_list_update)
  moreover have "IsPageValid f' = (IsPageValid f)(b := \<lambda>_. False)"
    using b erased flash_okD(3) [OF ok] by (auto simp: fun_eq_iff IsPageValid_def f' nth_list_update)
  ultimately show ?thesis
    using run in_flash_eq [OF f'(1)] by blast
qed

lemma InvalidatePage_any:
  assumes ok: "flash_ok f"
  shows "flash_ok (InvalidatePage f b p) \<and> in_flash (InvalidatePage f b p) = in_flash f \<and>
           content (InvalidatePage f b p) = content f \<and>
           IsPageValid (InvalidatePage f b p) = (IsPageValid f)(b := (IsPageValid f b)(p := False))"
proof (cases "IsPageValid f b p")
  case False
  then have "InvalidatePage f b p = f"
    by (auto simp: InvalidatePage_def IsPageValid_def Let_def split: if_splits)
  with False ok show ?thesis
    by (simp add: fun_eq_iff)
next
  case True
  let ?blk = "blocks f ! b"
  let ?blk' = "?blk\<lparr>invalid_page_count := invalid_page_count ?blk + 1, page_valid := (page_valid ?blk)[p := False]\<rparr>"
  let ?f = "f\<lparr>blocks := (blocks f)[b := ?blk']\<rparr>"
  have b: "b < length (blocks f)" "p < pages_per_block (config f)" "page_valid ?blk ! p"
    using True by (auto simp: IsPageValid_def split: if_splits)
  then have run: "InvalidatePage f b p = ?f"
    by (simp add: InvalidatePage_def Let_def)
  have wf: "block_wf (pages_per_block (config f)) ?blk"
    by (rule block_wf_nth) (use b flash_okD [OF ok] in simp_all)
  then have "flash_ok ?f"
    by (intro flash_ok_update [OF ok]) (simp_all add: block_wf_def)
  moreover have "content ?f = content f"
    using b by (auto simp: fun_eq_iff content_def page_at_def in_flash_def nth_list_update)
  moreover have "IsPageValid ?f = (IsPageValid f)(b := (IsPageValid f b)(p := False))"
    using b wf by (auto simp: fun_eq_iff IsPageValid_def nth_list_update block_wf_def)
  ultimately show ?thesis
    unfolding run using in_flash_eq [of ?f f] by simp
qed

interpretation nand: page_store flash_ok in_flash content IsPageValid ProgramPage ReadPage EraseBlock InvalidatePage
proof
  show "in_flash s b p \<and> length d = 4096" if "flash_ok s" "content s b p = Some d" for s b p d
    using that content_length [OF flash_okD(1), of s b p d] by (auto simp: content_def split: if_splits)
qed (rule ProgramPage_free ProgramPage_used ReadPage_inside EraseBlock_inside InvalidatePage_any; assumption)+

section \<open>The life of the array\<close>

text \<open>The states the operations lead to.\<close>

inductive flash_reach :: "FlashConfig \<Rightarrow> FlashModel \<Rightarrow> bool" for cfg where
  start: "flash_reach cfg (new_FlashModel cfg)"
| programmed: "flash_reach cfg f \<Longrightarrow> ProgramPage f b p src = Some (r, f') \<Longrightarrow> flash_reach cfg f'"
| was_read: "flash_reach cfg f \<Longrightarrow> ReadPage f b p dest = Some (r, d, f') \<Longrightarrow> flash_reach cfg f'"
| erased: "flash_reach cfg f \<Longrightarrow> EraseBlock f b = Some (r, f') \<Longrightarrow> flash_reach cfg f'"
| invalidated: "flash_reach cfg f \<Longrightarrow> flash_reach cfg (InvalidatePage f b p)"
| reset: "flash_reach cfg f \<Longrightarrow> flash_reach cfg (Flash_ResetTelemetry f)"

text \<open>A page marked valid is programmed, and the counter of a block is the number of its programmed
  pages that are not marked valid.\<close>

definition stale_pages :: "FlashBlock \<Rightarrow> nat set" where
  "stale_pages blk = {p. p < length (pages blk) \<and> is_programmed (pages blk ! p) \<and> \<not> page_valid blk ! p}"

definition block_inv :: "FlashBlock \<Rightarrow> bool" where
  "block_inv blk \<longleftrightarrow>
     (\<forall>p < length (pages blk). page_valid blk ! p \<longrightarrow> is_programmed (pages blk ! p)) \<and>
     invalid_page_count blk = of_nat (card (stale_pages blk))"

definition flash_inv :: "FlashConfig \<Rightarrow> FlashModel \<Rightarrow> bool" where
  "flash_inv cfg f \<longleftrightarrow> flash_ok f \<and> config f = cfg \<and> list_all block_inv (blocks f)"

lemma flash_inv_update:
  assumes "flash_inv cfg f" and "flash_ok f'" and "config f' = config f"
    and "blocks f' = (blocks f)[b := blk]" and "block_inv blk"
  shows "flash_inv cfg f'"
  using assms by (simp add: flash_inv_def list_all_update)

lemma flash_inv_block: "flash_inv cfg f \<Longrightarrow> b < length (blocks f) \<Longrightarrow> block_inv (blocks f ! b)"
  by (simp add: flash_inv_def list_all_length)

lemma block_inv_new: "block_inv (new_FlashBlock n)"
proof -
  have "stale_pages (new_FlashBlock n) = {}"
    by (auto simp: stale_pages_def new_FlashBlock_def new_PhysicalPage_def)
  then show ?thesis
    by (simp add: block_inv_def new_FlashBlock_def)
qed

lemma block_inv_program:
  assumes inv: "block_inv blk" and wf: "block_wf n blk" and p: "p < n"
    and free: "\<not> is_programmed (pages blk ! p)" and pg: "is_programmed pg"
  shows "block_inv (blk\<lparr>pages := (pages blk)[p := pg], page_valid := (page_valid blk)[p := True]\<rparr>)"
proof -
  let ?blk = "blk\<lparr>pages := (pages blk)[p := pg], page_valid := (page_valid blk)[p := True]\<rparr>"
  have "stale_pages ?blk = stale_pages blk"
    using free wf p by (auto simp: stale_pages_def nth_list_update block_wf_def)
  with inv wf p pg show ?thesis
    by (auto simp: block_inv_def nth_list_update block_wf_def)
qed

lemma block_inv_invalidate:
  assumes inv: "block_inv blk" and wf: "block_wf n blk" and p: "p < n" and valid: "page_valid blk ! p"
  shows "block_inv (blk\<lparr>invalid_page_count := invalid_page_count blk + 1, page_valid := (page_valid blk)[p := False]\<rparr>)"
proof -
  let ?blk = "blk\<lparr>invalid_page_count := invalid_page_count blk + 1, page_valid := (page_valid blk)[p := False]\<rparr>"
  have "is_programmed (pages blk ! p)"
    using inv wf p valid by (simp add: block_inv_def block_wf_def)
  then have "stale_pages ?blk = insert p (stale_pages blk)"
    using wf p by (auto simp: stale_pages_def nth_list_update block_wf_def)
  moreover have "p \<notin> stale_pages blk" "finite (stale_pages blk)"
    using valid by (auto simp: stale_pages_def)
  ultimately have "card (stale_pages ?blk) = Suc (card (stale_pages blk))"
    by simp
  with inv wf p show ?thesis
    by (auto simp: block_inv_def nth_list_update block_wf_def)
qed

lemma block_inv_erased:
  assumes "block_wf n blk" and "invalid_page_count blk = 0"
    and "\<forall>p < n. \<not> is_programmed (pages blk ! p) \<and> \<not> page_valid blk ! p"
  shows "block_inv blk"
proof -
  have "stale_pages blk = {}"
    using assms by (auto simp: stale_pages_def block_wf_def)
  with assms show ?thesis
    by (simp add: block_inv_def block_wf_def)
qed

text \<open>A call of \<open>ProgramPage\<close> leaves the array as it was or replaces one block.\<close>

lemma ProgramPage_blocks:
  assumes "ProgramPage f b p src = Some (r, f')"
  shows "f' = f \<or>
    (\<exists>d. b < length (blocks f) \<and> p < pages_per_block (config f) \<and>
       \<not> is_programmed (pages (blocks f ! b) ! p) \<and> config f' = config f \<and>
       length d = length (page_data (pages (blocks f ! b) ! p)) \<and>
       blocks f' = (blocks f)[b := (blocks f ! b)
         \<lparr>pages := (pages (blocks f ! b))[p := (pages (blocks f ! b) ! p)\<lparr>is_programmed := True, page_data := d\<rparr>],
          page_valid := (page_valid (blocks f ! b))[p := True]\<rparr>])"
  using assms
  by (auto simp: ProgramPage_def Let_def split: option.splits if_splits bind_splits)
    (metis array_copy_length)

lemma flash_inv_program:
  assumes inv: "flash_inv cfg f" and run: "ProgramPage f b p src = Some (r, f')"
  shows "flash_inv cfg f'"
proof -
  let ?blk = "blocks f ! b"
  consider "f' = f" | d where "b < length (blocks f)" "p < pages_per_block (config f)"
      "\<not> is_programmed (pages ?blk ! p)" "config f' = config f" "length d = length (page_data (pages ?blk ! p))"
      "blocks f' = (blocks f)[b := ?blk\<lparr>pages := (pages ?blk)[p := (pages ?blk ! p)\<lparr>is_programmed := True, page_data := d\<rparr>],
          page_valid := (page_valid ?blk)[p := True]\<rparr>]"
    using ProgramPage_blocks [OF run] by blast
  then show ?thesis
  proof cases
    case 2
    have ok: "flash_ok f"
      using inv by (simp add: flash_inv_def)
    have wf: "block_wf (pages_per_block (config f)) ?blk"
      by (rule block_wf_nth) (use 2(1) flash_okD [OF ok] in simp_all)
    then have "page_wf (pages ?blk ! p)"
      using 2(2) by (simp add: block_wf_def list_all_length)
    then have "flash_ok f'"
      by (intro flash_ok_update [OF ok _ 2(4,6)])
        (use wf 2(5) in \<open>simp add: block_wf_def list_all_update page_wf_def\<close>)
    from flash_inv_update [OF inv this 2(4,6)] show ?thesis
      using block_inv_program [OF flash_inv_block [OF inv 2(1)] wf 2(2,3)] by simp
  qed (use inv in simp)
qed

lemma flash_inv_erase:
  assumes inv: "flash_inv cfg f" and run: "EraseBlock f b = Some (r, f')"
  shows "flash_inv cfg f'"
proof (cases "b < total_blocks (config f)")
  case False
  then have "f' = f"
    using run inv flash_okD(3) [of f] by (simp add: EraseBlock_def flash_inv_def)
  with inv show ?thesis
    by simp
next
  case True
  have ok: "flash_ok f"
    using inv by (simp add: flash_inv_def)
  from EraseBlock_block [OF ok True] run obtain blk where
    f': "config f' = config f" "blocks f' = (blocks f)[b := blk]"
    and wf: "block_wf (pages_per_block (config f)) blk" and blk: "invalid_page_count blk = 0"
      "\<forall>p < pages_per_block (config f). \<not> is_programmed (pages blk ! p) \<and> \<not> page_valid blk ! p"
    by auto
  show ?thesis
    by (rule flash_inv_update [OF inv flash_ok_update [OF ok wf f'] f'])
      (rule block_inv_erased [OF wf blk])
qed

lemma flash_inv_invalidate:
  assumes inv: "flash_inv cfg f"
  shows "flash_inv cfg (InvalidatePage f b p)"
proof (cases "IsPageValid f b p")
  case False
  then have "InvalidatePage f b p = f"
    by (auto simp: InvalidatePage_def IsPageValid_def Let_def split: if_splits)
  with inv show ?thesis
    by simp
next
  case True
  let ?blk = "blocks f ! b"
  let ?blk' = "?blk\<lparr>invalid_page_count := invalid_page_count ?blk + 1, page_valid := (page_valid ?blk)[p := False]\<rparr>"
  have b: "b < length (blocks f)" "p < pages_per_block (config f)" "page_valid ?blk ! p"
    using True by (auto simp: IsPageValid_def split: if_splits)
  have ok: "flash_ok f"
    using inv by (simp add: flash_inv_def)
  have wf: "block_wf (pages_per_block (config f)) ?blk"
    by (rule block_wf_nth) (use b flash_okD [OF ok] in simp_all)
  have run: "InvalidatePage f b p = f\<lparr>blocks := (blocks f)[b := ?blk']\<rparr>"
    using b by (simp add: InvalidatePage_def Let_def)
  have "flash_ok (InvalidatePage f b p)"
    using InvalidatePage_any [OF ok] by blast
  then show ?thesis
    by (rule flash_inv_update [OF inv _ _ _ block_inv_invalidate [OF flash_inv_block [OF inv b(1)] wf b(2,3)]])
      (simp_all add: run)
qed

lemma flash_inv_reach:
  assumes "flash_reach cfg f" and "page_size_bytes cfg = 4096"
  shows "flash_inv cfg f"
  using assms(1)
proof induction
  case start
  then show ?case
    using flash_wf_new [of cfg] assms(2)
    by (auto simp: flash_inv_def flash_ok_def new_FlashModel_def list_all_iff block_inv_new)
next
  case (was_read f b p dest r d f')
  then have "config f' = config f" "blocks f' = blocks f"
    by (auto simp: ReadPage_def Let_def split: option.splits if_splits bind_splits)
  with was_read.IH show ?case
    by (auto simp: flash_inv_def flash_ok_def flash_wf_def)
next
  case (reset f)
  then show ?case
    by (auto simp: flash_inv_def flash_ok_def flash_wf_def Flash_ResetTelemetry_def)
qed (rule flash_inv_program flash_inv_erase flash_inv_invalidate; assumption)+

section \<open>Properties\<close>

text \<open>C24: In every state the operations of the array can reach, the pages marked valid are
  programmed, and \<open>GetInvalidCount\<close> is the number of programmed pages of the block that are not
  marked valid (modulo the width of the counter).\<close>

theorem flash_counts_stale_pages:
  assumes "flash_reach cfg f" and "page_size_bytes cfg = 4096" and "b < total_blocks cfg"
  shows "GetInvalidCount f b =
           of_nat (card {p. p < pages_per_block cfg \<and> IsPageProgrammed f b p \<and> \<not> IsPageValid f b p}) \<and>
         (\<forall>p. IsPageValid f b p \<longrightarrow> IsPageProgrammed f b p)"
proof -
  have inv: "flash_inv cfg f"
    by (rule flash_inv_reach [OF assms(1,2)])
  then have ok: "flash_ok f" and cfg: "config f = cfg"
    by (simp_all add: flash_inv_def)
  have b: "b < length (blocks f)"
    using flash_okD(3) [OF ok] assms(3) cfg by simp
  have wf: "block_wf (pages_per_block cfg) (blocks f ! b)"
    using block_wf_nth [OF flash_okD(1) [OF ok], of b] assms(3) by (simp add: cfg)
  have "{p. p < pages_per_block cfg \<and> IsPageProgrammed f b p \<and> \<not> IsPageValid f b p} = stale_pages (blocks f ! b)"
    using b wf by (auto simp: IsPageProgrammed_def IsPageValid_def stale_pages_def block_wf_def cfg)
  moreover have "IsPageProgrammed f b p" if "IsPageValid f b p" for p
    using that flash_inv_block [OF inv b] wf
    by (auto simp: IsPageProgrammed_def IsPageValid_def block_inv_def block_wf_def cfg split: if_splits)
  ultimately show ?thesis
    using b flash_inv_block [OF inv b] by (simp add: GetInvalidCount_def block_inv_def)
qed

theorem flash_counts_stale_pages_witness:
  "GetInvalidCount (InvalidatePage (new_FlashModel default_FlashConfig) 3 0) 3 =
     of_nat (card {p. p < pages_per_block default_FlashConfig \<and>
       IsPageProgrammed (InvalidatePage (new_FlashModel default_FlashConfig) 3 0) 3 p \<and>
       \<not> IsPageValid (InvalidatePage (new_FlashModel default_FlashConfig) 3 0) 3 p})"
  by (rule flash_counts_stale_pages [OF invalidated [OF start], THEN conjunct1])
    (simp_all add: default_FlashConfig_def)

text \<open>C27: A free page can be programmed; it then reads back as what was programmed, refuses to be
  programmed again, and no other page has changed.\<close>

theorem ProgramPage_once:
  assumes "flash_ok f" and "in_flash f b p" and "\<not> IsPageProgrammed f b p"
    and "length d = 4096" and "length buf = 4096"
  shows "\<exists>f' f''. ProgramPage f b p (Some d) = Some (True, f') \<and>
           ReadPage f' b p (Some buf) = Some (True, d, f'') \<and>
           ProgramPage f' b p (Some e) = Some (False, f') \<and>
           (\<forall>b2 p2. (b2, p2) \<noteq> (b, p) \<longrightarrow> content f' b2 p2 = content f b2 p2)"
proof -
  have "content f b p = None"
    using assms(2,3) flash_okD(3) [OF assms(1)]
    by (auto simp: content_def IsPageProgrammed_def in_flash_def page_at_def)
  from nand.program_free [OF assms(1,2) this assms(4)] obtain f' where
    f': "ProgramPage f b p (Some d) = Some (True, f')" "flash_ok f'" "in_flash f' = in_flash f"
      "content f' = (content f)(b := (content f b)(p := Some d))"
    by blast
  from nand.read_inside [OF f'(2) _ assms(5), of b p] obtain f'' where
    "ReadPage f' b p (Some buf) = Some (True, d, f'')"
    using assms(2) f'(3,4) by auto
  moreover have "ProgramPage f' b p (Some e) = Some (False, f')"
    by (rule nand.program_used [OF f'(2)]) (simp add: f'(4))
  ultimately show ?thesis
    using f'(1,4) by auto
qed

lemma default_array: "flash_ok (new_FlashModel default_FlashConfig)"
  "b < 256 \<Longrightarrow> p < 64 \<Longrightarrow> in_flash (new_FlashModel default_FlashConfig) b p"
  "\<not> IsPageProgrammed (new_FlashModel default_FlashConfig) b p"
  by (simp_all add: flash_ok_def flash_wf_new default_FlashConfig_def)
    (simp_all add: new_FlashModel_def in_flash_def IsPageProgrammed_def new_FlashBlock_def new_PhysicalPage_def)

theorem ProgramPage_once_witness:
  "\<exists>f' f''. ProgramPage (new_FlashModel default_FlashConfig) 2 5 (Some (replicate 4096 1)) = Some (True, f') \<and>
     ReadPage f' 2 5 (Some (replicate 4096 0)) = Some (True, replicate 4096 1, f'') \<and>
     ProgramPage f' 2 5 (Some (replicate 4096 2)) = Some (False, f') \<and> content f' 7 7 = None"
  using ProgramPage_once [OF default_array(1) default_array(2) [of 2 5] default_array(3),
      of "replicate 4096 1" "replicate 4096 0" "replicate 4096 2"] content_new [of default_FlashConfig 7 7]
  by (auto simp: length_replicate)

text \<open>C28: Erasing a block adds one to its wear counter, frees all its pages, which then read as
  bytes 255, and touches no other block.\<close>

theorem EraseBlock_frees:
  assumes "flash_ok f" and "b < total_blocks (config f)"
  shows "\<exists>f'. EraseBlock f b = Some (True, f') \<and> flash_ok f' \<and>
           GetEraseCount f' b = GetEraseCount f b + 1 \<and> GetInvalidCount f' b = 0 \<and>
           (\<forall>p. \<not> IsPageProgrammed f' b p \<and> \<not> IsPageValid f' b p) \<and>
           (\<forall>p buf. p < pages_per_block (config f) \<and> length buf = 4096 \<longrightarrow>
              (\<exists>f''. ReadPage f' b p (Some buf) = Some (True, replicate 4096 255, f''))) \<and>
           (\<forall>b2. b2 \<noteq> b \<longrightarrow> blocks f' ! b2 = blocks f ! b2)"
proof -
  from EraseBlock_block [OF assms] obtain f' blk where
    run: "EraseBlock f b = Some (True, f')" and f': "config f' = config f" "blocks f' = (blocks f)[b := blk]"
    and wf: "block_wf (pages_per_block (config f)) blk"
    and blk: "erase_count blk = erase_count (blocks f ! b) + 1" "invalid_page_count blk = 0"
    and erased: "\<And>p. p < pages_per_block (config f) \<Longrightarrow> \<not> is_programmed (pages blk ! p) \<and> \<not> page_valid blk ! p"
    by blast
  have ok: "flash_ok f'"
    by (rule flash_ok_update [OF assms(1) wf f'])
  have b: "b < length (blocks f)"
    using assms(2) flash_okD(3) [OF assms(1)] by simp
  have "\<exists>f''. ReadPage f' b p (Some buf) = Some (True, replicate 4096 255, f'')"
    if "p < pages_per_block (config f)" "length buf = 4096" for p buf
  proof -
    have "in_flash f' b p" "content f' b p = None"
      using that assms(2) b erased by (simp_all add: in_flash_def content_def page_at_def f')
    then show ?thesis
      using nand.read_inside [OF ok _ that(2), of b p] by auto
  qed
  then show ?thesis
    using run ok b blk erased
    by (auto simp: GetEraseCount_def GetInvalidCount_def IsPageProgrammed_def IsPageValid_def f')
qed

theorem EraseBlock_frees_witness:
  "\<exists>f' f''. EraseBlock (new_FlashModel default_FlashConfig) 9 = Some (True, f') \<and>
     GetEraseCount f' 9 = GetEraseCount (new_FlashModel default_FlashConfig) 9 + 1 \<and>
     ReadPage f' 9 3 (Some (replicate 4096 0)) = Some (True, replicate 4096 255, f'')"
proof -
  have "9 < total_blocks (config (new_FlashModel default_FlashConfig))"
    "3 < pages_per_block (config (new_FlashModel default_FlashConfig)) \<and> length (replicate 4096 (0 :: byte)) = 4096"
    by (simp_all add: new_FlashModel_def default_FlashConfig_def)
  with EraseBlock_frees [OF default_array(1), of 9] show ?thesis
    by blast
qed

end
