(* ===== verification/Ftl_Controller.thy ===== *)
theory Ftl_Controller
  imports Flash_Model Lz4_Compressor
begin

text \<open>
  The flash translation layer (src/ftl_controller.cpp, include/ftl_controller.hpp): the mapping
  from logical blocks to pages, the staging of half pages, the write and read paths and the
  garbage collection. The mutex makes each call one step. An access outside a vector is
  undefined, \<^term>\<open>None\<close>.
\<close>

section \<open>Data\<close>

datatype MappingState = UNMAPPED | SPARSE_ZERO | COMPRESSED_HALF_PAGE | RAW_FULL_PAGE

record MappingEntry =
  m_state :: MappingState
  m_block_idx :: "32 word"
  m_page_idx :: "32 word"
  m_sub_slot :: "8 word"
  m_compressed_size :: "16 word"

definition new_MappingEntry :: MappingEntry where
  "new_MappingEntry =
     \<lparr>m_state = UNMAPPED, m_block_idx = 0, m_page_idx = 0, m_sub_slot = 0, m_compressed_size = 0\<rparr>"

record StagedHalfPage =
  st_lba :: nat
  st_comp_size :: "16 word"
  st_data :: "byte list"

record PageOwner =
  o_lba :: nat
  o_sub_slot :: "8 word"

record FTLController =
  flash :: FlashModel
  lba_table :: "MappingEntry list"
  active_block_idx :: nat
  active_page_idx :: nat
  reserve_block_idx :: nat
  staged_half :: "StagedHalfPage option"
  block_page_owners :: "PageOwner list list list"
  host_writes :: "64 word"
  host_reads :: "64 word"
  zero_blocks :: "64 word"
  half_page_packs :: "64 word"
  raw_full_pages :: "64 word"
  gc_count :: "64 word"
  gc_migrated_pages :: "64 word"

record FTLTelemetry =
  t_host_writes :: "64 word"
  t_host_reads :: "64 word"
  t_host_bytes_written :: "64 word"
  t_host_bytes_read :: "64 word"
  t_zero_blocks_filtered :: "64 word"
  t_compressed_half_pages_packed :: "64 word"
  t_raw_full_pages_written :: "64 word"
  t_gc_invocations :: "64 word"
  t_gc_pages_migrated :: "64 word"
  t_write_amplification_factor :: real
  t_effective_compression_ratio :: real
  t_flash_tel :: FlashTelemetry

text \<open>The constructor; \<open>size_t\<close> wraps around in the computation of the table size.\<close>

definition new_FTLController :: "nat \<Rightarrow> FlashConfig \<Rightarrow> FTLController" where
  "new_FTLController logical_capacity_bytes flash_cfg =
     \<lparr>flash = new_FlashModel flash_cfg,
      lba_table = replicate ((logical_capacity_bytes + FLASH_PAGE_SIZE - 1) mod 2 ^ 64 div FLASH_PAGE_SIZE)
                    new_MappingEntry,
      active_block_idx = 0, active_page_idx = 0, reserve_block_idx = 1, staged_half = None,
      block_page_owners = replicate (total_blocks flash_cfg) (replicate (pages_per_block flash_cfg) []),
      host_writes = 0, host_reads = 0, zero_blocks = 0, half_page_packs = 0, raw_full_pages = 0,
      gc_count = 0, gc_migrated_pages = 0\<rparr>"

definition GetTotalLBAs :: "FTLController \<Rightarrow> nat" where
  "GetTotalLBAs c = length (lba_table c)"

section \<open>Accesses to the vectors\<close>

definition set_entry :: "nat \<Rightarrow> (MappingEntry \<Rightarrow> MappingEntry) \<Rightarrow> FTLController \<Rightarrow> FTLController option" where
  "set_entry lba upd c =
     (if lba < length (lba_table c)
      then Some (c\<lparr>lba_table := (lba_table c)[lba := upd (lba_table c ! lba)]\<rparr>) else None)"

definition set_owners ::
  "nat \<Rightarrow> nat \<Rightarrow> (PageOwner list \<Rightarrow> PageOwner list) \<Rightarrow> FTLController \<Rightarrow> FTLController option" where
  "set_owners b p upd c =
     (let rows = block_page_owners c in
      if b < length rows \<and> p < length (rows ! b)
      then Some (c\<lparr>block_page_owners := rows[b := (rows ! b)[p := upd (rows ! b ! p)]]\<rparr>) else None)"

text \<open>The assignments to an entry that let it point to a slot of the active page.\<close>

definition map_active ::
  "nat \<Rightarrow> MappingState \<Rightarrow> 8 word \<Rightarrow> 16 word \<Rightarrow> FTLController \<Rightarrow> FTLController option" where
  "map_active lba st sub n c =
     set_entry lba (\<lambda>e. e\<lparr>m_state := st, m_block_idx := of_nat (active_block_idx c),
       m_page_idx := of_nat (active_page_idx c), m_sub_slot := sub, m_compressed_size := n\<rparr>) c"

definition program_active :: "byte list \<Rightarrow> FTLController \<Rightarrow> FTLController option" where
  "program_active buf c =
     do { (_, f) \<leftarrow> ProgramPage (flash c) (active_block_idx c) (active_page_idx c) (Some buf);
          Some (c\<lparr>flash := f\<rparr>) }"

definition push_owner :: "nat \<Rightarrow> 8 word \<Rightarrow> FTLController \<Rightarrow> FTLController option" where
  "push_owner lba sub c =
     set_owners (active_block_idx c) (active_page_idx c)
       (\<lambda>os. os @ [\<lparr>o_lba = lba, o_sub_slot = sub\<rparr>]) c"

section \<open>Garbage collection\<close>

text \<open>\<open>(reserve_block_idx_ + 1) % total_blocks\<close>, which is undefined without blocks.\<close>

definition next_reserve :: "FTLController \<Rightarrow> FTLController option" where
  "next_reserve c =
     (if GetTotalBlocks (flash c) = 0 then None
      else Some (c\<lparr>reserve_block_idx := (reserve_block_idx c + 1) mod GetTotalBlocks (flash c)\<rparr>))"

text \<open>The block with the most invalid pages, the first of them if there are several.\<close>

fun gc_victim :: "FTLController \<Rightarrow> nat list \<Rightarrow> nat \<times> 32 word \<Rightarrow> nat \<times> 32 word" where
  "gc_victim c [] (victim, max_invalid) = (victim, max_invalid)"
| "gc_victim c (b # bs) (victim, max_invalid) =
     (if b = reserve_block_idx c then gc_victim c bs (victim, max_invalid)
      else
        let inv = GetInvalidCount (flash c) b in
        if inv > max_invalid then gc_victim c bs (b, inv) else gc_victim c bs (victim, max_invalid))"

definition repoint :: "nat \<Rightarrow> nat \<Rightarrow> PageOwner \<Rightarrow> MappingEntry list \<Rightarrow> MappingEntry list" where
  "repoint b p w tab =
     (if o_lba w < length tab
      then tab[o_lba w := (tab ! o_lba w)\<lparr>m_block_idx := of_nat b, m_page_idx := of_nat p\<rparr>] else tab)"

text \<open>One page of the victim; the second component is the next page of the reserve block. A vector
  that has been moved from is empty.\<close>

definition gc_page :: "nat \<Rightarrow> nat \<Rightarrow> FTLController \<times> nat \<Rightarrow> (FTLController \<times> nat) option" where
  "gc_page victim p cw =
     (let (c, reserve_write_page) = cw in
      if \<not> IsPageValid (flash c) victim p then
        do { c \<leftarrow> set_owners victim p (\<lambda>_. []) c; Some (c, reserve_write_page) }
      else do {
        (_, tmp, f) \<leftarrow> ReadPage (flash c) victim p (Some (replicate FLASH_PAGE_SIZE 0));
        (_, f) \<leftarrow> ProgramPage f (reserve_block_idx c) reserve_write_page (Some tmp);
        let c = c\<lparr>flash := f, gc_migrated_pages := gc_migrated_pages c + 1\<rparr>;
        let owners = block_page_owners c ! victim ! p;
        let c = c\<lparr>lba_table := fold (repoint (reserve_block_idx c) reserve_write_page) owners (lba_table c)\<rparr>;
        c \<leftarrow> set_owners victim p (\<lambda>_. []) c;
        c \<leftarrow> set_owners (reserve_block_idx c) reserve_write_page (\<lambda>_. owners) c;
        Some (c, reserve_write_page + 1) })"

fun gc_pages :: "nat \<Rightarrow> nat list \<Rightarrow> FTLController \<times> nat \<Rightarrow> (FTLController \<times> nat) option" where
  "gc_pages victim [] cw = Some cw"
| "gc_pages victim (p # ps) cw = do { cw \<leftarrow> gc_page victim p cw; gc_pages victim ps cw }"

definition gc_finish :: "nat \<Rightarrow> FTLController \<Rightarrow> FTLController option" where
  "gc_finish victim c =
     do { (_, f) \<leftarrow> EraseBlock (flash c) victim;
          let c = c\<lparr>flash := f\<rparr>;
          c \<leftarrow> (if victim < length (block_page_owners c)
                then Some (c\<lparr>block_page_owners :=
                       (block_page_owners c)[victim := replicate (GetPagesPerBlock (flash c)) []]\<rparr>)
                else None);
          c \<leftarrow> next_reserve (c\<lparr>active_block_idx := victim, active_page_idx := 0\<rparr>);
          if reserve_block_idx c = active_block_idx c then next_reserve c else Some c }"

definition RunGarbageCollectionIfNeeded :: "FTLController \<Rightarrow> FTLController option" where
  "RunGarbageCollectionIfNeeded c =
     (if active_page_idx c < GetPagesPerBlock (flash c) then Some c
      else
        let (victim, max_invalid) = gc_victim c [0..<GetTotalBlocks (flash c)] (0, 0) in
        if max_invalid = 0 then
          next_reserve (c\<lparr>active_block_idx := reserve_block_idx c, active_page_idx := 0\<rparr>)
        else do {
          let c = c\<lparr>gc_count := gc_count c + 1\<rparr>;
          (c, _) \<leftarrow> gc_pages victim [0..<GetPagesPerBlock (flash c)] (c, 0);
          gc_finish victim c })"

definition make_room :: "FTLController \<Rightarrow> FTLController option" where
  "make_room c =
     (if active_page_idx c \<ge> GetPagesPerBlock (flash c) then RunGarbageCollectionIfNeeded c else Some c)"

section \<open>Host operations\<close>

definition FlushStagedWrites :: "FTLController \<Rightarrow> FTLController option" where
  "FlushStagedWrites c =
     (case staged_half c of
        None \<Rightarrow> Some c
      | Some st \<Rightarrow>
          do { page_buf \<leftarrow> array_copy (replicate FLASH_PAGE_SIZE 0) 0 (st_data st) 0 2048;
               c \<leftarrow> make_room c;
               c \<leftarrow> program_active page_buf c;
               c \<leftarrow> map_active (st_lba st) COMPRESSED_HALF_PAGE 0 (st_comp_size st) c;
               c \<leftarrow> push_owner (st_lba st) 0 c;
               Some (c\<lparr>active_page_idx := active_page_idx c + 1, staged_half := None\<rparr>) })"

text \<open>The page that holds a mapped block is invalidated, and a staged half page of the block is
  dropped.\<close>

definition forget_old :: "nat \<Rightarrow> FTLController \<Rightarrow> FTLController" where
  "forget_old lba c =
     (let e = lba_table c ! lba;
          c = (if m_state e = RAW_FULL_PAGE \<or> m_state e = COMPRESSED_HALF_PAGE
               then c\<lparr>flash := InvalidatePage (flash c) (unat (m_block_idx e)) (unat (m_page_idx e))\<rparr>
               else c)
      in case staged_half c of
           Some st \<Rightarrow> if st_lba st = lba then c\<lparr>staged_half := None\<rparr> else c
         | None \<Rightarrow> c)"

text \<open>A block of at most 2 KB is paired with the staged one, or staged.\<close>

definition write_half :: "nat \<Rightarrow> CompressedBlock \<Rightarrow> FTLController \<Rightarrow> FTLController option" where
  "write_half lba blk c =
     (case staged_half c of
        Some st \<Rightarrow>
          do { buf \<leftarrow> array_copy (replicate FLASH_PAGE_SIZE 0) 0 (st_data st) 0 2048;
               buf \<leftarrow> array_copy buf 2048 (data blk) 0 (unat (compressed_size blk));
               c \<leftarrow> make_room c;
               c \<leftarrow> program_active buf c;
               c \<leftarrow> map_active (st_lba st) COMPRESSED_HALF_PAGE 0 (st_comp_size st) c;
               c \<leftarrow> map_active lba COMPRESSED_HALF_PAGE 1 (compressed_size blk) c;
               c \<leftarrow> push_owner (st_lba st) 0 c;
               c \<leftarrow> push_owner lba 1 c;
               Some (c\<lparr>half_page_packs := half_page_packs c + 1, staged_half := None,
                       active_page_idx := active_page_idx c + 1\<rparr>) }
      | None \<Rightarrow>
          do { d \<leftarrow> array_copy (replicate 2048 0) 0 (data blk) 0 (unat (compressed_size blk));
               Some (c\<lparr>staged_half :=
                 Some \<lparr>st_lba = lba, st_comp_size = compressed_size blk, st_data = d\<rparr>\<rparr>) })"

definition write_raw :: "nat \<Rightarrow> CompressedBlock \<Rightarrow> FTLController \<Rightarrow> FTLController option" where
  "write_raw lba blk c =
     do { c \<leftarrow> (if staged_half c \<noteq> None then FlushStagedWrites c else Some c);
          c \<leftarrow> make_room c;
          c \<leftarrow> program_active (data blk) c;
          c \<leftarrow> map_active lba RAW_FULL_PAGE 0 (compressed_size blk) c;
          c \<leftarrow> push_owner lba 0 c;
          Some (c\<lparr>raw_full_pages := raw_full_pages c + 1, active_page_idx := active_page_idx c + 1\<rparr>) }"

definition WriteBlock :: "FTLController \<Rightarrow> nat \<Rightarrow> byte list option \<Rightarrow> (bool \<times> FTLController) option" where
  "WriteBlock c lba src_4kb =
     (if lba \<ge> length (lba_table c) \<or> src_4kb = None then Some (False, c)
      else do {
        let c = forget_old lba (c\<lparr>host_writes := host_writes c + 1\<rparr>);
        blk \<leftarrow> Compress src_4kb;
        if is_zero_block blk then
          do { c \<leftarrow> set_entry lba (\<lambda>e. e\<lparr>m_state := SPARSE_ZERO, m_compressed_size := 0\<rparr>) c;
               Some (True, c\<lparr>zero_blocks := zero_blocks c + 1\<rparr>) }
        else if compressed_size blk \<le> 2048 then
          do { c \<leftarrow> write_half lba blk c; Some (True, c) }
        else
          do { c \<leftarrow> write_raw lba blk c; Some (True, c) } })"

text \<open>The value returned, the destination and the state afterwards.\<close>

definition read_half ::
  "byte list \<Rightarrow> nat \<Rightarrow> 16 word \<Rightarrow> byte list \<Rightarrow> (bool \<times> byte list) option" where
  "read_half src offset n dest =
     do { d \<leftarrow> array_copy (replicate FLASH_PAGE_SIZE 0) 0 src offset (unat n);
          Decompress (new_CompressedBlock\<lparr>is_compressed := True, compressed_size := n, data := d\<rparr>) (Some dest) }"

definition read_entry ::
  "FTLController \<Rightarrow> MappingEntry \<Rightarrow> byte list \<Rightarrow> (bool \<times> byte list \<times> FTLController) option" where
  "read_entry c e dest =
     (case m_state e of
        UNMAPPED \<Rightarrow> do { d \<leftarrow> array_fill dest 0 FLASH_PAGE_SIZE; Some (True, d, c) }
      | SPARSE_ZERO \<Rightarrow> do { d \<leftarrow> array_fill dest 0 FLASH_PAGE_SIZE; Some (True, d, c) }
      | RAW_FULL_PAGE \<Rightarrow>
          do { (r, d, f) \<leftarrow> ReadPage (flash c) (unat (m_block_idx e)) (unat (m_page_idx e)) (Some dest);
               Some (r, d, c\<lparr>flash := f\<rparr>) }
      | COMPRESSED_HALF_PAGE \<Rightarrow>
          do { (r, page, f) \<leftarrow> ReadPage (flash c) (unat (m_block_idx e)) (unat (m_page_idx e))
                 (Some (replicate FLASH_PAGE_SIZE 0));
               if \<not> r then Some (False, dest, c\<lparr>flash := f\<rparr>)
               else do {
                 (r, d) \<leftarrow> read_half page (if m_sub_slot e = 0 then 0 else 2048) (m_compressed_size e) dest;
                 Some (r, d, c\<lparr>flash := f\<rparr>) } })"

definition ReadBlock ::
  "FTLController \<Rightarrow> nat \<Rightarrow> byte list option \<Rightarrow> (bool \<times> byte list \<times> FTLController) option" where
  "ReadBlock c lba dest_4kb =
     (case dest_4kb of
        None \<Rightarrow> Some (False, [], c)
      | Some dest \<Rightarrow>
          if lba \<ge> length (lba_table c) then Some (False, dest, c)
          else
            let c = c\<lparr>host_reads := host_reads c + 1\<rparr>; e = lba_table c ! lba in
            case staged_half c of
              Some st \<Rightarrow>
                if st_lba st = lba then
                  do { (r, d) \<leftarrow> read_half (st_data st) 0 (st_comp_size st) dest; Some (r, d, c) }
                else read_entry c e dest
            | None \<Rightarrow> read_entry c e dest)"

section \<open>Telemetry\<close>

definition GetTelemetry :: "FTLController \<Rightarrow> FTLTelemetry" where
  "GetTelemetry c =
     (let ft = Flash_GetTelemetry (flash c);
          host = host_writes c * 4096;
          phys = tel_physical_bytes_written ft
      in \<lparr>t_host_writes = host_writes c, t_host_reads = host_reads c,
          t_host_bytes_written = host, t_host_bytes_read = host_reads c * 4096,
          t_zero_blocks_filtered = zero_blocks c,
          t_compressed_half_pages_packed = half_page_packs c,
          t_raw_full_pages_written = raw_full_pages c,
          t_gc_invocations = gc_count c, t_gc_pages_migrated = gc_migrated_pages c,
          t_write_amplification_factor =
            (if host > 0 then real (unat phys) / real (unat host) else 0),
          t_effective_compression_ratio =
            (if phys > 0 then real (unat host) / real (unat phys) else 0),
          t_flash_tel = ft\<rparr>)"

definition ResetTelemetry :: "FTLController \<Rightarrow> FTLController" where
  "ResetTelemetry c =
     c\<lparr>flash := Flash_ResetTelemetry (flash c), host_writes := 0, host_reads := 0, zero_blocks := 0,
       half_page_packs := 0, raw_full_pages := 0, gc_count := 0, gc_migrated_pages := 0\<rparr>"

end
