(* ===== verification/Ftl_Invariant.thy ===== *)
theory Ftl_Invariant
  imports Ftl_Controller
begin

text \<open>
  The well-formedness invariant of the flash translation layer and that every operation returns
  and preserves it: no access leaves a vector, on no path.
\<close>

section \<open>The configuration is fixed\<close>

lemma ProgramPage_config: "ProgramPage f b p src = Some (r, f') \<Longrightarrow> config f' = config f"
  using ProgramPage_blocks by fastforce

lemma ReadPage_config: "ReadPage f b p dest = Some (r, d, f') \<Longrightarrow> config f' = config f"
  by (auto simp: ReadPage_def Let_def split: option.splits if_splits bind_splits)

lemma EraseBlock_config: "EraseBlock f b = Some (r, f') \<Longrightarrow> config f' = config f"
  by (auto simp: EraseBlock_def Let_def split: if_splits bind_splits)

lemma InvalidatePage_config: "config (InvalidatePage f b p) = config f"
  by (simp add: InvalidatePage_def Let_def)

lemmas flash_config = ProgramPage_config ReadPage_config EraseBlock_config InvalidatePage_config

section \<open>The invariant\<close>

definition mapping_ok :: "FlashModel \<Rightarrow> MappingEntry \<Rightarrow> bool" where
  "mapping_ok f e \<longleftrightarrow>
     (m_state e = RAW_FULL_PAGE \<or> m_state e = COMPRESSED_HALF_PAGE \<longrightarrow>
        in_flash f (unat (m_block_idx e)) (unat (m_page_idx e))) \<and>
     (m_state e = COMPRESSED_HALF_PAGE \<longrightarrow> unat (m_compressed_size e) \<le> 2048)"

definition staged_ok :: "FTLController \<Rightarrow> StagedHalfPage \<Rightarrow> bool" where
  "staged_ok c st \<longleftrightarrow>
     st_lba st < length (lba_table c) \<and> unat (st_comp_size st) \<le> 2048 \<and> length (st_data st) = 2048"

definition geometry_ok :: "FlashConfig \<Rightarrow> bool" where
  "geometry_ok cfg \<longleftrightarrow> page_size_bytes cfg = 4096 \<and> 2 \<le> total_blocks cfg \<and> total_blocks cfg < 2 ^ 32 \<and>
     1 \<le> pages_per_block cfg \<and> pages_per_block cfg < 2 ^ 32"

definition ftl_ok :: "FTLController \<Rightarrow> bool" where
  "ftl_ok c \<longleftrightarrow>
     flash_ok (flash c) \<and> geometry_ok (config (flash c)) \<and>
     length (block_page_owners c) = GetTotalBlocks (flash c) \<and>
     list_all (\<lambda>row. length row = GetPagesPerBlock (flash c)) (block_page_owners c) \<and>
     active_block_idx c < GetTotalBlocks (flash c) \<and> reserve_block_idx c < GetTotalBlocks (flash c) \<and>
     active_page_idx c \<le> GetPagesPerBlock (flash c) \<and>
     list_all (mapping_ok (flash c)) (lba_table c) \<and>
     (case staged_half c of None \<Rightarrow> True | Some st \<Rightarrow> staged_ok c st)"

lemmas geometry = GetTotalBlocks_def GetPagesPerBlock_def in_flash_def

lemma ftl_okD:
  assumes "ftl_ok c"
  shows "flash_ok (flash c)" "geometry_ok (config (flash c))"
    "length (block_page_owners c) = GetTotalBlocks (flash c)"
    "active_block_idx c < GetTotalBlocks (flash c)" "reserve_block_idx c < GetTotalBlocks (flash c)"
    "active_page_idx c \<le> GetPagesPerBlock (flash c)"
    "list_all (mapping_ok (flash c)) (lba_table c)"
    "2 \<le> GetTotalBlocks (flash c)" "GetTotalBlocks (flash c) < 2 ^ 32"
    "1 \<le> GetPagesPerBlock (flash c)" "GetPagesPerBlock (flash c) < 2 ^ 32"
    "\<And>st. staged_half c = Some st \<Longrightarrow> staged_ok c st"
  using assms by (simp_all add: ftl_ok_def geometry_ok_def geometry)

lemma ftl_ok_row: "ftl_ok c \<Longrightarrow> b < GetTotalBlocks (flash c) \<Longrightarrow> length (block_page_owners c ! b) = GetPagesPerBlock (flash c)"
  by (simp add: ftl_ok_def list_all_length)

lemma mapping_ok_config: "config f' = config f \<Longrightarrow> mapping_ok f' = mapping_ok f"
  by (simp add: fun_eq_iff mapping_ok_def in_flash_def)

text \<open>The shape a step keeps.\<close>

definition kept :: "FTLController \<Rightarrow> FTLController \<Rightarrow> bool" where
  "kept c c' \<longleftrightarrow> config (flash c') = config (flash c) \<and> length (lba_table c') = length (lba_table c)"

lemma kept_refl [simp]: "kept c c"
  by (simp add: kept_def)

lemma kept_trans: "kept a b \<Longrightarrow> kept b c \<Longrightarrow> kept a c"
  by (simp add: kept_def)

lemma kept_geometry: "kept c c' \<Longrightarrow> GetTotalBlocks (flash c') = GetTotalBlocks (flash c) \<and>
    GetPagesPerBlock (flash c') = GetPagesPerBlock (flash c) \<and> in_flash (flash c') = in_flash (flash c)"
  by (auto simp: kept_def geometry fun_eq_iff)

section \<open>The building blocks\<close>

lemma ftl_ok_flash:
  assumes "ftl_ok c" and "flash_ok f" and "config f = config (flash c)"
  shows "ftl_ok (c\<lparr>flash := f\<rparr>)" and "kept c (c\<lparr>flash := f\<rparr>)"
  using assms mapping_ok_config [OF assms(3)]
  by (simp_all add: ftl_ok_def kept_def geometry staged_ok_def cong: option.case_cong)

lemma set_entry_ok:
  assumes "ftl_ok c" and "lba < length (lba_table c)" and "mapping_ok (flash c) (upd (lba_table c ! lba))"
  shows "\<exists>c'. set_entry lba upd c = Some c' \<and> ftl_ok c' \<and> kept c c' \<and>
           c' = c\<lparr>lba_table := (lba_table c)[lba := upd (lba_table c ! lba)]\<rparr>"
  using assms by (simp add: set_entry_def ftl_ok_def kept_def staged_ok_def list_all_update cong: option.case_cong)

lemma set_owners_ok:
  assumes ok: "ftl_ok c" and inside: "in_flash (flash c) b p"
  shows "\<exists>c'. set_owners b p upd c = Some c' \<and> ftl_ok c' \<and> kept c c' \<and>
           c' = c\<lparr>block_page_owners := (block_page_owners c)
             [b := (block_page_owners c ! b)[p := upd (block_page_owners c ! b ! p)]]\<rparr>"
proof -
  have b: "b < length (block_page_owners c)" "p < length (block_page_owners c ! b)"
    using inside ftl_okD(3) [OF ok] ftl_ok_row [OF ok, of b] by (simp_all add: geometry)
  with ok show ?thesis
    by (auto simp: set_owners_def Let_def ftl_ok_def kept_def staged_ok_def list_all_length nth_list_update
        cong: option.case_cong)
qed

lemma program_active_ok:
  assumes ok: "ftl_ok c" and buf: "length buf = 4096"
  shows "\<exists>r f. ProgramPage (flash c) (active_block_idx c) (active_page_idx c) (Some buf) = Some (r, f) \<and>
           program_active buf c = Some (c\<lparr>flash := f\<rparr>) \<and> ftl_ok (c\<lparr>flash := f\<rparr>) \<and> kept c (c\<lparr>flash := f\<rparr>)"
proof -
  from nand.program_any [OF ftl_okD(1) [OF ok] buf] obtain r f where
    run: "ProgramPage (flash c) (active_block_idx c) (active_page_idx c) (Some buf) = Some (r, f)" and f: "flash_ok f"
    by blast
  from run have "program_active buf c = Some (c\<lparr>flash := f\<rparr>)"
    by (simp add: program_active_def)
  with run ftl_ok_flash [OF ok f ProgramPage_config [OF run]] show ?thesis
    by blast
qed

text \<open>There is room at the active position.\<close>

definition has_room :: "FTLController \<Rightarrow> bool" where
  "has_room c \<longleftrightarrow> active_page_idx c < GetPagesPerBlock (flash c)"

lemma active_inside: "ftl_ok c \<Longrightarrow> has_room c \<Longrightarrow> in_flash (flash c) (active_block_idx c) (active_page_idx c)"
  using ftl_okD(4) [of c] by (simp add: has_room_def geometry)

lemma active_words:
  assumes "ftl_ok c" and "has_room c"
  shows "unat (of_nat (active_block_idx c) :: 32 word) = active_block_idx c"
    and "unat (of_nat (active_page_idx c) :: 32 word) = active_page_idx c"
  using assms ftl_okD(4,9,11) [OF assms(1)]
  by (simp_all add: has_room_def unsigned_of_nat take_bit_nat_eq_self)

lemma map_active_ok:
  assumes ok: "ftl_ok c" and room: "has_room c" and lba: "lba < length (lba_table c)"
    and "st = COMPRESSED_HALF_PAGE \<longrightarrow> unat n \<le> 2048"
  shows "\<exists>c'. map_active lba st sub n c = Some c' \<and> ftl_ok c' \<and> kept c c' \<and>
           c' = c\<lparr>lba_table := (lba_table c)[lba := (lba_table c ! lba)
             \<lparr>m_state := st, m_block_idx := of_nat (active_block_idx c), m_page_idx := of_nat (active_page_idx c),
              m_sub_slot := sub, m_compressed_size := n\<rparr>]\<rparr>"
  unfolding map_active_def
  by (rule set_entry_ok [OF ok lba])
    (use assms active_inside [OF ok room] active_words [OF ok room] in \<open>simp add: mapping_ok_def\<close>)

lemma push_owner_ok:
  assumes ok: "ftl_ok c" and room: "has_room c"
  shows "\<exists>c'. push_owner lba sub c = Some c' \<and> ftl_ok c' \<and> kept c c' \<and>
           c' = c\<lparr>block_page_owners := (block_page_owners c)
             [active_block_idx c := (block_page_owners c ! active_block_idx c)
               [active_page_idx c := block_page_owners c ! active_block_idx c ! active_page_idx c @
                  [\<lparr>o_lba = lba, o_sub_slot = sub\<rparr>]]]\<rparr>"
  unfolding push_owner_def by (rule set_owners_ok [OF ok active_inside [OF ok room]])

section \<open>Garbage collection\<close>

lemma gc_victim_bound:
  "gc_victim c bs (v, k) = (v', k') \<Longrightarrow> v' \<in> insert v (set bs) \<and>
     (v \<noteq> reserve_block_idx c \<or> k = 0 \<longrightarrow> k' \<noteq> 0 \<longrightarrow> v' \<noteq> reserve_block_idx c)"
proof (induction bs arbitrary: v k)
  case (Cons b bs)
  from Cons.prems show ?case
    by (auto simp: Let_def split: if_splits dest!: Cons.IH)
qed auto

lemma repoint_ok:
  assumes "list_all (mapping_ok f) tab" and "in_flash f (unat (of_nat b :: 32 word)) (unat (of_nat p :: 32 word))"
  shows "list_all (mapping_ok f) (fold (repoint b p) ws tab) \<and> length (fold (repoint b p) ws tab) = length tab"
  using assms(1)
proof (induction ws arbitrary: tab)
  case (Cons w ws)
  have "list_all (mapping_ok f) (repoint b p w tab)"
    using Cons.prems assms(2) by (auto simp: repoint_def list_all_length mapping_ok_def nth_list_update)
  moreover have "length (repoint b p w tab) = length tab"
    by (simp add: repoint_def)
  ultimately show ?case
    using Cons.IH [of "repoint b p w tab"] by simp
qed simp

lemma ftl_ok_table:
  assumes "ftl_ok c" and "list_all (mapping_ok (flash c)) tab" and "length tab = length (lba_table c)"
  shows "ftl_ok (c\<lparr>lba_table := tab\<rparr>)" and "kept c (c\<lparr>lba_table := tab\<rparr>)"
  using assms by (simp_all add: ftl_ok_def kept_def staged_ok_def cong: option.case_cong)

text \<open>The fields the collection of one page keeps.\<close>

definition gc_kept :: "FTLController \<Rightarrow> FTLController \<Rightarrow> bool" where
  "gc_kept c c' \<longleftrightarrow> kept c c' \<and> reserve_block_idx c' = reserve_block_idx c \<and> staged_half c' = staged_half c \<and>
     active_block_idx c' = active_block_idx c \<and> active_page_idx c' = active_page_idx c"

lemma gc_page_ok:
  assumes ok: "ftl_ok c" and v: "v < GetTotalBlocks (flash c)" and p: "p < GetPagesPerBlock (flash c)"
    and w: "w \<le> p"
  shows "\<exists>c' w'. gc_page v p (c, w) = Some (c', w') \<and> ftl_ok c' \<and> gc_kept c c' \<and> w' \<le> Suc p"
proof (cases "IsPageValid (flash c) v p")
  case False
  have "in_flash (flash c) v p"
    using v p by (simp add: geometry)
  from set_owners_ok [OF ok this] obtain c' where
    "set_owners v p (\<lambda>_. []) c = Some c'" "ftl_ok c'" "kept c c'" and
    c': "c' = c\<lparr>block_page_owners := (block_page_owners c)[v := (block_page_owners c ! v)[p := []]]\<rparr>"
    by blast
  with False w show ?thesis
    by (simp add: gc_page_def gc_kept_def)
next
  case True
  let ?r = "reserve_block_idx c" and ?os = "block_page_owners c ! v ! p"
  have vin: "in_flash (flash c) v p"
    using v p by (simp add: geometry)
  have rin: "in_flash (flash c) ?r w"
    using ftl_okD(5) [OF ok] p w by (simp add: geometry)
  have words: "unat (of_nat ?r :: 32 word) = ?r" "unat (of_nat w :: 32 word) = w"
    using ftl_okD(5,9,11) [OF ok] p w by (simp_all add: unsigned_of_nat take_bit_nat_eq_self)
  from nand.read_inside [OF ftl_okD(1) [OF ok] vin, of "replicate FLASH_PAGE_SIZE 0"] obtain tmp f1 where
    read: "ReadPage (flash c) v p (Some (replicate FLASH_PAGE_SIZE 0)) = Some (True, tmp, f1)" and f1: "flash_ok f1"
    and tmp: "tmp = (case content (flash c) v p of None \<Rightarrow> replicate 4096 255 | Some d \<Rightarrow> d)"
    by auto
  have "length tmp = 4096"
    unfolding tmp using nand.holds_page [OF ftl_okD(1) [OF ok], of v p] by (simp split: option.split)
  from nand.program_any [OF f1 this] obtain r f2 where
    prog: "ProgramPage f1 ?r w (Some tmp) = Some (r, f2)" and f2: "flash_ok f2"
    by blast
  have cfg: "config f2 = config (flash c)"
    using ReadPage_config [OF read] ProgramPage_config [OF prog] by simp
  let ?c1 = "c\<lparr>flash := f2\<rparr>"
  have ok1: "ftl_ok ?c1" "kept c ?c1"
    by (rule ftl_ok_flash [OF ok f2 cfg])+
  define tab where "tab = fold (repoint ?r w) ?os (lba_table c)"
  have "in_flash f2 (unat (of_nat ?r :: 32 word)) (unat (of_nat w :: 32 word))"
    unfolding words using rin cfg by (simp add: in_flash_def)
  from repoint_ok [OF _ this, of "lba_table c" ?os] ftl_okD(7) [OF ok1(1)]
  have tab: "list_all (mapping_ok (flash ?c1)) tab" "length tab = length (lba_table ?c1)"
    by (simp_all add: tab_def)
  let ?c2 = "?c1\<lparr>gc_migrated_pages := gc_migrated_pages c + 1, lba_table := tab\<rparr>"
  have ok2: "ftl_ok ?c2" "kept c ?c2"
    using ftl_ok_table [OF ok1(1) tab] ok1(2) by (simp_all add: ftl_ok_def kept_def staged_ok_def cong: option.case_cong)
  have in2: "in_flash (flash ?c2) v p" "in_flash (flash ?c2) ?r w"
    using vin rin cfg by (simp_all add: in_flash_def)
  from set_owners_ok [OF ok2(1) in2(1), of "\<lambda>_. []"] obtain c3 where
    c3: "set_owners v p (\<lambda>_. []) ?c2 = Some c3" "ftl_ok c3" "kept ?c2 c3"
      "c3 = ?c2\<lparr>block_page_owners := (block_page_owners c)[v := (block_page_owners c ! v)[p := []]]\<rparr>"
    by auto
  have "in_flash (flash c3) ?r w"
    using in2(2) by (simp add: c3(4))
  from set_owners_ok [OF c3(2) this, of "\<lambda>_. ?os"] obtain c4 where
    c4: "set_owners ?r w (\<lambda>_. ?os) c3 = Some c4" "ftl_ok c4" "kept c3 c4" "reserve_block_idx c4 = ?r"
      "staged_half c4 = staged_half c" "active_block_idx c4 = active_block_idx c" "active_page_idx c4 = active_page_idx c"
    by (auto simp: c3(4))
  have r3: "reserve_block_idx c3 = ?r"
    by (simp add: c3(4))
  have "gc_page v p (c, w) = Some (c4, w + 1)"
    using True read prog c3(1) c4(1) r3 by (simp add: gc_page_def Let_def tab_def)
  moreover have "gc_kept c c4"
    using kept_trans [OF ok2(2) kept_trans [OF c3(3) c4(3)]] c4(4-) by (simp add: gc_kept_def)
  ultimately show ?thesis
    using c4(2) w by simp
qed

lemma gc_kept_trans: "gc_kept a b \<Longrightarrow> gc_kept b c \<Longrightarrow> gc_kept a c"
  using kept_trans by (auto simp: gc_kept_def)

lemma gc_pages_ok:
  assumes "ftl_ok c" and "v < GetTotalBlocks (flash c)" and "w \<le> n" and "k = GetPagesPerBlock (flash c)" and "n \<le> k"
  shows "\<exists>c' w'. gc_pages v [n..<k] (c, w) = Some (c', w') \<and> ftl_ok c' \<and> gc_kept c c'"
  using assms
proof (induction "k - n" arbitrary: n c w)
  case 0
  then show ?case
    by (simp add: gc_kept_def)
next
  case (Suc m)
  then have n: "n < GetPagesPerBlock (flash c)" "[n..<k] = n # [Suc n..<k]"
    by (simp_all add: upt_rec)
  from gc_page_ok [OF Suc.prems(1,2) n(1) Suc.prems(3)] obtain c1 w1 where
    c1: "gc_page v n (c, w) = Some (c1, w1)" "ftl_ok c1" "gc_kept c c1" "w1 \<le> Suc n"
    by blast
  have geo: "GetTotalBlocks (flash c1) = GetTotalBlocks (flash c)" "GetPagesPerBlock (flash c1) = GetPagesPerBlock (flash c)"
    using kept_geometry [of c c1] c1(3) by (simp_all add: gc_kept_def)
  have "\<exists>c' w'. gc_pages v [Suc n..<k] (c1, w1) = Some (c', w') \<and> ftl_ok c' \<and> gc_kept c1 c'"
    by (rule Suc.hyps(1)) (use Suc.hyps(2) Suc.prems c1 geo in simp_all)
  then obtain c' w' where "gc_pages v [Suc n..<k] (c1, w1) = Some (c', w')" "ftl_ok c'" "gc_kept c1 c'"
    by blast
  then show ?case
    unfolding n(2) using c1(1) gc_kept_trans [OF c1(3)] by auto
qed

lemma next_reserve_ok:
  assumes "ftl_ok c"
  shows "\<exists>c'. next_reserve c = Some c' \<and> ftl_ok c' \<and> kept c c' \<and>
           c' = c\<lparr>reserve_block_idx := (reserve_block_idx c + 1) mod GetTotalBlocks (flash c)\<rparr>"
proof -
  have "0 < GetTotalBlocks (flash c)"
    using ftl_okD(8) [OF assms] by simp
  with assms show ?thesis
    by (simp add: next_reserve_def ftl_ok_def kept_def staged_ok_def cong: option.case_cong)
qed

lemma ftl_ok_active:
  assumes "ftl_ok c" and "b < GetTotalBlocks (flash c)" and "p \<le> GetPagesPerBlock (flash c)"
  shows "ftl_ok (c\<lparr>active_block_idx := b, active_page_idx := p\<rparr>)" "kept c (c\<lparr>active_block_idx := b, active_page_idx := p\<rparr>)"
  using assms by (simp_all add: ftl_ok_def kept_def staged_ok_def cong: option.case_cong)

lemma gc_finish_ok:
  assumes ok: "ftl_ok c" and v: "v < GetTotalBlocks (flash c)"
  shows "\<exists>c'. gc_finish v c = Some c' \<and> ftl_ok c' \<and> kept c c' \<and> staged_half c' = staged_half c \<and>
           active_page_idx c' = 0"
proof -
  have vin: "in_flash (flash c) v 0"
    using v ftl_okD(10) [OF ok] by (simp add: geometry)
  from nand.erase_inside [OF ftl_okD(1) [OF ok] vin] obtain f where
    erase: "EraseBlock (flash c) v = Some (True, f)" and f: "flash_ok f"
    by blast
  let ?c1 = "c\<lparr>flash := f\<rparr>"
  have ok1: "ftl_ok ?c1" "kept c ?c1"
    by (rule ftl_ok_flash [OF ok f EraseBlock_config [OF erase]])+
  have geo: "GetTotalBlocks f = GetTotalBlocks (flash c)" "GetPagesPerBlock f = GetPagesPerBlock (flash c)"
    using EraseBlock_config [OF erase] by (simp_all add: geometry)
  let ?c2 = "?c1\<lparr>block_page_owners := (block_page_owners c)[v := replicate (GetPagesPerBlock f) []]\<rparr>"
  have ok2: "ftl_ok ?c2" "kept ?c1 ?c2"
    using ok1(1) by (simp_all add: ftl_ok_def kept_def staged_ok_def list_all_update cong: option.case_cong)
  let ?c3 = "?c2\<lparr>active_block_idx := v, active_page_idx := 0\<rparr>"
  have ok3: "ftl_ok ?c3" "kept ?c2 ?c3"
    using ftl_ok_active [OF ok2(1), of v 0] v geo by simp_all
  have run: "gc_finish v c = do { c \<leftarrow> next_reserve ?c3;
      if reserve_block_idx c = active_block_idx c then next_reserve c else Some c }"
    using erase v ftl_okD(3) [OF ok] by (simp add: gc_finish_def Let_def)
  from next_reserve_ok [OF ok3(1)] obtain c4 where
    c4: "next_reserve ?c3 = Some c4" "ftl_ok c4" "kept ?c3 c4" "staged_half c4 = staged_half c" "active_page_idx c4 = 0"
    by auto
  from next_reserve_ok [OF c4(2)] obtain c5 where
    c5: "next_reserve c4 = Some c5" "ftl_ok c5" "kept c4 c5" "staged_half c5 = staged_half c" "active_page_idx c5 = 0"
    using c4(4,5) by auto
  have k4: "kept c c4"
    by (rule kept_trans [OF ok1(2) kept_trans [OF ok2(2) kept_trans [OF ok3(2) c4(3)]]])
  show ?thesis
    unfolding run using c4 c5 k4 kept_trans [OF k4 c5(3)] by simp
qed

lemma RunGarbageCollection_ok:
  assumes ok: "ftl_ok c"
  shows "\<exists>c'. RunGarbageCollectionIfNeeded c = Some c' \<and> ftl_ok c' \<and> kept c c' \<and>
           staged_half c' = staged_half c \<and> has_room c'"
proof (cases "has_room c")
  case True
  with ok show ?thesis
    by (simp add: RunGarbageCollectionIfNeeded_def has_room_def)
next
  case False
  obtain v k where vk: "gc_victim c [0..<GetTotalBlocks (flash c)] (0, 0) = (v, k)"
    by force
  have v: "v < GetTotalBlocks (flash c)"
    using gc_victim_bound [OF vk] ftl_okD(8) [OF ok] by auto
  show ?thesis
  proof (cases "k = 0")
    case True
    let ?c1 = "c\<lparr>active_block_idx := reserve_block_idx c, active_page_idx := 0\<rparr>"
    have ok1: "ftl_ok ?c1" "kept c ?c1"
      using ftl_ok_active [OF ok ftl_okD(5) [OF ok], of 0] by simp_all
    have run: "RunGarbageCollectionIfNeeded c = next_reserve ?c1"
      using False vk True by (simp add: RunGarbageCollectionIfNeeded_def has_room_def)
    from next_reserve_ok [OF ok1(1)] kept_trans [OF ok1(2)] ftl_okD(10) [OF ok] show ?thesis
      unfolding run by (auto simp: has_room_def)
  next
    case nz: False
    let ?c1 = "c\<lparr>gc_count := gc_count c + 1\<rparr>" and ?n = "GetPagesPerBlock (flash c)"
    have ok1: "ftl_ok ?c1" "kept c ?c1"
      using ok by (simp_all add: ftl_ok_def kept_def staged_ok_def cong: option.case_cong)
    from gc_pages_ok [OF ok1(1), of v 0 0 ?n] v obtain c2 w where
      c2: "gc_pages v [0..<?n] (?c1, 0) = Some (c2, w)" "ftl_ok c2" "gc_kept ?c1 c2"
      by auto
    have "v < GetTotalBlocks (flash c2)"
      using v kept_geometry [of ?c1 c2] c2(3) by (simp add: gc_kept_def)
    from gc_finish_ok [OF c2(2) this] obtain c3 where
      c3: "gc_finish v c2 = Some c3" "ftl_ok c3" "kept c2 c3" "staged_half c3 = staged_half c2" "active_page_idx c3 = 0"
      by blast
    have "RunGarbageCollectionIfNeeded c = Some c3"
      using False vk nz c2(1) c3(1) by (simp add: RunGarbageCollectionIfNeeded_def has_room_def)
    moreover have "kept c c3" "staged_half c3 = staged_half c"
      using c2(3) c3(3,4) by (simp_all add: gc_kept_def kept_def)
    moreover have "has_room c3"
      using c3(5) ftl_okD(10) [OF c3(2)] by (simp add: has_room_def)
    ultimately show ?thesis
      using c3(2) by blast
  qed
qed

lemma make_room_ok:
  assumes "ftl_ok c"
  shows "\<exists>c'. make_room c = Some c' \<and> ftl_ok c' \<and> kept c c' \<and> staged_half c' = staged_half c \<and> has_room c'"
  using RunGarbageCollection_ok [OF assms] assms by (auto simp: make_room_def has_room_def)

lemma make_room_id: "has_room c \<Longrightarrow> make_room c = Some c"
  by (simp add: make_room_def has_room_def)

section \<open>The host operations\<close>

text \<open>Advancing the active page and dropping the staged half page.\<close>

lemma ftl_ok_done:
  assumes "ftl_ok c" and "has_room c"
  shows "ftl_ok (c\<lparr>active_page_idx := active_page_idx c + 1, staged_half := None\<rparr>)"
    "ftl_ok (c\<lparr>half_page_packs := x, staged_half := None, active_page_idx := active_page_idx c + 1\<rparr>)"
    "ftl_ok (c\<lparr>raw_full_pages := x, active_page_idx := active_page_idx c + 1\<rparr>)"
  using assms by (simp_all add: ftl_ok_def has_room_def staged_ok_def cong: option.case_cong)

lemma half_page_copy:
  assumes "length d = 2048"
  shows "array_copy (replicate FLASH_PAGE_SIZE 0) 0 d 0 2048 = Some (d @ replicate 2048 0)"
proof -
  have "drop 2048 (replicate FLASH_PAGE_SIZE (0 :: byte)) = replicate (FLASH_PAGE_SIZE - 2048) 0"
    by (rule drop_replicate)
  with assms show ?thesis
    by (simp add: array_copy_def)
qed

lemma Flush_ok:
  assumes ok: "ftl_ok c"
  shows "\<exists>c'. FlushStagedWrites c = Some c' \<and> ftl_ok c' \<and> kept c c' \<and> staged_half c' = None"
proof (cases "staged_half c")
  case None
  with ok show ?thesis
    by (simp add: FlushStagedWrites_def)
next
  case (Some st)
  have st: "st_lba st < length (lba_table c)" "unat (st_comp_size st) \<le> 2048" "length (st_data st) = 2048"
    using ftl_okD(12) [OF ok Some] by (simp_all add: staged_ok_def)
  let ?buf = "st_data st @ replicate 2048 0"
  have buf: "length ?buf = 4096"
    using st(3) by simp
  from make_room_ok [OF ok] obtain c1 where
    c1: "make_room c = Some c1" "ftl_ok c1" "kept c c1" "staged_half c1 = staged_half c" "has_room c1"
    by blast
  from program_active_ok [OF c1(2) buf] obtain f where
    c2: "program_active ?buf c1 = Some (c1\<lparr>flash := f\<rparr>)" "ftl_ok (c1\<lparr>flash := f\<rparr>)" "kept c1 (c1\<lparr>flash := f\<rparr>)"
    by blast
  have room2: "has_room (c1\<lparr>flash := f\<rparr>)"
    using c1(5) kept_geometry [OF c2(3)] by (simp add: has_room_def)
  have lba: "st_lba st < length (lba_table (c1\<lparr>flash := f\<rparr>))"
    using st(1) c1(3) by (simp add: kept_def)
  from map_active_ok [OF c2(2) room2 lba, of COMPRESSED_HALF_PAGE "st_comp_size st" 0] st(2) obtain c3 where
    c3: "map_active (st_lba st) COMPRESSED_HALF_PAGE 0 (st_comp_size st) (c1\<lparr>flash := f\<rparr>) = Some c3"
      "ftl_ok c3" "kept (c1\<lparr>flash := f\<rparr>) c3" and e3: "has_room c3"
    using room2 by (auto simp: has_room_def)
  from push_owner_ok [OF c3(2) e3, of "st_lba st" 0] obtain c4 where
    c4: "push_owner (st_lba st) 0 c3 = Some c4" "ftl_ok c4" "kept c3 c4" "has_room c4"
    using e3 by (auto simp: has_room_def)
  have "FlushStagedWrites c = Some (c4\<lparr>active_page_idx := active_page_idx c4 + 1, staged_half := None\<rparr>)"
    unfolding FlushStagedWrites_def Some option.case half_page_copy [OF st(3)] Option.bind.bind_lunit
      c1(1) c2(1) c3(1) c4(1) by (rule refl)
  moreover have "kept c (c4\<lparr>active_page_idx := active_page_idx c4 + 1, staged_half := None\<rparr>)"
    using kept_trans [OF c1(3) kept_trans [OF c2(3) kept_trans [OF c3(3) c4(3)]]] by (simp add: kept_def)
  ultimately show ?thesis
    using ftl_ok_done(1) [OF c4(2,4)] by auto
qed

lemma forget_old_ok:
  assumes ok: "ftl_ok c"
  shows "ftl_ok (forget_old lba c)" "kept c (forget_old lba c)"
    "\<And>st. staged_half (forget_old lba c) = Some st \<Longrightarrow> staged_half c = Some st \<and> st_lba st \<noteq> lba"
proof -
  let ?e = "lba_table c ! lba"
  define f where "f = (if m_state ?e = RAW_FULL_PAGE \<or> m_state ?e = COMPRESSED_HALF_PAGE
      then InvalidatePage (flash c) (unat (m_block_idx ?e)) (unat (m_page_idx ?e)) else flash c)"
  have f: "flash_ok f" "config f = config (flash c)"
    using nand.invalidate_any [OF ftl_okD(1) [OF ok]] ftl_okD(1) [OF ok] by (simp_all add: f_def InvalidatePage_config)
  have *: "forget_old lba c = (c\<lparr>flash := f\<rparr>)\<lparr>staged_half :=
      (case staged_half c of None \<Rightarrow> None | Some st \<Rightarrow> if st_lba st = lba then None else Some st)\<rparr>"
    by (simp add: forget_old_def Let_def f_def split: option.split)
  note ok1 = ftl_ok_flash [OF ok f]
  show "ftl_ok (forget_old lba c)" "kept c (forget_old lba c)"
    "\<And>st. staged_half (forget_old lba c) = Some st \<Longrightarrow> staged_half c = Some st \<and> st_lba st \<noteq> lba"
    unfolding * using ok1 by (auto simp: ftl_ok_def kept_def staged_ok_def split: option.splits if_splits)
qed

lemma pair_copy:
  assumes "length d = 2048" and "length e = 4096" and "n \<le> 2048"
  shows "array_copy (d @ replicate 2048 0) 2048 e 0 n = Some (d @ take n e @ replicate (2048 - n) 0)"
  using assms by (simp add: array_copy_def)

lemma staged_copy:
  assumes "length e = 4096" and "n \<le> 2048"
  shows "array_copy (replicate 2048 0) 0 e 0 n = Some (take n e @ replicate (2048 - n) 0)"
proof -
  have "drop n (replicate 2048 (0 :: byte)) = replicate (2048 - n) 0"
    by (rule drop_replicate)
  with assms show ?thesis
    by (simp add: array_copy_def)
qed

text \<open>The steps of the pairing path up to the assignments of the counters.\<close>

lemma write_half_ok:
  assumes ok: "ftl_ok c" and lba: "lba < length (lba_table c)"
    and blk: "length (data blk) = 4096" "unat (compressed_size blk) \<le> 2048"
  shows "\<exists>c'. write_half lba blk c = Some c' \<and> ftl_ok c' \<and> kept c c'"
proof (cases "staged_half c")
  case None
  let ?d = "take (unat (compressed_size blk)) (data blk) @ replicate (2048 - unat (compressed_size blk)) 0"
  let ?c = "c\<lparr>staged_half := Some \<lparr>st_lba = lba, st_comp_size = compressed_size blk, st_data = ?d\<rparr>\<rparr>"
  have "write_half lba blk c = Some ?c"
    unfolding write_half_def None option.case staged_copy [OF blk] by simp
  moreover have "ftl_ok ?c" "kept c ?c"
    using ok lba blk by (simp_all add: ftl_ok_def kept_def staged_ok_def None)
  ultimately show ?thesis
    by blast
next
  case (Some st)
  have st: "st_lba st < length (lba_table c)" "unat (st_comp_size st) \<le> 2048" "length (st_data st) = 2048"
    using ftl_okD(12) [OF ok Some] by (simp_all add: staged_ok_def)
  let ?n = "unat (compressed_size blk)"
  let ?buf = "st_data st @ take ?n (data blk) @ replicate (2048 - ?n) 0"
  have buf: "length ?buf = 4096"
    using st(3) blk by simp
  from make_room_ok [OF ok] obtain c1 where
    c1: "make_room c = Some c1" "ftl_ok c1" "kept c c1" "has_room c1"
    by blast
  from program_active_ok [OF c1(2) buf] obtain f where
    c2: "program_active ?buf c1 = Some (c1\<lparr>flash := f\<rparr>)" "ftl_ok (c1\<lparr>flash := f\<rparr>)" "kept c1 (c1\<lparr>flash := f\<rparr>)"
    by blast
  have room2: "has_room (c1\<lparr>flash := f\<rparr>)"
    using c1(4) kept_geometry [OF c2(3)] by (simp add: has_room_def)
  have k2: "kept c (c1\<lparr>flash := f\<rparr>)"
    by (rule kept_trans [OF c1(3) c2(3)])
  from map_active_ok [OF c2(2) room2, of "st_lba st" COMPRESSED_HALF_PAGE "st_comp_size st" 0] st k2 obtain c3 where
    c3: "map_active (st_lba st) COMPRESSED_HALF_PAGE 0 (st_comp_size st) (c1\<lparr>flash := f\<rparr>) = Some c3"
      "ftl_ok c3" "kept (c1\<lparr>flash := f\<rparr>) c3" "has_room c3"
    using room2 by (auto simp: has_room_def kept_def)
  have k3: "kept c c3"
    by (rule kept_trans [OF k2 c3(3)])
  from map_active_ok [OF c3(2,4), of lba COMPRESSED_HALF_PAGE "compressed_size blk" 1] lba blk(2) k3 obtain c4 where
    c4: "map_active lba COMPRESSED_HALF_PAGE 1 (compressed_size blk) c3 = Some c4" "ftl_ok c4" "kept c3 c4" "has_room c4"
    using c3(4) by (auto simp: has_room_def kept_def)
  from push_owner_ok [OF c4(2,4), of "st_lba st" 0] c4(4) obtain c5 where
    c5: "push_owner (st_lba st) 0 c4 = Some c5" "ftl_ok c5" "kept c4 c5" "has_room c5"
    by (auto simp: has_room_def)
  from push_owner_ok [OF c5(2,4), of lba 1] c5(4) obtain c6 where
    c6: "push_owner lba 1 c5 = Some c6" "ftl_ok c6" "kept c5 c6" "has_room c6"
    by (auto simp: has_room_def)
  let ?c = "c6\<lparr>half_page_packs := half_page_packs c6 + 1, staged_half := None, active_page_idx := active_page_idx c6 + 1\<rparr>"
  have "write_half lba blk c = Some ?c"
    unfolding write_half_def Some option.case half_page_copy [OF st(3)] Option.bind.bind_lunit
      pair_copy [OF st(3) blk] c1(1) c2(1) c3(1) c4(1) c5(1) c6(1) by (rule refl)
  moreover have "kept c ?c"
    using kept_trans [OF k3 kept_trans [OF c4(3) kept_trans [OF c5(3) c6(3)]]] by (simp add: kept_def)
  ultimately show ?thesis
    using ftl_ok_done(2) [OF c6(2,4)] by blast
qed

lemma write_raw_ok:
  assumes ok: "ftl_ok c" and lba: "lba < length (lba_table c)" and blk: "length (data blk) = 4096"
  shows "\<exists>c'. write_raw lba blk c = Some c' \<and> ftl_ok c' \<and> kept c c'"
proof -
  obtain c1 where c1: "(if staged_half c \<noteq> None then FlushStagedWrites c else Some c) = Some c1" "ftl_ok c1" "kept c c1"
    using Flush_ok [OF ok] ok by (cases "staged_half c") auto
  from make_room_ok [OF c1(2)] obtain c2 where
    c2: "make_room c1 = Some c2" "ftl_ok c2" "kept c1 c2" "has_room c2"
    by blast
  from program_active_ok [OF c2(2) blk] obtain f where
    c3: "program_active (data blk) c2 = Some (c2\<lparr>flash := f\<rparr>)" "ftl_ok (c2\<lparr>flash := f\<rparr>)" "kept c2 (c2\<lparr>flash := f\<rparr>)"
    by blast
  have room3: "has_room (c2\<lparr>flash := f\<rparr>)"
    using c2(4) kept_geometry [OF c3(3)] by (simp add: has_room_def)
  have k3: "kept c (c2\<lparr>flash := f\<rparr>)"
    by (rule kept_trans [OF c1(3) kept_trans [OF c2(3) c3(3)]])
  from map_active_ok [OF c3(2) room3, of lba RAW_FULL_PAGE "compressed_size blk" 0] lba k3 obtain c4 where
    c4: "map_active lba RAW_FULL_PAGE 0 (compressed_size blk) (c2\<lparr>flash := f\<rparr>) = Some c4" "ftl_ok c4"
      "kept (c2\<lparr>flash := f\<rparr>) c4" "has_room c4"
    using room3 by (auto simp: has_room_def kept_def)
  from push_owner_ok [OF c4(2,4), of lba 0] c4(4) obtain c5 where
    c5: "push_owner lba 0 c4 = Some c5" "ftl_ok c5" "kept c4 c5" "has_room c5"
    by (auto simp: has_room_def)
  let ?c = "c5\<lparr>raw_full_pages := raw_full_pages c5 + 1, active_page_idx := active_page_idx c5 + 1\<rparr>"
  have "write_raw lba blk c = Some ?c"
    unfolding write_raw_def c1(1) Option.bind.bind_lunit c2(1) c3(1) c4(1) c5(1) by (rule refl)
  moreover have "kept c ?c"
    using kept_trans [OF k3 kept_trans [OF c4(3) c5(3)]] by (simp add: kept_def)
  ultimately show ?thesis
    using ftl_ok_done(3) [OF c5(2,4)] by blast
qed

lemma ftl_ok_counter:
  "ftl_ok c \<Longrightarrow> ftl_ok (c\<lparr>host_writes := x\<rparr>)" "ftl_ok c \<Longrightarrow> ftl_ok (c\<lparr>host_reads := x\<rparr>)"
  "ftl_ok c \<Longrightarrow> ftl_ok (c\<lparr>zero_blocks := x\<rparr>)"
  by (simp_all add: ftl_ok_def staged_ok_def cong: option.case_cong)

text \<open>What the write path uses of the compressor.\<close>

lemma Compress_page:
  assumes "length page = FLASH_PAGE_SIZE"
  obtains blk where "Compress (Some page) = Some blk" "block_stores blk page" "length (data blk) = 4096"
  using Compress_stores [OF assms] by (auto simp: block_stores_def)

lemma WriteBlock_ok:
  assumes ok: "ftl_ok c" and src: "\<And>page. src = Some page \<Longrightarrow> length page = FLASH_PAGE_SIZE"
  shows "\<exists>r c'. WriteBlock c lba src = Some (r, c') \<and> ftl_ok c' \<and> kept c c' \<and>
           r = (lba < length (lba_table c) \<and> src \<noteq> None)"
proof (cases "lba \<ge> length (lba_table c) \<or> src = None")
  case True
  with ok show ?thesis
    by (auto simp: WriteBlock_def)
next
  case False
  then obtain page where page: "src = Some page" and lba: "lba < length (lba_table c)"
    by auto
  from Compress_page [OF src [OF page]] obtain blk where
    blk: "Compress src = Some blk" "length (data blk) = 4096"
    by (auto simp: page)
  let ?c1 = "forget_old lba (c\<lparr>host_writes := host_writes c + 1\<rparr>)"
  note c1 = forget_old_ok [OF ftl_ok_counter(1) [OF ok, of "host_writes c + 1"], of lba]
  have k1: "kept c ?c1" and lba1: "lba < length (lba_table ?c1)"
    using c1(2) lba by (simp_all add: kept_def)
  have run: "WriteBlock c lba src =
      (if is_zero_block blk then
          do { c \<leftarrow> set_entry lba (\<lambda>e. e\<lparr>m_state := SPARSE_ZERO, m_compressed_size := 0\<rparr>) ?c1;
               Some (True, c\<lparr>zero_blocks := zero_blocks c + 1\<rparr>) }
        else if compressed_size blk \<le> 2048 then do { c \<leftarrow> write_half lba blk ?c1; Some (True, c) }
        else do { c \<leftarrow> write_raw lba blk ?c1; Some (True, c) })"
    unfolding WriteBlock_def if_not_P [OF False] Let_def blk(1) Option.bind.bind_lunit by (rule refl)
  consider "is_zero_block blk" | "\<not> is_zero_block blk" "compressed_size blk \<le> 2048"
    | "\<not> is_zero_block blk" "\<not> compressed_size blk \<le> 2048"
    by blast
  then show ?thesis
  proof cases
    case 1
    have "\<exists>c'. set_entry lba (\<lambda>e. e\<lparr>m_state := SPARSE_ZERO, m_compressed_size := 0\<rparr>) ?c1 = Some c' \<and>
        ftl_ok c' \<and> kept ?c1 c'"
      using set_entry_ok [OF c1(1) lba1, of "\<lambda>e. e\<lparr>m_state := SPARSE_ZERO, m_compressed_size := 0\<rparr>"]
      by (auto simp: mapping_ok_def)
    with 1 k1 page lba show ?thesis
      unfolding run using ftl_ok_counter(3) by (fastforce simp: kept_def)
  next
    case 2
    then have "unat (compressed_size blk) \<le> 2048"
      by (simp add: word_le_nat_alt)
    from write_half_ok [OF c1(1) lba1 blk(2) this] kept_trans [OF k1] 2 page lba show ?thesis
      unfolding run by auto
  next
    case 3
    from write_raw_ok [OF c1(1) lba1 blk(2)] kept_trans [OF k1] 3 page lba show ?thesis
      unfolding run by auto
  qed
qed

section \<open>Reading\<close>

lemma read_half_ok:
  assumes "offset + unat n \<le> length src" and "unat n \<le> 2048" and "length dest = 4096"
  shows "\<exists>r d. read_half src offset n dest = Some (r, d) \<and> length d = 4096"
proof -
  let ?d = "take (unat n) (drop offset src) @ drop (unat n) (replicate FLASH_PAGE_SIZE 0)"
  have copy: "array_copy (replicate FLASH_PAGE_SIZE 0) 0 src offset (unat n) = Some ?d"
    using assms(1,2) unfolding array_copy_def by (subst if_P) auto
  have "\<exists>r d. Decompress (new_CompressedBlock\<lparr>is_compressed := True, compressed_size := n, data := ?d\<rparr>) (Some dest) =
      Some (r, d) \<and> length d = 4096"
    by (rule Decompress_total) (use assms in simp_all)
  then show ?thesis
    unfolding read_half_def copy Option.bind.bind_lunit .
qed

lemma read_entry_ok:
  assumes ok: "ftl_ok c" and e: "mapping_ok (flash c) e" and dest: "length dest = 4096"
  shows "\<exists>r d c'. read_entry c e dest = Some (r, d, c') \<and> ftl_ok c' \<and> kept c c' \<and> length d = 4096"
proof (cases "m_state e = RAW_FULL_PAGE \<or> m_state e = COMPRESSED_HALF_PAGE")
  case False
  with ok dest show ?thesis
    by (cases "m_state e") (auto simp: read_entry_def)
next
  case True
  let ?b = "unat (m_block_idx e)" and ?p = "unat (m_page_idx e)"
  have inside: "in_flash (flash c) ?b ?p"
    using True e by (auto simp: mapping_ok_def)
  have read: "\<exists>d f. ReadPage (flash c) ?b ?p (Some buf) = Some (True, d, f) \<and> length d = 4096 \<and>
      ftl_ok (c\<lparr>flash := f\<rparr>) \<and> kept c (c\<lparr>flash := f\<rparr>)" if buf: "length buf = 4096" for buf
  proof -
    from nand.read_inside [OF ftl_okD(1) [OF ok] inside buf] obtain d f where
      f: "ReadPage (flash c) ?b ?p (Some buf) = Some (True, d, f)" "flash_ok f"
      and d: "d = (case content (flash c) ?b ?p of None \<Rightarrow> replicate 4096 255 | Some d \<Rightarrow> d)"
      by blast
    have "length d = 4096"
      unfolding d using nand.holds_page [OF ftl_okD(1) [OF ok], of ?b ?p] by (simp split: option.split)
    with f ftl_ok_flash [OF ok f(2) ReadPage_config [OF f(1)]] show ?thesis
      by blast
  qed
  show ?thesis
  proof (cases "m_state e = RAW_FULL_PAGE")
    case True
    with read [OF dest] show ?thesis
      by (auto simp: read_entry_def)
  next
    case False
    with True have half: "m_state e = COMPRESSED_HALF_PAGE"
      by blast
    from read [of "replicate FLASH_PAGE_SIZE 0"] obtain page f where
      f: "ReadPage (flash c) ?b ?p (Some (replicate FLASH_PAGE_SIZE 0)) = Some (True, page, f)" "length page = 4096"
        "ftl_ok (c\<lparr>flash := f\<rparr>)" "kept c (c\<lparr>flash := f\<rparr>)"
      by auto
    have n: "unat (m_compressed_size e) \<le> 2048"
      using e half by (simp add: mapping_ok_def)
    have "\<exists>r d. read_half page (if m_sub_slot e = 0 then 0 else 2048) (m_compressed_size e) dest = Some (r, d) \<and>
        length d = 4096"
      by (rule read_half_ok) (use f(2) n dest in auto)
    with f half show ?thesis
      by (auto simp: read_entry_def)
  qed
qed

lemma ReadBlock_ok:
  assumes ok: "ftl_ok c" and dest: "length dest = 4096"
  shows "\<exists>r d c'. ReadBlock c lba (Some dest) = Some (r, d, c') \<and> ftl_ok c' \<and> kept c c' \<and> length d = 4096"
proof (cases "lba < length (lba_table c)")
  case False
  with ok dest show ?thesis
    by (auto simp: ReadBlock_def)
next
  case True
  let ?c = "c\<lparr>host_reads := host_reads c + 1\<rparr>"
  have ok1: "ftl_ok ?c" "kept c ?c"
    using ftl_ok_counter(2) [OF ok] by (simp_all add: kept_def)
  have "mapping_ok (flash ?c) (lba_table c ! lba)"
    using ftl_okD(7) [OF ok] True by (simp add: list_all_length)
  from read_entry_ok [OF ok1(1) this dest] obtain r d c' where
    entry: "read_entry ?c (lba_table c ! lba) dest = Some (r, d, c')" "ftl_ok c'" "kept ?c c'" "length d = 4096"
    by blast
  show ?thesis
  proof (cases "\<exists>st. staged_half c = Some st \<and> st_lba st = lba")
    case False
    then have "ReadBlock c lba (Some dest) = read_entry ?c (lba_table c ! lba) dest"
      using True by (simp add: ReadBlock_def Let_def split: option.split)
    with entry kept_trans [OF ok1(2)] show ?thesis
      by auto
  next
    case staged: True
    then obtain st where st: "staged_half c = Some st" "st_lba st = lba"
      by blast
    have "\<exists>r d. read_half (st_data st) 0 (st_comp_size st) dest = Some (r, d) \<and> length d = 4096"
      by (rule read_half_ok) (use ftl_okD(12) [OF ok st(1)] dest in \<open>simp_all add: staged_ok_def\<close>)
    with True st ok1 show ?thesis
      by (auto simp: ReadBlock_def Let_def)
  qed
qed

end
