(* ===== verification/Ftl_Props.thy ===== *)
theory Ftl_Props
  imports Ftl_Invariant
begin

text \<open>
  The states the flash translation layer can reach, and that every host operation on them
  returns.
\<close>

section \<open>Reachable states\<close>

inductive ftl_reach :: "nat \<Rightarrow> FlashConfig \<Rightarrow> FTLController \<Rightarrow> bool" for cap cfg where
  start: "ftl_reach cap cfg (new_FTLController cap cfg)"
| written: "ftl_reach cap cfg c \<Longrightarrow> (\<And>page. src = Some page \<Longrightarrow> length page = FLASH_PAGE_SIZE) \<Longrightarrow>
    WriteBlock c lba src = Some (r, c') \<Longrightarrow> ftl_reach cap cfg c'"
| was_read: "ftl_reach cap cfg c \<Longrightarrow> length dest = FLASH_PAGE_SIZE \<Longrightarrow>
    ReadBlock c lba (Some dest) = Some (r, d, c') \<Longrightarrow> ftl_reach cap cfg c'"
| flushed: "ftl_reach cap cfg c \<Longrightarrow> FlushStagedWrites c = Some c' \<Longrightarrow> ftl_reach cap cfg c'"
| was_reset: "ftl_reach cap cfg c \<Longrightarrow> ftl_reach cap cfg (ResetTelemetry c)"

lemma ftl_ok_new:
  assumes "geometry_ok cfg"
  shows "ftl_ok (new_FTLController cap cfg)"
proof -
  have "flash_ok (new_FlashModel cfg)" "config (new_FlashModel cfg) = cfg"
    using assms flash_wf_new [of cfg] by (simp_all add: flash_ok_def geometry_ok_def new_FlashModel_def)
  moreover have "GetTotalBlocks (new_FlashModel cfg) = total_blocks cfg" "GetPagesPerBlock (new_FlashModel cfg) = pages_per_block cfg"
    by (simp_all add: geometry new_FlashModel_def)
  ultimately show ?thesis
    using assms by (simp add: ftl_ok_def new_FTLController_def list_all_length geometry_ok_def mapping_ok_def new_MappingEntry_def)
qed

lemma ftl_ok_reset:
  assumes ok: "ftl_ok c"
  shows "ftl_ok (ResetTelemetry c)" "kept c (ResetTelemetry c)"
proof -
  let ?f = "Flash_ResetTelemetry (flash c)"
  have "flash_ok ?f" "config ?f = config (flash c)"
    using ftl_okD(1) [OF ok] by (simp_all add: flash_ok_def flash_wf_def Flash_ResetTelemetry_def)
  from ftl_ok_flash [OF ok this] show "ftl_ok (ResetTelemetry c)" "kept c (ResetTelemetry c)"
    by (simp_all add: ResetTelemetry_def ftl_ok_def kept_def staged_ok_def cong: option.case_cong)
qed

lemma ftl_reach_ok:
  assumes "ftl_reach cap cfg c" and geo: "geometry_ok cfg"
  shows "ftl_ok c \<and> kept (new_FTLController cap cfg) c"
  using assms(1)
proof induction
  case start
  with ftl_ok_new [OF geo] show ?case
    by simp
next
  case (written c src lba r c')
  then show ?case
    using WriteBlock_ok [of c src lba] kept_trans by auto
next
  case (was_read c dest lba r d c')
  then show ?case
    using ReadBlock_ok [of c dest lba] kept_trans by auto
next
  case (flushed c c')
  then show ?case
    using Flush_ok [of c] kept_trans by auto
next
  case (was_reset c)
  then show ?case
    using ftl_ok_reset kept_trans by blast
qed

section \<open>Properties\<close>

lemma default_geometry: "geometry_ok default_FlashConfig"
  by (simp add: geometry_ok_def default_FlashConfig_def)

text \<open>C6: In every state the host operations can reach, the next operation returns: no access leaves
  a vector or a buffer on any path, garbage collection included. A write succeeds exactly if the
  address is in range and there is a source; the table keeps its size.\<close>

theorem ftl_operations_return:
  assumes "ftl_reach cap cfg c" and "geometry_ok cfg" and "length page = FLASH_PAGE_SIZE"
  shows "(\<exists>c'. WriteBlock c lba (Some page) = Some (lba < GetTotalLBAs c, c') \<and> GetTotalLBAs c' = GetTotalLBAs c) \<and>
         (\<exists>r d c'. ReadBlock c lba (Some page) = Some (r, d, c') \<and> length d = FLASH_PAGE_SIZE) \<and>
         (\<exists>c'. FlushStagedWrites c = Some c' \<and> staged_half c' = None)"
proof -
  have ok: "ftl_ok c"
    using ftl_reach_ok [OF assms(1,2)] by blast
  show ?thesis
    using WriteBlock_ok [OF ok, of "Some page" lba] ReadBlock_ok [OF ok assms(3), of lba] Flush_ok [OF ok] assms(3)
    by (auto simp: GetTotalLBAs_def kept_def)
qed

theorem ftl_operations_return_witness:
  "(\<exists>c'. WriteBlock (new_FTLController 65536 default_FlashConfig) 3 (Some (replicate FLASH_PAGE_SIZE 5)) =
        Some (3 < GetTotalLBAs (new_FTLController 65536 default_FlashConfig), c') \<and>
      GetTotalLBAs c' = GetTotalLBAs (new_FTLController 65536 default_FlashConfig)) \<and>
   (\<exists>r d c'. ReadBlock (new_FTLController 65536 default_FlashConfig) 3 (Some (replicate FLASH_PAGE_SIZE 5)) =
        Some (r, d, c') \<and> length d = FLASH_PAGE_SIZE) \<and>
   (\<exists>c'. FlushStagedWrites (new_FTLController 65536 default_FlashConfig) = Some c' \<and> staged_half c' = None)"
  by (rule ftl_operations_return [OF ftl_reach.start default_geometry]) (rule length_replicate)

end
