(* ===== verification/Ftl_Books.thy ===== *)
theory Ftl_Books
  imports Ftl_Invariant
begin

text \<open>
  What the flash translation layer stores for each logical block, and the bookkeeping that lets
  the garbage collection find it. A set of logical blocks whose entry is out of date, such as
  the block that is being written, is left out of both.
\<close>

section \<open>What an entry stands for\<close>

text \<open>A compressed block of at most half a page, at an offset of a buffer.\<close>

definition half_holds :: "byte list \<Rightarrow> nat \<Rightarrow> 16 word \<Rightarrow> byte list \<Rightarrow> bool" where
  "half_holds src off n page \<longleftrightarrow>
     length page = FLASH_PAGE_SIZE \<and> 0 < unat n \<and> unat n \<le> 2048 \<and> off + unat n \<le> length src \<and>
     legal_block (take (unat n) (drop off src)) page"

definition on_flash :: "MappingEntry \<Rightarrow> bool" where
  "on_flash e \<longleftrightarrow> m_state e = RAW_FULL_PAGE \<or> m_state e = COMPRESSED_HALF_PAGE"

definition slot_of :: "MappingEntry \<Rightarrow> nat" where
  "slot_of e = (if m_sub_slot e = 0 then 0 else 2048)"

text \<open>The entry stands for the page, given what the physical page it names holds.\<close>

definition stores :: "byte list option \<Rightarrow> MappingEntry \<Rightarrow> byte list \<Rightarrow> bool" where
  "stores cont e page \<longleftrightarrow>
     (if \<not> on_flash e then page = replicate FLASH_PAGE_SIZE 0
      else case cont of
          None \<Rightarrow> False
        | Some d \<Rightarrow> if m_state e = RAW_FULL_PAGE then d = page
                   else half_holds d (slot_of e) (m_compressed_size e) page)"

definition entry_stands :: "FlashModel \<Rightarrow> MappingEntry \<Rightarrow> byte list \<Rightarrow> bool" where
  "entry_stands f e page \<longleftrightarrow> stores (content f (unat (m_block_idx e)) (unat (m_page_idx e))) e page"

text \<open>Every block outside \<open>L\<close> stands for its page in \<open>M\<close>.\<close>

definition holds_data :: "nat set \<Rightarrow> FTLController \<Rightarrow> (nat \<Rightarrow> byte list) \<Rightarrow> bool" where
  "holds_data L c M \<longleftrightarrow>
     (\<forall>l < length (lba_table c). l \<notin> L \<longrightarrow> entry_stands (flash c) (lba_table c ! l) (M l))"

section \<open>The bookkeeping of the garbage collection\<close>

definition placed :: "FTLController \<Rightarrow> nat \<Rightarrow> nat \<Rightarrow> nat \<Rightarrow> bool" where
  "placed c l b p \<longleftrightarrow>
     l < length (lba_table c) \<and> on_flash (lba_table c ! l) \<and>
     unat (m_block_idx (lba_table c ! l)) = b \<and> unat (m_page_idx (lba_table c ! l)) = p"

definition owner_lbas :: "FTLController \<Rightarrow> nat \<Rightarrow> nat \<Rightarrow> nat set" where
  "owner_lbas c b p = o_lba ` set (block_page_owners c ! b ! p)"

text \<open>A valid page is programmed and lists exactly the blocks that are placed on it, a block is
  placed on a valid page, and a free page lists nothing.\<close>

definition books :: "nat set \<Rightarrow> FTLController \<Rightarrow> bool" where
  "books L c \<longleftrightarrow>
     (\<forall>b p. IsPageValid (flash c) b p \<longrightarrow>
        content (flash c) b p \<noteq> None \<and> (\<forall>l. l \<in> owner_lbas c b p \<longleftrightarrow> placed c l b p \<and> l \<notin> L)) \<and>
     (\<forall>l b p. placed c l b p \<and> l \<notin> L \<longrightarrow> IsPageValid (flash c) b p) \<and>
     (\<forall>b p. in_flash (flash c) b p \<and> content (flash c) b p = None \<longrightarrow> block_page_owners c ! b ! p = [])"

lemma booksD:
  assumes "books L c"
  shows "IsPageValid (flash c) b p \<Longrightarrow> content (flash c) b p \<noteq> None"
    and "IsPageValid (flash c) b p \<Longrightarrow> l \<in> owner_lbas c b p \<longleftrightarrow> placed c l b p \<and> l \<notin> L"
    and "placed c l b p \<Longrightarrow> l \<notin> L \<Longrightarrow> IsPageValid (flash c) b p"
    and "in_flash (flash c) b p \<Longrightarrow> content (flash c) b p = None \<Longrightarrow> block_page_owners c ! b ! p = []"
  using assms unfolding books_def by blast+

lemma booksI:
  assumes "\<And>b p. IsPageValid (flash c) b p \<Longrightarrow> content (flash c) b p \<noteq> None"
    and "\<And>b p l. IsPageValid (flash c) b p \<Longrightarrow> l \<in> owner_lbas c b p \<longleftrightarrow> placed c l b p \<and> l \<notin> L"
    and "\<And>l b p. placed c l b p \<Longrightarrow> l \<notin> L \<Longrightarrow> IsPageValid (flash c) b p"
    and "\<And>b p. in_flash (flash c) b p \<Longrightarrow> content (flash c) b p = None \<Longrightarrow> block_page_owners c ! b ! p = []"
  shows "books L c"
  using assms unfolding books_def by blast

text \<open>The data, and with \<open>k\<close> the bookkeeping as well.\<close>

definition tracks :: "bool \<Rightarrow> nat set \<Rightarrow> FTLController \<Rightarrow> (nat \<Rightarrow> byte list) \<Rightarrow> bool" where
  "tracks k L c M \<longleftrightarrow> holds_data L c M \<and> (k \<longrightarrow> books L c)"

lemma tracks_cong:
  assumes "flash c' = flash c" and "lba_table c' = lba_table c" and "block_page_owners c' = block_page_owners c"
  shows "tracks k L c' M = tracks k L c M"
  using assms by (simp add: tracks_def holds_data_def books_def placed_def owner_lbas_def)

text \<open>The free pages a write needs.\<close>

definition active_free :: "FTLController \<Rightarrow> bool" where
  "active_free c \<longleftrightarrow> (\<forall>p. active_page_idx c \<le> p \<longrightarrow> content (flash c) (active_block_idx c) p = None)"

definition reserve_ready :: "FTLController \<Rightarrow> bool" where
  "reserve_ready c \<longleftrightarrow> reserve_block_idx c \<noteq> active_block_idx c \<and>
     (\<forall>p. content (flash c) (reserve_block_idx c) p = None)"

section \<open>Steps on the active page\<close>

lemma entry_stands_mono:
  assumes "entry_stands f e page" and "\<And>b p d. content f b p = Some d \<Longrightarrow> content f' b p = Some d"
  shows "entry_stands f' e page"
  using assms by (auto simp: entry_stands_def stores_def split: option.splits if_splits)

lemma holds_data_mono:
  assumes "holds_data L c M" and "lba_table c' = lba_table c"
    and "\<And>b p d. content (flash c) b p = Some d \<Longrightarrow> content (flash c') b p = Some d"
  shows "holds_data L c' M"
  using assms entry_stands_mono unfolding holds_data_def by metis

text \<open>The active page has been programmed with \<open>buf\<close>, the ones behind it are free.\<close>

definition open_page :: "FTLController \<Rightarrow> byte list \<Rightarrow> bool" where
  "open_page c buf \<longleftrightarrow> has_room c \<and>
     content (flash c) (active_block_idx c) (active_page_idx c) = Some buf \<and>
     IsPageValid (flash c) (active_block_idx c) (active_page_idx c) \<and>
     (\<forall>p. active_page_idx c < p \<longrightarrow> content (flash c) (active_block_idx c) p = None)"

text \<open>The fields the assignments to the table and to the owners keep.\<close>

definition same_flash :: "FTLController \<Rightarrow> FTLController \<Rightarrow> bool" where
  "same_flash c c' \<longleftrightarrow> flash c' = flash c \<and> active_block_idx c' = active_block_idx c \<and>
     active_page_idx c' = active_page_idx c \<and> reserve_block_idx c' = reserve_block_idx c \<and>
     staged_half c' = staged_half c \<and> length (lba_table c') = length (lba_table c)"

lemma same_flash_open: "same_flash c c' \<Longrightarrow> open_page c' buf = open_page c buf"
  by (simp add: same_flash_def open_page_def has_room_def)

lemma same_flash_trans: "same_flash a b \<Longrightarrow> same_flash b c \<Longrightarrow> same_flash a c"
  by (simp add: same_flash_def)

lemma program_active_tracks:
  assumes run: "program_active buf c = Some c'" and ok: "ftl_ok c" and room: "has_room c" and free: "active_free c"
    and buf: "length buf = 4096" and tr: "tracks k L c M"
  shows "ftl_ok c'" and "open_page c' buf" and "tracks k L c' M"
    and "\<exists>f. c' = c\<lparr>flash := f\<rparr> \<and> config f = config (flash c) \<and>
      (\<forall>b. b \<noteq> active_block_idx c \<longrightarrow> content f b = content (flash c) b)"
proof -
  let ?a = "active_block_idx c" and ?q = "active_page_idx c"
  have inside: "in_flash (flash c) ?a ?q"
    by (rule active_inside [OF ok room])
  have empty: "content (flash c) ?a ?q = None"
    using free by (simp add: active_free_def)
  from nand.program_free [OF ftl_okD(1) [OF ok] inside empty buf] obtain f where
    f: "ProgramPage (flash c) ?a ?q (Some buf) = Some (True, f)" "flash_ok f" "in_flash f = in_flash (flash c)"
      "content f = (content (flash c))(?a := (content (flash c) ?a)(?q := Some buf))"
      "IsPageValid f = (IsPageValid (flash c))(?a := (IsPageValid (flash c) ?a)(?q := True))"
    by blast
  have c': "c' = c\<lparr>flash := f\<rparr>"
    using run f(1) by (simp add: program_active_def)
  note cfg = ProgramPage_config [OF f(1)]
  show "ftl_ok c'"
    unfolding c' by (rule ftl_ok_flash [OF ok f(2) cfg])
  show "\<exists>f. c' = c\<lparr>flash := f\<rparr> \<and> config f = config (flash c) \<and> (\<forall>b. b \<noteq> ?a \<longrightarrow> content f b = content (flash c) b)"
    using c' cfg f(4) by auto
  show "open_page c' buf"
    using room free f(4,5) cfg by (simp add: open_page_def c' has_room_def active_free_def geometry)
  have "holds_data L c' M"
    by (rule holds_data_mono [of L c]) (use tr empty in \<open>auto simp: tracks_def c' f(4)\<close>)
  moreover have "books L c'" if b: "books L c"
  proof (rule booksI)
    fix b p l
    have same: "owner_lbas c' = owner_lbas c" "placed c' = placed c"
      by (simp_all add: owner_lbas_def placed_def c' fun_eq_iff)
    have none: "\<not> (placed c l ?a ?q \<and> l \<notin> L)" "owner_lbas c ?a ?q = {}"
      using booksD(1) [OF b, of ?a ?q] booksD(3) [OF b, of l ?a ?q] booksD(4) [OF b inside empty] empty
      by (auto simp: owner_lbas_def)
    show "IsPageValid (flash c') b p \<Longrightarrow> content (flash c') b p \<noteq> None"
      using booksD(1) [OF b] by (auto simp: c' f(4,5) split: if_splits)
    show "IsPageValid (flash c') b p \<Longrightarrow> l \<in> owner_lbas c' b p \<longleftrightarrow> placed c' l b p \<and> l \<notin> L"
      using booksD(2) [OF b, of b p l] none unfolding same by (auto simp: c' f(5) split: if_splits)
    show "placed c' l b p \<Longrightarrow> l \<notin> L \<Longrightarrow> IsPageValid (flash c') b p"
      using booksD(3) [OF b, of l b p] unfolding same by (auto simp: c' f(5))
    show "in_flash (flash c') b p \<Longrightarrow> content (flash c') b p = None \<Longrightarrow> block_page_owners c' ! b ! p = []"
      using booksD(4) [OF b, of b p] by (auto simp: c' f(3,4) split: if_splits)
  qed
  ultimately show "tracks k L c' M"
    using tr by (simp add: tracks_def)
qed

lemma map_active_tracks:
  assumes run: "map_active lba st sub n c = Some c'" and ok: "ftl_ok c" and "has_room c"
    and n: "st = COMPRESSED_HALF_PAGE \<longrightarrow> unat n \<le> 2048" and on: "st = RAW_FULL_PAGE \<or> st = COMPRESSED_HALF_PAGE"
    and lba: "lba < length (lba_table c)" "lba \<in> L" and tr: "tracks k L c M"
  shows "ftl_ok c'" and "same_flash c c'" and "tracks k L c' M"
    and "\<exists>e. lba_table c' = (lba_table c)[lba := e] \<and> m_state e = st \<and> m_sub_slot e = sub \<and>
      m_compressed_size e = n \<and> unat (m_block_idx e) = active_block_idx c \<and> unat (m_page_idx e) = active_page_idx c"
proof -
  let ?e = "(lba_table c ! lba)\<lparr>m_state := st, m_block_idx := of_nat (active_block_idx c),
      m_page_idx := of_nat (active_page_idx c), m_sub_slot := sub, m_compressed_size := n\<rparr>"
  from map_active_ok [OF ok assms(3) lba(1) n, of sub] run
  have c': "c' = c\<lparr>lba_table := (lba_table c)[lba := ?e]\<rparr>" and ok': "ftl_ok c'"
    by auto
  show "ftl_ok c'" by (rule ok')
  show "same_flash c c'"
    by (simp add: same_flash_def c')
  show "\<exists>e. lba_table c' = (lba_table c)[lba := e] \<and> m_state e = st \<and> m_sub_slot e = sub \<and>
      m_compressed_size e = n \<and> unat (m_block_idx e) = active_block_idx c \<and> unat (m_page_idx e) = active_page_idx c"
    using active_words [OF ok assms(3)] by (intro exI [of _ ?e]) (simp add: c')
  have "holds_data L c' M"
    using tr lba by (auto simp: tracks_def holds_data_def c' nth_list_update)
  moreover have "books L c'" if b: "books L c"
  proof (rule booksI)
    fix b p l
    have same: "owner_lbas c' = owner_lbas c" "placed c' l b p \<and> l \<notin> L \<longleftrightarrow> placed c l b p \<and> l \<notin> L"
      using lba by (auto simp: owner_lbas_def placed_def c' fun_eq_iff nth_list_update)
    show "IsPageValid (flash c') b p \<Longrightarrow> content (flash c') b p \<noteq> None"
      using booksD(1) [OF b] by (auto simp: c')
    show "IsPageValid (flash c') b p \<Longrightarrow> l \<in> owner_lbas c' b p \<longleftrightarrow> placed c' l b p \<and> l \<notin> L"
      using booksD(2) [OF b] unfolding same by (simp add: c')
    show "placed c' l b p \<Longrightarrow> l \<notin> L \<Longrightarrow> IsPageValid (flash c') b p"
      using booksD(3) [OF b] same(2) by (simp add: c')
    show "in_flash (flash c') b p \<Longrightarrow> content (flash c') b p = None \<Longrightarrow> block_page_owners c' ! b ! p = []"
      using booksD(4) [OF b] by (simp add: c')
  qed
  ultimately show "tracks k L c' M"
    using tr by (simp add: tracks_def)
qed

text \<open>Listing the owner completes the placement of a block: it is in the books from then on.\<close>

lemma push_owner_tracks:
  assumes run: "push_owner lba sub c = Some c'" and ok: "ftl_ok c" and op: "open_page c buf"
    and at: "placed c lba (active_block_idx c) (active_page_idx c)" and lba: "lba \<in> L"
    and st: "entry_stands (flash c) (lba_table c ! lba) (M lba)" and tr: "tracks k L c M"
  shows "ftl_ok c'" and "same_flash c c'" and "lba_table c' = lba_table c" and "tracks k (L - {lba}) c' M"
proof -
  let ?a = "active_block_idx c" and ?q = "active_page_idx c"
  have room: "has_room c"
    using op by (simp add: open_page_def)
  from push_owner_ok [OF ok room, of lba sub] run
  have c': "c' = c\<lparr>block_page_owners := (block_page_owners c)[?a := (block_page_owners c ! ?a)
      [?q := block_page_owners c ! ?a ! ?q @ [\<lparr>o_lba = lba, o_sub_slot = sub\<rparr>]]]\<rparr>"
    and ok': "ftl_ok c'"
    by auto
  show "ftl_ok c'" by (rule ok')
  show "same_flash c c'" "lba_table c' = lba_table c"
    by (simp_all add: same_flash_def c')
  have "holds_data (L - {lba}) c' M"
    using tr st by (auto simp: tracks_def holds_data_def c')
  moreover have "books (L - {lba}) c'" if b: "books L c"
  proof (rule booksI)
    fix b p l
    have len: "?a < length (block_page_owners c)" "?q < length (block_page_owners c ! ?a)"
      using active_inside [OF ok room] ftl_okD(3) [OF ok] ftl_ok_row [OF ok, of ?a] by (simp_all add: geometry)
    have same: "placed c' = placed c" "flash c' = flash c"
      by (simp_all add: placed_def c' fun_eq_iff)
    have owners: "owner_lbas c' b p = (if b = ?a \<and> p = ?q then insert lba (owner_lbas c b p) else owner_lbas c b p)"
      using len by (auto simp: owner_lbas_def c' nth_list_update)
    have uniq: "placed c lba b p \<Longrightarrow> b = ?a \<and> p = ?q"
      using at by (simp add: placed_def)
    show "IsPageValid (flash c') b p \<Longrightarrow> content (flash c') b p \<noteq> None"
      using booksD(1) [OF b] by (simp add: same)
    show "IsPageValid (flash c') b p \<Longrightarrow> l \<in> owner_lbas c' b p \<longleftrightarrow> placed c' l b p \<and> l \<notin> L - {lba}"
    proof -
      assume "IsPageValid (flash c') b p"
      then have *: "l \<in> owner_lbas c b p \<longleftrightarrow> placed c l b p \<and> l \<notin> L"
        using booksD(2) [OF b] by (simp add: same)
      show ?thesis
      proof (cases "b = ?a \<and> p = ?q")
        case True
        with * at lba show ?thesis
          unfolding owners same by (cases "l = lba") simp_all
      next
        case False
        then have "\<not> placed c lba b p"
          using uniq by blast
        with * lba show ?thesis
          unfolding owners same if_not_P [OF False] by (cases "l = lba") simp_all
      qed
    qed
    show "placed c' l b p \<Longrightarrow> l \<notin> L - {lba} \<Longrightarrow> IsPageValid (flash c') b p"
      using booksD(3) [OF b, of l b p] op uniq unfolding same by (cases "l = lba") (auto simp: open_page_def)
    show "in_flash (flash c') b p \<Longrightarrow> content (flash c') b p = None \<Longrightarrow> block_page_owners c' ! b ! p = []"
      using booksD(4) [OF b, of b p] op len unfolding same by (auto simp: open_page_def c' nth_list_update)
  qed
  ultimately show "tracks k (L - {lba}) c' M"
    using tr by (simp add: tracks_def)
qed

end
