(* ===== verification/Ftl_Collect.thy ===== *)
theory Ftl_Collect
  imports Ftl_Books
begin

text \<open>
  The garbage collection moves data without changing what a logical block stands for, as long as
  the reserve block is erased: page by page, the data and the books stay true, and when the victim
  is erased nothing is placed on it any more.
\<close>

section \<open>One page\<close>

lemma fold_repoint_length: "length (fold (repoint b p) ws tab) = length tab"
  by (induction ws arbitrary: tab) (simp_all add: repoint_def)

lemma fold_repoint:
  assumes "l < length tab"
  shows "fold (repoint b p) ws tab ! l =
    (if l \<in> o_lba ` set ws then (tab ! l)\<lparr>m_block_idx := of_nat b, m_page_idx := of_nat p\<rparr> else tab ! l)"
  using assms
proof (induction ws arbitrary: tab)
  case (Cons w ws)
  have "length (repoint b p w tab) = length tab"
    by (simp add: repoint_def)
  with Cons.IH [of "repoint b p w tab"] Cons.prems show ?case
    by (auto simp: repoint_def nth_list_update)
qed simp

text \<open>The reserve block is free from page \<open>w\<close> on.\<close>

definition reserve_free :: "FTLController \<Rightarrow> nat \<Rightarrow> bool" where
  "reserve_free c w \<longleftrightarrow> (\<forall>p. w \<le> p \<longrightarrow> content (flash c) (reserve_block_idx c) p = None)"

text \<open>The state after the steps of \<open>gc_page\<close> on a valid page.\<close>

definition moved :: "nat \<Rightarrow> nat \<Rightarrow> nat \<Rightarrow> FTLController \<Rightarrow> FTLController \<Rightarrow> bool" where
  "moved v p w c c' \<longleftrightarrow>
     (\<exists>d. content (flash c) v p = Some d \<and>
        content (flash c') = (content (flash c))(reserve_block_idx c :=
          (content (flash c) (reserve_block_idx c))(w := Some d))) \<and>
     IsPageValid (flash c') = (IsPageValid (flash c))(reserve_block_idx c :=
       (IsPageValid (flash c) (reserve_block_idx c))(w := True)) \<and>
     lba_table c' = fold (repoint (reserve_block_idx c) w) (block_page_owners c ! v ! p) (lba_table c) \<and>
     block_page_owners c' = (let os = (block_page_owners c)[v := (block_page_owners c ! v)[p := []]]
       in os[reserve_block_idx c := (os ! reserve_block_idx c)[w := block_page_owners c ! v ! p]])"

lemma gc_page_moved:
  assumes run: "gc_page v p (c, w) = Some (c', w')" and ok: "ftl_ok c"
    and v: "v < GetTotalBlocks (flash c)" and p: "p < GetPagesPerBlock (flash c)" and w: "w \<le> p"
    and valid: "IsPageValid (flash c) v p" and d: "content (flash c) v p = Some d"
    and free: "content (flash c) (reserve_block_idx c) w = None"
  shows "moved v p w c c' \<and> w' = Suc w"
proof -
  let ?r = "reserve_block_idx c"
  have vin: "in_flash (flash c) v p" and rin: "in_flash (flash c) ?r w"
    using v p w ftl_okD(5) [OF ok] by (simp_all add: geometry)
  from nand.read_inside [OF ftl_okD(1) [OF ok] vin, of "replicate FLASH_PAGE_SIZE 0"] d obtain f1 where
    read: "ReadPage (flash c) v p (Some (replicate FLASH_PAGE_SIZE 0)) = Some (True, d, f1)"
    and f1: "flash_ok f1" "in_flash f1 = in_flash (flash c)" "content f1 = content (flash c)"
      "IsPageValid f1 = IsPageValid (flash c)"
    by auto
  have len: "length d = 4096"
    using nand.holds_page [OF ftl_okD(1) [OF ok] d] by blast
  from nand.program_free [OF f1(1) _ _ len, of ?r w] rin free f1 obtain f2 where
    prog: "ProgramPage f1 ?r w (Some d) = Some (True, f2)"
    and f2: "content f2 = (content (flash c))(?r := (content (flash c) ?r)(w := Some d))"
      "IsPageValid f2 = (IsPageValid (flash c))(?r := (IsPageValid (flash c) ?r)(w := True))"
    by auto
  have lens: "v < length (block_page_owners c)" "?r < length (block_page_owners c)"
    "p < length (block_page_owners c ! v)" "w < length (block_page_owners c ! ?r)"
    using v p w ftl_okD(3,5) [OF ok] ftl_ok_row [OF ok] by simp_all
  then show ?thesis
    using run valid read prog d f2
    by (auto simp: gc_page_def Let_def set_owners_def moved_def nth_list_update split: if_splits)
qed

lemma owners_moved:
  assumes m: "moved v p w c c'" and ok: "ftl_ok c" and v: "v < GetTotalBlocks (flash c)"
    and p: "p < GetPagesPerBlock (flash c)" and w: "w \<le> p" and vr: "v \<noteq> reserve_block_idx c"
  shows "block_page_owners c' ! b ! q =
    (if b = v \<and> q = p then [] else if b = reserve_block_idx c \<and> q = w then block_page_owners c ! v ! p
     else block_page_owners c ! b ! q)"
proof -
  have "v < length (block_page_owners c)" "reserve_block_idx c < length (block_page_owners c)"
    "p < length (block_page_owners c ! v)" "w < length (block_page_owners c ! reserve_block_idx c)"
    using v p w ftl_okD(3,5) [OF ok] ftl_ok_row [OF ok] by simp_all
  with m vr show ?thesis
    by (auto simp: moved_def Let_def nth_list_update)
qed

lemma table_moved:
  assumes m: "moved v p w c c'" and ok: "ftl_ok c" and p: "p < GetPagesPerBlock (flash c)" and w: "w \<le> p"
  shows "length (lba_table c') = length (lba_table c)"
    and "placed c' l b q \<longleftrightarrow>
      (if l \<in> owner_lbas c v p
       then l < length (lba_table c) \<and> on_flash (lba_table c ! l) \<and> b = reserve_block_idx c \<and> q = w
       else placed c l b q)"
    and "l < length (lba_table c) \<Longrightarrow> l \<notin> owner_lbas c v p \<Longrightarrow> lba_table c' ! l = lba_table c ! l"
    and "l < length (lba_table c) \<Longrightarrow> l \<in> owner_lbas c v p \<Longrightarrow>
      entry_stands f (lba_table c' ! l) page \<longleftrightarrow> stores (content f (reserve_block_idx c) w) (lba_table c ! l) page"
proof -
  let ?r = "reserve_block_idx c" and ?os = "block_page_owners c ! v ! p"
  have words: "unat (of_nat ?r :: 32 word) = ?r" "unat (of_nat w :: 32 word) = w"
    using ftl_okD(5,9,11) [OF ok] p w by (simp_all add: unsigned_of_nat take_bit_nat_eq_self)
  have tab: "lba_table c' = fold (repoint ?r w) ?os (lba_table c)"
    using m by (simp add: moved_def)
  show len: "length (lba_table c') = length (lba_table c)"
    unfolding tab by (rule fold_repoint_length)
  have nth: "l < length (lba_table c) \<Longrightarrow> lba_table c' ! l = (if l \<in> owner_lbas c v p
      then (lba_table c ! l)\<lparr>m_block_idx := of_nat ?r, m_page_idx := of_nat w\<rparr> else lba_table c ! l)"
    unfolding tab owner_lbas_def by (rule fold_repoint)
  show "placed c' l b q \<longleftrightarrow> (if l \<in> owner_lbas c v p
      then l < length (lba_table c) \<and> on_flash (lba_table c ! l) \<and> b = ?r \<and> q = w else placed c l b q)"
    unfolding placed_def len using nth words by (auto simp: on_flash_def)
  show "l < length (lba_table c) \<Longrightarrow> l \<notin> owner_lbas c v p \<Longrightarrow> lba_table c' ! l = lba_table c ! l"
    using nth by simp
  show "l < length (lba_table c) \<Longrightarrow> l \<in> owner_lbas c v p \<Longrightarrow>
      entry_stands f (lba_table c' ! l) page \<longleftrightarrow> stores (content f ?r w) (lba_table c ! l) page"
    using nth words by (simp add: entry_stands_def stores_def on_flash_def slot_of_def cong: option.case_cong if_cong)
qed


text \<open>Collecting one page: the books hold again afterwards, and the page lists no owner any more.\<close>

lemma gc_page_tracks:
  assumes run: "gc_page v p (c, w) = Some (c', w')" and ok: "ftl_ok c"
    and v: "v < GetTotalBlocks (flash c)" and p: "p < GetPagesPerBlock (flash c)" and w: "w \<le> p"
    and vr: "v \<noteq> reserve_block_idx c" and b: "books L c" and dat: "holds_data L c M" and free: "reserve_free c w"
  shows "books L c' \<and> holds_data L c' M \<and> reserve_free c' w' \<and>
    (\<forall>q. block_page_owners c' ! v ! q = (if q = p then [] else block_page_owners c ! v ! q))"
proof (cases "IsPageValid (flash c) v p")
  case False
  let ?os = "(block_page_owners c)[v := (block_page_owners c ! v)[p := []]]"
  have lens: "v < length (block_page_owners c)" "p < length (block_page_owners c ! v)"
    using v p ftl_okD(3) [OF ok] ftl_ok_row [OF ok] by simp_all
  have c': "c' = c\<lparr>block_page_owners := ?os\<rparr>" "w' = w"
    using run False lens by (simp_all add: gc_page_def set_owners_def Let_def)
  have owners: "block_page_owners c' ! x ! q = (if x = v \<and> q = p then [] else block_page_owners c ! x ! q)" for x q
    using lens by (simp add: c' nth_list_update)
  have same: "flash c' = flash c" "placed c' = placed c" "lba_table c' = lba_table c"
    by (simp_all add: c' placed_def fun_eq_iff)
  have olbas: "owner_lbas c' x q = (if x = v \<and> q = p then {} else owner_lbas c x q)" for x q
    by (simp add: owner_lbas_def owners)
  have "books L c'"
  proof (rule booksI)
    fix x q l
    show "IsPageValid (flash c') x q \<Longrightarrow> content (flash c') x q \<noteq> None"
      using booksD(1) [OF b] by (simp add: same)
    show "IsPageValid (flash c') x q \<Longrightarrow> l \<in> owner_lbas c' x q \<longleftrightarrow> placed c' l x q \<and> l \<notin> L"
      using booksD(2) [OF b, of x q l] False by (auto simp: same olbas)
    show "placed c' l x q \<Longrightarrow> l \<notin> L \<Longrightarrow> IsPageValid (flash c') x q"
      using booksD(3) [OF b, of l x q] by (simp add: same)
    show "in_flash (flash c') x q \<Longrightarrow> content (flash c') x q = None \<Longrightarrow> block_page_owners c' ! x ! q = []"
      using booksD(4) [OF b, of x q] by (simp add: same owners)
  qed
  moreover have "holds_data L c' M" "reserve_free c' w'"
    using dat free by (simp_all add: holds_data_def reserve_free_def c')
  ultimately show ?thesis
    using owners by simp
next
  case True
  let ?r = "reserve_block_idx c" and ?S = "owner_lbas c v p"
  from booksD(1) [OF b True] obtain d where d: "content (flash c) v p = Some d"
    by blast
  have empty: "content (flash c) ?r w = None"
    using free by (simp add: reserve_free_def)
  from gc_page_moved [OF run ok v p w True d empty] have m: "moved v p w c c'" and w': "w' = Suc w"
    by simp_all
  have r': "reserve_block_idx c' = ?r" and cfg: "in_flash (flash c') = in_flash (flash c)"
    using gc_page_ok [OF ok v p w] run kept_geometry by (auto simp: gc_kept_def)
  have cont: "content (flash c') = (content (flash c))(?r := (content (flash c) ?r)(w := Some d))"
    and val: "IsPageValid (flash c') = (IsPageValid (flash c))(?r := (IsPageValid (flash c) ?r)(w := True))"
    using m d by (auto simp: moved_def)
  note owners = owners_moved [OF m ok v p w vr] and tab = table_moved [OF m ok p w]
  have olbas: "owner_lbas c' x q = (if x = v \<and> q = p then {} else if x = ?r \<and> q = w then ?S else owner_lbas c x q)" for x q
    using vr by (auto simp: owner_lbas_def owners)
  have S: "l \<in> ?S \<longleftrightarrow> placed c l v p \<and> l \<notin> L" for l
    by (rule booksD(2) [OF b True])
  have free_r: "\<not> (placed c l ?r w \<and> l \<notin> L)" for l
    using booksD(3) [OF b, of l ?r w] booksD(1) [OF b, of ?r w] empty by blast
  have "books L c'"
  proof (rule booksI)
    fix x q l
    show "IsPageValid (flash c') x q \<Longrightarrow> content (flash c') x q \<noteq> None"
      using booksD(1) [OF b, of x q] by (auto simp: val cont split: if_splits)
    show "IsPageValid (flash c') x q \<Longrightarrow> l \<in> owner_lbas c' x q \<longleftrightarrow> placed c' l x q \<and> l \<notin> L"
    proof (cases "l \<in> ?S")
      case True
      assume "IsPageValid (flash c') x q"
      with booksD(2) [OF b, of x q l] show ?thesis
        using S [of l] True vr unfolding olbas tab(2)
        by (auto simp: placed_def val split: if_splits)
    next
      case False
      assume "IsPageValid (flash c') x q"
      with booksD(2) [OF b, of x q l] show ?thesis
        using S [of l] False free_r [of l] unfolding olbas tab(2)
        by (auto simp: val split: if_splits)
    qed
    show "placed c' l x q \<Longrightarrow> l \<notin> L \<Longrightarrow> IsPageValid (flash c') x q"
      using booksD(3) [OF b, of l x q] unfolding tab(2) by (auto simp: val split: if_splits)
    show "in_flash (flash c') x q \<Longrightarrow> content (flash c') x q = None \<Longrightarrow> block_page_owners c' ! x ! q = []"
      using booksD(4) [OF b, of x q] unfolding cfg owners by (auto simp: cont split: if_splits)
  qed
  moreover have "holds_data L c' M"
    unfolding holds_data_def tab(1)
  proof (intro allI impI)
    fix l assume l: "l < length (lba_table c)" "l \<notin> L"
    with dat have e: "entry_stands (flash c) (lba_table c ! l) (M l)"
      by (simp add: holds_data_def)
    show "entry_stands (flash c') (lba_table c' ! l) (M l)"
    proof (cases "l \<in> ?S")
      case True
      with S have "unat (m_block_idx (lba_table c ! l)) = v" "unat (m_page_idx (lba_table c ! l)) = p"
        by (simp_all add: placed_def)
      with e d show ?thesis
        unfolding tab(4) [OF l(1) True] by (simp add: entry_stands_def cont)
    next
      case False
      show ?thesis
        unfolding tab(3) [OF l(1) False] by (rule entry_stands_mono [OF e]) (use empty in \<open>auto simp: cont\<close>)
    qed
  qed
  moreover have "reserve_free c' w'"
    using free by (auto simp: reserve_free_def r' cont w')
  ultimately show ?thesis
    using vr by (simp add: owners)
qed

section \<open>The whole victim\<close>

lemma gc_pages_tracks:
  assumes "gc_pages v [n..<k] (c, w) = Some (c', w')" and "ftl_ok c" and "v < GetTotalBlocks (flash c)"
    and "w \<le> n" and "k = GetPagesPerBlock (flash c)" and "n \<le> k" and "v \<noteq> reserve_block_idx c"
    and "books L c" and "holds_data L c M" and "reserve_free c w"
    and "\<forall>q < n. block_page_owners c ! v ! q = []"
  shows "books L c' \<and> holds_data L c' M \<and> (\<forall>q < k. block_page_owners c' ! v ! q = [])"
  using assms
proof (induction "k - n" arbitrary: n c w)
  case 0
  then show ?case
    by simp
next
  case (Suc m)
  then have n: "n < GetPagesPerBlock (flash c)" "[n..<k] = n # [Suc n..<k]"
    by (simp_all add: upt_rec)
  from Suc.prems(1) obtain c1 w1 where
    c1: "gc_page v n (c, w) = Some (c1, w1)" and rest: "gc_pages v [Suc n..<k] (c1, w1) = Some (c', w')"
    unfolding n(2) by (auto split: bind_splits)
  from gc_page_ok [OF Suc.prems(2,3) n(1) Suc.prems(4)] c1 have
    ok1: "ftl_ok c1" "gc_kept c c1" "w1 \<le> Suc n"
    by auto
  have geo: "GetTotalBlocks (flash c1) = GetTotalBlocks (flash c)" "GetPagesPerBlock (flash c1) = GetPagesPerBlock (flash c)"
    "reserve_block_idx c1 = reserve_block_idx c"
    using kept_geometry [of c c1] ok1(2) by (simp_all add: gc_kept_def)
  note step = gc_page_tracks [OF c1 Suc.prems(2,3) n(1) Suc.prems(4,7,8,9,10)]
  show ?case
    by (rule Suc.hyps(1) [OF _ rest]) (use Suc.hyps(2) Suc.prems ok1 geo step in \<open>auto simp: less_Suc_eq\<close>)
qed

lemma next_reserve_tracks:
  assumes "next_reserve c = Some c'"
  shows "flash c' = flash c" "lba_table c' = lba_table c" "block_page_owners c' = block_page_owners c"
    "active_block_idx c' = active_block_idx c" "active_page_idx c' = active_page_idx c" "staged_half c' = staged_half c"
  using assms by (auto simp: next_reserve_def split: if_splits)

text \<open>Once no block is placed on the victim, erasing it loses nothing.\<close>

lemma gc_finish_tracks:
  assumes run: "gc_finish v c = Some c'" and ok: "ftl_ok c" and v: "v < GetTotalBlocks (flash c)"
    and b: "books L c" and dat: "holds_data L c M"
    and none: "\<forall>q < GetPagesPerBlock (flash c). block_page_owners c ! v ! q = []"
  shows "books L c' \<and> holds_data L c' M \<and> active_free c' \<and> active_page_idx c' = 0"
proof -
  have vin: "in_flash (flash c) v 0"
    using v ftl_okD(10) [OF ok] by (simp add: geometry)
  from nand.erase_inside [OF ftl_okD(1) [OF ok] vin] obtain f where
    erase: "EraseBlock (flash c) v = Some (True, f)" and f: "in_flash f = in_flash (flash c)"
      "content f = (content (flash c))(v := \<lambda>_. None)" "IsPageValid f = (IsPageValid (flash c))(v := \<lambda>_. False)"
    by blast
  have geo: "GetPagesPerBlock f = GetPagesPerBlock (flash c)"
    using EraseBlock_config [OF erase] by (simp add: geometry)
  let ?os = "(block_page_owners c)[v := replicate (GetPagesPerBlock f) []]"
  have vl: "v < length (block_page_owners c)"
    using v ftl_okD(3) [OF ok] by simp
  obtain c1 where c1: "next_reserve (c\<lparr>flash := f, block_page_owners := ?os, active_block_idx := v, active_page_idx := 0\<rparr>) = Some c1"
    and c2: "(if reserve_block_idx c1 = active_block_idx c1 then next_reserve c1 else Some c1) = Some c'"
    using run erase vl by (auto simp: gc_finish_def Let_def split: bind_splits)
  note n1 = next_reserve_tracks [OF c1]
  have flds: "flash c' = f" "lba_table c' = lba_table c" "block_page_owners c' = ?os" "active_block_idx c' = v"
    "active_page_idx c' = 0"
    using c2 n1 next_reserve_tracks [of c1 c'] by (auto split: if_splits)
  have placed: "placed c' = placed c"
    by (simp add: placed_def fun_eq_iff flds)
  have pin: "IsPageValid (flash c) v q \<Longrightarrow> q < GetPagesPerBlock (flash c)" for q
    by (auto simp: IsPageValid_def GetPagesPerBlock_def split: if_splits)
  have gone: "\<not> (placed c l v q \<and> l \<notin> L)" for l q
    using booksD(3) [OF b, of l v q] booksD(2) [OF b, of v q l] none pin [of q] by (auto simp: owner_lbas_def)
  have olbas: "x \<noteq> v \<Longrightarrow> owner_lbas c' x q = owner_lbas c x q" for x q
    by (simp add: owner_lbas_def flds)
  have "books L c'"
  proof (rule booksI)
    fix x q l
    show "IsPageValid (flash c') x q \<Longrightarrow> content (flash c') x q \<noteq> None"
      using booksD(1) [OF b, of x q] by (auto simp: flds f split: if_splits)
    show "IsPageValid (flash c') x q \<Longrightarrow> l \<in> owner_lbas c' x q \<longleftrightarrow> placed c' l x q \<and> l \<notin> L"
      using booksD(2) [OF b, of x q l] olbas [of x q] by (auto simp: flds f placed split: if_splits)
    show "placed c' l x q \<Longrightarrow> l \<notin> L \<Longrightarrow> IsPageValid (flash c') x q"
      using booksD(3) [OF b, of l x q] gone [of l q] by (auto simp: flds f placed)
    show "in_flash (flash c') x q \<Longrightarrow> content (flash c') x q = None \<Longrightarrow> block_page_owners c' ! x ! q = []"
      using booksD(4) [OF b, of x q] vl geo by (auto simp: flds f nth_list_update in_flash_def geometry split: if_splits)
  qed
  moreover have "holds_data L c' M"
    unfolding holds_data_def flds
  proof (intro allI impI)
    fix l assume l: "l < length (lba_table c)" "l \<notin> L"
    let ?e = "lba_table c ! l"
    have "entry_stands (flash c) ?e (M l)"
      using dat l by (simp add: holds_data_def)
    moreover have "on_flash ?e \<longrightarrow> unat (m_block_idx ?e) \<noteq> v"
      using gone [of l "unat (m_page_idx ?e)"] l by (auto simp: placed_def)
    ultimately show "entry_stands f ?e (M l)"
      by (auto simp: entry_stands_def stores_def f)
  qed
  ultimately show ?thesis
    by (simp add: active_free_def flds f)
qed

section \<open>Making room\<close>

lemma RunGarbageCollection_tracks:
  assumes run: "RunGarbageCollectionIfNeeded c = Some c'" and ok: "ftl_ok c" and full: "\<not> has_room c"
    and b: "books L c" and dat: "holds_data L c M" and res: "reserve_ready c"
  shows "books L c' \<and> holds_data L c' M \<and> active_free c' \<and> active_page_idx c' = 0"
proof -
  obtain v k where vk: "gc_victim c [0..<GetTotalBlocks (flash c)] (0, 0) = (v, k)"
    by force
  have v: "v < GetTotalBlocks (flash c)" and vr: "k \<noteq> 0 \<Longrightarrow> v \<noteq> reserve_block_idx c"
    using gc_victim_bound [OF vk] ftl_okD(8) [OF ok] by auto
  show ?thesis
  proof (cases "k = 0")
    case True
    let ?c1 = "c\<lparr>active_block_idx := reserve_block_idx c, active_page_idx := 0\<rparr>"
    have "next_reserve ?c1 = Some c'"
      using run full vk True by (simp add: RunGarbageCollectionIfNeeded_def has_room_def)
    from next_reserve_tracks [OF this] tracks_cong [of c' c True L M] b dat res show ?thesis
      by (simp add: tracks_def active_free_def reserve_ready_def)
  next
    case False
    let ?c1 = "c\<lparr>gc_count := gc_count c + 1\<rparr>" and ?n = "GetPagesPerBlock (flash c)"
    obtain c2 w where c2: "gc_pages v [0..<?n] (?c1, 0) = Some (c2, w)" and fin: "gc_finish v c2 = Some c'"
      using run full vk False by (auto simp: RunGarbageCollectionIfNeeded_def has_room_def split: bind_splits)
    have ok1: "ftl_ok ?c1"
      using ok by (simp add: ftl_ok_def staged_ok_def cong: option.case_cong)
    from gc_pages_ok [OF ok1, of v 0 0 ?n] v c2 have ok2: "ftl_ok c2" "gc_kept ?c1 c2"
      by auto
    have geo: "GetTotalBlocks (flash c2) = GetTotalBlocks (flash c)" "GetPagesPerBlock (flash c2) = ?n"
      using kept_geometry [of ?c1 c2] ok2(2) by (simp_all add: gc_kept_def)
    have "books L ?c1" "holds_data L ?c1 M" "reserve_free ?c1 0"
      using tracks_cong [of ?c1 c True L M] b dat res by (simp_all add: tracks_def reserve_free_def reserve_ready_def)
    with gc_pages_tracks [OF c2 ok1, of L M] v vr [OF False] have
      "books L c2" "holds_data L c2 M" "\<forall>q < ?n. block_page_owners c2 ! v ! q = []"
      by simp_all
    from gc_finish_tracks [OF fin ok2(1) _ this(1,2)] this(3) v geo show ?thesis
      by simp
  qed
qed

lemma make_room_tracks:
  assumes run: "make_room c = Some c'" and ok: "ftl_ok c" and free: "active_free c"
    and tr: "tracks k L c M" and room: "has_room c \<or> k \<and> reserve_ready c"
  shows "ftl_ok c'" and "kept c c'" and "has_room c'" and "staged_half c' = staged_half c"
    and "tracks k L c' M" and "active_free c'"
    and "has_room c \<Longrightarrow> c' = c" and "\<not> has_room c \<Longrightarrow> active_page_idx c' = 0"
proof -
  from make_room_ok [OF ok] run show "ftl_ok c'" "kept c c'" "has_room c'" "staged_half c' = staged_half c"
    by simp_all
  show id: "has_room c \<Longrightarrow> c' = c"
    using make_room_id [of c] run by simp
  have gc: "books L c' \<and> holds_data L c' M \<and> active_free c' \<and> active_page_idx c' = 0" if "\<not> has_room c"
    using RunGarbageCollection_tracks [OF _ ok that, of c' L M] run room tr that
    by (simp add: make_room_def has_room_def tracks_def)
  then show "\<not> has_room c \<Longrightarrow> active_page_idx c' = 0"
    by blast
  show "tracks k L c' M" "active_free c'"
    using gc id tr free by (cases "has_room c"; simp add: tracks_def)+
qed

end
