(* ===== verification/Ftl_Reads.thy ===== *)
theory Ftl_Reads
  imports Ftl_Collect Ftl_Props
begin

text \<open>
  What the host sees: the flash translation layer as a map from logical blocks to pages. A read
  returns the page of the map, a write changes it at one place, flushing and garbage collection
  leave it as it is.
\<close>

section \<open>The map\<close>

definition staged_set :: "FTLController \<Rightarrow> nat set" where
  "staged_set c = (case staged_half c of None \<Rightarrow> {} | Some st \<Rightarrow> {st_lba st})"

definition staged_stands :: "FTLController \<Rightarrow> (nat \<Rightarrow> byte list) \<Rightarrow> bool" where
  "staged_stands c M \<longleftrightarrow>
     (\<forall>st. staged_half c = Some st \<longrightarrow> half_holds (st_data st) 0 (st_comp_size st) (M (st_lba st)))"

text \<open>The controller stands for the map \<open>M\<close>; with \<open>k\<close> its books are in order as well.\<close>

definition represents :: "bool \<Rightarrow> FTLController \<Rightarrow> (nat \<Rightarrow> byte list) \<Rightarrow> bool" where
  "represents k c M \<longleftrightarrow> tracks k (staged_set c) c M \<and> staged_stands c M"

section \<open>Reading\<close>

lemma half_holds_prefix:
  "half_holds d 0 n page \<Longrightarrow> length d = 2048 \<Longrightarrow> half_holds (d @ e) 0 n page"
  by (simp add: half_holds_def)

lemma read_half_holds:
  assumes "half_holds src off n page" and "length dest = FLASH_PAGE_SIZE"
  shows "read_half src off n dest = Some (True, page)"
proof -
  let ?d = "take (unat n) (drop off src) @ drop (unat n) (replicate FLASH_PAGE_SIZE 0)"
  let ?b = "new_CompressedBlock\<lparr>is_compressed := True, compressed_size := n, data := ?d\<rparr>"
  have h: "length page = FLASH_PAGE_SIZE" "0 < unat n" "unat n \<le> 2048" "off + unat n \<le> length src"
    "legal_block (take (unat n) (drop off src)) page"
    using assms(1) by (simp_all add: half_holds_def)
  have copy: "array_copy (replicate FLASH_PAGE_SIZE 0) 0 src off (unat n) = Some ?d"
    using h(3,4) unfolding array_copy_def by (subst if_P) auto
  have len: "length (take (unat n) (drop off src)) = unat n"
    using h(4) by simp
  then have "take (unat n) ?d = take (unat n) (drop off src)"
    by simp
  moreover have "length ?d = FLASH_PAGE_SIZE"
    using len h(3) by simp
  ultimately have "block_stores ?b page"
    using h by (simp add: block_stores_def new_CompressedBlock_def)
  from Decompress_stores [OF this assms(2)] show ?thesis
    unfolding read_half_def copy Option.bind.bind_lunit .
qed

lemma read_entry_stands:
  assumes e: "entry_stands (flash c) e page" and ok: "ftl_ok c" and dest: "length dest = FLASH_PAGE_SIZE"
  shows "\<exists>f. read_entry c e dest = Some (True, page, c\<lparr>flash := f\<rparr>) \<and> flash_ok f \<and> config f = config (flash c) \<and>
           content f = content (flash c) \<and> IsPageValid f = IsPageValid (flash c)"
proof (cases "on_flash e")
  case False
  then have "page = replicate FLASH_PAGE_SIZE 0"
    using e by (simp add: entry_stands_def stores_def)
  moreover have "m_state e = UNMAPPED \<or> m_state e = MappingState.SPARSE_ZERO"
    using False by (cases "m_state e") (simp_all add: on_flash_def)
  ultimately show ?thesis
    using dest ftl_okD(1) [OF ok] by (intro exI [of _ "flash c"]) (auto simp: read_entry_def)
next
  case True
  let ?b = "unat (m_block_idx e)" and ?p = "unat (m_page_idx e)"
  from e True obtain d where d: "content (flash c) ?b ?p = Some d"
    by (auto simp: entry_stands_def stores_def split: option.splits)
  have inside: "in_flash (flash c) ?b ?p"
    using nand.holds_page [OF ftl_okD(1) [OF ok] d] by blast
  have read: "\<exists>f. ReadPage (flash c) ?b ?p (Some buf) = Some (True, d, f) \<and> flash_ok f \<and> config f = config (flash c) \<and>
      content f = content (flash c) \<and> IsPageValid f = IsPageValid (flash c)" if buf: "length buf = 4096" for buf
    using nand.read_inside [OF ftl_okD(1) [OF ok] inside buf] d ReadPage_config by fastforce
  show ?thesis
  proof (cases "m_state e = RAW_FULL_PAGE")
    case True
    with e d have "d = page"
      by (simp add: entry_stands_def stores_def on_flash_def)
    with True read [OF dest] show ?thesis
      by (auto simp: read_entry_def)
  next
    case False
    with e d True have "half_holds d (slot_of e) (m_compressed_size e) page" and st: "m_state e = COMPRESSED_HALF_PAGE"
      by (auto simp: entry_stands_def stores_def on_flash_def)
    from read_half_holds [OF this(1) dest] st read [of "replicate FLASH_PAGE_SIZE 0"] show ?thesis
      by (auto simp: read_entry_def slot_of_def)
  qed
qed

lemma represents_read:
  assumes "represents k c M" and "flash_ok f" and "config f = config (flash c)"
    and "content f = content (flash c)" and "IsPageValid f = IsPageValid (flash c)"
  shows "represents k (c\<lparr>flash := f, host_reads := n\<rparr>) M"
proof -
  have "in_flash f = in_flash (flash c)"
    using assms(3) by (simp add: fun_eq_iff in_flash_def)
  with assms show ?thesis
    by (simp add: represents_def staged_set_def staged_stands_def tracks_def holds_data_def entry_stands_def books_def
        placed_def owner_lbas_def)
qed

lemma ReadBlock_represents:
  assumes rep: "represents k c M" and ok: "ftl_ok c" and lba: "lba < length (lba_table c)"
    and dest: "length dest = FLASH_PAGE_SIZE"
  shows "\<exists>f. ReadBlock c lba (Some dest) = Some (True, M lba, c\<lparr>flash := f, host_reads := host_reads c + 1\<rparr>) \<and>
    represents k (c\<lparr>flash := f, host_reads := host_reads c + 1\<rparr>) M \<and> content f = content (flash c)"
proof (cases "\<exists>st. staged_half c = Some st \<and> st_lba st = lba")
  case True
  then obtain st where st: "staged_half c = Some st" "st_lba st = lba"
    by blast
  then have "half_holds (st_data st) 0 (st_comp_size st) (M lba)"
    using rep by (auto simp: represents_def staged_stands_def)
  from read_half_holds [OF this dest] st lba
  have "ReadBlock c lba (Some dest) = Some (True, M lba, c\<lparr>host_reads := host_reads c + 1\<rparr>)"
    by (simp add: ReadBlock_def Let_def)
  with represents_read [OF rep ftl_okD(1) [OF ok] refl refl refl, of "host_reads c + 1"] show ?thesis
    by (intro exI [of _ "flash c"]) simp
next
  case False
  let ?c = "c\<lparr>host_reads := host_reads c + 1\<rparr>"
  have ok1: "ftl_ok ?c"
    by (rule ftl_ok_counter(2) [OF ok])
  have "entry_stands (flash ?c) (lba_table c ! lba) (M lba)"
    using rep False lba by (auto simp: represents_def tracks_def holds_data_def staged_set_def split: option.splits)
  from read_entry_stands [OF this ok1 dest] obtain f where
    f: "read_entry ?c (lba_table c ! lba) dest = Some (True, M lba, ?c\<lparr>flash := f\<rparr>)" "flash_ok f"
      "config f = config (flash c)" "content f = content (flash c)" "IsPageValid f = IsPageValid (flash c)"
    by auto
  have "ReadBlock c lba (Some dest) = read_entry ?c (lba_table c ! lba) dest"
    using False lba by (simp add: ReadBlock_def Let_def split: option.split)
  with f represents_read [OF rep f(2-5), of "host_reads c + 1"] show ?thesis
    by (intro exI [of _ f]) simp
qed

section \<open>Writing\<close>

text \<open>The block of a write shares no page with another block, as two packed half pages do. The code
  invalidates the page whoever else is on it.\<close>

definition alone :: "FTLController \<Rightarrow> nat \<Rightarrow> bool" where
  "alone c lba \<longleftrightarrow>
     (\<forall>l b p. placed c lba b p \<and> placed c l b p \<and> l \<notin> staged_set c \<longrightarrow> l = lba)"

text \<open>What a page reads back as: a page that compresses to more than half a page, but not to more than
  three quarters, is programmed as its compressed form and not expanded when it is read.\<close>

definition kept_page :: "byte list \<Rightarrow> byte list" where
  "kept_page page =
     (case Compress (Some page) of None \<Rightarrow> page
      | Some blk \<Rightarrow> if \<not> is_zero_block blk \<and> is_compressed blk \<and> 2048 < unat (compressed_size blk)
          then data blk else page)"

lemma kept_page_Compress:
  assumes "Compress (Some page) = Some blk"
  shows "kept_page page = (if \<not> is_zero_block blk \<and> is_compressed blk \<and> 2048 < unat (compressed_size blk)
          then data blk else page)"
  using assms by (simp add: kept_page_def)

text \<open>There are two free pages in the active block, or the collection finds an erased reserve block.\<close>

definition space :: "bool \<Rightarrow> FTLController \<Rightarrow> bool" where
  "space k c \<longleftrightarrow> active_page_idx c + 2 \<le> GetPagesPerBlock (flash c) \<or>
     k \<and> 2 \<le> GetPagesPerBlock (flash c) \<and> reserve_ready c"

lemma forget_old_represents:
  assumes rep: "represents k c M" and ok: "ftl_ok c" and lba: "lba < length (lba_table c)"
    and al: "k \<Longrightarrow> alone c lba"
  defines "c1 \<equiv> forget_old lba c"
  shows "tracks k (insert lba (staged_set c1)) c1 M" and "staged_stands c1 M" and "lba \<notin> staged_set c1"
    and "content (flash c1) = content (flash c)"
    and "active_block_idx c1 = active_block_idx c" "active_page_idx c1 = active_page_idx c"
      "reserve_block_idx c1 = reserve_block_idx c"
proof -
  let ?e = "lba_table c ! lba"
  define f where "f = (if on_flash ?e then InvalidatePage (flash c) (unat (m_block_idx ?e)) (unat (m_page_idx ?e))
      else flash c)"
  have c1: "c1 = (c\<lparr>flash := f\<rparr>)\<lparr>staged_half :=
      (case staged_half c of None \<Rightarrow> None | Some st \<Rightarrow> if st_lba st = lba then None else Some st)\<rparr>"
    by (simp add: c1_def forget_old_def Let_def f_def on_flash_def split: option.split)
  have f: "content f = content (flash c)" "in_flash f = in_flash (flash c)"
    using nand.invalidate_any [OF ftl_okD(1) [OF ok]] by (auto simp: f_def)
  have val: "IsPageValid f b p \<longleftrightarrow> IsPageValid (flash c) b p \<and> \<not> placed c lba b p" for b p
    using nand.invalidate_any [OF ftl_okD(1) [OF ok], of "unat (m_block_idx ?e)" "unat (m_page_idx ?e)"] lba
    by (auto simp: f_def placed_def)
  show "content (flash c1) = content (flash c)" "active_block_idx c1 = active_block_idx c"
    "active_page_idx c1 = active_page_idx c" "reserve_block_idx c1 = reserve_block_idx c"
    by (simp_all add: c1 f)
  show "lba \<notin> staged_set c1"
    by (simp add: staged_set_def c1 split: option.split)
  show "staged_stands c1 M"
    using rep by (auto simp: represents_def staged_stands_def c1 split: option.splits if_splits)
  have sub: "insert lba (staged_set c1) = insert lba (staged_set c)"
    by (auto simp: staged_set_def c1 split: option.splits)
  have tr: "holds_data (staged_set c) c M" "k \<Longrightarrow> books (staged_set c) c"
    using rep by (simp_all add: represents_def tracks_def)
  have same: "placed c1 = placed c" "owner_lbas c1 = owner_lbas c" "block_page_owners c1 = block_page_owners c"
    "flash c1 = f"
    by (simp_all add: placed_def owner_lbas_def c1 fun_eq_iff)
  have "holds_data (insert lba (staged_set c)) c1 M"
    using tr(1) by (auto simp: holds_data_def entry_stands_def c1 f)
  moreover have "books (insert lba (staged_set c)) c1" if k: k
  proof (rule booksI)
    note b = tr(2) [OF k]
    fix b p l
    show "IsPageValid (flash c1) b p \<Longrightarrow> content (flash c1) b p \<noteq> None"
      using booksD(1) [OF b, of b p] by (simp add: same f val)
    show "IsPageValid (flash c1) b p \<Longrightarrow> l \<in> owner_lbas c1 b p \<longleftrightarrow> placed c1 l b p \<and> l \<notin> insert lba (staged_set c)"
      using booksD(2) [OF b, of b p l] unfolding same val by auto
    show "placed c1 l b p \<Longrightarrow> l \<notin> insert lba (staged_set c) \<Longrightarrow> IsPageValid (flash c1) b p"
      using booksD(3) [OF b, of l b p] al [OF k] unfolding same val alone_def by blast
    show "in_flash (flash c1) b p \<Longrightarrow> content (flash c1) b p = None \<Longrightarrow> block_page_owners c1 ! b ! p = []"
      using booksD(4) [OF b, of b p] by (simp add: same f)
  qed
  ultimately show "tracks k (insert lba (staged_set c1)) c1 M"
    unfolding sub by (simp add: tracks_def)
qed

text \<open>The map may be changed at a block that is left out, and a block without a place may be put
  back.\<close>

lemma tracks_upd: "tracks k L c M \<Longrightarrow> lba \<in> L \<Longrightarrow> tracks k L c (M(lba := page))"
  by (auto simp: tracks_def holds_data_def)

lemma staged_stands_upd: "staged_stands c M \<Longrightarrow> lba \<notin> staged_set c \<Longrightarrow> staged_stands c (M(lba := page))"
  by (auto simp: staged_stands_def staged_set_def)

text \<open>Programming the active page with one block on it.\<close>

lemma place_one:
  assumes run1: "program_active buf c = Some c1" and run2: "map_active lba st sub n c1 = Some c2"
    and run3: "push_owner lba sub c2 = Some c3" and ok: "ftl_ok c" and room: "has_room c" and free: "active_free c"
    and buf: "length buf = 4096" and lba: "lba < length (lba_table c)" "lba \<in> L" and tr: "tracks k L c M"
    and on: "st = RAW_FULL_PAGE \<and> buf = M lba \<or>
      st = COMPRESSED_HALF_PAGE \<and> half_holds buf (if sub = 0 then 0 else 2048) n (M lba)"
  shows "ftl_ok c3" and "open_page c3 buf" and "tracks k (L - {lba}) c3 M" and "kept c c3"
    and "active_block_idx c3 = active_block_idx c" "active_page_idx c3 = active_page_idx c"
      "reserve_block_idx c3 = reserve_block_idx c" "staged_half c3 = staged_half c"
      "\<forall>b. b \<noteq> active_block_idx c \<longrightarrow> content (flash c3) b = content (flash c) b"
proof -
  note p = program_active_tracks [OF run1 ok room free buf tr]
  then obtain f where c1: "c1 = c\<lparr>flash := f\<rparr>" "config f = config (flash c)"
    "\<forall>b. b \<noteq> active_block_idx c \<longrightarrow> content f b = content (flash c) b"
    by blast
  have r1: "has_room c1"
    using p(2) by (simp add: open_page_def)
  have n: "st = COMPRESSED_HALF_PAGE \<longrightarrow> unat n \<le> 2048"
    using on by (auto simp: half_holds_def)
  have st: "st = RAW_FULL_PAGE \<or> st = COMPRESSED_HALF_PAGE" and lba1: "lba < length (lba_table c1)"
    using on lba(1) by (auto simp: c1)
  note m = map_active_tracks [OF run2 p(1) r1 n st lba1 lba(2) p(3)]
  then obtain e where e: "lba_table c2 = (lba_table c1)[lba := e]" "m_state e = st" "m_sub_slot e = sub"
    "m_compressed_size e = n" "unat (m_block_idx e) = active_block_idx c1" "unat (m_page_idx e) = active_page_idx c1"
    by blast
  have sf: "flash c2 = flash c1" "active_block_idx c2 = active_block_idx c1" "active_page_idx c2 = active_page_idx c1"
    using m(2) by (simp_all add: same_flash_def)
  have o2: "open_page c2 buf"
    using p(2) same_flash_open [OF m(2)] by simp
  have at: "lba_table c2 ! lba = e" "lba < length (lba_table c2)"
    using e(1) lba1 by simp_all
  have pl: "placed c2 lba (active_block_idx c2) (active_page_idx c2)"
    using e at st sf by (simp add: placed_def on_flash_def)
  have stand: "entry_stands (flash c2) (lba_table c2 ! lba) (M lba)"
    using on o2 at e sf by (auto simp: entry_stands_def stores_def on_flash_def slot_of_def open_page_def)
  note q = push_owner_tracks [OF run3 m(1) o2 pl lba(2) stand m(3)]
  have s: "same_flash c1 c3"
    by (rule same_flash_trans [OF m(2) q(2)])
  show "ftl_ok c3" "tracks k (L - {lba}) c3 M"
    by (rule q)+
  show "open_page c3 buf"
    using o2 same_flash_open [OF q(2)] by simp
  show "kept c c3" "active_block_idx c3 = active_block_idx c" "active_page_idx c3 = active_page_idx c"
    "reserve_block_idx c3 = reserve_block_idx c" "staged_half c3 = staged_half c"
    "\<forall>b. b \<noteq> active_block_idx c \<longrightarrow> content (flash c3) b = content (flash c) b"
    using s c1 by (simp_all add: same_flash_def kept_def)
qed

text \<open>The next active page is free once the counter has moved on.\<close>

lemma open_page_done:
  assumes "open_page c buf" and "active_block_idx c' = active_block_idx c" and "active_page_idx c' = active_page_idx c + 1"
    and "flash c' = flash c"
  shows "active_free c'"
  using assms by (auto simp: open_page_def active_free_def)

text \<open>Two blocks on one page.\<close>

lemma place_two:
  assumes run1: "program_active buf c = Some c1" and run2: "map_active l1 COMPRESSED_HALF_PAGE 0 n1 c1 = Some c2"
    and run3: "map_active l2 COMPRESSED_HALF_PAGE 1 n2 c2 = Some c3"
    and run4: "push_owner l1 0 c3 = Some c4" and run5: "push_owner l2 1 c4 = Some c5"
    and ok: "ftl_ok c" and room: "has_room c" and free: "active_free c" and buf: "length buf = 4096"
    and l: "l1 < length (lba_table c)" "l2 < length (lba_table c)" "l1 \<in> L" "l2 \<in> L" "l1 \<noteq> l2"
    and tr: "tracks k L c M" and h: "half_holds buf 0 n1 (M l1)" "half_holds buf 2048 n2 (M l2)"
  shows "open_page c5 buf" and "tracks k (L - {l1} - {l2}) c5 M"
proof -
  note p = program_active_tracks [OF run1 ok room free buf tr]
  then obtain f where c1: "c1 = c\<lparr>flash := f\<rparr>"
    by blast
  have n: "COMPRESSED_HALF_PAGE = COMPRESSED_HALF_PAGE \<longrightarrow> unat n1 \<le> 2048"
    "COMPRESSED_HALF_PAGE = COMPRESSED_HALF_PAGE \<longrightarrow> unat n2 \<le> 2048"
    using h by (simp_all add: half_holds_def)
  have r1: "has_room c1" and lt: "l1 < length (lba_table c1)" "l2 < length (lba_table c1)"
    using p(2) l by (simp_all add: open_page_def c1)
  note m1 = map_active_tracks [OF run2 p(1) r1 n(1) disjI2 [OF refl] lt(1) l(3) p(3)]
  have o2: "open_page c2 buf" "l2 < length (lba_table c2)"
    using p(2) same_flash_open [OF m1(2)] m1(2) lt(2) by (simp_all add: same_flash_def)
  then have r2: "has_room c2"
    by (simp add: open_page_def)
  note m2 = map_active_tracks [OF run3 m1(1) r2 n(2) disjI2 [OF refl] o2(2) l(4) m1(3)]
  have o3: "open_page c3 buf"
    using o2(1) same_flash_open [OF m2(2)] by simp
  have sf: "active_block_idx c2 = active_block_idx c1" "active_page_idx c2 = active_page_idx c1"
    "active_block_idx c3 = active_block_idx c1" "active_page_idx c3 = active_page_idx c1" "flash c3 = flash c1"
    using m1(2) m2(2) by (simp_all add: same_flash_def)
  obtain e1 where e1: "lba_table c2 = (lba_table c1)[l1 := e1]" "m_state e1 = COMPRESSED_HALF_PAGE" "m_sub_slot e1 = 0"
    "m_compressed_size e1 = n1" "unat (m_block_idx e1) = active_block_idx c1" "unat (m_page_idx e1) = active_page_idx c1"
    using m1(4) by blast
  obtain e2 where e2: "lba_table c3 = (lba_table c2)[l2 := e2]" "m_state e2 = COMPRESSED_HALF_PAGE" "m_sub_slot e2 = 1"
    "m_compressed_size e2 = n2" "unat (m_block_idx e2) = active_block_idx c1" "unat (m_page_idx e2) = active_page_idx c1"
    using m2(4) sf by auto
  have at: "lba_table c3 ! l1 = e1" "lba_table c3 ! l2 = e2" "l1 < length (lba_table c3)" "l2 < length (lba_table c3)"
    using e1(1) e2(1) lt l(5) by simp_all
  have pl: "placed c3 l1 (active_block_idx c3) (active_page_idx c3)" "placed c3 l2 (active_block_idx c3) (active_page_idx c3)"
    using e1 e2 at sf by (simp_all add: placed_def on_flash_def)
  have cont: "content (flash c3) (active_block_idx c1) (active_page_idx c1) = Some buf"
    using o3 sf by (simp add: open_page_def)
  have st: "entry_stands (flash c3) (lba_table c3 ! l1) (M l1)" "entry_stands (flash c3) (lba_table c3 ! l2) (M l2)"
    using h e1 e2 at cont by (simp_all add: entry_stands_def stores_def on_flash_def slot_of_def)
  note q1 = push_owner_tracks [OF run4 m2(1) o3 pl(1) l(3) st(1) m2(3)]
  have o4: "open_page c4 buf"
    using o3 same_flash_open [OF q1(2)] by simp
  have "placed c4 l2 (active_block_idx c4) (active_page_idx c4)" "entry_stands (flash c4) (lba_table c4 ! l2) (M l2)"
    "l2 \<in> L - {l1}"
    using pl(2) st(2) q1(2,3) l by (simp_all add: placed_def same_flash_def)
  note q2 = push_owner_tracks [OF run5 q1(1) o4 this(1,3,2) q1(4)]
  show "open_page c5 buf"
    using o4 same_flash_open [OF q2(2)] by simp
  show "tracks k (L - {l1} - {l2}) c5 M"
    by (rule q2)
qed

section \<open>Flushing\<close>

lemma Flush_represents:
  assumes run: "FlushStagedWrites c = Some c'" and ok: "ftl_ok c" and free: "active_free c"
    and tr: "tracks k (L \<union> staged_set c) c M" and ss: "staged_stands c M" and disj: "L \<inter> staged_set c = {}"
    and room: "has_room c \<or> k \<and> reserve_ready c"
  shows "ftl_ok c'" and "staged_half c' = None" and "tracks k L c' M" and "active_free c'"
    and "space k c \<Longrightarrow> has_room c' \<or> k \<and> reserve_ready c'"
proof -
  from Flush_ok [OF ok] run show "ftl_ok c'" "staged_half c' = None"
    by simp_all
  have "tracks k L c' M \<and> active_free c' \<and> (space k c \<longrightarrow> has_room c' \<or> k \<and> reserve_ready c')"
  proof (cases "staged_half c")
    case None
    with run have "c' = c"
      by (simp add: FlushStagedWrites_def)
    with None tr free show ?thesis
      by (auto simp: staged_set_def space_def has_room_def)
  next
    case (Some st)
    let ?buf = "st_data st @ replicate 2048 0"
    have st: "st_lba st < length (lba_table c)" "length (st_data st) = 2048"
      using ftl_okD(12) [OF ok Some] by (simp_all add: staged_ok_def)
    obtain c1 c2 c3 c4 where run1: "make_room c = Some c1" and run2: "program_active ?buf c1 = Some c2"
      and run3: "map_active (st_lba st) COMPRESSED_HALF_PAGE 0 (st_comp_size st) c2 = Some c3"
      and run4: "push_owner (st_lba st) 0 c3 = Some c4"
      and c': "c' = c4\<lparr>active_page_idx := active_page_idx c4 + 1, staged_half := None\<rparr>"
      using run unfolding FlushStagedWrites_def Some option.case half_page_copy [OF st(2)] Option.bind.bind_lunit
      by (auto split: bind_splits)
    have L: "insert (st_lba st) L - {st_lba st} = L" and tr': "tracks k (insert (st_lba st) L) c M"
      using disj tr by (auto simp: staged_set_def Some)
    note mr = make_room_tracks [OF run1 ok free tr' room]
    have lt: "st_lba st < length (lba_table c1)"
      using mr(2) st(1) by (simp add: kept_def)
    have "half_holds ?buf 0 (st_comp_size st) (M (st_lba st))"
      using ss Some by (intro half_holds_prefix) (simp_all add: staged_stands_def st)
    then have stand: "COMPRESSED_HALF_PAGE = RAW_FULL_PAGE \<and> ?buf = M (st_lba st) \<or>
        COMPRESSED_HALF_PAGE = COMPRESSED_HALF_PAGE \<and>
          half_holds ?buf (if (0 :: 8 word) = 0 then 0 else 2048) (st_comp_size st) (M (st_lba st))"
      by simp
    have "length ?buf = 4096"
      using st(2) by simp
    note pl = place_one [OF run2 run3 run4 mr(1,3,6) this lt insertI1 mr(5) stand, unfolded L]
    have "tracks k L c' M"
      using pl(3) tracks_cong [of c' c4] by (simp add: c')
    moreover have "active_free c'"
      by (rule open_page_done [OF pl(2)]) (simp_all add: c')
    moreover have "has_room c' \<or> k \<and> reserve_ready c'" if sp: "space k c"
    proof (cases "active_page_idx c + 2 \<le> GetPagesPerBlock (flash c)")
      case True
      then have "c1 = c"
        using mr(7) by (simp add: has_room_def)
      with True pl(4,6) kept_geometry [of c c4] show ?thesis
        by (simp add: has_room_def c')
    next
      case False
      with sp have *: k "2 \<le> GetPagesPerBlock (flash c)" "reserve_ready c"
        by (auto simp: space_def)
      show ?thesis
      proof (cases "has_room c")
        case True
        with mr(7) have "c1 = c"
          by simp
        with *(1,3) pl(5,7,9) show ?thesis
          by (simp add: reserve_ready_def c')
      next
        case False
        with mr(8) have "active_page_idx c1 = 0"
          by simp
        with *(2) pl(4,6) kept_geometry [of c c1] kept_geometry [of c1 c4] mr(2) show ?thesis
          by (simp add: has_room_def c')
      qed
    qed
    ultimately show ?thesis
      by blast
  qed
  then show "tracks k L c' M" "active_free c'" "space k c \<Longrightarrow> has_room c' \<or> k \<and> reserve_ready c'"
    by simp_all
qed

section \<open>The write path\<close>

lemma write_half_represents:
  assumes run: "write_half lba blk c = Some c'" and ok: "ftl_ok c" and free: "active_free c"
    and lba: "lba < length (lba_table c)" "lba \<notin> staged_set c"
    and tr: "tracks k (insert lba (staged_set c)) c M" and ss: "staged_stands c M"
    and room: "has_room c \<or> k \<and> reserve_ready c"
    and blk: "block_stores blk (M lba)" "\<not> is_zero_block blk" "unat (compressed_size blk) \<le> 2048"
  shows "represents k c' M" and "active_free c'"
proof -
  let ?n = "unat (compressed_size blk)"
  have b: "is_compressed blk" "0 < ?n" "length (M lba) = FLASH_PAGE_SIZE" "length (data blk) = FLASH_PAGE_SIZE"
    "legal_block (take ?n (data blk)) (M lba)"
    using blk by (auto simp: block_stores_def split: if_splits)
  have "represents k c' M \<and> active_free c'"
  proof (cases "staged_half c")
    case None
    let ?d = "take ?n (data blk) @ replicate (2048 - ?n) 0"
    have c': "c' = c\<lparr>staged_half := Some \<lparr>st_lba = lba, st_comp_size = compressed_size blk, st_data = ?d\<rparr>\<rparr>"
      using run unfolding write_half_def None option.case staged_copy [OF b(4) blk(3)] by simp
    have "take ?n ?d = take ?n (data blk)"
      using b(4) blk(3) by simp
    then have "half_holds ?d 0 (compressed_size blk) (M lba)"
      using b blk(3) by (simp add: half_holds_def)
    then show ?thesis
      using tr free None tracks_cong [of c' c]
      by (simp add: represents_def staged_set_def staged_stands_def active_free_def c')
  next
    case (Some st)
    let ?buf = "st_data st @ take ?n (data blk) @ replicate (2048 - ?n) 0"
    have st: "st_lba st < length (lba_table c)" "length (st_data st) = 2048" "st_lba st \<noteq> lba"
      using ftl_okD(12) [OF ok Some] lba(2) by (simp_all add: staged_ok_def staged_set_def Some)
    obtain c1 c2 c3 c4 c5 c6 where run1: "make_room c = Some c1" and run2: "program_active ?buf c1 = Some c2"
      and run3: "map_active (st_lba st) COMPRESSED_HALF_PAGE 0 (st_comp_size st) c2 = Some c3"
      and run4: "map_active lba COMPRESSED_HALF_PAGE 1 (compressed_size blk) c3 = Some c4"
      and run5: "push_owner (st_lba st) 0 c4 = Some c5" and run6: "push_owner lba 1 c5 = Some c6"
      and c': "c' = c6\<lparr>half_page_packs := half_page_packs c6 + 1, staged_half := None,
          active_page_idx := active_page_idx c6 + 1\<rparr>"
      using run unfolding write_half_def Some option.case half_page_copy [OF st(2)] Option.bind.bind_lunit
        pair_copy [OF st(2) b(4) blk(3)]
      by (auto split: bind_splits)
    have tr': "tracks k {st_lba st, lba} c M"
      using tr by (simp add: staged_set_def Some insert_commute)
    note mr = make_room_tracks [OF run1 ok free tr' room]
    have lt: "st_lba st < length (lba_table c1)" "lba < length (lba_table c1)"
      using mr(2) st(1) lba(1) by (simp_all add: kept_def)
    have h1: "half_holds ?buf 0 (st_comp_size st) (M (st_lba st))"
      using ss Some by (intro half_holds_prefix) (simp_all add: staged_stands_def st)
    have "drop 2048 ?buf = take ?n (data blk) @ replicate (2048 - ?n) 0"
      using st(2) by simp
    moreover have "take ?n (take ?n (data blk) @ replicate (2048 - ?n) 0) = take ?n (data blk)"
      using b(4) blk(3) by simp
    moreover have "2048 + ?n \<le> length ?buf"
      using b(4) blk(3) st(2) by simp
    ultimately have h2: "half_holds ?buf 2048 (compressed_size blk) (M lba)"
      using b blk(3) by (simp only: half_holds_def)
    have "length ?buf = 4096"
      using st(2) b(4) blk(3) by simp
    note pl = place_two [OF run2 run3 run4 run5 run6 mr(1,3,6) this lt insertI1 insertI2 [OF insertI1] st(3) mr(5) h1 h2]
    have none: "{st_lba st, lba} - {st_lba st} - {lba} = {}"
      by blast
    have "tracks k {} c' M"
      using pl(2) [unfolded none] tracks_cong [of c' c6] by (simp add: c')
    moreover have "active_free c'"
      by (rule open_page_done [OF pl(1)]) (simp_all add: c')
    moreover have "staged_half c' = None"
      by (simp add: c')
    ultimately show ?thesis
      by (simp add: represents_def staged_set_def staged_stands_def)
  qed
  then show "represents k c' M" "active_free c'"
    by simp_all
qed

lemma write_raw_represents:
  assumes run: "write_raw lba blk c = Some c'" and ok: "ftl_ok c" and free: "active_free c"
    and lba: "lba < length (lba_table c)" "lba \<notin> staged_set c"
    and tr: "tracks k (insert lba (staged_set c)) c M" and ss: "staged_stands c M" and sp: "space k c"
    and blk: "data blk = M lba" "length (M lba) = FLASH_PAGE_SIZE"
  shows "represents k c' M" and "active_free c'"
proof -
  obtain c1 c2 c3 c4 c5 where run1: "(if staged_half c \<noteq> None then FlushStagedWrites c else Some c) = Some c1"
    and run2: "make_room c1 = Some c2" and run3: "program_active (data blk) c2 = Some c3"
    and run4: "map_active lba RAW_FULL_PAGE 0 (compressed_size blk) c3 = Some c4"
    and run5: "push_owner lba 0 c4 = Some c5"
    and c': "c' = c5\<lparr>raw_full_pages := raw_full_pages c5 + 1, active_page_idx := active_page_idx c5 + 1\<rparr>"
    using run by (auto simp: write_raw_def split: bind_splits)
  have flush: "FlushStagedWrites c = Some c1"
    using run1 by (auto simp: FlushStagedWrites_def split: if_splits)
  have room: "has_room c \<or> k \<and> reserve_ready c"
    using sp by (auto simp: space_def has_room_def)
  have tr': "tracks k ({lba} \<union> staged_set c) c M" and disj: "{lba} \<inter> staged_set c = {}"
    using tr lba(2) by simp_all
  note fl = Flush_represents [OF flush ok free tr' ss disj room]
  have k1: "kept c c1"
    using Flush_ok [OF ok] flush by auto
  note mr = make_room_tracks [OF run2 fl(1,4,3) fl(5) [OF sp]]
  have lt: "lba < length (lba_table c2)"
    using mr(2) k1 lba(1) by (simp add: kept_def)
  have stand: "RAW_FULL_PAGE = RAW_FULL_PAGE \<and> data blk = M lba \<or>
      RAW_FULL_PAGE = COMPRESSED_HALF_PAGE \<and>
        half_holds (data blk) (if (0 :: 8 word) = 0 then 0 else 2048) (compressed_size blk) (M lba)"
    using blk(1) by simp
  have "length (data blk) = 4096"
    using blk by simp
  note pl = place_one [OF run3 run4 run5 mr(1,3,6) this lt insertI1 mr(5) stand]
  have "tracks k {} c' M"
    using pl(3) tracks_cong [of c' c5] by (simp add: c')
  moreover have "staged_half c' = None"
    using pl(8) mr(4) fl(2) by (simp add: c')
  moreover show "active_free c'"
    by (rule open_page_done [OF pl(2)]) (simp_all add: c')
  ultimately show "represents k c' M"
    by (simp add: represents_def staged_set_def staged_stands_def)
qed

lemma WriteBlock_represents:
  assumes rep: "represents k c M" and ok: "ftl_ok c" and free: "active_free c" and sp: "space k c"
    and al: "k \<Longrightarrow> alone c lba" and lba: "lba < length (lba_table c)"
    and page: "length page = FLASH_PAGE_SIZE"
  shows "\<exists>c'. WriteBlock c lba (Some page) = Some (True, c') \<and> ftl_ok c' \<and> active_free c' \<and>
    represents k c' (M(lba := kept_page page))"
proof -
  let ?M = "M(lba := kept_page page)"
  from WriteBlock_ok [OF ok, of "Some page" lba] page lba obtain c' where
    run: "WriteBlock c lba (Some page) = Some (True, c')" and ok': "ftl_ok c'"
    by auto
  obtain blk where blk: "Compress (Some page) = Some blk" "block_stores blk page"
    using Compress_page [OF page] by metis
  note kp = kept_page_Compress [OF blk(1)]
  define c0 where "c0 = c\<lparr>host_writes := host_writes c + 1\<rparr>"
  define c1 where "c1 = forget_old lba c0"
  have ok0: "ftl_ok c0"
    unfolding c0_def by (rule ftl_ok_counter(1) [OF ok])
  have rep0: "represents k c0 M" and al0: "k \<Longrightarrow> alone c0 lba" and lba0: "lba < length (lba_table c0)"
    using rep al lba tracks_cong [of c0 c]
    by (simp_all add: c0_def represents_def staged_set_def staged_stands_def alone_def placed_def)
  note f = forget_old_represents [OF rep0 ok0 lba0 al0, folded c1_def]
  note ok1 = forget_old_ok(1,2) [OF ok0, of lba, folded c1_def]
  have cfg: "GetPagesPerBlock (flash c1) = GetPagesPerBlock (flash c)" "lba < length (lba_table c1)"
    using kept_geometry [OF ok1(2)] ok1(2) lba by (simp_all add: kept_def c0_def)
  have free1: "active_free c1" and sp1: "space k c1"
    using free sp f(4-7) cfg by (simp_all add: active_free_def space_def reserve_ready_def c0_def)
  have room1: "has_room c1 \<or> k \<and> reserve_ready c1"
    using sp1 by (auto simp: space_def has_room_def)
  have tr: "tracks k (insert lba (staged_set c1)) c1 ?M"
    by (rule tracks_upd [OF f(1) insertI1])
  have ss: "staged_stands c1 ?M"
    by (rule staged_stands_upd [OF f(2,3)])
  have step: "WriteBlock c lba (Some page) =
      (if is_zero_block blk then
          do { c \<leftarrow> set_entry lba (\<lambda>e. e\<lparr>m_state := MappingState.SPARSE_ZERO, m_compressed_size := 0\<rparr>) c1;
               Some (True, c\<lparr>zero_blocks := zero_blocks c + 1\<rparr>) }
        else if compressed_size blk \<le> 2048 then do { c \<leftarrow> write_half lba blk c1; Some (True, c) }
        else do { c \<leftarrow> write_raw lba blk c1; Some (True, c) })"
    using lba unfolding WriteBlock_def Let_def blk(1) c1_def c0_def by simp
  have "active_free c' \<and> represents k c' ?M"
  proof (cases "is_zero_block blk")
    case True
    let ?e = "(lba_table c1 ! lba)\<lparr>m_state := MappingState.SPARSE_ZERO, m_compressed_size := 0\<rparr>"
    have c': "c' = c1\<lparr>lba_table := (lba_table c1)[lba := ?e], zero_blocks := zero_blocks c1 + 1\<rparr>"
      using run True cfg(2) unfolding step by (simp add: set_entry_def)
    have zero: "kept_page page = replicate FLASH_PAGE_SIZE 0"
      using kp blk(2) True by (auto simp: block_stores_def)
    have sset: "staged_set c' = staged_set c1"
      by (simp add: staged_set_def c')
    have "holds_data (staged_set c1) c' ?M"
      using tr zero cfg(2)
      by (auto simp: tracks_def holds_data_def c' nth_list_update entry_stands_def stores_def on_flash_def)
    moreover have "books (staged_set c1) c'" if k
    proof (rule booksI)
      have b: "books (insert lba (staged_set c1)) c1"
        using tr that by (simp add: tracks_def)
      fix b p l
      have same: "flash c' = flash c1" "owner_lbas c' = owner_lbas c1" "block_page_owners c' = block_page_owners c1"
        by (simp_all add: owner_lbas_def c' fun_eq_iff)
      have pl: "placed c' l b p \<longleftrightarrow> placed c1 l b p \<and> l \<noteq> lba"
        using cfg(2) by (auto simp: placed_def c' nth_list_update on_flash_def)
      show "IsPageValid (flash c') b p \<Longrightarrow> content (flash c') b p \<noteq> None"
        using booksD(1) [OF b, of b p] by (simp add: same)
      show "IsPageValid (flash c') b p \<Longrightarrow> l \<in> owner_lbas c' b p \<longleftrightarrow> placed c' l b p \<and> l \<notin> staged_set c1"
        using booksD(2) [OF b, of b p l] unfolding same pl by blast
      show "placed c' l b p \<Longrightarrow> l \<notin> staged_set c1 \<Longrightarrow> IsPageValid (flash c') b p"
        using booksD(3) [OF b, of l b p] unfolding same pl by blast
      show "in_flash (flash c') b p \<Longrightarrow> content (flash c') b p = None \<Longrightarrow> block_page_owners c' ! b ! p = []"
        using booksD(4) [OF b, of b p] by (simp add: same)
    qed
    moreover have "active_free c'" "staged_stands c' ?M"
      using free1 ss by (simp_all add: active_free_def staged_stands_def c')
    ultimately show ?thesis
      by (simp add: represents_def tracks_def sset)
  next
    case nz: False
    show ?thesis
    proof (cases "compressed_size blk \<le> 2048")
      case True
      then have half: "write_half lba blk c1 = Some c'" and n: "unat (compressed_size blk) \<le> 2048"
        using run nz unfolding step by (auto simp: word_le_nat_alt split: bind_splits)
      have "block_stores blk (?M lba)"
        using blk(2) n by (simp add: kp)
      from write_half_represents [OF half ok1(1) free1 cfg(2) f(3) tr ss room1 this nz n] show ?thesis
        by blast
    next
      case False
      then have raw: "write_raw lba blk c1 = Some c'" and "2048 < unat (compressed_size blk)"
        using run nz unfolding step by (auto simp: word_le_nat_alt split: bind_splits)
      then have "data blk = ?M lba" "length (?M lba) = FLASH_PAGE_SIZE"
        using blk(2) nz by (auto simp: block_stores_def kp split: if_splits)
      from write_raw_represents [OF raw ok1(1) free1 cfg(2) f(3) tr ss sp1 this] show ?thesis
        by blast
    qed
  qed
  with run ok' show ?thesis
    by blast
qed

end
