(* ===== verification/Ftl_Pages.thy ===== *)
theory Ftl_Pages
  imports Ftl_Reads
begin

text \<open>
  Pages that LZ4 does not compress, which exist because there are fewer compressed blocks than pages, and what a
  write of one does. Runs on such pages can be evaluated without the encoder.
\<close>

section \<open>Incompressible pages\<close>

definition raw_page :: "byte list \<Rightarrow> bool" where
  "raw_page page \<longleftrightarrow>
     length page = FLASH_PAGE_SIZE \<and>
     (case Compress (Some page) of None \<Rightarrow> False | Some blk \<Rightarrow> \<not> is_zero_block blk \<and> \<not> is_compressed blk)"

lemma legal_block_unique:
  assumes "legal_block xs p" and "legal_block xs q" and "length p = FLASH_PAGE_SIZE" and "length q = FLASH_PAGE_SIZE"
    and "0 < length xs" and "length xs < 3072"
  shows "p = q"
proof -
  let ?b = "new_CompressedBlock\<lparr>is_compressed := True, compressed_size := word_of_nat (length xs),
      data := xs @ replicate (FLASH_PAGE_SIZE - length xs) 0\<rparr>"
  have "unat (word_of_nat (length xs) :: 16 word) = length xs"
    using assms(6) by (simp add: unsigned_of_nat take_bit_nat_eq_self)
  then have "block_stores ?b p" "block_stores ?b q"
    using assms by (simp_all add: block_stores_def new_CompressedBlock_def)
  then show ?thesis
    by (rule lz.stands_for_unique)
qed

text \<open>A page that is not stored raw is determined by fewer than 3072 bytes.\<close>

lemma compressed_page:
  assumes "length page = FLASH_PAGE_SIZE" and "\<not> raw_page page" and "page \<noteq> replicate FLASH_PAGE_SIZE 0"
  shows "\<exists>xs. legal_block xs page \<and> 0 < length xs \<and> length xs < 3072"
proof -
  from Compress_stores [OF assms(1)] obtain blk where
    blk: "Compress (Some page) = Some blk" "block_stores blk page" "is_zero_block blk = (page = replicate FLASH_PAGE_SIZE 0)"
    by blast
  then have "\<not> is_zero_block blk" "is_compressed blk"
    using assms by (simp_all add: raw_page_def)
  with blk(2) have "legal_block (take (unat (compressed_size blk)) (data blk)) page" "0 < unat (compressed_size blk)"
    "unat (compressed_size blk) < 3072" "length (data blk) = FLASH_PAGE_SIZE"
    by (simp_all add: block_stores_def)
  then show ?thesis
    by (intro exI [of _ "take (unat (compressed_size blk)) (data blk)"]) simp
qed

definition pages_of :: "byte list set" where
  "pages_of = {page. length page = FLASH_PAGE_SIZE}"

lemma card_lists_le: "finite {xs :: byte list. length xs \<le> n}" "card {xs :: byte list. length xs \<le> n} < 256 ^ Suc n"
proof -
  have all: "{xs :: byte list. length xs \<le> n} = {xs. set xs \<subseteq> UNIV \<and> length xs \<le> n}"
    by simp
  have card: "card (UNIV :: byte set) = 256"
    by (simp add: card_word)
  show "finite {xs :: byte list. length xs \<le> n}"
    unfolding all by (rule finite_lists_length_le) simp
  have "(\<Sum>i\<le>n. (256 :: nat) ^ i) < 256 ^ Suc n"
    by (induction n) simp_all
  then show "card {xs :: byte list. length xs \<le> n} < 256 ^ Suc n"
    unfolding all by (subst card_lists_length_le) (simp_all only: card finite)
qed

lemma raw_pages_exist: "\<exists>a b. raw_page a \<and> raw_page b \<and> a \<noteq> b"
proof -
  define R where "R = {page. raw_page page}"
  define Z where "Z = pages_of - R - {replicate FLASH_PAGE_SIZE 0}"
  have all: "pages_of = {xs :: byte list. set xs \<subseteq> UNIV \<and> length xs = FLASH_PAGE_SIZE}"
    by (simp add: pages_of_def)
  have card: "card (UNIV :: byte set) = 256"
    by (simp add: card_word)
  have fin: "finite pages_of"
    unfolding all by (rule finite_lists_length_eq) simp
  have total: "card pages_of = 256 ^ FLASH_PAGE_SIZE"
    unfolding all by (subst card_lists_length_eq) (simp_all only: card finite)
  have "\<exists>xs. legal_block xs page \<and> 0 < length xs \<and> length xs < 3072" if "page \<in> Z" for page
    by (rule compressed_page) (use that in \<open>simp_all add: Z_def pages_of_def R_def\<close>)
  then obtain g where g: "\<And>page. page \<in> Z \<Longrightarrow> legal_block (g page) page \<and> 0 < length (g page) \<and> length (g page) < 3072"
    by metis
  have "inj_on g Z"
  proof (rule inj_onI)
    fix p q assume "p \<in> Z" "q \<in> Z" "g p = g q"
    with g [of p] g [of q] legal_block_unique [of "g p" p q] show "p = q"
      by (simp add: Z_def pages_of_def)
  qed
  moreover have "g ` Z \<subseteq> {xs. length xs \<le> 3071}"
    using g by force
  ultimately have "card Z \<le> card {xs :: byte list. length xs \<le> 3071}"
    by (rule card_inj_on_le [OF _ _ card_lists_le(1)])
  then have small: "card Z < 256 ^ Suc 3071"
    using card_lists_le(2) [of 3071] by (rule order.strict_trans1)
  have "R \<subseteq> pages_of"
    by (auto simp: R_def raw_page_def pages_of_def)
  then have "pages_of \<subseteq> Z \<union> R \<union> {replicate FLASH_PAGE_SIZE 0}" and finR: "finite R"
    using fin finite_subset by (auto simp: Z_def)
  then have "card pages_of \<le> card (Z \<union> R \<union> {replicate FLASH_PAGE_SIZE 0})"
    by (intro card_mono) (use fin in \<open>auto simp: Z_def\<close>)
  also have "\<dots> \<le> card Z + card R + 1"
    using card_Un_le [of "Z \<union> R" "{replicate FLASH_PAGE_SIZE 0}"] card_Un_le [of Z R] by simp
  finally have sum: "(256 :: nat) ^ FLASH_PAGE_SIZE \<le> card Z + card R + 1"
    unfolding total .
  have "(256 :: nat) ^ FLASH_PAGE_SIZE = 256 ^ Suc 3071 * 256 ^ 1024"
    by (simp only: power_add [symmetric]) (simp only: refl arith_simps Suc_numeral)
  moreover have "(4 :: nat) * 256 ^ Suc 3071 \<le> 256 ^ Suc 3071 * 256 ^ 1024"
  proof -
    have "(4 :: nat) \<le> 256 ^ 1"
      by simp
    also have "\<dots> \<le> 256 ^ 1024"
      by (rule power_increasing) simp_all
    finally show ?thesis
      by (subst mult.commute) (rule mult_le_mono2)
  qed
  moreover have "1 \<le> (256 :: nat) ^ Suc 3071"
    by (rule one_le_power) simp
  ultimately have "2 \<le> card R"
    using sum small by linarith
  then have "\<not> card R \<le> 1"
    by simp
  then obtain a b where "a \<in> R" "b \<in> R" "a \<noteq> b"
    using finR card_le_Suc0_iff_eq [OF finR] by auto
  then show ?thesis
    by (auto simp: R_def)
qed

section \<open>Writing one\<close>

lemma raw_pageD:
  assumes "raw_page page"
  obtains blk where "Compress (Some page) = Some blk" "\<not> is_zero_block blk" "data blk = page"
    "compressed_size blk = 4096"
proof -
  from assms have "length page = FLASH_PAGE_SIZE"
    by (simp add: raw_page_def)
  from Compress_stores [OF this] obtain blk where blk: "Compress (Some page) = Some blk" "block_stores blk page"
    by blast
  with assms have "\<not> is_zero_block blk" "\<not> is_compressed blk"
    by (simp_all add: raw_page_def)
  moreover from this blk(2) have "data blk = page" "compressed_size blk = 4096"
    by (simp_all add: block_stores_def word_unat_eq_iff)
  ultimately show thesis
    using that blk(1) by blast
qed

text \<open>The write of an incompressible page when nothing is staged.\<close>

lemma WriteBlock_raw:
  assumes raw: "raw_page page" and lba: "lba < length (lba_table c)" and "staged_half c = None"
  shows "WriteBlock c lba (Some page) =
    do { c \<leftarrow> make_room (forget_old lba (c\<lparr>host_writes := host_writes c + 1\<rparr>));
         c \<leftarrow> program_active page c;
         c \<leftarrow> map_active lba RAW_FULL_PAGE 0 4096 c;
         c \<leftarrow> push_owner lba 0 c;
         Some (True, c\<lparr>raw_full_pages := raw_full_pages c + 1, active_page_idx := active_page_idx c + 1\<rparr>) }"
proof -
  from raw obtain blk where blk: "Compress (Some page) = Some blk" "\<not> is_zero_block blk" "data blk = page"
    "compressed_size blk = 4096"
    by (rule raw_pageD)
  have st: "staged_half (forget_old lba (c\<lparr>host_writes := host_writes c + 1\<rparr>)) = None"
    using assms(3) by (simp add: forget_old_def Let_def)
  show ?thesis
    unfolding WriteBlock_def Let_def blk(1) Option.bind.bind_lunit using lba blk(2)
    by (simp add: blk(3,4) write_raw_def st Option.bind_assoc)
qed

lemma whole_page_copy: "length d = FLASH_PAGE_SIZE \<Longrightarrow> length e = FLASH_PAGE_SIZE \<Longrightarrow> array_copy d 0 e 0 FLASH_PAGE_SIZE = Some e"
  by simp

lemma fill_page: "length d = FLASH_PAGE_SIZE \<Longrightarrow> array_fill d b FLASH_PAGE_SIZE = Some (replicate FLASH_PAGE_SIZE b)"
  by simp

lemma new_page: "is_programmed new_PhysicalPage = False" "length (page_data new_PhysicalPage) = FLASH_PAGE_SIZE"
  by (simp_all add: new_PhysicalPage_def)

lemmas run_defs = make_room_def RunGarbageCollectionIfNeeded_def GetPagesPerBlock_def GetTotalBlocks_def
  GetInvalidCount_def next_reserve_def forget_old_def program_active_def map_active_def push_owner_def set_entry_def
  set_owners_def ProgramPage_def InvalidatePage_def EraseBlock_def gc_page_def gc_finish_def IsPageValid_def Let_def

lemma three: "replicate 3 x = [x, x, x]" "replicate 2 x = [x, x]" "[0..<3] = [0, 1, 2]"
  by (simp_all add: numeral_3_eq_3 numeral_2_eq_2 upt_rec)

end
