(* ===== verification/Lz4_Runs.thy ===== *)
theory Lz4_Runs
  imports Lz4_Compressor
begin

text \<open>
  What the encoder of src/lz4.c makes of equal bytes: its steps are followed from the first byte to the last literals. This
  gives the size of the block, which the correctness of the encoder leaves open, and with it a page that
  \<open>LZ4Compressor::Compress\<close> (src/lz4_compressor.cpp) makes small enough to share a flash page.
\<close>

section \<open>Memory of equal bytes\<close>

definition run_of :: "mem \<Rightarrow> ptr \<Rightarrow> int \<Rightarrow> byte \<Rightarrow> bool" where
  "run_of m p n b \<longleftrightarrow> (\<forall>x. p \<le> x \<and> x < p + n \<longrightarrow> m x = Some b)"

lemma run_ofD: "run_of m p n b \<Longrightarrow> p \<le> x \<Longrightarrow> x < p + n \<Longrightarrow> m x = Some b"
  by (simp add: run_of_def)

lemma run_region: "run_of m p n b \<Longrightarrow> p \<le> x \<Longrightarrow> y \<le> p + n \<Longrightarrow> region m x y"
  by (auto simp: run_of_def region_def)

lemma run_frame: "run_of m p n b \<Longrightarrow> (\<And>x. p \<le> x \<Longrightarrow> x < p + n \<Longrightarrow> m' x = m x) \<Longrightarrow> run_of m' p n b"
  by (simp add: run_of_def)

lemma run_read32: 
  assumes "run_of m p n b" and "p \<le> x" and "x + 4 \<le> p + n"
  shows "LZ4_read32 m x = Some (le_word (replicate 4 b))"
proof -
  have "region m x (x + int 4)"
    using run_region [OF assms(1,2)] assms(3) by simp
  moreover have "bytes m x 4 = replicate 4 b"
    by (rule nth_equalityI) (use run_ofD [OF assms(1)] assms in auto)
  ultimately show ?thesis
    by (simp add: LZ4_read32_def load_bytes_Some)
qed

lemma run_hash:
  assumes "run_of m p n b" and "p \<le> x" and "x + 4 \<le> p + n"
  shows "LZ4_hashPosition m x byU16 = Some (LZ4_hash4 (le_word (replicate 4 b)) byU16)"
  by (simp add: LZ4_hashPosition_def run_read32 [OF assms])

section \<open>The steps of the encoder\<close>

definition run_args :: "enc_cfg \<Rightarrow> mem \<Rightarrow> byte \<Rightarrow> int \<Rightarrow> bool" where
  "run_args k m b cap \<longleftrightarrow>
     13 \<le> k_inputSize k \<and> k_inputSize k < LZ4_64Klimit \<and> k_inputSize k div 255 + 24 \<le> cap \<and>
     run_of m (k_source k) (k_inputSize k) b \<and> region m (k_dest k) (k_dest k + cap) \<and>
     (k_source k + k_inputSize k \<le> k_dest k \<or> k_dest k + cap \<le> k_source k) \<and>
     k_output k \<noteq> fillOutput \<and> (k_output k \<noteq> notLimited \<longrightarrow> k_maxOutputSize k = cap) \<and>
     k_tableType k = byU16 \<and> k_dict k = noDict \<and> k_dictIssue k = noDictIssue \<and> k_startIndex k = 0 \<and>
     k_acceleration k = 1"

lemmas enc_bounds = k_base_def k_iend_def k_mflimitPlusOne_def k_matchlimit_def k_olimit_def k_maybe_extMem_def

lemma hash4_put:
  assumes "length (hashTable (c :: lz4_ctx)) = LZ4_HASH_SIZE_U32" and "0 \<le> i" "i < 65536"
  shows "\<exists>c'. LZ4_putIndexOnHash i (LZ4_hash4 w byU16) c byU16 = Some c' \<and> length (hashTable c') = LZ4_HASH_SIZE_U32 \<and>
    LZ4_getIndexOnHash (LZ4_hash4 w byU16) c' byU16 = Some i"
  using u16.put_entry [of c "LZ4_hash4 w byU16" i] hash4_bound [of w] assms by (auto simp: slots_def)

text \<open>The first two steps find the match at distance one.\<close>

lemma run_search:
  assumes args: "run_args k m b cap" and ctx: "length (hashTable (e_ctx s)) = LZ4_HASH_SIZE_U32"
   and s: "s = enc_start k m ctx"
  shows "\<exists>s' s2. enc_first_byte k s = Some s' \<and> enc_main_loop k s' = Some (Search, s2) \<and>
    (\<exists>s3. enc_search k s2 = Some (MatchFound, s3) \<and> e_mem s3 = m \<and> e_ip s3 = k_source k + 1 \<and> e_anchor s3 = k_source k \<and>
      e_match s3 = k_source k \<and> e_lowLimit s3 = k_source k \<and> e_op s3 = k_dest k)"
proof -
  let ?h = "LZ4_hash4 (le_word (replicate 4 b)) byU16"
  have run: "run_of m (k_source k) (k_inputSize k) b" and n: "13 \<le> k_inputSize k" "k_inputSize k < LZ4_64Klimit"
    and k: "k_tableType k = byU16" "k_dict k = noDict" "k_dictIssue k = noDictIssue" "k_startIndex k = 0" "k_acceleration k = 1"
    using args by (simp_all add: run_args_def)
  obtain c1 where c1: "LZ4_putIndexOnHash 0 ?h (e_ctx s) byU16 = Some c1" "length (hashTable c1) = LZ4_HASH_SIZE_U32"
    "LZ4_getIndexOnHash ?h c1 byU16 = Some 0"
    using hash4_put [OF ctx, of 0] by auto
  obtain c2 where c2: "LZ4_putIndexOnHash 1 ?h c1 byU16 = Some c2"
    using hash4_put [OF c1(2), of 1] by auto
  have first: "enc_first_byte k s = Some (s\<lparr>e_ctx := c1, e_ip := k_source k + 1, e_forwardH := ?h\<rparr>)"
    using c1 n by (simp add: enc_first_byte_def s enc_start_def k run_hash [OF run])
  show ?thesis
    unfolding first enc_main_loop_def using n c1 c2
    by (simp add: enc_search_def s enc_start_def k enc_bounds run_hash [OF run] run_read32 [OF run] enc_candidate_def U32_def)
qed

text \<open>One literal, and a match of all but the first and the last five bytes.\<close>

lemma run_literal:
  assumes args: "run_args k m b cap" and s: "e_mem s = m" "e_ip s = k_source k + 1" "e_anchor s = k_source k"
    "e_match s = k_source k" "e_lowLimit s = k_source k" "e_op s = k_dest k"
  shows "\<exists>s'. enc_match_found k s = Some (NextMatch, s') \<and> dom (e_mem s') = dom m \<and>
    (\<forall>x. x < k_dest k \<or> k_dest k + cap \<le> x \<longrightarrow> e_mem s' x = m x) \<and>
    e_mem s' (k_dest k) = Some (token_byte 1 0) \<and>
    e_ip s' = k_source k + 1 \<and> e_match s' = k_source k \<and> e_lowLimit s' = k_source k \<and>
    e_token s' = k_dest k \<and> e_op s' = k_dest k + 2"
proof -
  have run: "run_of m (k_source k) (k_inputSize k) b" and n: "13 \<le> k_inputSize k" "k_inputSize k div 255 + 24 \<le> cap"
    and dst: "region m (k_dest k) (k_dest k + cap)" "k_source k + k_inputSize k \<le> k_dest k \<or> k_dest k + cap \<le> k_source k"
    and k: "k_output k \<noteq> fillOutput" "k_output k \<noteq> notLimited \<longrightarrow> k_maxOutputSize k = cap"
    using args by (simp_all add: run_args_def)
  have cap: "24 \<le> cap"
    using n by (simp add: order_trans [of 24 "k_inputSize k div 255 + 24"])
  have catch: "catch_up (e_mem s) (e_ip s) (e_match s) (e_anchor s) (e_lowLimit s) = Some (k_source k + 1, k_source k)"
    by (simp add: catch_up_def s)
  have "region m (k_dest k) (k_dest k + 1 + int (length (lit_header 1)))"
    by (rule region_sub [OF dst(1)]) (use cap in \<open>simp_all add: lit_header_def\<close>)
  from put_lit_header_emitted [OF this] obtain m1 where m1: "put_lit_header m (k_dest k) (k_dest k + 1) 1 = Some (m1, k_dest k + 1)"
    and e1: "emitted m m1 (k_dest k) [token_byte 1 0] (k_dest k + 1)"
    by (auto simp: lit_header_def)
  have r1: "region m1 x y = region m x y" for x y
    by (rule emitted_region [OF e1])
  have "region m1 (k_source k) (k_source k + int 1 + 8)" "region m1 (k_dest k + 1) (k_dest k + 9)"
    unfolding r1 using region_sub [OF dst(1), of "k_dest k + 1" "k_dest k + 9"] run_region [OF run, of "k_source k" "k_source k + 9"] cap n
    by (simp_all add: add.commute)
  from literals_emitted [OF this] dst(2) n cap obtain m2 where m2: "LZ4_wildCopy8 m1 (k_dest k + 1) (k_source k) (k_dest k + 2) = Some m2"
    and e2: "emitted m1 m2 (k_dest k + 1) (bytes m1 (k_source k) 1) (k_dest k + 9)"
    by (auto simp: add.commute)
  have "m2 (k_dest k) = Some (token_byte 1 0)"
  proof -
    have "m1 (k_dest k) \<noteq> None"
      using dst(1) cap emitted_dom [OF e1] by (auto simp: region_def dom_def)
    moreover have "the (m1 (k_dest k)) = token_byte 1 0"
      using emitted_bytes [OF e1] by (simp add: bytes_def)
    ultimately show ?thesis
      using emitted_frame [OF e2, of "k_dest k"] by auto
  qed
  moreover have "m2 x = m x" if "x < k_dest k \<or> k_dest k + cap \<le> x" for x
    using that emitted_frame [OF e1, of x] emitted_frame [OF e2, of x] cap by auto
  moreover have "dom m2 = dom m"
    by (simp add: emitted_dom [OF e1] emitted_dom [OF e2])
  ultimately show ?thesis
    using k cap catch m1 m2 s
    by (auto simp: enc_match_found_def enc_bounds add.commute [of "k_dest k"] Let_def)
qed

lemma run_match:
  assumes args: "run_args k m b cap" and s: "dom (e_mem s) = dom m" "\<forall>x. x < k_dest k \<or> k_dest k + cap \<le> x \<longrightarrow> e_mem s x = m x"
    "e_mem s (k_dest k) = Some (token_byte 1 0)"
    "e_ip s = k_source k + 1" "e_match s = k_source k" "e_token s = k_dest k" "e_op s = k_dest k + 2"
  shows "\<exists>s'. enc_next_match k s = Some (LastLiterals, s') \<and> dom (e_mem s') = dom m \<and>
    (\<forall>x. x < k_dest k \<or> k_dest k + cap \<le> x \<longrightarrow> e_mem s' x = m x) \<and>
    e_anchor s' = k_iend k - 5 \<and> e_op s' = k_dest k + 4 + int (length (match_header (nat (k_inputSize k) - 10)))"
proof -
  have run: "run_of m (k_source k) (k_inputSize k) b" and n: "13 \<le> k_inputSize k" "k_inputSize k div 255 + 24 \<le> cap"
    and dst: "region m (k_dest k) (k_dest k + cap)" "k_source k + k_inputSize k \<le> k_dest k \<or> k_dest k + cap \<le> k_source k"
    and k: "k_output k \<noteq> fillOutput" "k_output k \<noteq> notLimited \<longrightarrow> k_maxOutputSize k = cap" "k_dict k = noDict"
    using args by (simp_all add: run_args_def)
  have cap: "24 \<le> cap"
    using n by (simp add: order_trans [of 24 "k_inputSize k div 255 + 24"])
  have "region (e_mem s) (k_dest k + 2) (k_dest k + 2 + 2)"
    unfolding region_dom [OF s(1)] by (rule region_sub [OF dst(1)]) (use cap in simp_all)
  from writeLE16_emitted [OF this, of 1] obtain m1 where m1: "LZ4_writeLE16 (e_mem s) (k_dest k + 2) 1 = Some m1"
    and e1: "emitted (e_mem s) m1 (k_dest k + 2) (offset_bytes 1) (k_dest k + 4)"
    by (auto simp: add.commute)
  have d1: "dom m1 = dom m"
    using emitted_dom [OF e1] s(1) by simp
  have f1: "m1 x = m x" if "x < k_dest k \<or> k_dest k + cap \<le> x" for x
    using that s(2) emitted_frame [OF e1, of x] cap by auto
  have run1: "run_of m1 (k_source k) (k_inputSize k) b"
    by (rule run_frame [OF run f1]) (use dst(2) in auto)
  let ?p = "k_source k + 1 + MINMATCH" and ?q = "k_source k + MINMATCH" and ?R = "k_inputSize k - 10"
  have "common_run m1 ?p ?q (k_matchlimit k - ?p) ?R"
    using run_ofD [OF run1] n by (auto simp: common_run_def enc_bounds)
  moreover have "region m1 ?p (k_matchlimit k)" "region m1 ?q (?q + (k_matchlimit k - ?p))"
    using n by (auto simp: enc_bounds intro!: run_region [OF run1])
  ultimately have count: "LZ4_count m1 ?p ?q (k_matchlimit k) = Some ?R"
    by (rule LZ4_count_run)
  let ?mc = "nat (k_inputSize k) - 10"
  have mc: "int ?mc = ?R"
    using n by simp
  have lim: "(?R + 240) div 255 \<le> k_inputSize k div 255 + 1" "int (?mc div 255) \<le> k_inputSize k div 255"
    using zdiv_mono1 [of "?R + 240" "k_inputSize k + 255" 255] zdiv_mono1 [of ?R "k_inputSize k" 255] by (simp_all add: zdiv_int mc)
  have "m1 (k_dest k) = Some (token_byte 1 0)"
    using emitted_frame [OF e1, of "k_dest k"] s(3) by simp
  moreover have "region m1 (k_dest k + 4) (k_dest k + 4 + int (?mc div 255) + 4)"
    unfolding region_dom [OF d1] by (rule region_sub [OF dst(1)]) (use lim n in linarith)+
  ultimately obtain m2 where m2: "put_match_code m1 (k_dest k) (k_dest k + 4) ?R = Some (m2, k_dest k + 4 + int (length (match_header ?mc)))"
    and e2: "dom m2 = dom m1" "\<forall>x. x < k_dest k + 4 \<and> x \<noteq> k_dest k \<or> k_dest k + 4 + int (?mc div 255) + 4 \<le> x \<longrightarrow> m2 x = m1 x"
    using put_match_code_emitted [of m1 "k_dest k" 1 "k_dest k + 4" ?mc] by (auto simp: mc)
  have "m2 x = m x" if "x < k_dest k \<or> k_dest k + cap \<le> x" for x
    using that e2(2) f1 [of x] lim n by auto
  moreover have "\<not> (k_output k \<noteq> notLimited \<and> k_dest k + 10 + (?R + 240) div 255 > k_olimit k)"
    using k lim n by (auto simp: k_olimit_def)
  ultimately show ?thesis
    using m1 m2 d1 e2(1) s k count n
    by (auto simp: enc_next_match_def enc_match_length_def enc_fit_match_def enc_after_match_def enc_bounds add.commute [of "k_dest k"] Let_def)
qed


lemma run_last:
  assumes args: "run_args k m b cap" and s: "dom (e_mem s) = dom m"
    "e_anchor s = k_iend k - 5" "e_op s = k_dest k + 4 + int (length (match_header (nat (k_inputSize k) - 10)))"
  shows "\<exists>s'. enc_last_literals k s = Some (Finished (10 + int (length (match_header (nat (k_inputSize k) - 10)))), s')"
proof -
  let ?l = "length (match_header (nat (k_inputSize k) - 10))"
  have run: "run_of m (k_source k) (k_inputSize k) b" and n: "13 \<le> k_inputSize k" "k_inputSize k div 255 + 24 \<le> cap"
    and dst: "region m (k_dest k) (k_dest k + cap)" "k_source k + k_inputSize k \<le> k_dest k \<or> k_dest k + cap \<le> k_source k"
    and k: "k_output k \<noteq> fillOutput" "k_output k \<noteq> notLimited \<longrightarrow> k_maxOutputSize k = cap"
    using args by (simp_all add: run_args_def)
  have "int ?l \<le> k_inputSize k div 255 + 1"
    using zdiv_mono1 [of "k_inputSize k - 25" "k_inputSize k" 255] n
    by (auto simp: match_header_def length_ext_len zdiv_int of_nat_diff)
  then have room: "10 + int ?l \<le> cap"
    using n by linarith
  have last: "enc_last_run k s = Some 5"
    using room k s by (auto simp: enc_last_run_def enc_bounds)
  have "region (e_mem s) (e_op s) (e_op s + 1 + int (length (lit_header 5)))"
    unfolding region_dom [OF s(1)] by (rule region_sub [OF dst(1)]) (use room s in \<open>simp_all add: lit_header_def\<close>)
  from put_lit_header_emitted [OF this] obtain m1 where
    m1: "put_lit_header (e_mem s) (e_op s) (e_op s + 1) 5 = Some (m1, e_op s + 1)" and e1: "dom m1 = dom m"
    using s(1) by (auto simp: lit_header_def dest: emitted_dom)
  have "region m1 (e_anchor s) (e_anchor s + int 5)"
    unfolding region_dom [OF e1] by (rule run_region [OF run]) (use n s(2) in \<open>simp_all add: enc_bounds\<close>)
  moreover have "region m1 (e_op s + 1) (e_op s + 1 + int 5)"
    unfolding region_dom [OF e1] by (rule region_sub [OF dst(1)]) (use room s(3) in simp_all)
  moreover have "int 5 \<le> \<bar>e_op s + 1 - e_anchor s\<bar>"
    using dst(2) s(2,3) room n by (auto simp: enc_bounds)
  ultimately obtain m2 where m2: "LZ4_memcpy m1 (e_op s + 1) (e_anchor s) 5 = Some m2"
    using LZ4_memcpy_Some [of m1 "e_anchor s" 5 "e_op s + 1"] by auto
  show ?thesis
    unfolding enc_last_literals_def last option.case m1 Option.bind.bind_lunit prod.case
    using m2 s(3) by simp
qed

text \<open>The whole call.\<close>

lemma run_unfold: "enc_step k pc s = Some (pc', s') \<Longrightarrow> (\<And>r. pc \<noteq> Finished r) \<Longrightarrow> enc_run k pc s = enc_run k pc' s'"
  by (subst enc_run.simps) (cases pc; auto)

lemma constant_run:
  assumes args: "run_args k m b cap" and k: "k = enc_config ctx src dst n maxo out byU16 noDict noDictIssue 1"
    and ctx: "length (hashTable ctx) = LZ4_HASH_SIZE_U32"
  shows "\<exists>c m'. LZ4_compress_generic_validated m ctx src dst n maxo out byU16 noDict noDictIssue 1 =
    Some (10 + int (length (match_header (nat n - 10))), None, c, m')"
proof -
  have sel: "k_source k = src" "k_inputSize k = n" "k_output k = out"
    by (simp_all add: k enc_config_def)
  have n: "13 \<le> n" "out \<noteq> fillOutput"
    using args by (simp_all add: run_args_def sel)
  have "length (hashTable (e_ctx (enc_start k m (enc_enter ctx k)))) = LZ4_HASH_SIZE_U32"
    using ctx by (simp add: enc_start_def enc_enter_table)
  from run_search [OF args this refl] obtain s1 s2 s3 where
    s1: "enc_first_byte k (enc_start k m (enc_enter ctx k)) = Some s1" "enc_main_loop k s1 = Some (Search, s2)"
    "enc_search k s2 = Some (MatchFound, s3)" and s3: "e_mem s3 = m" "e_ip s3 = k_source k + 1" "e_anchor s3 = k_source k"
      "e_match s3 = k_source k" "e_lowLimit s3 = k_source k" "e_op s3 = k_dest k"
    by blast
  from run_literal [OF args s3] obtain s4 where s4: "enc_match_found k s3 = Some (NextMatch, s4)" 
    and i4: "dom (e_mem s4) = dom m" "\<forall>x. x < k_dest k \<or> k_dest k + cap \<le> x \<longrightarrow> e_mem s4 x = m x"
    "e_mem s4 (k_dest k) = Some (token_byte 1 0)"
    "e_ip s4 = k_source k + 1" "e_match s4 = k_source k" "e_token s4 = k_dest k" "e_op s4 = k_dest k + 2"
    by blast
  from run_match [OF args i4] obtain s5 where s5: "enc_next_match k s4 = Some (LastLiterals, s5)" "dom (e_mem s5) = dom m"
    "e_anchor s5 = k_iend k - 5" "e_op s5 = k_dest k + 4 + int (length (match_header (nat (k_inputSize k) - 10)))"
    by blast
  from run_last [OF args s5(2-4)] obtain s6 where
    s6: "enc_last_literals k s5 = Some (Finished (10 + int (length (match_header (nat n - 10)))), s6)"
    by (auto simp: sel)
  have "enc_run k MainLoop s1 = enc_run k (Finished (10 + int (length (match_header (nat n - 10))))) s6"
    using run_unfold [of k MainLoop s1] run_unfold [of k Search s2] run_unfold [of k MatchFound s3] run_unfold [of k NextMatch s4]
      run_unfold [of k LastLiterals s5] s1 s4 s5(1) s6 by simp
  then have "enc_run k MainLoop s1 = Some (10 + int (length (match_header (nat n - 10))), s6)"
    by (simp add: enc_run.simps)
  with s1(1) n show ?thesis
    unfolding LZ4_compress_generic_validated_def Let_def k [symmetric] by simp
qed

text \<open>\<open>LZ4_compress_default\<close> of equal bytes.\<close>

lemma compress_default_constant:
  assumes run: "run_of m src n b" and n: "13 \<le> n" "n < LZ4_64Klimit" and cap: "n div 255 + 24 \<le> cap"
    and dst: "region m dst (dst + cap)" and sep: "src + n \<le> dst \<or> dst + cap \<le> src"
  shows "\<exists>m'. LZ4_compress_default m src dst n cap = Some (10 + int (length (match_header (nat n - 10))), m')"
proof -
  have n': "U32 n = n" "LZ4_compressBound n = n + n div 255 + 16"
    using n by (simp_all add: compressBound_pos U32_def)
  have args: "run_args (enc_config zero_ctx src dst n maxo out byU16 noDict noDictIssue 1) m b cap"
    if "out = notLimited \<or> out = limitedOutput \<and> maxo = cap" for maxo out
    using assms that by (auto simp: run_args_def enc_config_def zero_ctx_def)
  have gen: "\<exists>c m'. LZ4_compress_generic m zero_ctx src dst n maxo out byU16 noDict noDictIssue 1 =
    Some (10 + int (length (match_header (nat n - 10))), None, c, m')" 
    if "out = notLimited \<or> out = limitedOutput \<and> maxo = cap" for maxo out
    using constant_run [OF args [OF that] refl] n n' by (simp add: LZ4_compress_generic_def LZ4_MAX_INPUT_SIZE_def zero_ctx_def)
  show ?thesis
    using gen [of notLimited 0] gen [of limitedOutput cap] n
    by (auto simp: LZ4_compress_default_def LZ4_compress_fast_def LZ4_compress_fast_extState_def initStream_local clamp_acceleration_def)
qed


section \<open>A page of equal bytes\<close>

lemma Compress_constant:
  assumes "b \<noteq> 0"
  shows "\<exists>blk. Compress (Some (replicate FLASH_PAGE_SIZE b)) = Some blk \<and> \<not> is_zero_block blk \<and> is_compressed blk \<and>
    compressed_size blk = 26 \<and> length (data blk) = FLASH_PAGE_SIZE"
proof -
  let ?p = "replicate FLASH_PAGE_SIZE b" and ?m = "two_buffers 4096 (replicate FLASH_PAGE_SIZE b) 65536 (data new_CompressedBlock)"
  have "hd ?p \<noteq> 0"
    using assms by (subst hd_replicate) simp_all
  then have nz: "?p \<noteq> replicate FLASH_PAGE_SIZE 0"
    by (metis hd_replicate zero_neq_numeral)
  have d: "length (data new_CompressedBlock) = FLASH_PAGE_SIZE" "length ?p = FLASH_PAGE_SIZE"
    by (simp_all add: new_CompressedBlock_def)
  have args: "encode_args ?m 4096 4096 65536 4096"
    by (rule page_args(2) [OF d(2,1)])
  have "run_of ?m 4096 4096 b"
    using d by (auto simp: run_of_def two_buffers_def put_apply)
  moreover have "region ?m 65536 (65536 + 4096)"
    using args by (simp add: encode_args_def mapped_region)
  ultimately obtain m' where run: "LZ4_compress_default ?m 4096 65536 4096 4096 = Some (26, m')"
    using compress_default_constant [of ?m 4096 4096 b 4096 65536] by (auto simp: match_header_def length_ext_len)
  show ?thesis
    unfolding Compress_def option.case Let_def zero_words_page [OF d(2)] Option.bind.bind_lunit if_not_P [OF nz] run prod.case
    by (simp add: new_CompressedBlock_def)
qed

section \<open>Property\<close>

text \<open>C38: Equal bytes are compressed. \<open>LZ4_compress_default\<close> turns 13 to 65546 equal bytes into a legal block for
  them of 10 bytes, or of 11 bytes and one for each 255 bytes from the 25th on: one literal, one match that
  overlaps itself, and the last five literals. The output has to have room for the number of bytes over 255, and 24.\<close>

theorem LZ4_compress_default_runs:
  assumes args: "encode_args m src n dst cap" and run: "bytes m src (nat n) = replicate (nat n) b"
    and n: "13 \<le> n" "n < LZ4_64Klimit" and cap: "n div 255 + 24 \<le> cap"
  shows "\<exists>r m'. LZ4_compress_default m src dst n cap = Some (r, m') \<and>
    r = (if n < 25 then 10 else 11 + (n - 25) div 255) \<and> legal_block (bytes m' dst (nat r)) (replicate (nat n) b)"
proof -
  have regs: "region m src (src + n)" "region m dst (dst + cap)" "src + n \<le> dst \<or> dst + cap \<le> src"
    using args n by (auto simp: encode_args_def mapped_region)
  have "m x = Some b" if x: "src \<le> x" "x < src + n" for x
  proof -
    obtain c where "m x = Some c"
      using region_Some [OF regs(1) x] by blast
    moreover have "the (m (src + int (nat (x - src)))) = b"
      using arg_cong [OF run, of "\<lambda>xs. xs ! nat (x - src)"] x by simp
    ultimately show ?thesis
      using x by simp
  qed
  then have "run_of m src n b"
    by (simp add: run_of_def)
  from compress_default_constant [OF this n cap regs(2,3)] obtain m' where
    m': "LZ4_compress_default m src dst n cap = Some (10 + int (length (match_header (nat n - 10))), m')"
    by blast
  have size: "10 + int (length (match_header (nat n - 10))) = (if n < 25 then 10 else 11 + (n - 25) div 255)"
    using n by (auto simp: match_header_def length_ext_len zdiv_int of_nat_diff)
  have "legal_block (bytes m' dst (nat (10 + int (length (match_header (nat n - 10)))))) (replicate (nat n) b)"
    using compress_fast_call [OF args, of 1] m' run by (auto simp: LZ4_compress_default_def encoded_def legal_block_iff)
  with m' size show ?thesis
    by simp
qed

theorem LZ4_compress_default_runs_witness:
  "\<exists>m'. LZ4_compress_default (two_buffers 4096 (replicate 1000 7) 65536 (replicate 30 0)) 4096 65536 1000 30 = Some (14, m') \<and>
    legal_block (bytes m' 65536 14) (replicate 1000 7)"
proof -
  let ?m = "two_buffers 4096 (replicate 1000 7) 65536 (replicate 30 0)"
  have "decode_args ?m 4096 1000 65536 30 0"
    by (rule two_buffers_args) simp_all
  then have "encode_args ?m 4096 1000 65536 30"
    by (simp add: decode_args_def encode_args_def)
  moreover have "bytes ?m 4096 (nat 1000) = replicate (nat 1000) 7"
    using two_buffers_bytes(1) [of 4096 "replicate 1000 7" 65536 "replicate 30 0"] by simp
  ultimately show ?thesis
    using LZ4_compress_default_runs [of ?m 4096 1000 65536 30 7] by simp
qed
end
