(* ===== verification/Ftl_Device.thy ===== *)
theory Ftl_Device
  imports Ftl_Pages Lz4_Runs
begin

text \<open>
  A device of three blocks of three pages with four addresses, and four writes to it that fill its first block: a full page, two
  pages that share one, and the first page again. The states after them are computed, and the garbage collection
  that comes next. The properties in \<open>Ftl_Runs\<close> are applied to this run.
\<close>

section \<open>The states\<close>

definition gc_cfg :: FlashConfig where
  "gc_cfg = default_FlashConfig\<lparr>pages_per_block := 3, total_blocks := 3\<rparr>"
lemma gc_cfg_sel [simp]:
  "page_size_bytes gc_cfg = FLASH_PAGE_SIZE" "pages_per_block gc_cfg = 3" "total_blocks gc_cfg = 3"
  "prog_latency_us gc_cfg = 800" "read_latency_us gc_cfg = 50" "erase_latency_us gc_cfg = 3500"
  by (simp_all add: gc_cfg_def default_FlashConfig_def)

lemma four: "replicate 4 x = [x, x, x, x]"
  by (simp add: numeral_eq_Suc)

text \<open>The device while its first block is filled: the pages of the block and which of them are valid, the number of invalid
  ones, the table, the owners, the staged half page, the pages programmed, and the counts of packed and raw pages and of writes.\<close>

definition gc_state ::
  "PhysicalPage list \<Rightarrow> bool list \<Rightarrow> 32 word \<Rightarrow> MappingEntry list \<Rightarrow> PageOwner list list \<Rightarrow> StagedHalfPage option \<Rightarrow>
   nat \<Rightarrow> nat \<Rightarrow> nat \<Rightarrow> FTLController" where
  "gc_state ps vs stale tab own st packs raws writes =
     \<lparr>flash = \<lparr>config = gc_cfg,
        blocks = [\<lparr>erase_count = 0, free_page_idx = 0, invalid_page_count = stale, pages = ps, page_valid = vs\<rparr>,
          new_FlashBlock 3, new_FlashBlock 3],
        total_pages_programmed = of_nat (packs + raws), total_pages_read = 0, total_blocks_erased = 0,
        simulated_time_us = 800 * of_nat (packs + raws)\<rparr>,
      lba_table = tab, active_block_idx = 0, active_page_idx = packs + raws, reserve_block_idx = 1, staged_half = st,
      block_page_owners = [own, [[], [], []], [[], [], []]], host_writes = of_nat writes, host_reads = 0, zero_blocks = 0,
      half_page_packs = of_nat packs, raw_full_pages = of_nat raws, gc_count = 0, gc_migrated_pages = 0\<rparr>"

definition full_page :: "byte list \<Rightarrow> PhysicalPage" where
  "full_page d = \<lparr>is_programmed = True, page_data = d\<rparr>"

definition raw_at :: "32 word \<Rightarrow> MappingEntry" where
  "raw_at p = \<lparr>m_state = RAW_FULL_PAGE, m_block_idx = 0, m_page_idx = p, m_sub_slot = 0, m_compressed_size = 4096\<rparr>"

definition half_at :: "32 word \<Rightarrow> 8 word \<Rightarrow> MappingEntry" where
  "half_at p sub = \<lparr>m_state = COMPRESSED_HALF_PAGE, m_block_idx = 0, m_page_idx = p, m_sub_slot = sub, m_compressed_size = 26\<rparr>"

definition owner :: "nat \<Rightarrow> 8 word \<Rightarrow> PageOwner" where
  "owner l sub = \<lparr>o_lba = l, o_sub_slot = sub\<rparr>"

definition half_of :: "byte list \<Rightarrow> byte list" where
  "half_of d = take 26 d @ replicate 2022 0"

abbreviation gc_state0 :: FTLController where
  "gc_state0 \<equiv> gc_state (replicate 3 new_PhysicalPage) [False, False, False] 0 (replicate 4 new_MappingEntry) [[], [], []] None 0 0 0"

abbreviation gc_state1 :: "byte list \<Rightarrow> FTLController" where
  "gc_state1 a \<equiv> gc_state [full_page a, new_PhysicalPage, new_PhysicalPage] [True, False, False] 0
     (raw_at 0 # replicate 3 new_MappingEntry) [[owner 0 0], [], []] None 0 1 1"

abbreviation gc_state2 :: "byte list \<Rightarrow> byte list \<Rightarrow> FTLController" where
  "gc_state2 a x \<equiv> gc_state [full_page a, new_PhysicalPage, new_PhysicalPage] [True, False, False] 0
     (raw_at 0 # replicate 3 new_MappingEntry) [[owner 0 0], [], []]
     (Some \<lparr>st_lba = 1, st_comp_size = 26, st_data = half_of x\<rparr>) 0 1 2"

abbreviation gc_state3 :: "byte list \<Rightarrow> byte list \<Rightarrow> byte list \<Rightarrow> FTLController" where
  "gc_state3 a x y \<equiv> gc_state [full_page a, full_page (half_of x @ half_of y), new_PhysicalPage] [True, True, False] 0
     [raw_at 0, half_at 1 0, half_at 1 1, new_MappingEntry] [[owner 0 0], [owner 1 0, owner 2 1], []] None 1 1 3"

abbreviation gc_state4 :: "byte list \<Rightarrow> byte list \<Rightarrow> byte list \<Rightarrow> byte list \<Rightarrow> FTLController" where
  "gc_state4 a x y b \<equiv> gc_state [full_page a, full_page (half_of x @ half_of y), full_page b] [False, True, True] 1
     [raw_at 2, half_at 1 0, half_at 1 1, new_MappingEntry] [[owner 0 0], [owner 1 0, owner 2 1], [owner 0 0]] None 1 2 4"

lemma gc_new: "new_FTLController 16384 gc_cfg = gc_state0"
proof -
  have "(16384 + FLASH_PAGE_SIZE - 1) mod 2 ^ 64 div FLASH_PAGE_SIZE = 4"
    by simp
  then show ?thesis
    unfolding new_FTLController_def new_FlashModel_def gc_state_def by (simp add: three four new_FlashBlock_def)
qed

lemma gc_state_sel:
  "GetTotalLBAs (gc_state ps vs stale tab own st packs raws writes) = length tab"
  "active_page_idx (gc_state ps vs stale tab own st packs raws writes) = packs + raws"
  "GetPagesPerBlock (flash (gc_state ps vs stale tab own st packs raws writes)) = 3"
  "lba_table (gc_state ps vs stale tab own st packs raws writes) = tab"
  "reserve_ready (gc_state ps vs stale tab own st packs raws writes)"
  by (simp_all add: gc_state_def GetTotalLBAs_def GetPagesPerBlock_def reserve_ready_def content_def in_flash_def
      page_at_def new_FlashBlock_def new_page)

section \<open>The writes\<close>

lemma raw_len: "raw_page a \<Longrightarrow> length a = FLASH_PAGE_SIZE"
  by (simp add: raw_page_def)

lemma full_page_alt: "new_PhysicalPage\<lparr>is_programmed := True, page_data := d\<rparr> = full_page d"
  by (simp add: new_PhysicalPage_def full_page_def)

lemma half_length: "length d = FLASH_PAGE_SIZE \<Longrightarrow> length (half_of d) = 2048"
  by (simp add: half_of_def)

lemma half_copies:
  assumes "length d = FLASH_PAGE_SIZE"
  shows "array_copy (replicate 2048 0) 0 d 0 26 = Some (half_of d)"
    and "array_copy (replicate FLASH_PAGE_SIZE 0) 0 (half_of d) 0 2048 = Some (half_of d @ replicate 2048 0)"
    and "length e = FLASH_PAGE_SIZE \<Longrightarrow>
      array_copy (half_of d @ replicate 2048 0) 2048 e 0 26 = Some (half_of d @ half_of e)"
    and "length e = FLASH_PAGE_SIZE \<Longrightarrow> length p = FLASH_PAGE_SIZE \<Longrightarrow>
      array_copy p 0 (half_of d @ half_of e) 0 FLASH_PAGE_SIZE = Some (half_of d @ half_of e)"
  using assms by (simp_all add: half_of_def array_copy_def)

text \<open>A page that the compressor makes 26 bytes of, with the data of its block.\<close>

definition packs_as :: "byte list \<Rightarrow> byte list \<Rightarrow> bool" where
  "packs_as page d \<longleftrightarrow> length page = FLASH_PAGE_SIZE \<and> length d = FLASH_PAGE_SIZE \<and>
     (\<exists>blk. Compress (Some page) = Some blk \<and> \<not> is_zero_block blk \<and> is_compressed blk \<and>
       compressed_size blk = 26 \<and> data blk = d)"

lemma constant_packs: "b \<noteq> 0 \<Longrightarrow> \<exists>d. packs_as (replicate FLASH_PAGE_SIZE b) d"
  using Compress_constant [of b] by (auto simp: packs_as_def)

lemma WriteBlock_packs:
  assumes "packs_as page d" and lba: "lba < length (lba_table c)"
  shows "WriteBlock c lba (Some page) =
    (case staged_half (forget_old lba (c\<lparr>host_writes := host_writes c + 1\<rparr>)) of
       Some st \<Rightarrow>
          do { buf \<leftarrow> array_copy (replicate FLASH_PAGE_SIZE 0) 0 (st_data st) 0 2048;
               buf \<leftarrow> array_copy buf 2048 d 0 26;
               c \<leftarrow> make_room (forget_old lba (c\<lparr>host_writes := host_writes c + 1\<rparr>));
               c \<leftarrow> program_active buf c;
               c \<leftarrow> map_active (st_lba st) COMPRESSED_HALF_PAGE 0 (st_comp_size st) c;
               c \<leftarrow> map_active lba COMPRESSED_HALF_PAGE 1 26 c;
               c \<leftarrow> push_owner (st_lba st) 0 c;
               c \<leftarrow> push_owner lba 1 c;
               Some (True, c\<lparr>half_page_packs := half_page_packs c + 1, staged_half := None,
                       active_page_idx := active_page_idx c + 1\<rparr>) }
     | None \<Rightarrow>
          do { d \<leftarrow> array_copy (replicate 2048 0) 0 d 0 26;
               Some (True, (forget_old lba (c\<lparr>host_writes := host_writes c + 1\<rparr>))\<lparr>staged_half :=
                 Some \<lparr>st_lba = lba, st_comp_size = 26, st_data = d\<rparr>\<rparr>) })"
proof -
  from assms(1) obtain blk where blk: "Compress (Some page) = Some blk" "\<not> is_zero_block blk" "data blk = d"
    "compressed_size blk = 26"
    by (auto simp: packs_as_def)
  show ?thesis
    unfolding WriteBlock_def Let_def blk(1) Option.bind.bind_lunit using lba blk(2)
    by (simp add: blk(3,4) write_half_def Option.bind_assoc split: option.split)
qed

lemmas gc_defs = run_defs three four new_FlashBlock_def new_MappingEntry_def ReadPage_def repoint_def
  new_page whole_page_copy half_length half_copies fill_page full_page_alt gc_state_def raw_at_def half_at_def owner_def

lemma gc_writes:
  assumes a: "raw_page a" and b: "raw_page b" and x: "packs_as p x" and y: "packs_as q y"
  shows "WriteBlock gc_state0 0 (Some a) = Some (True, gc_state1 a)"
    "WriteBlock (gc_state1 a) 1 (Some p) = Some (True, gc_state2 a x)"
    "WriteBlock (gc_state2 a x) 2 (Some q) = Some (True, gc_state3 a x y)"
    "WriteBlock (gc_state3 a x y) 0 (Some b) = Some (True, gc_state4 a x y b)"
proof -
  have len: "length a = FLASH_PAGE_SIZE" "length b = FLASH_PAGE_SIZE" "length x = FLASH_PAGE_SIZE" "length y = FLASH_PAGE_SIZE"
    using assms by (simp_all add: raw_page_def packs_as_def)
  note sims = gc_defs WriteBlock_raw [OF a] WriteBlock_raw [OF b] WriteBlock_packs [OF x] WriteBlock_packs [OF y] len
  show "WriteBlock gc_state0 0 (Some a) = Some (True, gc_state1 a)"
    by (simp add: sims del: array_copy_Some array_fill_Some)
  show "WriteBlock (gc_state1 a) 1 (Some p) = Some (True, gc_state2 a x)"
    by (simp add: sims del: array_copy_Some array_fill_Some)
  show "WriteBlock (gc_state2 a x) 2 (Some q) = Some (True, gc_state3 a x y)"
    by (simp add: sims del: array_copy_Some array_fill_Some)
  show "WriteBlock (gc_state3 a x y) 0 (Some b) = Some (True, gc_state4 a x y b)"
    by (simp add: sims del: array_copy_Some array_fill_Some)
qed

text \<open>The collection, on its own and as part of a fifth write.\<close>

lemma gc_collects:
  assumes a: "raw_page a" and b: "raw_page b" and x: "packs_as p x" and y: "packs_as q y"
  shows "map_option (\<lambda>c. (gc_count c, gc_migrated_pages c)) (RunGarbageCollectionIfNeeded (gc_state4 a x y b)) = Some (1, 2)"
    and "map_option (\<lambda>(r, c). (gc_count c, gc_migrated_pages c, length (lba_table c))) (WriteBlock (gc_state4 a x y b) 3 (Some a)) =
      Some (1, 2, 4)"
proof -
  have len: "length a = FLASH_PAGE_SIZE" "length b = FLASH_PAGE_SIZE" "length x = FLASH_PAGE_SIZE" "length y = FLASH_PAGE_SIZE"
    using assms by (simp_all add: raw_page_def packs_as_def)
  have sel: "is_programmed (full_page d)" "page_data (full_page d) = d" for d
    by (simp_all add: full_page_def)
  note sims = gc_defs ReadPage_def repoint_def sel WriteBlock_raw [OF a] len
  show "map_option (\<lambda>c. (gc_count c, gc_migrated_pages c)) (RunGarbageCollectionIfNeeded (gc_state4 a x y b)) = Some (1, 2)"
    by (simp add: sims del: array_copy_Some array_fill_Some)
  show "map_option (\<lambda>(r, c). (gc_count c, gc_migrated_pages c, length (lba_table c))) (WriteBlock (gc_state4 a x y b) 3 (Some a)) =
      Some (1, 2, 4)"
    by (simp add: sims del: array_copy_Some array_fill_Some)
qed

section \<open>Addresses that share no page\<close>

lemma alone_off: "\<not> on_flash (lba_table c ! lba) \<Longrightarrow> alone c lba"
  by (simp add: alone_def placed_def)

lemma alone_first:
  assumes "lba_table c = e # es" and "list_all (\<lambda>e'. on_flash e' \<longrightarrow> m_page_idx e' \<noteq> m_page_idx e) es"
  shows "alone c 0"
  using assms unfolding alone_def placed_def list_all_length
  by (auto simp: nth_Cons split: nat.splits) (metis word_unat_eq_iff)

abbreviation gc_map :: "byte list \<Rightarrow> byte list \<Rightarrow> byte list \<Rightarrow> byte list \<Rightarrow> nat \<Rightarrow> byte list" where
  "gc_map a p q b \<equiv> (\<lambda>_. replicate FLASH_PAGE_SIZE 0)(0 := a, 1 := p, 2 := q, 0 := b)"

lemma gc_geometry: "geometry_ok gc_cfg"
  by (simp add: geometry_ok_def)
end
