(* ===== verification/Ftl_Runs.thy ===== *)
theory Ftl_Runs
  imports Ftl_Device
begin

text \<open>
  Runs of host operations on the flash translation layer with the map the host has written, and
  the properties of reads, writes and garbage collection that follow from the simulation in
  \<open>Ftl_Reads\<close>.
\<close>

section \<open>Pages that read back compressed\<close>

text \<open>A page that is compressed to more than half a page is programmed as its compressed form, and a read returns
  that: for such a page \<open>kept_page\<close> is the compressed block, for every other page the page.\<close>

definition three_quarter :: "byte list \<Rightarrow> bool" where
  "three_quarter page \<longleftrightarrow>
     (case Compress (Some page) of None \<Rightarrow> False
      | Some blk \<Rightarrow> \<not> is_zero_block blk \<and> is_compressed blk \<and> 2048 < unat (compressed_size blk))"

lemma kept_page_plain: "\<not> three_quarter page \<Longrightarrow> kept_page page = page"
  by (auto simp: three_quarter_def kept_page_def split: option.splits)

lemma kept_page_block:
  assumes "length page = FLASH_PAGE_SIZE" and "three_quarter page"
  shows "\<exists>n. 2048 < n \<and> n < 3072 \<and> legal_block (take n (kept_page page)) page"
proof -
  from Compress_stores [OF assms(1)] obtain blk where
    blk: "Compress (Some page) = Some blk" "block_stores blk page"
    by blast
  with assms(2) have q: "\<not> is_zero_block blk" "is_compressed blk" "2048 < unat (compressed_size blk)"
    by (simp_all add: three_quarter_def)
  with blk have "kept_page page = data blk" "legal_block (take (unat (compressed_size blk)) (data blk)) page"
    "unat (compressed_size blk) < 3072"
    by (simp_all add: kept_page_def block_stores_def)
  with q(3) show ?thesis
    by auto
qed

lemma kept_page_zero: "kept_page (replicate FLASH_PAGE_SIZE 0) = replicate FLASH_PAGE_SIZE 0"
  using Compress_stores [of "replicate FLASH_PAGE_SIZE 0"] by (auto simp: kept_page_def)

lemma packs_plain: "packs_as page d \<Longrightarrow> \<not> three_quarter page"
  by (auto simp: packs_as_def three_quarter_def)

lemma raw_page_plain: "raw_page page \<Longrightarrow> \<not> three_quarter page"
  by (auto simp: raw_page_def three_quarter_def split: option.splits)

text \<open>What the controller stores for the pages the host has written.\<close>

definition kept_pages :: "(nat \<Rightarrow> byte list) \<Rightarrow> nat \<Rightarrow> byte list" where
  "kept_pages M l = kept_page (M l)"

lemma kept_pages_upd: "kept_pages (M(lba := page)) = (kept_pages M)(lba := kept_page page)"
  by (auto simp: kept_pages_def)

lemma kept_pages_new: "kept_pages (\<lambda>_. replicate FLASH_PAGE_SIZE 0) = (\<lambda>_. replicate FLASH_PAGE_SIZE 0)"
  by (rule ext) (simp add: kept_pages_def kept_page_zero)

section \<open>Runs\<close>

lemma represents_new:
  assumes "geometry_ok cfg"
  shows "represents k (new_FTLController cap cfg) (\<lambda>_. replicate FLASH_PAGE_SIZE 0)"
    and "active_free (new_FTLController cap cfg)" and "reserve_ready (new_FTLController cap cfg)"
    and "space True (new_FTLController cap cfg) \<or> pages_per_block cfg = 1"
proof -
  let ?c = "new_FTLController cap cfg"
  have sel: "flash ?c = new_FlashModel cfg" "staged_half ?c = None" "active_block_idx ?c = 0" "active_page_idx ?c = 0"
    "reserve_block_idx ?c = 1" "config (new_FlashModel cfg) = cfg"
    by (simp_all add: new_FTLController_def new_FlashModel_def)
  have entry: "l < length (lba_table ?c) \<Longrightarrow> lba_table ?c ! l = new_MappingEntry" for l
    by (simp add: new_FTLController_def)
  have off: "\<not> on_flash new_MappingEntry"
    by (simp add: on_flash_def new_MappingEntry_def)
  then have none: "\<not> placed ?c l b p" for l b p
    using entry by (auto simp: placed_def)
  have invalid: "\<not> IsPageValid (new_FlashModel cfg) b p" for b p
    by (auto simp: IsPageValid_def new_FlashModel_def new_FlashBlock_def split: if_splits)
  have "holds_data {} ?c (\<lambda>_. replicate FLASH_PAGE_SIZE 0)"
    using entry off by (simp add: holds_data_def entry_stands_def stores_def)
  moreover have "books {} ?c"
    by (rule booksI)
      (use none invalid sel in \<open>auto simp: in_flash_def new_FTLController_def\<close>)
  ultimately show "represents k ?c (\<lambda>_. replicate FLASH_PAGE_SIZE 0)"
    by (simp add: represents_def tracks_def staged_set_def staged_stands_def sel)
  show "active_free ?c" "reserve_ready ?c"
    by (simp_all add: active_free_def reserve_ready_def sel content_new)
  show "space True ?c \<or> pages_per_block cfg = 1"
    using assms by (auto simp: space_def geometry_ok_def GetPagesPerBlock_def sel)
qed

lemma FlushStagedWrites_represents:
  assumes run: "FlushStagedWrites c = Some c'" and rep: "represents k c M" and ok: "ftl_ok c"
    and free: "active_free c" and room: "has_room c \<or> k \<and> reserve_ready c"
  shows "ftl_ok c' \<and> represents k c' M \<and> active_free c'"
proof -
  have "tracks k ({} \<union> staged_set c) c M" "staged_stands c M" "{} \<inter> staged_set c = {}"
    using rep by (simp_all add: represents_def)
  from Flush_represents [OF run ok free this room] show ?thesis
    by (simp add: represents_def staged_set_def staged_stands_def)
qed

text \<open>The controllers the host can reach, with what it has written. Every write finds space, and does
  not hit one of two blocks packed on a page.\<close>

inductive ftl_runs :: "nat \<Rightarrow> FlashConfig \<Rightarrow> FTLController \<Rightarrow> (nat \<Rightarrow> byte list) \<Rightarrow> bool" for cap cfg where
  start: "ftl_runs cap cfg (new_FTLController cap cfg) (\<lambda>_. replicate FLASH_PAGE_SIZE 0)"
| written: "ftl_runs cap cfg c M \<Longrightarrow> space True c \<Longrightarrow> alone c lba \<Longrightarrow> lba < GetTotalLBAs c \<Longrightarrow>
    length page = FLASH_PAGE_SIZE \<Longrightarrow> WriteBlock c lba (Some page) = Some (r, c') \<Longrightarrow>
    ftl_runs cap cfg c' (M(lba := page))"
| was_read: "ftl_runs cap cfg c M \<Longrightarrow> lba < GetTotalLBAs c \<Longrightarrow> length dest = FLASH_PAGE_SIZE \<Longrightarrow>
    ReadBlock c lba (Some dest) = Some (r, d, c') \<Longrightarrow> ftl_runs cap cfg c' M"
| flushed: "ftl_runs cap cfg c M \<Longrightarrow> space True c \<Longrightarrow> FlushStagedWrites c = Some c' \<Longrightarrow> ftl_runs cap cfg c' M"

lemma ftl_runs_represents:
  assumes "ftl_runs cap cfg c M" and geo: "geometry_ok cfg"
  shows "ftl_ok c \<and> represents True c (kept_pages M) \<and> active_free c \<and> (\<forall>l. length (M l) = FLASH_PAGE_SIZE)"
  using assms(1)
proof induction
  case start
  with ftl_ok_new [OF geo] represents_new [OF geo] show ?case
    by (simp add: kept_pages_new)
next
  case (written c M lba page r c')
  with WriteBlock_represents [of True c "kept_pages M" lba page] show ?case
    by (auto simp: GetTotalLBAs_def kept_pages_upd simp del: fun_upd_apply) (simp add: written.hyps)
next
  case (was_read c M lba dest r d c')
  then obtain f where c': "c' = c\<lparr>flash := f, host_reads := host_reads c + 1\<rparr>" "represents True c' (kept_pages M)"
    "content f = content (flash c)"
    using ReadBlock_represents [of True c "kept_pages M" lba dest] by (auto simp: GetTotalLBAs_def)
  moreover have "ftl_ok c'"
    using was_read ReadBlock_ok [of c dest lba] by auto
  ultimately show ?case
    using was_read.IH by (simp add: active_free_def)
next
  case (flushed c M c')
  then show ?case
    using FlushStagedWrites_represents [of c c' True "kept_pages M"] by (auto simp: space_def has_room_def)
qed

text \<open>The first writes to a device: each adds at most one page to the active block, the staged half
  page included.\<close>

inductive ftl_first :: "nat \<Rightarrow> FlashConfig \<Rightarrow> nat \<Rightarrow> FTLController \<Rightarrow> (nat \<Rightarrow> byte list) \<Rightarrow> bool" for cap cfg where
  start: "ftl_first cap cfg 0 (new_FTLController cap cfg) (\<lambda>_. replicate FLASH_PAGE_SIZE 0)"
| written: "ftl_first cap cfg n c M \<Longrightarrow> lba < GetTotalLBAs c \<Longrightarrow> length page = FLASH_PAGE_SIZE \<Longrightarrow>
    WriteBlock c lba (Some page) = Some (r, c') \<Longrightarrow> ftl_first cap cfg (Suc n) c' (M(lba := page))"
| was_read: "ftl_first cap cfg n c M \<Longrightarrow> lba < GetTotalLBAs c \<Longrightarrow> length dest = FLASH_PAGE_SIZE \<Longrightarrow>
    ReadBlock c lba (Some dest) = Some (r, d, c') \<Longrightarrow> ftl_first cap cfg n c' M"
| flushed: "ftl_first cap cfg n c M \<Longrightarrow> FlushStagedWrites c = Some c' \<Longrightarrow> ftl_first cap cfg n c' M"

definition used_pages :: "FTLController \<Rightarrow> nat" where
  "used_pages c = active_page_idx c + (if staged_half c = None then 0 else 1)"

lemmas active_step_defs = program_active_def map_active_def push_owner_def set_entry_def set_owners_def Let_def

lemma active_steps_keep:
  "program_active buf c = Some c' \<Longrightarrow> active_page_idx c' = active_page_idx c \<and> staged_half c' = staged_half c"
  "map_active lba st sub n c = Some c' \<Longrightarrow> active_page_idx c' = active_page_idx c \<and> staged_half c' = staged_half c"
  "push_owner lba sub c = Some c' \<Longrightarrow> active_page_idx c' = active_page_idx c \<and> staged_half c' = staged_half c"
  by (auto simp: active_step_defs split: bind_splits if_splits)

lemma Flush_pages:
  assumes "FlushStagedWrites c = Some c'" and "has_room c"
  shows "active_page_idx c' = used_pages c \<and> staged_half c' = None"
proof (cases "staged_half c")
  case None
  with assms show ?thesis
    by (simp add: FlushStagedWrites_def used_pages_def)
next
  case (Some st)
  with assms show ?thesis
    by (auto simp: FlushStagedWrites_def used_pages_def make_room_id split: bind_splits dest!: active_steps_keep)
qed

lemma write_half_pages:
  assumes "write_half lba blk c = Some c'" and "has_room c"
  shows "used_pages c' = Suc (active_page_idx c)"
proof (cases "staged_half c")
  case None
  with assms show ?thesis
    by (auto simp: write_half_def used_pages_def split: bind_splits)
next
  case (Some st)
  with assms show ?thesis
    by (auto simp: write_half_def used_pages_def make_room_id split: bind_splits dest!: active_steps_keep)
qed

lemma write_raw_pages:
  assumes run: "write_raw lba blk c = Some c'" and "used_pages c < GetPagesPerBlock (flash c)" and ok: "ftl_ok c"
  shows "used_pages c' = Suc (used_pages c)"
proof -
  have room: "has_room c"
    using assms(2) by (auto simp: has_room_def used_pages_def split: if_splits)
  from run obtain c1 where c1: "(if staged_half c \<noteq> None then FlushStagedWrites c else Some c) = Some c1"
    by (auto simp: write_raw_def split: bind_splits)
  then have "FlushStagedWrites c = Some c1"
    by (auto simp: FlushStagedWrites_def split: if_splits)
  with Flush_pages [OF _ room] Flush_ok [OF ok] have c1': "active_page_idx c1 = used_pages c" "staged_half c1 = None" "kept c c1"
    by auto
  then have "has_room c1"
    using assms(2) kept_geometry [of c c1] by (simp add: has_room_def)
  with run c1 c1' show ?thesis
    by (auto simp: write_raw_def used_pages_def make_room_id split: bind_splits dest!: active_steps_keep)
qed

lemma WriteBlock_pages:
  assumes run: "WriteBlock c lba (Some page) = Some (r, c')" and ok: "ftl_ok c" and lba: "lba < length (lba_table c)"
    and room: "used_pages c < GetPagesPerBlock (flash c)"
  shows "used_pages c' \<le> Suc (used_pages c)"
proof -
  define c1 where "c1 = forget_old lba (c\<lparr>host_writes := host_writes c + 1\<rparr>)"
  note ok1 = forget_old_ok [OF ftl_ok_counter(1) [OF ok, of "host_writes c + 1"], of lba, folded c1_def]
  have idx: "active_page_idx c1 = active_page_idx c"
    by (simp add: c1_def forget_old_def Let_def split: option.split)
  then have u: "used_pages c1 \<le> used_pages c"
    using ok1(3) by (cases "staged_half c1") (auto simp: used_pages_def)
  have geo: "GetPagesPerBlock (flash c1) = GetPagesPerBlock (flash c)" "lba < length (lba_table c1)"
    using kept_geometry [OF ok1(2)] ok1(2) lba by (simp_all add: kept_def)
  have room1: "has_room c1" and u1: "active_page_idx c1 \<le> used_pages c1"
    using room u geo by (auto simp: has_room_def used_pages_def split: if_splits)
  obtain blk where blk: "Compress (Some page) = Some blk"
    and run1: "(if is_zero_block blk then
          do { c \<leftarrow> set_entry lba (\<lambda>e. e\<lparr>m_state := MappingState.SPARSE_ZERO, m_compressed_size := 0\<rparr>) c1;
               Some (True, c\<lparr>zero_blocks := zero_blocks c + 1\<rparr>) }
        else if compressed_size blk \<le> 2048 then do { c \<leftarrow> write_half lba blk c1; Some (True, c) }
        else do { c \<leftarrow> write_raw lba blk c1; Some (True, c) }) = Some (r, c')"
    using run lba unfolding WriteBlock_def Let_def c1_def by (auto split: bind_splits)
  consider "is_zero_block blk" | "write_half lba blk c1 = Some c'" | "write_raw lba blk c1 = Some c'"
    using run1 by (auto split: if_splits bind_splits)
  then show ?thesis
  proof cases
    case 1
    with run1 geo(2) have "used_pages c' = used_pages c1"
      by (auto simp: set_entry_def used_pages_def)
    with u show ?thesis by simp
  next
    case 2
    from write_half_pages [OF this room1] u1 u show ?thesis
      by simp
  next
    case 3
    have "used_pages c1 < GetPagesPerBlock (flash c1)"
      using room u geo by simp
    from write_raw_pages [OF 3 this ok1(1)] u show ?thesis
      by simp
  qed
qed

lemma ftl_first_represents:
  assumes "ftl_first cap cfg n c M" and geo: "geometry_ok cfg" and "n < pages_per_block cfg"
  shows "ftl_ok c \<and> represents False c (kept_pages M) \<and> active_free c \<and> used_pages c \<le> n \<and>
    GetPagesPerBlock (flash c) = pages_per_block cfg \<and> (\<forall>l. length (M l) = FLASH_PAGE_SIZE)"
  using assms(1,3)
proof induction
  case start
  with ftl_ok_new [OF geo] represents_new [OF geo] show ?case
    by (simp add: kept_pages_new used_pages_def GetPagesPerBlock_def new_FTLController_def new_FlashModel_def)
next
  case (written n c M lba page r c')
  then have IH: "ftl_ok c" "represents False c (kept_pages M)" "active_free c" "used_pages c \<le> n"
    "GetPagesPerBlock (flash c) = pages_per_block cfg" "\<forall>l. length (M l) = FLASH_PAGE_SIZE"
    by simp_all
  have lba: "lba < length (lba_table c)"
    using written.hyps by (simp add: GetTotalLBAs_def)
  have "space False c"
    using IH(4,5) written.prems by (auto simp: space_def used_pages_def split: if_splits)
  from WriteBlock_represents [OF IH(2,1,3) this _ lba, of page] written.hyps
  have "ftl_ok c'" "active_free c'" "represents False c' (kept_pages (M(lba := page)))"
    by (auto simp: kept_pages_upd simp del: fun_upd_apply)
  moreover have "used_pages c' \<le> Suc n"
    using WriteBlock_pages [OF written.hyps(4) IH(1) lba] IH written.prems by simp
  moreover have "kept c c'"
    using WriteBlock_ok [OF IH(1), of "Some page" lba] written.hyps by auto
  ultimately show ?case
    using IH(5,6) kept_geometry [of c c'] written.hyps(3) by (simp del: fun_upd_apply) simp
next
  case (was_read n c M lba dest r d c')
  then have IH: "ftl_ok c" "represents False c (kept_pages M)" "active_free c" "used_pages c \<le> n"
    "GetPagesPerBlock (flash c) = pages_per_block cfg" "\<forall>l. length (M l) = FLASH_PAGE_SIZE"
    by simp_all
  obtain f where c': "c' = c\<lparr>flash := f, host_reads := host_reads c + 1\<rparr>" "represents False c' (kept_pages M)"
    "content f = content (flash c)"
    using ReadBlock_represents [OF IH(2,1), of lba dest] was_read.hyps by (auto simp: GetTotalLBAs_def)
  moreover have "ftl_ok c'" "kept c c'"
    using was_read.hyps ReadBlock_ok [OF IH(1), of dest lba] by auto
  ultimately show ?case
    using IH kept_geometry [of c c'] by (simp add: active_free_def used_pages_def)
next
  case (flushed n c M c')
  then have IH: "ftl_ok c" "represents False c (kept_pages M)" "active_free c" "used_pages c \<le> n"
    "GetPagesPerBlock (flash c) = pages_per_block cfg" "\<forall>l. length (M l) = FLASH_PAGE_SIZE"
    by simp_all
  have room: "has_room c"
    using IH(4,5) flushed.prems by (auto simp: has_room_def used_pages_def split: if_splits)
  from FlushStagedWrites_represents [OF flushed.hyps(2) IH(2,1,3)] room
  have "ftl_ok c' \<and> represents False c' (kept_pages M) \<and> active_free c'"
    by simp
  moreover have "used_pages c' \<le> n"
    using Flush_pages [OF flushed.hyps(2) room] IH(4) by (simp add: used_pages_def)
  moreover have "kept c c'"
    using Flush_ok [OF IH(1)] flushed.hyps(2) by auto
  ultimately show ?case
    using IH(5,6) kept_geometry [of c c'] by simp
qed

section \<open>The run on the small device\<close>

lemma gc_run4:
  assumes a: "raw_page a" and b: "raw_page b" and x: "packs_as p x" and y: "packs_as q y"
  shows "ftl_runs 16384 gc_cfg (gc_state4 a x y b) (gc_map a p q b)"
proof -
  note w = gc_writes [OF assms]
  have len: "length a = FLASH_PAGE_SIZE" "length b = FLASH_PAGE_SIZE" "length p = FLASH_PAGE_SIZE" "length q = FLASH_PAGE_SIZE"
    using assms by (simp_all add: raw_page_def packs_as_def)
  have space: "space True (gc_state ps vs stale tab own st packs raws writes)" for ps vs stale tab own st packs raws writes
    by (simp add: space_def gc_state_sel)
  have off: "alone (gc_state ps vs stale tab own st packs raws writes) l" if "\<not> on_flash (tab ! l)"
    for ps vs stale tab own st packs raws writes l
    by (rule alone_off) (simp add: gc_state_sel that)
  note flash = on_flash_def raw_at_def half_at_def new_MappingEntry_def gc_state_sel three four
  have "ftl_runs 16384 gc_cfg gc_state0 (\<lambda>_. replicate FLASH_PAGE_SIZE 0)"
    using ftl_runs.start [of 16384 gc_cfg] by (simp only: gc_new)
  from ftl_runs.written [OF this space off _ len(1) w(1)]
  have "ftl_runs 16384 gc_cfg (gc_state1 a) ((\<lambda>_. replicate FLASH_PAGE_SIZE 0)(0 := a))"
    by (simp add: flash)
  from ftl_runs.written [OF this space off _ len(3) w(2)]
  have "ftl_runs 16384 gc_cfg (gc_state2 a x) ((\<lambda>_. replicate FLASH_PAGE_SIZE 0)(0 := a, 1 := p))"
    by (simp add: flash)
  from ftl_runs.written [OF this space off _ len(4) w(3)]
  have "ftl_runs 16384 gc_cfg (gc_state3 a x y) ((\<lambda>_. replicate FLASH_PAGE_SIZE 0)(0 := a, 1 := p, 2 := q))"
    by (simp add: flash)
  from ftl_runs.written [OF this space alone_first [OF gc_state_sel(4)] _ len(2) w(4)] show ?thesis
    by (simp add: flash)
qed

text \<open>A fifth write, to the last address, collects the full block first.\<close>

lemma gc_run5:
  assumes a: "raw_page a" and b: "raw_page b" and x: "packs_as p x" and y: "packs_as q y"
  shows "\<exists>c. ftl_runs 16384 gc_cfg c ((gc_map a p q b)(3 := a)) \<and> gc_count c = 1 \<and> gc_migrated_pages c = 2 \<and> GetTotalLBAs c = 4"
proof -
  from gc_collects(2) [OF assms] obtain r c where
    run: "WriteBlock (gc_state4 a x y b) 3 (Some a) = Some (r, c)" "gc_count c = 1" "gc_migrated_pages c = 2" "length (lba_table c) = 4"
    by auto
  have "space True (gc_state4 a x y b)" "alone (gc_state4 a x y b) 3"
    by (simp add: space_def gc_state_sel) (rule alone_off, simp add: gc_state_sel on_flash_def new_MappingEntry_def)
  from ftl_runs.written [OF gc_run4 [OF assms] this _ raw_len [OF a] run(1)] run(2-4) show ?thesis
    by (auto simp: gc_state_sel GetTotalLBAs_def simp del: fun_upd_apply)
qed

lemma run_pages:
  obtains a b x y where "raw_page a" "raw_page b" "a \<noteq> b" "packs_as (replicate FLASH_PAGE_SIZE 7) x"
    "packs_as (replicate FLASH_PAGE_SIZE 9) y"
  using raw_pages_exist constant_packs [of 7] constant_packs [of 9] by auto

section \<open>Properties\<close>

text \<open>C7: The flash translation layer is a map from addresses to pages. In every run in which each write
  finds two free pages or an erased reserve block, and no write hits one of two blocks that share a
  page, a read returns the page that was written last to its address, or zeros where there was none,
  across staging, packing and garbage collection; with one exception: for a page that LZ4 compresses to
  2049 to 3071 bytes it returns the compressed block in place of the page.\<close>

theorem ftl_refines_map:
  assumes "ftl_runs cap cfg c M" and "geometry_ok cfg" and "lba < GetTotalLBAs c"
    and "length dest = FLASH_PAGE_SIZE"
  shows "\<exists>d c'. ReadBlock c lba (Some dest) = Some (True, d, c') \<and> ftl_runs cap cfg c' M \<and>
    (if three_quarter (M lba) then \<exists>n. 2048 < n \<and> n < 3072 \<and> legal_block (take n d) (M lba) else d = M lba)"
proof -
  have ok: "ftl_ok c" "represents True c (kept_pages M)" "length (M lba) = FLASH_PAGE_SIZE"
    using ftl_runs_represents [OF assms(1,2)] by simp_all
  have lba: "lba < length (lba_table c)"
    using assms(3) by (simp add: GetTotalLBAs_def)
  from ReadBlock_represents [OF ok(2,1) lba assms(4)] obtain c' where
    run: "ReadBlock c lba (Some dest) = Some (True, kept_page (M lba), c')"
    by (auto simp: kept_pages_def)
  with ftl_runs.was_read [OF assms(1,3,4)] kept_page_block [OF ok(3)] kept_page_plain [of "M lba"] show ?thesis
    by (intro exI [of _ "kept_page (M lba)"] exI [of _ c']) auto
qed

text \<open>A full page, two packed pages, an overwrite and a fifth write whose collection moves the packed page: one of the packed
  pages is read.\<close>

theorem ftl_refines_map_witness:
  "\<exists>a b c d c'. ftl_runs 16384 gc_cfg c
       ((gc_map a (replicate FLASH_PAGE_SIZE 7) (replicate FLASH_PAGE_SIZE 9) b)(3 := a)) \<and> a \<noteq> b \<and>
     gc_count c = 1 \<and> gc_migrated_pages c = 2 \<and>
     ReadBlock c 1 (Some (replicate FLASH_PAGE_SIZE 0)) = Some (True, replicate FLASH_PAGE_SIZE 7, c') \<and>
     ReadBlock c 0 (Some (replicate FLASH_PAGE_SIZE 0)) = Some (True, b, d)"
proof -
  obtain a b x y where pages: "raw_page a" "raw_page b" "a \<noteq> b" "packs_as (replicate FLASH_PAGE_SIZE 7) x"
    "packs_as (replicate FLASH_PAGE_SIZE 9) y"
    by (rule run_pages)
  from gc_run5 [OF pages(1,2,4,5)] obtain c where
    c: "ftl_runs 16384 gc_cfg c ((gc_map a (replicate FLASH_PAGE_SIZE 7) (replicate FLASH_PAGE_SIZE 9) b)(3 := a))"
    "gc_count c = 1" "gc_migrated_pages c = 2" "GetTotalLBAs c = 4"
    by blast
  note read = ftl_refines_map [OF c(1) gc_geometry _ length_replicate]
  from read [of 1] c(4) packs_plain [OF pages(4)] obtain c1 where
    "ReadBlock c 1 (Some (replicate FLASH_PAGE_SIZE 0)) = Some (True, replicate FLASH_PAGE_SIZE 7, c1)"
    by auto
  moreover from read [of 0] c(4) raw_page_plain [OF pages(2)] obtain c2 where
    "ReadBlock c 0 (Some (replicate FLASH_PAGE_SIZE 0)) = Some (True, b, c2)"
    by auto
  ultimately show ?thesis
    using c pages(3) by blast
qed

text \<open>C9: The first writes to a device need no condition on space or sharing: as long as there are fewer of them
  than pages in a block, with reads and flushes in any order between them, every read returns the page that
  was written last to its address, with the same exception.\<close>

theorem ftl_first_writes_read_back:
  assumes "ftl_first cap cfg n c M" and "geometry_ok cfg" and "n < pages_per_block cfg"
    and "lba < GetTotalLBAs c" and "length dest = FLASH_PAGE_SIZE"
  shows "\<exists>d c'. ReadBlock c lba (Some dest) = Some (True, d, c') \<and>
    (if three_quarter (M lba) then \<exists>n. 2048 < n \<and> n < 3072 \<and> legal_block (take n d) (M lba) else d = M lba)"
proof -
  have ok: "ftl_ok c" "represents False c (kept_pages M)" "length (M lba) = FLASH_PAGE_SIZE"
    using ftl_first_represents [OF assms(1-3)] by simp_all
  have lba: "lba < length (lba_table c)"
    using assms(4) by (simp add: GetTotalLBAs_def)
  from ReadBlock_represents [OF ok(2,1) lba assms(5)] obtain c' where
    run: "ReadBlock c lba (Some dest) = Some (True, kept_page (M lba), c')"
    by (auto simp: kept_pages_def)
  with kept_page_block [OF ok(3)] kept_page_plain [of "M lba"] show ?thesis
    by (intro exI [of _ "kept_page (M lba)"] exI [of _ c']) auto
qed

text \<open>Two packed pages, and a full page that replaces the first: the first address reads the full page, the second its packed page.\<close>

theorem ftl_first_writes_read_back_witness:
  "\<exists>a c c1 c2. ftl_first (2 ^ 20) default_FlashConfig 3 c
       ((\<lambda>_. replicate FLASH_PAGE_SIZE 0)(0 := replicate FLASH_PAGE_SIZE 7, 1 := replicate FLASH_PAGE_SIZE 9, 0 := a)) \<and>
     raw_page a \<and> ReadBlock c 0 (Some (replicate FLASH_PAGE_SIZE 0)) = Some (True, a, c1) \<and>
     ReadBlock c 1 (Some (replicate FLASH_PAGE_SIZE 0)) = Some (True, replicate FLASH_PAGE_SIZE 9, c2)"
proof -
  obtain a b x y where pages: "raw_page a" "raw_page b" "a \<noteq> b" "packs_as (replicate FLASH_PAGE_SIZE 7) x"
    "packs_as (replicate FLASH_PAGE_SIZE 9) y"
    by (rule run_pages)
  have geo: "geometry_ok default_FlashConfig" "pages_per_block default_FlashConfig = 64"
    by (simp_all add: geometry_ok_def default_FlashConfig_def)
  define M where "M = (\<lambda>_ :: nat. replicate FLASH_PAGE_SIZE (0 :: byte))"
  have start: "ftl_first (2 ^ 20) default_FlashConfig 0 (new_FTLController (2 ^ 20) default_FlashConfig) M"
    unfolding M_def by (rule ftl_first.start)
  have step: "\<exists>c'. ftl_first (2 ^ 20) default_FlashConfig (Suc n) c' (N(lba := page)) \<and> GetTotalLBAs c' = GetTotalLBAs c"
    if "ftl_first (2 ^ 20) default_FlashConfig n c N" "n < 64" "lba < GetTotalLBAs c" "length page = FLASH_PAGE_SIZE" for n c N lba page
  proof -
    from ftl_first_represents [OF that(1) geo(1)] that(2) geo(2) have "ftl_ok c"
      by simp
    from WriteBlock_ok [OF this, of "Some page" lba] that(4) obtain r c' where
      "WriteBlock c lba (Some page) = Some (r, c')" "kept c c'"
      by auto
    with ftl_first.written [OF that(1,3,4)] show ?thesis
      by (auto simp: GetTotalLBAs_def kept_def)
  qed
  have lbas: "GetTotalLBAs (new_FTLController (2 ^ 20) default_FlashConfig) = 256"
    by (simp add: GetTotalLBAs_def new_FTLController_def)
  from step [OF start, of 0 "replicate FLASH_PAGE_SIZE 7"] lbas obtain c1 where
    c1: "ftl_first (2 ^ 20) default_FlashConfig (Suc 0) c1 (M(0 := replicate FLASH_PAGE_SIZE 7))" "GetTotalLBAs c1 = 256"
    by auto
  from step [OF c1(1), of 1 "replicate FLASH_PAGE_SIZE 9"] c1(2) obtain c2 where
    c2: "ftl_first (2 ^ 20) default_FlashConfig (Suc (Suc 0)) c2
       (M(0 := replicate FLASH_PAGE_SIZE 7, 1 := replicate FLASH_PAGE_SIZE 9))" "GetTotalLBAs c2 = 256"
    by auto
  from step [OF c2(1), of 0 a] c2(2) raw_len [OF pages(1)] obtain c where
    c: "ftl_first (2 ^ 20) default_FlashConfig 3 c
       (M(0 := replicate FLASH_PAGE_SIZE 7, 1 := replicate FLASH_PAGE_SIZE 9, 0 := a))" "GetTotalLBAs c = 256"
    by (auto simp: numeral_3_eq_3)
  note read = ftl_first_writes_read_back [OF c(1) geo(1) _ _ length_replicate]
  from read [of 0] c(2) geo(2) raw_page_plain [OF pages(1)] have "\<exists>d. ReadBlock c 0 (Some (replicate FLASH_PAGE_SIZE 0)) = Some (True, a, d)"
    by simp
  moreover from read [of 1] c(2) geo(2) packs_plain [OF pages(5)] have
    "\<exists>d. ReadBlock c 1 (Some (replicate FLASH_PAGE_SIZE 0)) = Some (True, replicate FLASH_PAGE_SIZE 9, d)"
    by simp
  ultimately show ?thesis
    using c(1) pages(1) unfolding M_def by blast
qed

text \<open>C8: Garbage collection loses nothing while the reserve block is erased and the books are right (\<open>books\<close>, a part of
  \<open>represents True\<close>: the valid bits, the owners of the pages and the table agree, so that in particular no live half page is on
  a page that the other half has invalidated, whose data would be erased): when the active block is full it returns with an
  erased active block, and every address reads the same before and after it.\<close>

theorem RunGarbageCollection_keeps_data:
  assumes "ftl_ok c" and "represents True c M" and "reserve_ready c"
    and "active_page_idx c = GetPagesPerBlock (flash c)"
  shows "\<exists>c'. RunGarbageCollectionIfNeeded c = Some c' \<and> ftl_ok c' \<and> represents True c' M \<and>
           active_page_idx c' = 0 \<and> active_free c' \<and>
           (\<forall>lba dest. lba < GetTotalLBAs c \<and> length dest = FLASH_PAGE_SIZE \<longrightarrow>
              (\<exists>c1 c2. ReadBlock c lba (Some dest) = Some (True, M lba, c1) \<and>
                 ReadBlock c' lba (Some dest) = Some (True, M lba, c2)))"
proof -
  have full: "\<not> has_room c"
    using assms(4) by (simp add: has_room_def)
  from RunGarbageCollection_ok [OF assms(1)] obtain c' where
    c': "RunGarbageCollectionIfNeeded c = Some c'" "ftl_ok c'" "staged_half c' = staged_half c" "kept c c'"
    by blast
  have "books (staged_set c) c" "holds_data (staged_set c) c M"
    using assms(2) by (simp_all add: represents_def tracks_def)
  from RunGarbageCollection_tracks [OF c'(1) assms(1) full this assms(3)]
  have gc: "books (staged_set c) c' \<and> holds_data (staged_set c) c' M \<and> active_free c' \<and> active_page_idx c' = 0" .
  with c' assms(2) have rep: "represents True c' M"
    by (auto simp: represents_def tracks_def staged_set_def staged_stands_def)
  have "\<exists>c1 c2. ReadBlock c lba (Some dest) = Some (True, M lba, c1) \<and> ReadBlock c' lba (Some dest) = Some (True, M lba, c2)"
    if "lba < GetTotalLBAs c" "length dest = FLASH_PAGE_SIZE" for lba dest
  proof -
    have "lba < length (lba_table c)" "lba < length (lba_table c')"
      using that(1) c'(4) by (simp_all add: GetTotalLBAs_def kept_def)
    with ReadBlock_represents [OF assms(2,1) _ that(2)] ReadBlock_represents [OF rep c'(2) _ that(2)] show ?thesis
      by blast
  qed
  with c' gc rep show ?thesis
    by blast
qed

text \<open>The small device with its first block full: the collection moves the page that two addresses share and the full page.\<close>

theorem RunGarbageCollection_keeps_data_witness:
  "\<exists>a b x y c' c1 c2. RunGarbageCollectionIfNeeded (gc_state4 a x y b) = Some c' \<and> gc_migrated_pages c' = 2 \<and>
     raw_page b \<and> packs_as (replicate FLASH_PAGE_SIZE 7) x \<and>
     ReadBlock c' 0 (Some (replicate FLASH_PAGE_SIZE 0)) = Some (True, b, c1) \<and>
     ReadBlock c' 1 (Some (replicate FLASH_PAGE_SIZE 0)) = Some (True, replicate FLASH_PAGE_SIZE 7, c2)"
proof -
  obtain a b x y where pages: "raw_page a" "raw_page b" "a \<noteq> b" "packs_as (replicate FLASH_PAGE_SIZE 7) x"
    "packs_as (replicate FLASH_PAGE_SIZE 9) y"
    by (rule run_pages)
  let ?M = "gc_map a (replicate FLASH_PAGE_SIZE 7) (replicate FLASH_PAGE_SIZE 9) b" and ?c = "gc_state4 a x y b"
  have M: "kept_pages ?M 0 = b" "kept_pages ?M 1 = replicate FLASH_PAGE_SIZE 7"
    using kept_page_plain [OF raw_page_plain [OF pages(2)]] kept_page_plain [OF packs_plain [OF pages(4)]]
    by (simp_all add: kept_pages_def)
  have ok: "ftl_ok ?c" "represents True ?c (kept_pages ?M)"
    using ftl_runs_represents [OF gc_run4 [OF pages(1,2,4,5)] gc_geometry] by simp_all
  have "active_page_idx ?c = GetPagesPerBlock (flash ?c)" "GetTotalLBAs ?c = 4"
    by (simp_all add: gc_state_sel)
  with RunGarbageCollection_keeps_data [OF ok gc_state_sel(5)] obtain c' where
    c': "RunGarbageCollectionIfNeeded ?c = Some c'"
    and read: "\<And>lba dest. lba < 4 \<Longrightarrow> length dest = FLASH_PAGE_SIZE \<Longrightarrow>
      \<exists>c2. ReadBlock c' lba (Some dest) = Some (True, kept_pages ?M lba, c2)"
    by (auto simp del: fun_upd_apply)
  have "gc_migrated_pages c' = 2"
    using gc_collects(1) [OF pages(1,2,4,5)] c' by simp
  moreover obtain c1 c2 where "ReadBlock c' 0 (Some (replicate FLASH_PAGE_SIZE 0)) = Some (True, b, c1)"
    "ReadBlock c' 1 (Some (replicate FLASH_PAGE_SIZE 0)) = Some (True, replicate FLASH_PAGE_SIZE 7, c2)"
    using read [of 0 "replicate FLASH_PAGE_SIZE 0"] read [of 1 "replicate FLASH_PAGE_SIZE 0"] unfolding M by auto
  ultimately show ?thesis
    using c' pages(2,4) by blast
qed

end
