(* ===== verification/Ftl_Loss.thy ===== *)
theory Ftl_Loss
  imports Ftl_Runs
begin

text \<open>
  The reserve block is taken for erased by the garbage collection, which it is only until the
  reserve pointer has gone round. This theory holds a run of four writes, all answered with success,
  the last of which is lost. Its pages are incompressible.
\<close>

section \<open>A lost write\<close>

text \<open>Three blocks of one page each, and two logical blocks.\<close>

definition small_cfg :: FlashConfig where
  "small_cfg = default_FlashConfig\<lparr>pages_per_block := 1, total_blocks := 3\<rparr>"

lemma small_cfg_sel [simp]:
  "page_size_bytes small_cfg = FLASH_PAGE_SIZE" "pages_per_block small_cfg = 1" "total_blocks small_cfg = 3"
  "prog_latency_us small_cfg = 800" "read_latency_us small_cfg = 50" "erase_latency_us small_cfg = 3500"
  by (simp_all add: small_cfg_def default_FlashConfig_def)

lemma small_device:
  "new_FTLController 8192 small_cfg =
     \<lparr>flash = \<lparr>config = small_cfg,
        blocks = [new_FlashBlock 1, new_FlashBlock 1, new_FlashBlock 1], total_pages_programmed = 0,
        total_pages_read = 0, total_blocks_erased = 0, simulated_time_us = 0\<rparr>,
      lba_table = [new_MappingEntry, new_MappingEntry], active_block_idx = 0, active_page_idx = 0,
      reserve_block_idx = 1, staged_half = None, block_page_owners = [[[]], [[]], [[]]],
      host_writes = 0, host_reads = 0, zero_blocks = 0, half_page_packs = 0, raw_full_pages = 0, gc_count = 0,
      gc_migrated_pages = 0\<rparr>"
proof -
  have "(8192 + FLASH_PAGE_SIZE - 1) mod 2 ^ 64 div FLASH_PAGE_SIZE = 2"
    by simp
  then show ?thesis
    unfolding new_FTLController_def new_FlashModel_def by (simp add: three)
qed

lemma lost_run:
  assumes a: "raw_page a" and b: "raw_page b"
  shows "do { (r1, c) \<leftarrow> WriteBlock (new_FTLController 8192 small_cfg) 0 (Some a);
      (r2, c) \<leftarrow> WriteBlock c 1 (Some a); (r3, c) \<leftarrow> WriteBlock c 0 (Some a);
      (r4, c) \<leftarrow> WriteBlock c 1 (Some b);
      (r5, d, c) \<leftarrow> ReadBlock c 1 (Some b);
      Some ([r1, r2, r3, r4, r5], d) } = Some ([True, True, True, True, True], a)"
proof -
  have len: "length a = FLASH_PAGE_SIZE" "length b = FLASH_PAGE_SIZE"
    using a b by (simp_all add: raw_page_def)
  show ?thesis
    by (simp add: small_device run_defs ReadBlock_def read_entry_def ReadPage_def three
        new_FlashBlock_def new_MappingEntry_def WriteBlock_raw [OF a] WriteBlock_raw [OF b] len
        new_page whole_page_copy fill_page del: array_copy_Some array_fill_Some)
qed

section \<open>Properties\<close>

text \<open>C11: A write that reports success can be lost. On a device of three one-page blocks with two
  addresses, after one write to each address and a second one to the first, a second write to the other
  one finds the reserve block still programmed: the program operation fails, its result is ignored, and
  the address keeps reading as before.\<close>

theorem ftl_loses_write:
  "\<exists>a b. a \<noteq> b \<and> length a = FLASH_PAGE_SIZE \<and> length b = FLASH_PAGE_SIZE \<and>
     do { (r1, c) \<leftarrow> WriteBlock (new_FTLController 8192 small_cfg) 0 (Some a);
          (r2, c) \<leftarrow> WriteBlock c 1 (Some a);
          (r3, c) \<leftarrow> WriteBlock c 0 (Some a);
          (r4, c) \<leftarrow> WriteBlock c 1 (Some b);
          (r5, d, c) \<leftarrow> ReadBlock c 1 (Some b);
          Some ([r1, r2, r3, r4, r5], d) } = Some ([True, True, True, True, True], a)"
proof -
  from raw_pages_exist obtain a b where ab: "raw_page a" "raw_page b" "a \<noteq> b"
    by blast
  then have "length a = FLASH_PAGE_SIZE" "length b = FLASH_PAGE_SIZE"
    by (simp_all add: raw_page_def)
  with lost_run [OF ab(1,2)] ab(3) show ?thesis
    by blast
qed

end
