(* ===== verification/Ftl_Counters.thy ===== *)
theory Ftl_Counters
  imports Ftl_Props
begin

text \<open>
  The counters of the flash translation layer: what one write of src/ftl_controller.cpp adds to the numbers that
  \<open>GetTelemetry\<close> reports, garbage collection included.
\<close>

section \<open>Steps that leave the counters\<close>

definition counters :: "FTLController \<Rightarrow> 64 word \<times> 64 word \<times> 64 word \<times> 64 word" where
  "counters c = (host_writes c, zero_blocks c, half_page_packs c, raw_full_pages c)"

lemma table_steps_counters:
  "set_owners b p upd c = Some c' \<Longrightarrow> counters c' = counters c \<and> staged_half c' = staged_half c"
  "set_entry lba f c = Some c' \<Longrightarrow> counters c' = counters c \<and> staged_half c' = staged_half c"
  "next_reserve c = Some c' \<Longrightarrow> counters c' = counters c \<and> staged_half c' = staged_half c"
  by (auto simp: set_entry_def set_owners_def next_reserve_def counters_def Let_def split: if_splits)

lemma program_active_counters:
  "program_active buf c = Some c' \<Longrightarrow> counters c' = counters c \<and> staged_half c' = staged_half c"
  by (auto simp: program_active_def counters_def split: bind_splits)

lemma active_steps_counters:
  "map_active lba st sub n c = Some c' \<Longrightarrow> counters c' = counters c \<and> staged_half c' = staged_half c"
  "push_owner lba sub c = Some c' \<Longrightarrow> counters c' = counters c \<and> staged_half c' = staged_half c"
  unfolding map_active_def push_owner_def by (rule table_steps_counters, assumption)+

lemma gc_page_counters:
  "gc_page v p (c, k) = Some (c', k') \<Longrightarrow> counters c' = counters c \<and> staged_half c' = staged_half c"
  by (auto simp: gc_page_def counters_def Let_def split: bind_splits if_splits
      dest!: table_steps_counters)

lemma gc_pages_counters:
  "gc_pages v ps (c, k) = Some (c', k') \<Longrightarrow> counters c' = counters c \<and> staged_half c' = staged_half c"
  by (induction ps arbitrary: c k) (auto split: bind_splits dest!: gc_page_counters)

lemma make_room_counters:
  "make_room c = Some c' \<Longrightarrow> counters c' = counters c \<and> staged_half c' = staged_half c"
  by (auto simp: make_room_def RunGarbageCollectionIfNeeded_def gc_finish_def counters_def Let_def
      split: bind_splits if_splits prod.splits dest!: table_steps_counters gc_pages_counters)

lemmas step_counters = program_active_counters active_steps_counters table_steps_counters make_room_counters

section \<open>What a write counts\<close>

definition is_zero_page :: "byte list \<Rightarrow> bool" where
  "is_zero_page page \<longleftrightarrow> page = replicate FLASH_PAGE_SIZE 0"

text \<open>A page that is not staged as half a page.\<close>

definition is_raw_page :: "byte list \<Rightarrow> bool" where
  "is_raw_page page \<longleftrightarrow>
     (case Compress (Some page) of
        None \<Rightarrow> False | Some blk \<Rightarrow> \<not> is_zero_block blk \<and> 2048 < compressed_size blk)"

definition staged :: "FTLController \<Rightarrow> nat" where
  "staged c = (if staged_half c = None then 0 else 1)"

lemma Flush_counters:
  "FlushStagedWrites c = Some c' \<Longrightarrow> counters c' = counters c \<and> staged c' = 0"
  by (auto simp: FlushStagedWrites_def counters_def staged_def split: option.splits bind_splits dest!: step_counters)

lemma write_half_counters:
  assumes "write_half lba blk c = Some c'"
  shows "\<exists>k. 2 * k + staged c' = staged c + 1 \<and>
           counters c' = (host_writes c, zero_blocks c, half_page_packs c + of_nat k, raw_full_pages c)"
proof (cases "staged_half c")
  case None
  with assms show ?thesis
    by (intro exI [of _ 0]) (auto simp: write_half_def counters_def staged_def split: bind_splits)
next
  case (Some st)
  with assms show ?thesis
    by (intro exI [of _ 1]) (auto simp: write_half_def counters_def staged_def split: bind_splits dest!: step_counters)
qed

lemma write_raw_counters:
  assumes "write_raw lba blk c = Some c'"
  shows "staged c' = 0 \<and> counters c' = (host_writes c, zero_blocks c, half_page_packs c, raw_full_pages c + 1)"
  using assms by (auto simp: write_raw_def counters_def staged_def
      split: bind_splits if_splits dest!: step_counters Flush_counters)

lemma forget_old_counters: "counters (forget_old lba c) = counters c \<and> staged (forget_old lba c) \<le> staged c"
  by (auto simp: forget_old_def counters_def staged_def Let_def split: option.splits)

text \<open>\<open>k\<close> is the number of pairs of half pages that the write has completed.\<close>

lemma WriteBlock_counters:
  assumes run: "WriteBlock c lba (Some page) = Some (r, c')" and lba: "lba < length (lba_table c)"
    and page: "length page = FLASH_PAGE_SIZE"
  shows "\<exists>k. 2 * k + staged c' + of_bool (is_zero_page page) + of_bool (is_raw_page page) \<le> staged c + 1 \<and>
           counters c' = (host_writes c + 1, zero_blocks c + of_bool (is_zero_page page),
             half_page_packs c + of_nat k, raw_full_pages c + of_bool (is_raw_page page))"
proof -
  define c1 where "c1 = forget_old lba (c\<lparr>host_writes := host_writes c + 1\<rparr>)"
  have c1: "counters c1 = (host_writes c + 1, zero_blocks c, half_page_packs c, raw_full_pages c)" "staged c1 \<le> staged c"
    using forget_old_counters [of lba "c\<lparr>host_writes := host_writes c + 1\<rparr>"]
    by (simp_all add: c1_def counters_def staged_def)
  obtain blk where blk: "Compress (Some page) = Some blk" "is_zero_block blk = is_zero_page page"
    using Compress_stores [OF page] by (auto simp: is_zero_page_def)
  have raw: "is_raw_page page \<longleftrightarrow> \<not> is_zero_block blk \<and> 2048 < compressed_size blk"
    by (simp add: is_raw_page_def blk(1))
  consider (zero) "is_zero_block blk" | (half) "\<not> is_zero_block blk" "compressed_size blk \<le> 2048"
    | (raw) "\<not> is_zero_block blk" "2048 < compressed_size blk"
    by (meson not_le)
  then show ?thesis
  proof cases
    case zero
    then obtain c2 where "set_entry lba (\<lambda>e. e\<lparr>m_state := MappingState.SPARSE_ZERO, m_compressed_size := 0\<rparr>) c1 = Some c2"
        "c' = c2\<lparr>zero_blocks := zero_blocks c2 + 1\<rparr>"
      using run lba by (auto simp: WriteBlock_def blk(1) c1_def split: bind_splits)
    with zero c1 blk(2) raw show ?thesis
      by (intro exI [of _ 0]) (auto simp: counters_def staged_def split: if_splits dest!: table_steps_counters)
  next
    case half
    then have "write_half lba blk c1 = Some c'"
      using run lba by (auto simp: WriteBlock_def blk(1) c1_def split: bind_splits)
    from write_half_counters [OF this] half c1 blk(2) raw show ?thesis
      by (auto simp: counters_def intro!: exI)
  next
    case raw
    then have "\<not> compressed_size blk \<le> 2048"
      by (simp add: not_le)
    with raw have "write_raw lba blk c1 = Some c'"
      using run lba by (auto simp: WriteBlock_def blk(1) c1_def Let_def split: bind_splits)
    from write_raw_counters [OF this] raw c1 blk(2) \<open>is_raw_page page \<longleftrightarrow> _\<close> show ?thesis
      by (intro exI [of _ 0]) (auto simp: counters_def)
  qed
qed

end
