(* ===== verification/Benchmark.thy ===== *)
theory Benchmark
  imports Ftl_Counters
begin

text \<open>
  The benchmark of src/main.cpp: four workloads that write pages to one flash translation layer and report its
  telemetry. The random numbers of \<open>std::mt19937_64\<close> are a parameter, a function that gives the next number and
  the next state of the generator; times and the text printed are not modelled. A page that a generator fills
  is a list of \<open>FLASH_PAGE_SIZE\<close> bytes.
\<close>

section \<open>Running a workload\<close>

text \<open>A generator gets the address, its state and the buffer, and leaves a state and a buffer.\<close>

type_synonym 'r generator = "nat \<Rightarrow> 'r \<Rightarrow> byte list \<Rightarrow> 'r \<times> byte list"

fun workload_loop ::
  "'r generator \<Rightarrow> nat list \<Rightarrow> 'r \<Rightarrow> byte list \<Rightarrow> FTLController \<Rightarrow> ('r \<times> FTLController) option" where
  "workload_loop gen [] r block ftl = Some (r, ftl)"
| "workload_loop gen (i # js) r block ftl =
     (let (r, block) = gen i r block
      in do { (_, ftl) \<leftarrow> WriteBlock ftl i (Some block); workload_loop gen js r block ftl })"

definition RunWorkload ::
  "'r generator \<Rightarrow> nat \<Rightarrow> 'r \<Rightarrow> FTLController \<Rightarrow> (FTLTelemetry \<times> 'r \<times> FTLController) option" where
  "RunWorkload gen num_blocks r ftl =
     do { let ftl = ResetTelemetry ftl;
          (r, ftl) \<leftarrow> workload_loop gen [0..<num_blocks] r (replicate FLASH_PAGE_SIZE 0) ftl;
          ftl \<leftarrow> FlushStagedWrites ftl;
          Some (GetTelemetry ftl, r, ftl) }"

text \<open>The factor by which the array lives longer, and the terabytes that can be written to a drive rated at 150.\<close>

definition life_multiplier :: "FTLTelemetry \<Rightarrow> real" where
  "life_multiplier tel =
     (if t_write_amplification_factor tel > 0 then 1 / t_write_amplification_factor tel else 999 / 10)"

definition effective_tbw :: "FTLTelemetry \<Rightarrow> real" where
  "effective_tbw tel = 150 * life_multiplier tel"

lemma effective_tbw_ratio:
  assumes "t_write_amplification_factor (GetTelemetry c) > 0"
  shows "effective_tbw (GetTelemetry c) =
    150 * real (unat (host_writes c * 4096)) / real (unat (tel_physical_bytes_written (Flash_GetTelemetry (flash c))))"
  using assms by (auto simp: effective_tbw_def life_multiplier_def GetTelemetry_def Let_def split: if_splits)

section \<open>The generators\<close>

definition zero_page :: "byte list" where
  "zero_page = replicate FLASH_PAGE_SIZE 0"

definition heap_page :: "byte list" where
  "heap_page = concat (map (\<lambda>k. le_bytes 8 (0x00007FFF00100000 + of_nat (8 * k) * 8 :: 64 word)) [0..<512])"

definition heap_blocks :: "'r generator" where
  "heap_blocks lba r buf = (r, if lba mod 3 = 0 then zero_page else heap_page)"

definition sample_json :: "byte list" where
  \<open>sample_json = map of_char
     ''{"time":"2026-09-18T08:00:00Z","type":"cache_entry","url":"https://cdn.example.com/assets/app.chunk.js","headers":{"content-type":"application/javascript","cache-control":"max-age=31536000"}}''\<close>

definition json_page :: "nat \<Rightarrow> byte list" where
  "json_page lba = map (\<lambda>b. sample_json ! ((b + lba) mod length sample_json)) [0..<FLASH_PAGE_SIZE]"

definition json_blocks :: "'r generator" where
  "json_blocks lba r buf = (r, json_page lba)"

fun noise :: "('r \<Rightarrow> 64 word \<times> 'r) \<Rightarrow> nat \<Rightarrow> 'r \<Rightarrow> 'r \<times> byte list" where
  "noise rng 0 r = (r, [])"
| "noise rng (Suc n) r =
     (let (v, r) = rng r; (r, bs) = noise rng n r in (r, le_bytes 8 v @ bs))"

definition noise_blocks :: "('r \<Rightarrow> 64 word \<times> 'r) \<Rightarrow> 'r generator" where
  "noise_blocks rng lba r buf = noise rng 512 r"

definition code_page :: "byte list" where
  "code_page = concat (replicate 1024 [0x48, 0x89, 0x5C, 0x24])"

definition blended_blocks :: "('r \<Rightarrow> 64 word \<times> 'r) \<Rightarrow> 'r generator" where
  "blended_blocks rng lba r buf =
     (let k = lba mod 20
      in if k < 7 then (r, zero_page)
         else if k < 15 then (r, json_page lba)
         else if k < 18 then (r, code_page)
         else noise rng 512 r)"

section \<open>The program\<close>

definition bench_cfg :: FlashConfig where
  "bench_cfg = default_FlashConfig\<lparr>page_size_bytes := 4096, pages_per_block := 64, total_blocks := 256\<rparr>"

definition benchmark :: "('r \<Rightarrow> 64 word \<times> 'r) \<Rightarrow> 'r \<Rightarrow> (FTLTelemetry list \<times> FTLController) option" where
  "benchmark rng seed =
     do { let ftl = new_FTLController (64 * 1024 * 1024) bench_cfg;
          (t1, r, ftl) \<leftarrow> RunWorkload heap_blocks 2048 seed ftl;
          (t2, r, ftl) \<leftarrow> RunWorkload json_blocks 2048 r ftl;
          (t3, r, ftl) \<leftarrow> RunWorkload (noise_blocks rng) 2048 r ftl;
          (t4, r, ftl) \<leftarrow> RunWorkload (blended_blocks rng) 4096 r ftl;
          Some ([t1, t2, t3, t4], ftl) }"

section \<open>What a workload counts\<close>

text \<open>The pages that a workload writes.\<close>

fun workload_pages :: "'r generator \<Rightarrow> nat list \<Rightarrow> 'r \<Rightarrow> byte list \<Rightarrow> byte list list" where
  "workload_pages gen [] r block = []"
| "workload_pages gen (i # js) r block = (case gen i r block of (r, block) \<Rightarrow> block # workload_pages gen js r block)"

definition fills_pages :: "'r generator \<Rightarrow> bool" where
  "fills_pages gen \<longleftrightarrow> (\<forall>i r block. length (snd (gen i r block)) = FLASH_PAGE_SIZE)"

definition count_pages :: "(byte list \<Rightarrow> bool) \<Rightarrow> byte list list \<Rightarrow> nat" where
  "count_pages P ps = length (filter P ps)"

lemma count_pages_simps [simp]:
  "count_pages P [] = 0" "count_pages P (p # ps) = of_bool (P p) + count_pages P ps"
  by (simp_all add: count_pages_def)

lemma workload_loop_ok:
  assumes "ftl_reach cap cfg ftl" and "geometry_ok cfg" and "fills_pages gen" and "\<forall>i \<in> set js. i < GetTotalLBAs ftl"
  shows "\<exists>r' ftl' k. workload_loop gen js r block ftl = Some (r', ftl') \<and> ftl_reach cap cfg ftl' \<and>
           GetTotalLBAs ftl' = GetTotalLBAs ftl \<and> length (workload_pages gen js r block) = length js \<and>
           2 * k + staged ftl' + count_pages is_zero_page (workload_pages gen js r block) +
             count_pages is_raw_page (workload_pages gen js r block) \<le> staged ftl + length js \<and>
           counters ftl' = (host_writes ftl + of_nat (length js),
             zero_blocks ftl + of_nat (count_pages is_zero_page (workload_pages gen js r block)),
             half_page_packs ftl + of_nat k,
             raw_full_pages ftl + of_nat (count_pages is_raw_page (workload_pages gen js r block)))"
  using assms(1,4)
proof (induction js arbitrary: r block ftl)
  case Nil
  then show ?case
    by (intro exI [of _ r] exI [of _ ftl] exI [of _ 0]) (simp add: counters_def)
next
  case (Cons i js)
  obtain r1 page where gen: "gen i r block = (r1, page)"
    by fastforce
  have page: "length page = FLASH_PAGE_SIZE"
    using assms(3) gen unfolding fills_pages_def by (metis snd_conv)
  have i: "i < length (lba_table ftl)"
    using Cons.prems(2) by (simp add: GetTotalLBAs_def)
  have "ftl_ok ftl"
    using ftl_reach_ok [OF Cons.prems(1) assms(2)] by blast
  from WriteBlock_ok [OF this, of "Some page" i] i page obtain ftl1 where
    run: "WriteBlock ftl i (Some page) = Some (True, ftl1)" and size: "GetTotalLBAs ftl1 = GetTotalLBAs ftl"
    by (auto simp: GetTotalLBAs_def kept_def)
  have reach: "ftl_reach cap cfg ftl1"
    by (rule ftl_reach.written [OF Cons.prems(1) _ run]) (use page in simp)
  obtain k where k: "2 * k + staged ftl1 + of_bool (is_zero_page page) + of_bool (is_raw_page page) \<le> staged ftl + 1"
    "counters ftl1 = (host_writes ftl + 1, zero_blocks ftl + of_bool (is_zero_page page),
       half_page_packs ftl + of_nat k, raw_full_pages ftl + of_bool (is_raw_page page))"
    using WriteBlock_counters [OF run i page] by blast
  have "\<forall>i \<in> set js. i < GetTotalLBAs ftl1"
    using Cons.prems(2) size by simp
  from Cons.IH [OF reach this, of r1 page] obtain r' ftl' k' where
    rest: "workload_loop gen js r1 page ftl1 = Some (r', ftl')" "ftl_reach cap cfg ftl'"
      "GetTotalLBAs ftl' = GetTotalLBAs ftl1" "length (workload_pages gen js r1 page) = length js"
      "2 * k' + staged ftl' + count_pages is_zero_page (workload_pages gen js r1 page) +
         count_pages is_raw_page (workload_pages gen js r1 page) \<le> staged ftl1 + length js"
      "counters ftl' = (host_writes ftl1 + of_nat (length js),
         zero_blocks ftl1 + of_nat (count_pages is_zero_page (workload_pages gen js r1 page)),
         half_page_packs ftl1 + of_nat k',
         raw_full_pages ftl1 + of_nat (count_pages is_raw_page (workload_pages gen js r1 page)))"
    by blast
  show ?case
  proof (intro exI conjI)
    show "workload_loop gen (i # js) r block ftl = Some (r', ftl')"
      by (simp add: gen run rest(1))
    show "counters ftl' = (host_writes ftl + of_nat (length (i # js)),
        zero_blocks ftl + of_nat (count_pages is_zero_page (workload_pages gen (i # js) r block)),
        half_page_packs ftl + of_nat (k + k'),
        raw_full_pages ftl + of_nat (count_pages is_raw_page (workload_pages gen (i # js) r block)))"
      using k(2) rest(6) by (simp add: gen counters_def)
  qed (use rest(2-5) size k(1) in \<open>simp_all add: gen\<close>)
qed

text \<open>The telemetry of a workload: every page is a host write, zero and raw pages are counted, and the pairs are made of
  other pages.\<close>

definition reports :: "FTLTelemetry \<Rightarrow> byte list list \<Rightarrow> bool" where
  "reports tel ps \<longleftrightarrow>
     t_host_writes tel = of_nat (length ps) \<and>
     t_zero_blocks_filtered tel = of_nat (count_pages is_zero_page ps) \<and>
     t_raw_full_pages_written tel = of_nat (count_pages is_raw_page ps) \<and>
     (\<exists>k. t_compressed_half_pages_packed tel = of_nat k \<and>
        2 * k + count_pages is_zero_page ps + count_pages is_raw_page ps \<le> length ps)"

lemma RunWorkload_ok:
  assumes reach: "ftl_reach cap cfg ftl" and geo: "geometry_ok cfg" and gen: "fills_pages gen"
    and n: "n \<le> GetTotalLBAs ftl" and none: "staged_half ftl = None"
  shows "\<exists>tel r' ftl'. RunWorkload gen n r ftl = Some (tel, r', ftl') \<and> ftl_reach cap cfg ftl' \<and>
           GetTotalLBAs ftl' = GetTotalLBAs ftl \<and> staged_half ftl' = None \<and>
           length (workload_pages gen [0..<n] r zero_page) = n \<and>
           reports tel (workload_pages gen [0..<n] r zero_page)"
proof -
  let ?c = "ResetTelemetry ftl" and ?ps = "workload_pages gen [0..<n] r zero_page"
  have c: "ftl_reach cap cfg ?c" "GetTotalLBAs ?c = GetTotalLBAs ftl" "staged ?c = 0" "host_writes ?c = 0"
      "zero_blocks ?c = 0" "half_page_packs ?c = 0" "raw_full_pages ?c = 0"
    using ftl_reach.was_reset [OF reach] none by (simp_all add: ResetTelemetry_def GetTotalLBAs_def staged_def)
  obtain r' c1 k where loop: "workload_loop gen [0..<n] r zero_page ?c = Some (r', c1)" "ftl_reach cap cfg c1"
      "GetTotalLBAs c1 = GetTotalLBAs ftl" "length ?ps = n"
    and k: "2 * k + staged c1 + count_pages is_zero_page ?ps + count_pages is_raw_page ?ps \<le> n"
    and c1: "counters c1 = (of_nat n, of_nat (count_pages is_zero_page ?ps), of_nat k, of_nat (count_pages is_raw_page ?ps))"
    using workload_loop_ok [OF c(1) geo gen, of "[0..<n]" r zero_page] n c(2-) by auto
  have "ftl_ok c1"
    using ftl_reach_ok [OF loop(2) geo] by blast
  from Flush_ok [OF this] obtain c2 where flush: "FlushStagedWrites c1 = Some c2" "kept c1 c2" "staged_half c2 = None"
    by blast
  have "counters c2 = counters c1"
    using Flush_counters [OF flush(1)] by blast
  with c1 k loop(4) have "reports (GetTelemetry c2) ?ps"
    by (auto simp: reports_def GetTelemetry_def counters_def Let_def intro!: exI [of _ k])
  moreover have "RunWorkload gen n r ftl = Some (GetTelemetry c2, r', c2)"
    using loop(1) flush(1) by (simp add: RunWorkload_def zero_page_def)
  moreover have "GetTotalLBAs c2 = GetTotalLBAs ftl"
    using flush(2) loop(3) by (simp add: GetTotalLBAs_def kept_def)
  ultimately show ?thesis
    using ftl_reach.flushed [OF loop(2) flush(1)] flush(3) loop(4) by blast
qed

text \<open>The same in numbers, for a workload that is not too long for the counters.\<close>

definition report_of :: "FTLTelemetry \<Rightarrow> nat \<Rightarrow> byte list list \<Rightarrow> bool" where
  "report_of tel n ps \<longleftrightarrow> reports tel ps \<and> length ps = n \<and> n < 2 ^ 64"

lemma report_ofD:
  assumes "report_of tel n ps"
  shows "t_zero_blocks_filtered tel = of_nat (count_pages is_zero_page ps)"
    and "unat (t_zero_blocks_filtered tel) = count_pages is_zero_page ps"
    and "t_host_writes tel = of_nat n"
    and "2 * unat (t_compressed_half_pages_packed tel) + unat (t_zero_blocks_filtered tel) +
      unat (t_raw_full_pages_written tel) \<le> unat (t_host_writes tel)"
proof -
  obtain k where k: "t_compressed_half_pages_packed tel = of_nat k"
      "2 * k + count_pages is_zero_page ps + count_pages is_raw_page ps \<le> n" "n < 2 ^ 64"
    and tel: "t_host_writes tel = of_nat n" "t_zero_blocks_filtered tel = of_nat (count_pages is_zero_page ps)"
      "t_raw_full_pages_written tel = of_nat (count_pages is_raw_page ps)"
    using assms by (auto simp: report_of_def reports_def)
  then have "unat (of_nat k :: 64 word) = k" "unat (of_nat n :: 64 word) = n"
    "unat (of_nat (count_pages is_zero_page ps) :: 64 word) = count_pages is_zero_page ps"
    "unat (of_nat (count_pages is_raw_page ps) :: 64 word) = count_pages is_raw_page ps"
    by (simp_all add: unat_of_nat)
  with k tel show "t_zero_blocks_filtered tel = of_nat (count_pages is_zero_page ps)"
    "unat (t_zero_blocks_filtered tel) = count_pages is_zero_page ps" "t_host_writes tel = of_nat n"
    "2 * unat (t_compressed_half_pages_packed tel) + unat (t_zero_blocks_filtered tel) +
      unat (t_raw_full_pages_written tel) \<le> unat (t_host_writes tel)"
    by simp_all
qed

section \<open>The pages of the four workloads\<close>

lemma length_noise: "length (snd (noise rng n r)) = 8 * n"
proof (induction n arbitrary: r)
  case (Suc n)
  obtain v r1 where "rng r = (v, r1)"
    by fastforce
  moreover obtain r2 bs where "noise rng n r1 = (r2, bs)"
    by fastforce
  ultimately show ?case
    using Suc [of r1] by (simp add: le_bytes_def)
qed simp

lemma page_lengths:
  "length zero_page = 4096" "length heap_page = 4096" "length (json_page i) = 4096" "length code_page = 4096"
  by (simp_all add: zero_page_def heap_page_def json_page_def code_page_def length_concat sum_list_triv sum_list_replicate o_def le_bytes_def
      del: replicate.simps upt.simps)

lemma generators_fill:
  "fills_pages heap_blocks" "fills_pages json_blocks" "fills_pages (noise_blocks rng)" "fills_pages (blended_blocks rng)"
  by (simp_all add: fills_pages_def heap_blocks_def json_blocks_def noise_blocks_def blended_blocks_def Let_def
      page_lengths length_noise)

text \<open>Only the pages that are meant to be zero are.\<close>

lemma zero_page_nth: "is_zero_page p \<Longrightarrow> i < 4096 \<Longrightarrow> p ! i = 0"
  by (simp add: is_zero_page_def)

lemma heap_page_zero: "\<not> is_zero_page heap_page"
proof
  assume "is_zero_page heap_page"
  then have zero: "heap_page ! 2 = 0"
    by (rule zero_page_nth) simp
  have start: "heap_page = le_bytes 8 (0x00007FFF00100000 :: 64 word) @
      concat (map (\<lambda>k. le_bytes 8 (0x00007FFF00100000 + of_nat (8 * k) * 8 :: 64 word)) [1..<512])"
    by (simp add: heap_page_def upt_conv_Cons [of 0] del: upt.simps)
  have third: "(le_bytes 8 (0x00007FFF00100000 :: 64 word) @ bs) ! 2 = 16" for bs
    by (simp add: nth_append le_bytes_def del: upt.simps)
  show False
    using zero unfolding start third by simp
qed

lemma sample_json_bytes: "list_all (\<lambda>b. b \<noteq> 0) sample_json" "length sample_json = 191"
  by (code_simp, code_simp)

lemma json_page_zero: "\<not> is_zero_page (json_page i)"
proof
  assume "is_zero_page (json_page i)"
  then have "json_page i ! 0 = 0"
    by (rule zero_page_nth) simp
  then have "sample_json ! (i mod 191) = 0"
    by (simp add: json_page_def sample_json_bytes(2) del: upt.simps)
  with sample_json_bytes show False
    by (simp add: list_all_length)
qed

lemma zero_page_zero: "is_zero_page zero_page"
  by (simp add: is_zero_page_def zero_page_def)

lemma heap_zeros: "count_pages is_zero_page (workload_pages heap_blocks js r b) = length (filter (\<lambda>i. i mod 3 = 0) js)"
  by (induction js arbitrary: b) (simp_all add: heap_blocks_def heap_page_zero zero_page_zero)

lemma json_zeros: "count_pages is_zero_page (workload_pages json_blocks js r b) = 0"
  by (induction js arbitrary: b) (simp_all add: json_blocks_def json_page_zero)

lemma blended_zeros:
  "length (filter (\<lambda>i. i mod 20 < 7) js) \<le> count_pages is_zero_page (workload_pages (blended_blocks rng) js r b)"
proof (induction js arbitrary: r b)
  case (Cons i js)
  obtain r' p where "blended_blocks rng i r b = (r', p)"
    by fastforce
  moreover from this have "i mod 20 < 7 \<Longrightarrow> is_zero_page p"
    by (auto simp: blended_blocks_def zero_page_zero)
  ultimately show ?case
    using Cons.IH [of r' p] by auto
qed simp

lemma count_periodic:
  assumes "0 < p"
  shows "length (filter (\<lambda>i. P (i mod p)) [0..<p * k]) = k * length (filter P [0..<p])"
proof (induction k)
  case (Suc k)
  have "[0..<p * Suc k] = [0..<p * k] @ [p * k..<p * k + p]"
    using upt_add_eq_append [of 0 "p * k" p] by (simp add: add.commute)
  moreover have "[p * k..<p * k + p] = map (\<lambda>j. j + p * k) [0..<p]"
    using map_add_upt [of "p * k" p] by (simp add: add.commute)
  moreover have "filter (\<lambda>j. P (j mod p)) [0..<p] = filter P [0..<p]"
    by (rule filter_cong) simp_all
  ultimately show ?case
    using Suc by (simp add: filter_map o_def)
qed simp

lemma workload_zeros:
  "length (filter (\<lambda>i. i mod 3 = 0) [0..<2048]) = 683"
  "1435 \<le> length (filter (\<lambda>i. i mod 20 < 7) [0..<4096])"
proof -
  have ends: "length (filter (\<lambda>i. i mod 3 = 0) [2046..<2048::nat]) = 1"
      "length (filter (\<lambda>i. i mod 20 < 7) [4080..<4096::nat]) = 7"
    by simp_all
  have periods: "length (filter (\<lambda>i. i = 0) [0..<3::nat]) = 1" "length (filter (\<lambda>i. i < 7) [0..<20::nat]) = 7"
    by code_simp+
  have nums: "(3::nat) * 682 = 2046" "(20::nat) * 204 = 4080" "(682::nat) * 1 = 682" "(204::nat) * 7 = 1428"
    by simp_all
  have "length (filter (\<lambda>i. i mod 3 = 0) [0..<3 * 682::nat]) = 682 * length (filter (\<lambda>i. i = 0) [0..<3])"
    "length (filter (\<lambda>i. i mod 20 < 7) [0..<20 * 204::nat]) = 204 * length (filter (\<lambda>i. i < 7) [0..<20])"
    by (rule count_periodic [of 3 "\<lambda>i. i = 0"], simp) (rule count_periodic [of 20 "\<lambda>i. i < 7"], simp)
  then have starts: "length (filter (\<lambda>i. i mod 3 = 0) [0..<2046::nat]) = 682"
      "length (filter (\<lambda>i. i mod 20 < 7) [0..<4080::nat]) = 1428"
    unfolding periods nums by - assumption+
  have split: "[0..<2048::nat] = [0..<2046] @ [2046..<2048]" "[0..<4096::nat] = [0..<4080] @ [4080..<4096]"
    using upt_add_eq_append [of 0 2046 2] upt_add_eq_append [of 0 4080 16]
    by (simp_all del: upt_rec_numeral upt.simps)
  show "length (filter (\<lambda>i. i mod 3 = 0) [0..<2048::nat]) = 683"
    unfolding split(1) filter_append length_append ends starts by simp
  show "1435 \<le> length (filter (\<lambda>i. i mod 20 < 7) [0..<4096::nat])"
    unfolding split(2) filter_append length_append ends starts by simp
qed

section \<open>The benchmark\<close>

text \<open>Between two workloads nothing is staged.\<close>

definition bench_ready :: "FTLController \<Rightarrow> bool" where
  "bench_ready c \<longleftrightarrow> ftl_reach (64 * 1024 * 1024) bench_cfg c \<and> GetTotalLBAs c = 16384 \<and> staged_half c = None"

lemma bench_geometry: "geometry_ok bench_cfg"
  by (simp add: geometry_ok_def bench_cfg_def default_FlashConfig_def)

lemma bench_start: "bench_ready (new_FTLController (64 * 1024 * 1024) bench_cfg)"
  using ftl_reach.start [of "64 * 1024 * 1024" bench_cfg]
  by (simp add: bench_ready_def GetTotalLBAs_def) (simp add: new_FTLController_def)

lemma bench_workload:
  assumes "bench_ready c" and "fills_pages gen" and "n \<le> 16384"
  shows "\<exists>t r' c'. RunWorkload gen n r c = Some (t, r', c') \<and> bench_ready c' \<and>
           report_of t n (workload_pages gen [0..<n] r zero_page)"
  using RunWorkload_ok [OF _ bench_geometry assms(2), of "64 * 1024 * 1024" c n r] assms(1,3)
  by (auto simp: bench_ready_def report_of_def)

text \<open>C10: The benchmark returns, whatever the random numbers are: its 10240 writes and 4 flushes make no access outside
  a vector or a buffer, garbage collection included. Its reports count every write; 683 pages of the first
  workload and none of the second are filtered as zero pages, and at least 1435 of the last one; the pairs of half
  pages are made of writes that are counted neither as zero nor as raw pages; nothing is left staged.\<close>

theorem benchmark_reports:
  "\<exists>t1 t2 t3 t4 ftl. benchmark rng seed = Some ([t1, t2, t3, t4], ftl) \<and> staged_half ftl = None \<and>
     map t_host_writes [t1, t2, t3, t4] = [2048, 2048, 2048, 4096] \<and>
     t_zero_blocks_filtered t1 = 683 \<and> t_zero_blocks_filtered t2 = 0 \<and> 1435 \<le> t_zero_blocks_filtered t4 \<and>
     list_all (\<lambda>t. 2 * unat (t_compressed_half_pages_packed t) + unat (t_zero_blocks_filtered t) +
       unat (t_raw_full_pages_written t) \<le> unat (t_host_writes t)) [t1, t2, t3, t4]"
proof -
  let ?c = "new_FTLController (64 * 1024 * 1024) bench_cfg"
  obtain t1 r1 c1 where w1: "RunWorkload heap_blocks 2048 seed ?c = Some (t1, r1, c1)" "bench_ready c1"
      "report_of t1 2048 (workload_pages heap_blocks [0..<2048] seed zero_page)"
    using bench_workload [OF bench_start generators_fill(1), of 2048 seed] by auto
  obtain t2 r2 c2 where w2: "RunWorkload json_blocks 2048 r1 c1 = Some (t2, r2, c2)" "bench_ready c2"
      "report_of t2 2048 (workload_pages json_blocks [0..<2048] r1 zero_page)"
    using bench_workload [OF w1(2) generators_fill(2), of 2048 r1] by auto
  obtain t3 r3 c3 where w3: "RunWorkload (noise_blocks rng) 2048 r2 c2 = Some (t3, r3, c3)" "bench_ready c3"
      "report_of t3 2048 (workload_pages (noise_blocks rng) [0..<2048] r2 zero_page)"
    using bench_workload [OF w2(2) generators_fill(3), of 2048 rng r2] by auto
  obtain t4 r4 c4 where w4: "RunWorkload (blended_blocks rng) 4096 r3 c3 = Some (t4, r4, c4)" "bench_ready c4"
      "report_of t4 4096 (workload_pages (blended_blocks rng) [0..<4096] r3 zero_page)"
    using bench_workload [OF w3(2) generators_fill(4), of 4096 rng r3] by auto
  have "benchmark rng seed = Some ([t1, t2, t3, t4], c4)"
    using w1(1) w2(1) w3(1) w4(1) by (simp add: benchmark_def)
  moreover have "t_zero_blocks_filtered t1 = 683" "t_zero_blocks_filtered t2 = 0"
    using report_ofD(1) [OF w1(3)] report_ofD(1) [OF w2(3)] by (simp_all add: heap_zeros json_zeros workload_zeros(1))
  moreover have "1435 \<le> t_zero_blocks_filtered t4"
    using report_ofD(2) [OF w4(3)] blended_zeros [of "[0..<4096]" rng r3 zero_page] workload_zeros(2)
    by (simp add: word_le_nat_alt)
  ultimately show ?thesis
    using w4(2) report_ofD(3,4) [OF w1(3)] report_ofD(3,4) [OF w2(3)] report_ofD(3,4) [OF w3(3)] report_ofD(3,4) [OF w4(3)]
    by (simp add: bench_ready_def)
qed

end
