(* ===== verification/Bdi_Engine.thy ===== *)
theory Bdi_Engine
  imports Lz4_Count
begin

text \<open>
  The base-delta-immediate compression of a cache line (legacy/src/bdi_engine.cpp,
  legacy/include/bdi_engine.hpp). The arrays of \<open>int64_t\<close>, \<open>int32_t\<close> and \<open>int16_t\<close> are lists of
  words, read as signed numbers with \<^term>\<open>sint\<close>; the bytes of a word are little-endian. A pointer
  argument is an option, with the null pointer as \<^term>\<open>None\<close>.

  Signed overflow is undefined in C++ unless the compiler is told to wrap around (\<open>-fwrapv\<close>). The
  argument \<open>wrap\<close> of the operations says which: with \<^term>\<open>True\<close> they wrap around, with
  \<^term>\<open>False\<close> an overflow makes the whole call \<^term>\<open>None\<close>. The subtraction and the addition of two
  \<open>int16_t\<close> are done in \<open>int\<close> and cut to 16 bits, so they always wrap around.
\<close>

section \<open>Data\<close>

abbreviation CACHE_LINE_SIZE :: nat where "CACHE_LINE_SIZE \<equiv> 64"

text \<open>An enumeration with a fixed underlying type can have values without a name.\<close>

datatype BDIPattern =
    ZEROS | REP_WORD | BASE8_DELTA1 | BASE8_DELTA2 | BASE8_DELTA4 | BASE4_DELTA1 | BASE4_DELTA2
  | BASE2_DELTA1 | UNCOMPRESSED | Unnamed "8 word"

fun pattern_value :: "BDIPattern \<Rightarrow> 8 word" where
  "pattern_value ZEROS = 0x0"
| "pattern_value REP_WORD = 0x1"
| "pattern_value BASE8_DELTA1 = 0x2"
| "pattern_value BASE8_DELTA2 = 0x3"
| "pattern_value BASE8_DELTA4 = 0x4"
| "pattern_value BASE4_DELTA1 = 0x5"
| "pattern_value BASE4_DELTA2 = 0x6"
| "pattern_value BASE2_DELTA1 = 0x7"
| "pattern_value UNCOMPRESSED = 0xF"
| "pattern_value (Unnamed v) = v"

text \<open>The cast of a number to the enumeration.\<close>

definition pattern_of :: "8 word \<Rightarrow> BDIPattern" where
  "pattern_of v =
     (if v = 0x0 then ZEROS else if v = 0x1 then REP_WORD else if v = 0x2 then BASE8_DELTA1
      else if v = 0x3 then BASE8_DELTA2 else if v = 0x4 then BASE8_DELTA4 else if v = 0x5 then BASE4_DELTA1
      else if v = 0x6 then BASE4_DELTA2 else if v = 0x7 then BASE2_DELTA1 else if v = 0xF then UNCOMPRESSED
      else Unnamed v)"

fun PatternToString :: "BDIPattern \<Rightarrow> string" where
  "PatternToString ZEROS = ''Zeros''"
| "PatternToString REP_WORD = ''Repeated-Word''"
| "PatternToString BASE8_DELTA1 = ''Base8-Delta1''"
| "PatternToString BASE8_DELTA2 = ''Base8-Delta2''"
| "PatternToString BASE8_DELTA4 = ''Base8-Delta4''"
| "PatternToString BASE4_DELTA1 = ''Base4-Delta1''"
| "PatternToString BASE4_DELTA2 = ''Base4-Delta2''"
| "PatternToString BASE2_DELTA1 = ''Base2-Delta1''"
| "PatternToString UNCOMPRESSED = ''Uncompressed''"
| "PatternToString (Unnamed v) = ''Unknown''"

record CompressedLine =
  l_pattern :: BDIPattern
  l_size :: "8 word"
  l_data :: "byte list"

definition new_CompressedLine :: CompressedLine where
  "new_CompressedLine = \<lparr>l_pattern = UNCOMPRESSED, l_size = 64, l_data = replicate (CACHE_LINE_SIZE + 1) 0\<rparr>"

definition GetQuantizedSlotSize :: "8 word \<Rightarrow> 8 word" where
  "GetQuantizedSlotSize raw_compressed_size =
     (if raw_compressed_size \<le> 16 then 16
      else if raw_compressed_size \<le> 32 then 32
      else if raw_compressed_size \<le> 48 then 48
      else 64)"

section \<open>Arithmetic\<close>

definition signed_sub :: "bool \<Rightarrow> 'a::len word \<Rightarrow> 'a word \<Rightarrow> 'a word option" where
  "signed_sub wrap a b = (if wrap \<or> sint a - sint b = sint (a - b) then Some (a - b) else None)"

definition signed_add :: "bool \<Rightarrow> 'a::len word \<Rightarrow> 'a word \<Rightarrow> 'a word option" where
  "signed_add wrap a b = (if wrap \<or> sint a + sint b = sint (a + b) then Some (a + b) else None)"

text \<open>The words of \<open>n\<close> bytes of a line.\<close>

definition words_of :: "nat \<Rightarrow> byte list \<Rightarrow> 'a::len word list" where
  "words_of n src = map (\<lambda>i. le_word (take n (drop (n * i) src))) [0..<CACHE_LINE_SIZE div n]"

text \<open>A signed delta of \<open>n\<close> bytes, extended to the type of the base.\<close>

definition delta_of :: "nat \<Rightarrow> byte list \<Rightarrow> 'a::len word" where
  "delta_of n bs = word_of_int (signed_take_bit (8 * n - 1) (uint (le_word bs :: 'a word)))"

section \<open>Compression\<close>

text \<open>The test that all differences to the base fit \<open>n\<close> bytes; the loop is left at the first that
  does not.\<close>

fun deltas_fit :: "bool \<Rightarrow> nat \<Rightarrow> 'a::len word \<Rightarrow> 'a word list \<Rightarrow> bool option" where
  "deltas_fit wrap n base [] = Some True"
| "deltas_fit wrap n base (w # ws) =
     do { diff \<leftarrow> signed_sub wrap w base;
          if sint diff < - (2 ^ (8 * n - 1)) \<or> sint diff > 2 ^ (8 * n - 1) - 1 then Some False
          else deltas_fit wrap n base ws }"

text \<open>The loop that stores the deltas, from offset \<open>off\<close> on.\<close>

fun put_deltas ::
  "bool \<Rightarrow> nat \<Rightarrow> nat \<Rightarrow> 'a::len word \<Rightarrow> 'a word list \<Rightarrow> byte list \<Rightarrow> byte list option" where
  "put_deltas wrap n off base [] d = Some d"
| "put_deltas wrap n off base (w # ws) d =
     do { delta \<leftarrow> signed_sub wrap w base;
          d \<leftarrow> array_copy d off (le_bytes n delta) 0 n;
          put_deltas wrap n (off + n) base ws d }"

text \<open>One of the encodings, with a base of \<open>bn\<close> bytes and deltas of \<open>dn\<close> bytes: \<^term>\<open>Some None\<close> if the
  line does not have its form.\<close>

definition base_delta ::
  "bool \<Rightarrow> BDIPattern \<Rightarrow> 8 word \<Rightarrow> nat \<Rightarrow> nat \<Rightarrow> 'a::len word list \<Rightarrow> CompressedLine option option" where
  "base_delta wrap pat sz bn dn ws =
     do { ok \<leftarrow> deltas_fit wrap dn (hd ws) (tl ws);
          if \<not> ok then Some None
          else do {
            d \<leftarrow> array_copy (l_data new_CompressedLine) 0 [pattern_value pat] 0 1;
            d \<leftarrow> array_copy d 1 (le_bytes bn (hd ws)) 0 bn;
            d \<leftarrow> put_deltas wrap dn (1 + bn) (hd ws) (tl ws) d;
            Some (Some \<lparr>l_pattern = pat, l_size = sz, l_data = d\<rparr>) } }"

definition try_zeros :: "64 word list \<Rightarrow> CompressedLine option option" where
  "try_zeros words64 =
     (if list_all (\<lambda>w. w = 0) words64 then
        do { d \<leftarrow> array_copy (l_data new_CompressedLine) 0 [pattern_value ZEROS] 0 1;
             Some (Some \<lparr>l_pattern = ZEROS, l_size = 1, l_data = d\<rparr>) }
      else Some None)"

definition try_rep_word :: "64 word list \<Rightarrow> CompressedLine option option" where
  "try_rep_word words64 =
     (if list_all (\<lambda>w. w = hd words64) (tl words64) then
        do { d \<leftarrow> array_copy (l_data new_CompressedLine) 0 [pattern_value REP_WORD] 0 1;
             d \<leftarrow> array_copy d 1 (le_bytes 8 (hd words64)) 0 8;
             Some (Some \<lparr>l_pattern = REP_WORD, l_size = 9, l_data = d\<rparr>) }
      else Some None)"

definition try_base8_delta1 :: "bool \<Rightarrow> 64 word list \<Rightarrow> CompressedLine option option" where
  "try_base8_delta1 wrap words64 = base_delta wrap BASE8_DELTA1 16 8 1 words64"

definition try_base4_delta1 :: "bool \<Rightarrow> 32 word list \<Rightarrow> CompressedLine option option" where
  "try_base4_delta1 wrap words32 = base_delta wrap BASE4_DELTA1 20 4 1 words32"

definition try_base8_delta2 :: "bool \<Rightarrow> 64 word list \<Rightarrow> CompressedLine option option" where
  "try_base8_delta2 wrap words64 = base_delta wrap BASE8_DELTA2 23 8 2 words64"

definition try_base2_delta1 :: "16 word list \<Rightarrow> CompressedLine option option" where
  "try_base2_delta1 words16 = base_delta True BASE2_DELTA1 34 2 1 words16"

definition try_base4_delta2 :: "bool \<Rightarrow> 32 word list \<Rightarrow> CompressedLine option option" where
  "try_base4_delta2 wrap words32 = base_delta wrap BASE4_DELTA2 35 4 2 words32"

definition try_base8_delta4 :: "bool \<Rightarrow> 64 word list \<Rightarrow> CompressedLine option option" where
  "try_base8_delta4 wrap words64 = base_delta wrap BASE8_DELTA4 37 8 4 words64"

text \<open>The fallback. The copy overwrites the tag that was stored before it.\<close>

definition store_raw :: "byte list \<Rightarrow> CompressedLine option" where
  "store_raw src =
     do { d \<leftarrow> array_copy (l_data new_CompressedLine) 0 [pattern_value UNCOMPRESSED] 0 1;
          d \<leftarrow> array_copy d 0 src 0 64;
          Some \<lparr>l_pattern = UNCOMPRESSED, l_size = 64, l_data = d\<rparr> }"

text \<open>The first encoding that applies is taken.\<close>

fun first_of :: "CompressedLine option option list \<Rightarrow> CompressedLine option \<Rightarrow> CompressedLine option" where
  "first_of [] fallback = fallback"
| "first_of (t # ts) fallback = do { r \<leftarrow> t; case r of Some l \<Rightarrow> Some l | None \<Rightarrow> first_of ts fallback }"

definition BDI_Compress :: "bool \<Rightarrow> byte list option \<Rightarrow> CompressedLine option" where
  "BDI_Compress wrap src_64b =
     (case src_64b of
        None \<Rightarrow> Some new_CompressedLine
      | Some src \<Rightarrow>
          do { src \<leftarrow> array_copy (replicate 64 0) 0 src 0 64;
               let words64 = words_of 8 src; let words32 = words_of 4 src; let words16 = words_of 2 src;
               first_of
                 [try_zeros words64, try_rep_word words64, try_base8_delta1 wrap words64,
                  try_base4_delta1 wrap words32, try_base8_delta2 wrap words64, try_base2_delta1 words16,
                  try_base4_delta2 wrap words32, try_base8_delta4 wrap words64]
                 (store_raw src) })"

section \<open>Decompression\<close>

text \<open>The loop over the words \<open>i\<close> of the destination after the first: the delta at its place in the
  buffer is added to the base.\<close>

fun add_deltas ::
  "bool \<Rightarrow> nat \<Rightarrow> nat \<Rightarrow> 'a::len word \<Rightarrow> byte list \<Rightarrow> nat list \<Rightarrow> byte list \<Rightarrow> byte list option" where
  "add_deltas wrap bn dn base buf [] d = Some d"
| "add_deltas wrap bn dn base buf (i # js) d =
     do { bs \<leftarrow> array_copy (replicate dn 0) 0 buf (1 + bn + (i - 1) * dn) dn;
          w \<leftarrow> signed_add wrap base (delta_of dn bs);
          d \<leftarrow> array_copy d (bn * i) (le_bytes bn w) 0 bn;
          add_deltas wrap bn dn base buf js d }"

definition expand_deltas ::
  "bool \<Rightarrow> 'a::len itself \<Rightarrow> nat \<Rightarrow> nat \<Rightarrow> nat \<Rightarrow> byte list \<Rightarrow> nat \<Rightarrow> byte list \<Rightarrow> (bool \<times> byte list) option" where
  "expand_deltas wrap ty need bn dn buf comp_size dest =
     (if comp_size < need then Some (False, dest)
      else do {
        bs \<leftarrow> array_copy (replicate bn 0) 0 buf 1 bn;
        let base_word = (le_word bs :: 'a word);
        d \<leftarrow> array_copy dest 0 (le_bytes bn base_word) 0 bn;
        d \<leftarrow> add_deltas wrap bn dn base_word buf [1..<CACHE_LINE_SIZE div bn] d;
        Some (True, d) })"

text \<open>The loop of the repeated word.\<close>

fun put_copies :: "64 word \<Rightarrow> nat list \<Rightarrow> byte list \<Rightarrow> byte list option" where
  "put_copies w [] d = Some d"
| "put_copies w (i # js) d = do { d \<leftarrow> array_copy d (8 * i) (le_bytes 8 w) 0 8; put_copies w js d }"

text \<open>The value returned and the destination. \<open>comp_buffer\<close> are the bytes that can be read from the
  pointer on, which may be more than \<open>comp_size\<close>.\<close>

definition DecompressRaw ::
  "bool \<Rightarrow> byte list option \<Rightarrow> nat \<Rightarrow> byte list option \<Rightarrow> BDIPattern option \<Rightarrow> (bool \<times> byte list) option" where
  "DecompressRaw wrap comp_buffer comp_size dest_64b explicit_pattern =
     (case (comp_buffer, dest_64b) of
        (Some buf, Some dest) \<Rightarrow>
          if comp_size = 0 then Some (False, dest)
          else do {
            pattern \<leftarrow> (case explicit_pattern of
                Some p \<Rightarrow> Some p
              | None \<Rightarrow> do { b \<leftarrow> array_copy [0] 0 buf 0 1; Some (pattern_of (hd b)) });
            case pattern of
              ZEROS \<Rightarrow> do { d \<leftarrow> array_fill dest 0 CACHE_LINE_SIZE; Some (True, d) }
            | REP_WORD \<Rightarrow>
                if comp_size < 9 then Some (False, dest)
                else do {
                  bs \<leftarrow> array_copy (replicate 8 0) 0 buf 1 8;
                  d \<leftarrow> put_copies (le_word bs) [0..<8] dest;
                  Some (True, d) }
            | BASE8_DELTA1 \<Rightarrow> expand_deltas wrap TYPE(64) 16 8 1 buf comp_size dest
            | BASE8_DELTA2 \<Rightarrow> expand_deltas wrap TYPE(64) 23 8 2 buf comp_size dest
            | BASE8_DELTA4 \<Rightarrow> expand_deltas wrap TYPE(64) 37 8 4 buf comp_size dest
            | BASE4_DELTA1 \<Rightarrow> expand_deltas wrap TYPE(32) 20 4 1 buf comp_size dest
            | BASE4_DELTA2 \<Rightarrow> expand_deltas wrap TYPE(32) 35 4 2 buf comp_size dest
            | BASE2_DELTA1 \<Rightarrow> expand_deltas True TYPE(16) 34 2 1 buf comp_size dest
            | UNCOMPRESSED \<Rightarrow> do { d \<leftarrow> array_copy dest 0 buf 0 CACHE_LINE_SIZE; Some (True, d) }
            | Unnamed v \<Rightarrow> Some (False, dest) }
      | (_, None) \<Rightarrow> Some (False, [])
      | (None, Some dest) \<Rightarrow> Some (False, dest))"

definition BDI_Decompress ::
  "bool \<Rightarrow> CompressedLine \<Rightarrow> byte list option \<Rightarrow> (bool \<times> byte list) option" where
  "BDI_Decompress wrap line dest_64b =
     DecompressRaw wrap (Some (l_data line)) (unat (l_size line)) dest_64b (Some (l_pattern line))"

end
