(* ===== verification/Line_Table.thy ===== *)
theory Line_Table
  imports Bdi_Engine Complex_Main
begin

text \<open>
  The line table of the compressed memory (legacy/src/line_table.cpp, legacy/include/line_table.hpp):
  the map from logical lines to stretches of 16-byte chunks of the physical buffer, with the chunk
  allocator. Sizes of type \<open>size_t\<close> are natural numbers, the bit fields of an entry keep their
  width. The mutex makes each call one step.
\<close>

section \<open>Data\<close>

abbreviation SLOT_CHUNK_SIZE :: nat where "SLOT_CHUNK_SIZE \<equiv> 16"

record LineTableEntry =
  phys_chunk_offset :: "24 word"
  allocated_chunks :: "3 word"
  pattern_tag :: "4 word"
  e_valid :: "1 word"
  e_reserved :: "32 word"

definition new_LineTableEntry :: LineTableEntry where
  "new_LineTableEntry =
     \<lparr>phys_chunk_offset = 0, allocated_chunks = 0, pattern_tag = 0, e_valid = 0, e_reserved = 0\<rparr>"

record MemoryLineTable =
  virtual_capacity :: nat
  physical_capacity :: nat
  total_logical_lines :: nat
  total_physical_chunks :: nat
  entries :: "LineTableEntry list"
  physical_dram :: "byte list"
  free_chunks_16b :: "32 word list"
  free_chunks_32b :: "32 word list"
  free_chunks_48b :: "32 word list"
  free_chunks_64b :: "32 word list"
  next_unpartitioned_chunk :: nat
  allocated_chunks_count :: "64 word"
  total_uncompressed_bytes_stored :: "64 word"

definition LT_Reset :: "MemoryLineTable \<Rightarrow> MemoryLineTable" where
  "LT_Reset t =
     t\<lparr>entries := replicate (length (entries t)) new_LineTableEntry,
       physical_dram := replicate (physical_capacity t) 0,
       free_chunks_16b := [], free_chunks_32b := [], free_chunks_48b := [], free_chunks_64b := [],
       next_unpartitioned_chunk := 0, allocated_chunks_count := 0, total_uncompressed_bytes_stored := 0\<rparr>"

text \<open>The constructor, with the wrap-around of \<open>size_t\<close> in the number of lines.\<close>

definition new_MemoryLineTable :: "nat \<Rightarrow> nat \<Rightarrow> MemoryLineTable" where
  "new_MemoryLineTable vcap pcap =
     (let lines = (vcap + CACHE_LINE_SIZE - 1) mod 2 ^ 64 div CACHE_LINE_SIZE in
      LT_Reset
        \<lparr>virtual_capacity = vcap, physical_capacity = pcap, total_logical_lines = lines,
         total_physical_chunks = pcap div SLOT_CHUNK_SIZE,
         entries = replicate lines new_LineTableEntry, physical_dram = replicate pcap 0,
         free_chunks_16b = [], free_chunks_32b = [], free_chunks_48b = [], free_chunks_64b = [],
         next_unpartitioned_chunk = 0, allocated_chunks_count = 0, total_uncompressed_bytes_stored = 0\<rparr>)"

section \<open>The allocator\<close>

text \<open>The value \<open>UINT32_MAX\<close> says that there is no memory.\<close>

definition UINT32_MAX :: "32 word" where
  "UINT32_MAX = 0xFFFFFFFF"

definition AllocateChunks :: "8 word \<Rightarrow> MemoryLineTable \<Rightarrow> 32 word \<times> MemoryLineTable" where
  "AllocateChunks num_chunks t =
     (if num_chunks = 0 then (0, t)
      else if num_chunks = 1 \<and> free_chunks_16b t \<noteq> [] then
        (last (free_chunks_16b t),
         t\<lparr>free_chunks_16b := butlast (free_chunks_16b t),
           allocated_chunks_count := allocated_chunks_count t + ucast num_chunks\<rparr>)
      else if num_chunks = 2 \<and> free_chunks_32b t \<noteq> [] then
        (last (free_chunks_32b t),
         t\<lparr>free_chunks_32b := butlast (free_chunks_32b t),
           allocated_chunks_count := allocated_chunks_count t + ucast num_chunks\<rparr>)
      else if num_chunks = 3 \<and> free_chunks_48b t \<noteq> [] then
        (last (free_chunks_48b t),
         t\<lparr>free_chunks_48b := butlast (free_chunks_48b t),
           allocated_chunks_count := allocated_chunks_count t + ucast num_chunks\<rparr>)
      else if num_chunks = 4 \<and> free_chunks_64b t \<noteq> [] then
        (last (free_chunks_64b t),
         t\<lparr>free_chunks_64b := butlast (free_chunks_64b t),
           allocated_chunks_count := allocated_chunks_count t + ucast num_chunks\<rparr>)
      else if next_unpartitioned_chunk t + unat num_chunks \<le> total_physical_chunks t then
        (word_of_nat (next_unpartitioned_chunk t),
         t\<lparr>next_unpartitioned_chunk := next_unpartitioned_chunk t + unat num_chunks,
           allocated_chunks_count := allocated_chunks_count t + ucast num_chunks\<rparr>)
      else (UINT32_MAX, t))"

definition FreeChunks :: "32 word \<Rightarrow> 8 word \<Rightarrow> MemoryLineTable \<Rightarrow> MemoryLineTable" where
  "FreeChunks chunk_offset num_chunks t =
     (if num_chunks = 0 \<or> chunk_offset = UINT32_MAX then t
      else
        let t = t\<lparr>allocated_chunks_count := allocated_chunks_count t - ucast num_chunks\<rparr> in
        if num_chunks = 1 then t\<lparr>free_chunks_16b := free_chunks_16b t @ [chunk_offset]\<rparr>
        else if num_chunks = 2 then t\<lparr>free_chunks_32b := free_chunks_32b t @ [chunk_offset]\<rparr>
        else if num_chunks = 3 then t\<lparr>free_chunks_48b := free_chunks_48b t @ [chunk_offset]\<rparr>
        else if num_chunks = 4 then t\<lparr>free_chunks_64b := free_chunks_64b t @ [chunk_offset]\<rparr>
        else t)"

section \<open>Storing and loading a line\<close>

definition needed_chunks :: "CompressedLine \<Rightarrow> 8 word" where
  "needed_chunks comp_line =
     (if l_pattern comp_line \<noteq> ZEROS then GetQuantizedSlotSize (l_size comp_line) div 16 else 0)"

text \<open>The chunks for a line: those it has if their number is right, new ones otherwise;
  \<^term>\<open>None\<close> in the first component if there is no memory.\<close>

definition place_line :: "nat \<Rightarrow> 8 word \<Rightarrow> MemoryLineTable \<Rightarrow> 32 word option \<times> MemoryLineTable" where
  "place_line idx needed t =
     (let entry = entries t ! idx; chunk_offset = ucast (phys_chunk_offset entry) in
      if e_valid entry \<noteq> 0 then
        if ucast (allocated_chunks entry) \<noteq> needed then
          let t = FreeChunks (ucast (phys_chunk_offset entry)) (ucast (allocated_chunks entry)) t;
              (chunk_offset, t) = AllocateChunks needed t
          in if needed > 0 \<and> chunk_offset = UINT32_MAX then (None, t) else (Some chunk_offset, t)
        else (Some chunk_offset, t)
      else
        let (chunk_offset, t) = AllocateChunks needed t in
        if needed > 0 \<and> chunk_offset = UINT32_MAX then (None, t)
        else (Some chunk_offset,
              t\<lparr>total_uncompressed_bytes_stored := total_uncompressed_bytes_stored t + 64\<rparr>))"

definition StoreLine :: "nat \<Rightarrow> CompressedLine \<Rightarrow> MemoryLineTable \<Rightarrow> (bool \<times> MemoryLineTable) option" where
  "StoreLine logical_line_idx comp_line t =
     (if logical_line_idx \<ge> total_logical_lines t then Some (False, t)
      else if logical_line_idx \<ge> length (entries t) then None
      else
        let needed = needed_chunks comp_line in
        case place_line logical_line_idx needed t of
          (None, t) \<Rightarrow> Some (False, t)
        | (Some chunk_offset, t) \<Rightarrow>
            do { dram \<leftarrow> (if needed > 0
                   then array_copy (physical_dram t) (unat chunk_offset * SLOT_CHUNK_SIZE) (l_data comp_line) 0
                          (unat (l_size comp_line))
                   else Some (physical_dram t));
                 let entry = (entries t ! logical_line_idx)
                   \<lparr>phys_chunk_offset := (if needed > 0 then ucast chunk_offset else 0),
                    allocated_chunks := ucast needed,
                    pattern_tag := ucast (pattern_value (l_pattern comp_line)), e_valid := 1\<rparr>;
                 Some (True, t\<lparr>physical_dram := dram, entries := (entries t)[logical_line_idx := entry]\<rparr>) })"

text \<open>The value returned and the destination; the table does not change.\<close>

definition LoadLine :: "bool \<Rightarrow> nat \<Rightarrow> byte list option \<Rightarrow> MemoryLineTable \<Rightarrow> (bool \<times> byte list) option" where
  "LoadLine wrap logical_line_idx dest_64b t =
     (case dest_64b of
        None \<Rightarrow> Some (False, [])
      | Some dest \<Rightarrow>
          if logical_line_idx \<ge> total_logical_lines t then Some (False, dest)
          else if logical_line_idx \<ge> length (entries t) then None
          else
            let entry = entries t ! logical_line_idx in
            if e_valid entry = 0 then do { d \<leftarrow> array_fill dest 0 CACHE_LINE_SIZE; Some (True, d) }
            else if allocated_chunks entry = 0 \<or> pattern_tag entry = ucast (pattern_value ZEROS) then
              do { d \<leftarrow> array_fill dest 0 CACHE_LINE_SIZE; Some (True, d) }
            else
              let byte_src = unat (phys_chunk_offset entry) * SLOT_CHUNK_SIZE;
                  comp_size = unat (allocated_chunks entry) * SLOT_CHUNK_SIZE
              in DecompressRaw wrap (Some (drop byte_src (physical_dram t))) comp_size (Some dest)
                   (Some (pattern_of (ucast (pattern_tag entry)))))"

definition GetEntry :: "nat \<Rightarrow> MemoryLineTable \<Rightarrow> LineTableEntry" where
  "GetEntry logical_line_idx t =
     (if logical_line_idx \<ge> total_logical_lines t then new_LineTableEntry else entries t ! logical_line_idx)"

definition GetAllocatedPhysicalBytes :: "MemoryLineTable \<Rightarrow> 64 word" where
  "GetAllocatedPhysicalBytes t = allocated_chunks_count t * 16"

definition GetCurrentCompressionRatio :: "MemoryLineTable \<Rightarrow> real" where
  "GetCurrentCompressionRatio t =
     (let phys_bytes = GetAllocatedPhysicalBytes t; uncomp_bytes = total_uncompressed_bytes_stored t in
      if phys_bytes = 0 then (if uncomp_bytes > 0 then 999 else 1)
      else real (unat uncomp_bytes) / real (unat phys_bytes))"

definition GetMemorySavingPercentage :: "MemoryLineTable \<Rightarrow> real" where
  "GetMemorySavingPercentage t =
     (let phys_bytes = GetAllocatedPhysicalBytes t; uncomp_bytes = total_uncompressed_bytes_stored t in
      if uncomp_bytes = 0 then 0
      else if phys_bytes \<ge> uncomp_bytes then 0
      else (1 - real (unat phys_bytes) / real (unat uncomp_bytes)) * 100)"

end
