(* ===== verification/Bdi_Props.thy ===== *)
theory Bdi_Props
  imports Bdi_Engine
begin

text \<open>
  The base-delta-immediate encodings and their decoder are inverse to each other.
\<close>

section \<open>Words and bytes\<close>

lemma length_le_bytes [simp]: "length (le_bytes n w) = n"
  by (simp add: le_bytes_def)

lemma bit_le_bytes: "j < n \<Longrightarrow> i < 8 \<Longrightarrow> bit (le_bytes n (w :: 'a::len word) ! j) i = bit w (8 * j + i)"
  by (auto simp: le_bytes_def bit_simps dest: bit_imp_le_length)

lemma le_bytes_le_word:
  assumes "length bs = n" and "LENGTH('a) = 8 * n"
  shows "le_bytes n (le_word bs :: 'a::len word) = bs"
proof (rule nth_equalityI)
  fix j assume j: "j < length (le_bytes n (le_word bs :: 'a word))"
  then show "le_bytes n (le_word bs :: 'a word) ! j = bs ! j"
    using assms unfolding byte_eq_bits by (simp add: bit_le_bytes bit_le_word)
qed (use assms in simp)

lemma bit_le_word_le_bytes:
  "bit (le_word (le_bytes n w) :: 'a::len word) i \<longleftrightarrow> i < 8 * n \<and> bit (w :: 'a word) i"
proof (cases "i < 8 * n")
  case True
  then have "i div 8 < n" and "8 * (i div 8) + i mod 8 = i"
    by (simp_all add: less_mult_imp_div_less mult.commute)
  with True show ?thesis
    by (auto simp: bit_le_word bit_le_bytes dest: bit_imp_le_length)
next
  case False
  then have "\<not> i div 8 < n"
    by (simp add: div_less_iff_less_mult)
  with False show ?thesis
    by (auto simp: bit_le_word)
qed

lemma le_word_le_bytes: "LENGTH('a) = 8 * n \<Longrightarrow> le_word (le_bytes n w) = (w :: 'a::len word)"
  by (rule bit_word_eqI) (simp add: bit_le_word_le_bytes)

lemma delta_of_le_bytes:
  assumes "0 < n" and "8 * n \<le> LENGTH('a)" and "- (2 ^ (8 * n - 1)) \<le> sint d" and "sint d < 2 ^ (8 * n - 1)"
  shows "delta_of n (le_bytes n d) = (d :: 'a::len word)"
proof -
  have "le_word (le_bytes n d) = (take_bit (8 * n) d :: 'a word)"
    by (rule bit_word_eqI) (auto simp: bit_le_word_le_bytes bit_take_bit_iff)
  then have "uint (le_word (le_bytes n d) :: 'a word) = take_bit (8 * n) (uint d)"
    by (simp add: unsigned_take_bit_eq)
  moreover have "signed_take_bit (8 * n - 1) (take_bit (8 * n) (uint d)) = signed_take_bit (8 * n - 1) (uint d)"
    using assms(1) by (auto simp: signed_take_bit_take_bit)
  moreover have "signed_take_bit (8 * n - 1) (uint d) = signed_take_bit (8 * n - 1) (sint d)"
    using assms(1,2) by (auto simp: sint_uint signed_take_bit_signed_take_bit min_def)
  moreover have "signed_take_bit (8 * n - 1) (sint d) = sint d"
    by (rule signed_take_bit_int_eq_self) (use assms in simp_all)
  ultimately show ?thesis
    by (simp add: delta_of_def)
qed

section \<open>Stretches of equal length\<close>

lemma length_concat_chunks: "(\<And>x. length (f x) = n) \<Longrightarrow> length (concat (map f xs)) = n * length xs"
  by (induction xs) simp_all

lemma nth_chunk:
  assumes "\<And>x. length (f x) = n" and "j < length xs"
  shows "take n (drop (j * n) (concat (map f xs) @ rest)) = f (xs ! j)"
  using assms(2)
proof (induction xs arbitrary: j)
  case (Cons x xs)
  then show ?case
    using assms(1) [of x] by (cases j) simp_all
qed simp

lemma chunks_join:
  assumes "length src = n * k" and "0 < n"
  shows "concat (map (\<lambda>i. take n (drop (n * i) src)) [0..<k]) = src"
  using assms(1)
proof (induction k arbitrary: src)
  case (Suc k)
  have "map (\<lambda>i. take n (drop (n * i) src)) [0..<Suc k] =
      take n src # map (\<lambda>i. take n (drop (n * i) (drop n src))) [0..<k]"
    by (simp add: upt_conv_Cons map_Suc_upt [symmetric] add.commute del: upt_Suc)
  with Suc.IH [of "drop n src"] Suc.prems show ?case
    by simp
qed simp

lemma words_of_join:
  assumes "length src = 64" and "LENGTH('a) = 8 * n" and "n * (64 div n) = 64" and "0 < n"
  shows "concat (map (le_bytes n) (words_of n src :: 'a::len word list)) = src"
proof -
  have len: "length (take n (drop (n * i) src)) = n" if "i < 64 div n" for i
  proof -
    have "n * Suc i \<le> n * (64 div n)"
      using that by (intro mult_le_mono2) simp
    then show ?thesis
      using assms(1,3) by simp
  qed
  have "map (le_bytes n) (words_of n src :: 'a word list) = map (\<lambda>i. take n (drop (n * i) src)) [0..<64 div n]"
    using len assms(2) by (simp add: words_of_def le_bytes_le_word)
  then show ?thesis
    using chunks_join [of src n "64 div n"] assms by simp
qed

section \<open>One encoding\<close>

lemma deltas_fitD:
  assumes "deltas_fit wrap n base ws = Some True" and "w \<in> set ws"
  shows "signed_sub wrap w base = Some (w - base)" and "- (2 ^ (8 * n - 1)) \<le> sint (w - base)"
    and "sint (w - base) < 2 ^ (8 * n - 1)"
proof -
  have *: "signed_sub wrap w base = Some (w - base) \<and> - (2 ^ (8 * n - 1)) \<le> sint (w - base) \<and>
      sint (w - base) < 2 ^ (8 * n - 1)"
    using assms
  proof (induction ws)
    case (Cons x ws)
    then show ?case
      by (auto simp: signed_sub_def split: if_splits)
  qed simp
  then show "signed_sub wrap w base = Some (w - base)" "- (2 ^ (8 * n - 1)) \<le> sint (w - base)"
    "sint (w - base) < 2 ^ (8 * n - 1)"
    by simp_all
qed

lemma signed_add_back:
  "signed_sub wrap w base = Some d \<Longrightarrow> signed_add wrap base d = Some w"
  by (auto simp: signed_sub_def signed_add_def split: if_splits)

lemma put_deltas_result:
  assumes "\<And>w. w \<in> set ws \<Longrightarrow> signed_sub wrap w base = Some (w - base)" and "off + n * length ws \<le> length d"
  shows "put_deltas wrap n off base ws d =
    Some (take off d @ concat (map (\<lambda>w. le_bytes n (w - base)) ws) @ drop (off + n * length ws) d)"
  using assms
proof (induction ws arbitrary: off d)
  case (Cons w ws)
  let ?d = "take off d @ le_bytes n (w - base) @ drop (off + n) d"
  have fits: "off + n \<le> length d"
    using Cons.prems(2) by simp
  have copy: "array_copy d off (le_bytes n (w - base)) 0 n = Some ?d"
    using fits by simp
  have "length ?d = length d"
    using fits by simp
  then have "off + n + n * length ws \<le> length ?d"
    using Cons.prems(2) by simp
  note IH = Cons.IH [OF _ this]
  have "take (off + n) ?d = take off d @ le_bytes n (w - base)"
    using fits by simp
  moreover have "drop (off + n + n * length ws) ?d = drop (off + n * length (w # ws)) d"
    using fits by (simp add: algebra_simps)
  ultimately show ?case
    using IH Cons.prems(1) copy by simp
qed simp

lemma base_delta_data:
  assumes "base_delta wrap pat sz bn dn ws = Some (Some l)" and "1 + bn + dn * length (tl ws) \<le> 65"
  shows "l_pattern l = pat" and "l_size l = sz" and "length (l_data l) = 65"
    and "take (1 + bn + dn * length (tl ws)) (l_data l) =
      [pattern_value pat] @ le_bytes bn (hd ws) @ concat (map (\<lambda>w. le_bytes dn (w - hd ws)) (tl ws))"
    and "deltas_fit wrap dn (hd ws) (tl ws) = Some True"
proof -
  let ?base = "hd ws" and ?m = "1 + bn + dn * length (tl ws)"
  show fit: "deltas_fit wrap dn ?base (tl ws) = Some True"
    using assms(1) by (auto simp: base_delta_def split: bind_splits if_splits)
  let ?d = "[pattern_value pat] @ le_bytes bn ?base @ replicate (64 - bn) 0"
  have c1: "array_copy (l_data new_CompressedLine) 0 [pattern_value pat] 0 1 = Some (pattern_value pat # replicate 64 0)"
    by (simp add: new_CompressedLine_def)
  have c2: "array_copy (pattern_value pat # replicate 64 0) 1 (le_bytes bn ?base) 0 bn = Some ?d"
    using assms(2) by simp
  have len: "length ?d = 65"
    using assms(2) by simp
  have "put_deltas wrap dn (1 + bn) ?base (tl ws) ?d =
      Some (take (1 + bn) ?d @ concat (map (\<lambda>w. le_bytes dn (w - ?base)) (tl ws)) @ drop ?m ?d)"
    by (rule put_deltas_result) (use deltas_fitD(1) [OF fit] assms(2) in simp_all)
  then have l: "l = \<lparr>l_pattern = pat, l_size = sz,
      l_data = take (1 + bn) ?d @ concat (map (\<lambda>w. le_bytes dn (w - ?base)) (tl ws)) @ drop ?m ?d\<rparr>"
    using assms(1) fit c1 c2 by (simp add: base_delta_def)
  have chunk: "length (concat (map (\<lambda>w. le_bytes dn (w - ?base)) (tl ws))) = dn * length (tl ws)"
    by (rule length_concat_chunks) simp
  show "l_pattern l = pat" "l_size l = sz"
    by (simp_all add: l)
  show "length (l_data l) = 65"
    using assms(2) chunk by (simp add: l)
  show "take ?m (l_data l) = [pattern_value pat] @ le_bytes bn ?base @ concat (map (\<lambda>w. le_bytes dn (w - ?base)) (tl ws))"
    using assms(2) chunk by (simp add: l)
qed

lemma add_deltas_result:
  assumes "i \<le> length ws" and "0 < i" and "length d = bn * length ws"
    and delta: "\<And>j. 0 < j \<Longrightarrow> j < length ws \<Longrightarrow> \<exists>bs. array_copy (replicate dn 0) 0 buf (1 + bn + (j - 1) * dn) dn = Some bs \<and>
      signed_add wrap base (delta_of dn bs) = Some (ws ! j)"
  shows "add_deltas wrap bn dn base buf [i..<length ws] d =
    Some (take (bn * i) d @ concat (map (le_bytes bn) (drop i ws)))"
  using assms(1,2,3)
proof (induction "length ws - i" arbitrary: i d)
  case 0
  then show ?case
    by simp
next
  case (Suc m)
  then have i: "i < length ws" and js: "[i..<length ws] = i # [Suc i..<length ws]"
    by (simp_all add: upt_rec)
  let ?d = "take (bn * i) d @ le_bytes bn (ws ! i) @ drop (bn * i + bn) d"
  have "bn * Suc i \<le> bn * length ws"
    using i by (intro mult_le_mono2) simp
  then have fits: "bn * i + bn \<le> length d"
    using Suc.prems(3) by simp
  have len: "length ?d = bn * length ws"
    using fits Suc.prems(3) by simp
  have take: "take (bn * Suc i) ?d = take (bn * i) d @ le_bytes bn (ws ! i)"
    using fits by simp
  from delta [OF Suc.prems(2) i] obtain bs where
    bs: "array_copy (replicate dn 0) 0 buf (1 + bn + (i - 1) * dn) dn = Some bs" "signed_add wrap base (delta_of dn bs) = Some (ws ! i)"
    by blast
  have "add_deltas wrap bn dn base buf [Suc i..<length ws] ?d =
      Some (take (bn * Suc i) ?d @ concat (map (le_bytes bn) (drop (Suc i) ws)))"
    by (rule Suc.hyps(1)) (use Suc.hyps(2) i len in simp_all)
  moreover have "array_copy d (bn * i) (le_bytes bn (ws ! i)) 0 bn = Some ?d"
    using fits by simp
  ultimately show ?case
    unfolding js using bs take i by (simp add: Cons_nth_drop_Suc [symmetric])
qed

lemma expand_base_delta:
  fixes ws :: "'a::len word list"
  assumes enc: "base_delta wrap pat sz bn dn ws = Some (Some l)" and len: "length ws = 64 div bn" and bn: "0 < bn" "bn * (64 div bn) = 64"
    and ty: "LENGTH('a) = 8 * bn" and dn: "0 < dn" "dn \<le> bn" and need: "need = 1 + bn + dn * (64 div bn - 1)" "need \<le> 65"
    and buf: "take need buf = take need (l_data l)" "need \<le> length buf" "need \<le> comp_size" and dest: "length dest = 64"
  shows "expand_deltas wrap TYPE('a) need bn dn buf comp_size dest = Some (True, concat (map (le_bytes bn) ws))"
proof -
  have ws: "ws \<noteq> []" "0 < length ws" "length (tl ws) = 64 div bn - 1"
    using len bn by (cases "64 div bn"; auto)+
  let ?base = "hd ws" and ?D = "concat (map (\<lambda>w. le_bytes dn (w - hd ws)) (tl ws))"
  have fits: "1 + bn + dn * length (tl ws) \<le> 65"
    using need ws(3) by simp
  note data = base_delta_data [OF enc fits]
  have buf': "buf = ([pattern_value pat] @ le_bytes bn ?base @ ?D) @ drop need buf"
    using buf(1) data(4) append_take_drop_id [of need buf] need(1) ws(3) by metis
  have read: "array_copy (replicate bn 0) 0 buf 1 bn = Some (le_bytes bn ?base)"
  proof -
    have "1 + bn \<le> length buf"
      using buf(2) need(1) by linarith
    moreover have "take bn (drop 1 buf) = le_bytes bn ?base"
      by (subst buf') simp
    ultimately show ?thesis
      by simp
  qed
  have delta: "\<exists>bs. array_copy (replicate dn 0) 0 buf (1 + bn + (j - 1) * dn) dn = Some bs \<and>
      signed_add wrap ?base (delta_of dn bs) = Some (ws ! j)" if j: "0 < j" "j < length ws" for j
  proof -
    have j1: "j - 1 < length (tl ws)" "tl ws ! (j - 1) = ws ! j"
      using j by (simp_all add: nth_tl)
    then have mem: "ws ! j \<in> set (tl ws)"
      using nth_mem [OF j1(1)] by simp
    have off: "drop (1 + bn + k) buf = drop k (?D @ drop need buf)" for k
      by (subst buf') simp
    have "take dn (drop (1 + bn + (j - 1) * dn) buf) = le_bytes dn (ws ! j - ?base)"
      unfolding off using nth_chunk [of "\<lambda>w. le_bytes dn (w - hd ws)" dn, OF length_le_bytes j1(1)] unfolding j1(2) .
    moreover have "1 + bn + (j - 1) * dn + dn \<le> length buf"
    proof -
      have "Suc (j - 1) * dn \<le> length (tl ws) * dn"
        using j1(1) by (intro mult_le_mono1) simp
      then have "(j - 1) * dn + dn \<le> dn * (64 div bn - 1)"
        using ws(3) by (simp add: mult.commute)
      then show ?thesis
        using buf(2) need(1) by linarith
    qed
    ultimately have "array_copy (replicate dn 0) 0 buf (1 + bn + (j - 1) * dn) dn = Some (le_bytes dn (ws ! j - ?base))"
      by simp
    moreover have "delta_of dn (le_bytes dn (ws ! j - ?base)) = ws ! j - ?base"
      by (rule delta_of_le_bytes) (use deltas_fitD(2,3) [OF data(5) mem] dn ty in simp_all)
    ultimately show ?thesis
      using signed_add_back [OF deltas_fitD(1) [OF data(5) mem]] by simp
  qed
  let ?d = "le_bytes bn ?base @ drop bn dest"
  have "bn \<le> 64"
    using bn by (metis dvd_imp_le dvd_triv_left zero_less_numeral)
  then have copy: "array_copy dest 0 (le_bytes bn ?base) 0 bn = Some ?d" and dl: "length ?d = bn * length ws"
    using dest len bn by simp_all
  have "add_deltas wrap bn dn ?base buf [1..<length ws] ?d = Some (take (bn * 1) ?d @ concat (map (le_bytes bn) (drop 1 ws)))"
    by (rule add_deltas_result [OF _ _ dl delta]) (use ws(2) in linarith)+
  moreover have "take (bn * 1) ?d @ concat (map (le_bytes bn) (drop 1 ws)) = concat (map (le_bytes bn) ws)"
    using ws(1) by (cases ws) simp_all
  ultimately show ?thesis
    using buf(3) read copy le_word_le_bytes [OF ty, of ?base] len by (simp add: expand_deltas_def)
qed

section \<open>The line\<close>

text \<open>What a compressed line says of the line it was made from: the number of bytes of its payload,
  and that these bytes alone are expanded to the line.\<close>

definition expands :: "bool \<Rightarrow> CompressedLine \<Rightarrow> byte list \<Rightarrow> bool" where
  "expands wrap l src \<longleftrightarrow>
     length src = 64 \<and> 1 \<le> unat (l_size l) \<and> unat (l_size l) \<le> 64 \<and> length (l_data l) = 65 \<and>
     pattern_of (pattern_value (l_pattern l)) = l_pattern l \<and> unat (pattern_value (l_pattern l)) < 16 \<and>
     (l_pattern l = ZEROS \<longleftrightarrow> src = replicate 64 0) \<and>
     (\<forall>buf comp_size dest. take (unat (l_size l)) buf = take (unat (l_size l)) (l_data l) \<and>
        unat (l_size l) \<le> length buf \<and> unat (l_size l) \<le> comp_size \<and> length dest = 64 \<longrightarrow>
        DecompressRaw wrap (Some buf) comp_size (Some dest) (Some (l_pattern l)) = Some (True, src))"

lemma concat_replicate_map: "concat (map (\<lambda>_. replicate n x) ws) = replicate (n * length ws) x"
  by (induction ws) (simp_all add: replicate_add)

lemma le_word_replicate_zero: "le_word (replicate n 0) = (0 :: 'a::len word)"
  by (induction n) simp_all

lemma length_words_of: "length (words_of n src) = 64 div n"
  by (simp add: words_of_def)

lemma words_zero:
  assumes "length src = 64"
  shows "list_all (\<lambda>w. w = 0) (words_of 8 src :: 64 word list) \<longleftrightarrow> src = replicate 64 0"
proof
  let ?ws = "words_of 8 src :: 64 word list"
  assume "list_all (\<lambda>w. w = 0) ?ws"
  then have "map (le_bytes 8) ?ws = map (\<lambda>_. replicate 8 0) ?ws"
    by (auto simp: list_all_iff)
  then have "concat (map (le_bytes 8) ?ws) = replicate (8 * length ?ws) 0"
    by (simp only: concat_replicate_map)
  then show "src = replicate 64 0"
    using words_of_join [OF assms, where 'a = 64 and n = 8] by (simp add: length_words_of)
next
  assume src: "src = replicate 64 0"
  have "take 8 (drop (8 * i) src) = replicate 8 0" if "i < 8" for i
    unfolding src drop_replicate take_replicate using that by simp
  then show "list_all (\<lambda>w. w = 0) (words_of 8 src :: 64 word list)"
    by (simp add: words_of_def list_all_iff le_word_replicate_zero)
qed

lemma DecompressRaw_Some:
  "0 < comp_size \<Longrightarrow> DecompressRaw wrap (Some buf) comp_size (Some dest) (Some p) =
     (case p of
        ZEROS \<Rightarrow> do { d \<leftarrow> array_fill dest 0 CACHE_LINE_SIZE; Some (True, d) }
      | REP_WORD \<Rightarrow>
          if comp_size < 9 then Some (False, dest)
          else do {
            bs \<leftarrow> array_copy (replicate 8 0) 0 buf 1 8;
            d \<leftarrow> put_copies (le_word bs) [0..<8] dest;
            Some (True, d) }
      | BASE8_DELTA1 \<Rightarrow> expand_deltas wrap TYPE(64) 16 8 1 buf comp_size dest
      | BASE8_DELTA2 \<Rightarrow> expand_deltas wrap TYPE(64) 23 8 2 buf comp_size dest
      | BASE8_DELTA4 \<Rightarrow> expand_deltas wrap TYPE(64) 37 8 4 buf comp_size dest
      | BASE4_DELTA1 \<Rightarrow> expand_deltas wrap TYPE(32) 20 4 1 buf comp_size dest
      | BASE4_DELTA2 \<Rightarrow> expand_deltas wrap TYPE(32) 35 4 2 buf comp_size dest
      | BASE2_DELTA1 \<Rightarrow> expand_deltas True TYPE(16) 34 2 1 buf comp_size dest
      | UNCOMPRESSED \<Rightarrow> do { d \<leftarrow> array_copy dest 0 buf 0 CACHE_LINE_SIZE; Some (True, d) }
      | Unnamed v \<Rightarrow> Some (False, dest))"
  by (cases p) (simp_all add: DecompressRaw_def)

text \<open>An encoding with a base and deltas, given which decoder belongs to it.\<close>

lemma base_expands:
  assumes enc: "base_delta w pat sz bn dn (words_of bn src :: 'a::len word list) = Some (Some l)"
    and src: "length src = 64" and pat: "pat \<noteq> ZEROS" "src \<noteq> replicate 64 0"
      "pattern_of (pattern_value pat) = pat" "unat (pattern_value pat) < 16"
    and ty: "LENGTH('a) = 8 * bn" "0 < bn" "bn * (64 div bn) = 64" "0 < dn" "dn \<le> bn"
    and sz: "unat sz = 1 + bn + dn * (64 div bn - 1)" "unat sz \<le> 64"
    and dec: "\<And>buf comp_size dest. 0 < comp_size \<Longrightarrow> DecompressRaw wrap (Some buf) comp_size (Some dest) (Some pat) =
      expand_deltas w TYPE('a) (unat sz) bn dn buf comp_size dest"
  shows "expands wrap l src"
proof -
  let ?ws = "words_of bn src :: 'a word list"
  have ws: "length ?ws = 64 div bn" "?ws \<noteq> []"
    using ty(2,3) by (cases "64 div bn"; auto simp: words_of_def)+
  have fits: "1 + bn + dn * length (tl ?ws) \<le> 65"
    using sz ws(1) by simp
  note data = base_delta_data [OF enc fits]
  have "DecompressRaw wrap (Some buf) comp_size (Some dest) (Some (l_pattern l)) = Some (True, src)"
    if "take (unat sz) buf = take (unat sz) (l_data l)" "unat sz \<le> length buf" "unat sz \<le> comp_size" "length dest = 64"
    for buf comp_size dest
  proof -
    have pos: "0 < comp_size"
      using that(3) sz(1) by simp
    have "unat sz \<le> 65"
      using sz(2) by simp
    note ex = expand_base_delta [OF enc ws(1) ty(2,3,1,4,5) sz(1) this that]
    show ?thesis
      unfolding data(1) dec [OF pos] ex words_of_join [OF src ty(1,3,2)] by (rule refl)
  qed
  then show ?thesis
    unfolding expands_def using data pat src sz by simp
qed

lemma put_copies_result:
  "8 * (i + k) \<le> length d \<Longrightarrow>
     put_copies w [i..<i + k] d = Some (take (8 * i) d @ concat (replicate k (le_bytes 8 w)) @ drop (8 * (i + k)) d)"
proof (induction k arbitrary: i d)
  case (Suc k)
  let ?d = "take (8 * i) d @ le_bytes 8 w @ drop (8 * i + 8) d"
  have js: "[i..<i + Suc k] = i # [Suc i..<Suc i + k]"
    by (simp add: upt_rec)
  have copy: "array_copy d (8 * i) (le_bytes 8 w) 0 8 = Some ?d"
    using Suc.prems by simp
  have "8 * (Suc i + k) \<le> length ?d"
    using Suc.prems by simp
  note IH = Suc.IH [OF this]
  have "take (8 * Suc i) ?d = take (8 * i) d @ le_bytes 8 w" "drop (8 * (Suc i + k)) ?d = drop (8 * (i + Suc k)) d"
    using Suc.prems by (simp_all add: add_ac)
  then show ?case
    unfolding js using IH copy by simp
qed simp

lemma rep_word_expands:
  assumes enc: "try_rep_word (words_of 8 src) = Some (Some l)" and src: "length src = 64" "src \<noteq> replicate 64 0"
  shows "expands wrap l src"
proof -
  let ?ws = "words_of 8 src :: 64 word list" and ?w = "hd (words_of 8 src :: 64 word list)"
  have all: "list_all (\<lambda>w. w = ?w) (tl ?ws)"
    using enc by (auto simp: try_rep_word_def split: if_splits)
  have ws: "length ?ws = 8" "?ws \<noteq> []"
    by (simp_all add: length_words_of words_of_def)
  have "?ws = replicate 8 ?w"
  proof (rule replicate_eqI)
    fix y assume "y \<in> set ?ws"
    then show "y = ?w"
      using all ws(2) by (cases ?ws) (auto simp: list_all_iff)
  qed (rule ws)
  then have "map (le_bytes 8) ?ws = replicate 8 (le_bytes 8 ?w)"
    by (metis map_replicate)
  then have join: "concat (replicate 8 (le_bytes 8 ?w)) = src"
    using words_of_join [OF src(1), where 'a = 64 and n = 8] by simp
  have c1: "array_copy (l_data new_CompressedLine) 0 [pattern_value REP_WORD] 0 1 = Some (1 # replicate 64 0)"
    by (simp add: new_CompressedLine_def)
  have c2: "array_copy (1 # replicate 64 0) 1 (le_bytes 8 ?w) 0 8 = Some (1 # le_bytes 8 ?w @ replicate 56 0)"
    by simp
  have l: "l = \<lparr>l_pattern = REP_WORD, l_size = 9, l_data = 1 # le_bytes 8 ?w @ replicate 56 0\<rparr>"
    using enc all c1 c2 by (simp add: try_rep_word_def)
  have "DecompressRaw wrap (Some buf) comp_size (Some dest) (Some REP_WORD) = Some (True, src)"
    if "take 9 buf = take 9 (l_data l)" "9 \<le> length buf" "9 \<le> comp_size" "length dest = 64" for buf comp_size dest
  proof -
    have "take 9 buf = 1 # le_bytes 8 ?w"
      using that(1) by (simp add: l)
    then have "take 8 (drop 1 buf) = le_bytes 8 ?w"
      using drop_take [of 1 9 buf] by simp
    then have read: "array_copy (replicate 8 0) 0 buf 1 8 = Some (le_bytes 8 ?w)"
      using that(2) by simp
    have "put_copies ?w [0..<8] dest = Some (concat (replicate 8 (le_bytes 8 ?w)) @ drop 64 dest)"
      using put_copies_result [of 0 8 dest ?w] that(4) by simp
    then have put: "put_copies ?w [0..<8] dest = Some src"
      using that(4) join by simp
    show ?thesis
      using that(3) read put by (simp add: DecompressRaw_Some le_word_le_bytes)
  qed
  then show ?thesis
    using src by (simp add: expands_def l pattern_of_def)
qed

lemma zeros_expands:
  assumes enc: "try_zeros (words_of 8 src) = Some (Some l)" and src: "length src = 64"
  shows "expands wrap l src"
proof -
  have "src = replicate 64 0"
    using enc words_zero [OF src] by (auto simp: try_zeros_def split: if_splits)
  moreover have "l = \<lparr>l_pattern = ZEROS, l_size = 1, l_data = 0 # replicate 64 0\<rparr>"
    using enc by (auto simp: try_zeros_def new_CompressedLine_def split: if_splits)
  ultimately show ?thesis
    using src by (auto simp: expands_def DecompressRaw_Some pattern_of_def)
qed

lemma raw_expands:
  assumes enc: "store_raw src = Some l" and src: "length src = 64" "src \<noteq> replicate 64 0"
  shows "expands wrap l src"
proof -
  have "l = \<lparr>l_pattern = UNCOMPRESSED, l_size = 64, l_data = src @ [0]\<rparr>"
    using enc src by (simp add: store_raw_def new_CompressedLine_def)
  then show ?thesis
    using src by (auto simp: expands_def DecompressRaw_Some pattern_of_def)
qed

section \<open>Compression\<close>

lemma BDI_Compress_tries:
  assumes "length src = 64"
  shows "BDI_Compress wrap (Some src) =
    first_of
      [try_zeros (words_of 8 src), try_rep_word (words_of 8 src), try_base8_delta1 wrap (words_of 8 src),
       try_base4_delta1 wrap (words_of 4 src), try_base8_delta2 wrap (words_of 8 src), try_base2_delta1 (words_of 2 src),
       try_base4_delta2 wrap (words_of 4 src), try_base8_delta4 wrap (words_of 8 src)]
      (store_raw src)"
proof -
  have "array_copy (replicate 64 0) 0 src 0 64 = Some src"
    using assms by simp
  then show ?thesis
    by (simp only: BDI_Compress_def option.case Option.bind.bind_lunit Let_def)
qed

lemma first_of_Some:
  "first_of ts fallback = Some l \<Longrightarrow> Some (Some l) \<in> set ts \<or> fallback = Some l"
  by (induction ts) (auto split: bind_splits option.splits)

lemma Compress_expands:
  assumes run: "BDI_Compress wrap (Some src) = Some l" and src: "length src = 64"
  shows "expands wrap l src"
proof (cases "try_zeros (words_of 8 src) = Some (Some l)")
  case True
  from zeros_expands [OF this src] show ?thesis .
next
  case False
  have nz: "src \<noteq> replicate 64 0"
  proof
    assume "src = replicate 64 0"
    then obtain l' where "try_zeros (words_of 8 src) = Some (Some l')"
      using words_zero [OF src] by (auto simp: try_zeros_def new_CompressedLine_def)
    with run False show False
      by (simp add: BDI_Compress_tries [OF src])
  qed
  have "Some (Some l) \<in> set [try_rep_word (words_of 8 src), try_base8_delta1 wrap (words_of 8 src),
      try_base4_delta1 wrap (words_of 4 src), try_base8_delta2 wrap (words_of 8 src), try_base2_delta1 (words_of 2 src),
      try_base4_delta2 wrap (words_of 4 src), try_base8_delta4 wrap (words_of 8 src)] \<or> store_raw src = Some l"
    using first_of_Some [OF run [unfolded BDI_Compress_tries [OF src]]] False [symmetric]
    by (simp only: set_simps insert_iff) blast
  then consider "try_rep_word (words_of 8 src) = Some (Some l)" | "try_base8_delta1 wrap (words_of 8 src) = Some (Some l)"
    | "try_base4_delta1 wrap (words_of 4 src) = Some (Some l)" | "try_base8_delta2 wrap (words_of 8 src) = Some (Some l)"
    | "try_base2_delta1 (words_of 2 src) = Some (Some l)" | "try_base4_delta2 wrap (words_of 4 src) = Some (Some l)"
    | "try_base8_delta4 wrap (words_of 8 src) = Some (Some l)" | "store_raw src = Some l"
    by (auto simp only: set_simps insert_iff empty_iff)
  then show ?thesis
  proof cases
    case 1
    from rep_word_expands [OF this src nz] show ?thesis .
  next
    case 2
    show ?thesis
      by (rule base_expands [OF 2 [unfolded try_base8_delta1_def] src _ nz])
        (simp_all add: DecompressRaw_Some pattern_of_def)
  next
    case 3
    show ?thesis
      by (rule base_expands [OF 3 [unfolded try_base4_delta1_def] src _ nz])
        (simp_all add: DecompressRaw_Some pattern_of_def)
  next
    case 4
    show ?thesis
      by (rule base_expands [OF 4 [unfolded try_base8_delta2_def] src _ nz])
        (simp_all add: DecompressRaw_Some pattern_of_def)
  next
    case 5
    show ?thesis
      by (rule base_expands [OF 5 [unfolded try_base2_delta1_def] src _ nz])
        (simp_all add: DecompressRaw_Some pattern_of_def)
  next
    case 6
    show ?thesis
      by (rule base_expands [OF 6 [unfolded try_base4_delta2_def] src _ nz])
        (simp_all add: DecompressRaw_Some pattern_of_def)
  next
    case 7
    show ?thesis
      by (rule base_expands [OF 7 [unfolded try_base8_delta4_def] src _ nz])
        (simp_all add: DecompressRaw_Some pattern_of_def)
  next
    case 8
    from raw_expands [OF this src nz] show ?thesis .
  qed
qed

text \<open>With wrap-around, or without any overflow in the words of the line, compression returns.\<close>

definition no_overflow :: "'a::len word list \<Rightarrow> bool" where
  "no_overflow ws \<longleftrightarrow> list_all (\<lambda>w. sint w - sint (hd ws) = sint (w - hd ws)) (tl ws)"

lemma deltas_fit_returns:
  "wrap \<or> list_all (\<lambda>w. sint w - sint base = sint (w - base)) ws \<Longrightarrow> \<exists>r. deltas_fit wrap n base ws = Some r"
  by (induction ws) (auto simp: signed_sub_def)

lemma base_delta_returns:
  assumes "wrap \<or> no_overflow ws" and "1 + bn + dn * length (tl ws) \<le> 65"
  shows "\<exists>r. base_delta wrap pat sz bn dn ws = Some r"
proof -
  from assms(1) deltas_fit_returns obtain r where r: "deltas_fit wrap dn (hd ws) (tl ws) = Some r"
    unfolding no_overflow_def by blast
  show ?thesis
  proof (cases r)
    case False
    with r show ?thesis
      by (simp add: base_delta_def)
  next
    case True
    let ?d = "[pattern_value pat] @ le_bytes bn (hd ws) @ replicate (64 - bn) 0"
    have "array_copy (l_data new_CompressedLine) 0 [pattern_value pat] 0 1 = Some (pattern_value pat # replicate 64 0)"
      by (simp add: new_CompressedLine_def)
    moreover have "array_copy (pattern_value pat # replicate 64 0) 1 (le_bytes bn (hd ws)) 0 bn = Some ?d"
      using assms(2) by simp
    moreover have "\<exists>d. put_deltas wrap dn (1 + bn) (hd ws) (tl ws) ?d = Some d"
      by (rule exI, rule put_deltas_result) (use deltas_fitD(1) [of wrap dn "hd ws" "tl ws"] r True assms(2) in simp_all)
    ultimately show ?thesis
      using r by (auto simp: base_delta_def)
  qed
qed

lemma BDI_Compress_returns:
  assumes src: "length src = 64"
    and ovf: "wrap \<or> no_overflow (words_of 8 src :: 64 word list) \<and> no_overflow (words_of 4 src :: 32 word list)"
  shows "\<exists>l. BDI_Compress wrap (Some src) = Some l"
proof -
  have ovf8: "wrap \<or> no_overflow (words_of 8 src :: 64 word list)" and ovf4: "wrap \<or> no_overflow (words_of 4 src :: 32 word list)"
    using ovf by blast+
  have len: "length (words_of 8 src :: 64 word list) = 8" "length (words_of 4 src :: 32 word list) = 16"
    "length (words_of 2 src :: 16 word list) = 32"
    by (simp_all add: length_words_of)
  have t1: "\<exists>r. try_zeros (words_of 8 src) = Some r" "\<exists>r. try_rep_word (words_of 8 src) = Some r"
    by (simp_all add: try_zeros_def try_rep_word_def new_CompressedLine_def)
  have t2: "\<exists>r. try_base8_delta1 wrap (words_of 8 src) = Some r" "\<exists>r. try_base8_delta2 wrap (words_of 8 src) = Some r"
    "\<exists>r. try_base8_delta4 wrap (words_of 8 src) = Some r"
    unfolding try_base8_delta1_def try_base8_delta2_def try_base8_delta4_def
    by (rule base_delta_returns [OF ovf8]; simp add: len)+
  have t3: "\<exists>r. try_base4_delta1 wrap (words_of 4 src) = Some r" "\<exists>r. try_base4_delta2 wrap (words_of 4 src) = Some r"
    unfolding try_base4_delta1_def try_base4_delta2_def
    by (rule base_delta_returns [OF ovf4]; simp add: len)+
  have t4: "\<exists>r. try_base2_delta1 (words_of 2 src) = Some r"
    unfolding try_base2_delta1_def by (rule base_delta_returns) (simp_all add: len)
  have "\<exists>l. store_raw src = Some l"
    using src by (simp add: store_raw_def new_CompressedLine_def)
  moreover have "\<exists>l. first_of ts fallback = Some l" if "list_all (\<lambda>t. t \<noteq> None) ts" "\<exists>l. fallback = Some l" for ts fallback
    using that by (induction ts) (auto split: option.split)
  ultimately show ?thesis
    unfolding BDI_Compress_tries [OF src] using t1 t2 t3 t4 by (simp del: first_of.simps)
qed

text \<open>With wrap-around the engine is a codec of cache lines.\<close>

lemma Decompress_expands:
  "expands wrap l src \<Longrightarrow> length dest = 64 \<Longrightarrow> BDI_Decompress wrap l (Some dest) = Some (True, src)"
  unfolding expands_def BDI_Decompress_def by simp

interpretation bdi: block_codec 64 "\<lambda>s. BDI_Compress True (Some s)" "expands True" "\<lambda>l d. BDI_Decompress True l (Some d)"
proof
  show "\<exists>l. BDI_Compress True (Some src) = Some l \<and> expands True l src" if "length src = 64" for src
    using BDI_Compress_returns [OF that, of True] Compress_expands [OF _ that] by blast
qed (rule Decompress_expands)

section \<open>Overflow\<close>

text \<open>The difference and the sum of two signed words are defined if they are in the range of the type.\<close>

definition in_range :: "'a::len itself \<Rightarrow> int \<Rightarrow> bool" where
  "in_range ty x \<longleftrightarrow> - (2 ^ (LENGTH('a) - 1)) \<le> x \<and> x < 2 ^ (LENGTH('a) - 1)"

lemma signed_take_bit_in_range: "signed_take_bit (LENGTH('a::len) - 1) x = x \<longleftrightarrow> in_range TYPE('a) x"
  by (simp add: in_range_def signed_take_bit_int_eq_self_iff)

lemma signed_add_in_range: "signed_add False a (b :: 'a::len word) = (if in_range TYPE('a) (sint a + sint b) then Some (a + b) else None)"
proof -
  have "sint (a + b) = signed_take_bit (LENGTH('a) - 1) (sint a + sint b)"
    by (rule sint_word_ariths)
  with signed_take_bit_in_range [of "sint a + sint b", where ?'a = 'a] show ?thesis
    by (simp add: signed_add_def eq_commute)
qed

lemma signed_sub_in_range: "signed_sub False a (b :: 'a::len word) = (if in_range TYPE('a) (sint a - sint b) then Some (a - b) else None)"
proof -
  have "sint (a - b) = signed_take_bit (LENGTH('a) - 1) (sint a - sint b)"
    by (rule sint_word_ariths)
  with signed_take_bit_in_range [of "sint a - sint b", where ?'a = 'a] show ?thesis
    by (simp add: signed_sub_def eq_commute)
qed

text \<open>The test of the differences is undefined if it comes to one that overflows.\<close>

lemma deltas_fit_overflows:
  assumes "k < length ws" and "\<And>j. j < k \<Longrightarrow> - (2 ^ (8 * n - 1)) \<le> sint (ws ! j) - sint base \<and> sint (ws ! j) - sint base < 2 ^ (8 * n - 1)"
    and "\<not> in_range TYPE('a) (sint (ws ! k) - sint base)" and "8 * n \<le> LENGTH('a::len)"
  shows "deltas_fit False n base (ws :: 'a word list) = None"
  using assms(1-3)
proof (induction ws arbitrary: k)
  case (Cons w ws)
  show ?case
  proof (cases k)
    case 0
    with Cons.prems show ?thesis
      by (simp add: signed_sub_in_range)
  next
    case (Suc i)
    have w: "- (2 ^ (8 * n - 1)) \<le> sint w - sint base" "sint w - sint base < 2 ^ (8 * n - 1)"
      using Cons.prems(2) [of 0] Suc by simp_all
    have "(2 :: int) ^ (8 * n - 1) \<le> 2 ^ (LENGTH('a) - 1)"
      by (intro power_increasing diff_le_mono assms(4)) simp
    with w have range: "in_range TYPE('a) (sint w - sint base)"
      unfolding in_range_def by linarith
    then have "signed_sub False w base = Some (w - base)"
      by (simp add: signed_sub_in_range)
    moreover from this have "sint (w - base) = sint w - sint base"
      by (simp add: signed_sub_def split: if_splits)
    moreover have "deltas_fit False n base ws = None"
      by (rule Cons.IH [of i]) (use Cons.prems Suc Cons.prems(2) [of "Suc _"] in auto)
    ultimately show ?thesis
      using w by simp
  qed
qed simp

section \<open>Decoding any buffer\<close>

text \<open>The sums the decoder computes: the word \<open>i\<close> of the line is the base and the delta at its place.\<close>

definition word_sum :: "'a::len itself \<Rightarrow> nat \<Rightarrow> nat \<Rightarrow> byte list \<Rightarrow> nat \<Rightarrow> int" where
  "word_sum ty bn dn buf i =
     sint (le_word (take bn (drop 1 buf)) :: 'a word) + sint (delta_of dn (take dn (drop (1 + bn + (i - 1) * dn) buf)) :: 'a word)"

definition sums_in_range :: "'a::len itself \<Rightarrow> nat \<Rightarrow> nat \<Rightarrow> byte list \<Rightarrow> bool" where
  "sums_in_range ty bn dn buf \<longleftrightarrow> list_all (\<lambda>i. in_range TYPE('a) (word_sum TYPE('a) bn dn buf i)) [1..<64 div bn]"

lemma add_deltas_defined:
  fixes buf :: "byte list" and bn :: nat
  defines "base \<equiv> le_word (take bn (drop 1 buf)) :: 'a::len word"
  assumes "length d = 64" and "list_all (\<lambda>i. bn * i + bn \<le> 64 \<and> 1 + bn + (i - 1) * dn + dn \<le> length buf) js"
  shows "(\<exists>d'. add_deltas wrap bn dn base buf js d = Some d' \<and> length d' = 64) \<longleftrightarrow>
      wrap \<or> list_all (\<lambda>i. in_range TYPE('a) (word_sum TYPE('a) bn dn buf i)) js"
    and "add_deltas wrap bn dn base buf js d = Some d' \<Longrightarrow> length d' = 64"
proof -
  have "(case add_deltas wrap bn dn base buf js d of
          None \<Rightarrow> \<not> (wrap \<or> list_all (\<lambda>i. in_range TYPE('a) (word_sum TYPE('a) bn dn buf i)) js)
        | Some d' \<Rightarrow> length d' = 64 \<and> (wrap \<or> list_all (\<lambda>i. in_range TYPE('a) (word_sum TYPE('a) bn dn buf i)) js))"
    using assms(2,3)
  proof (induction js arbitrary: d)
    case (Cons i js)
    let ?x = "delta_of dn (take dn (drop (1 + bn + (i - 1) * dn) buf)) :: 'a word"
    have sum: "signed_add wrap base ?x = (if wrap \<or> in_range TYPE('a) (word_sum TYPE('a) bn dn buf i) then Some (base + ?x) else None)"
      using signed_add_in_range [of base ?x] by (cases wrap) (simp_all add: signed_add_def word_sum_def base_def)
    show ?case
    proof (cases "wrap \<or> in_range TYPE('a) (word_sum TYPE('a) bn dn buf i)")
      case True
      let ?d = "take (bn * i) d @ le_bytes bn (base + ?x) @ drop (bn * i + bn) d"
      have "length ?d = 64"
        using Cons.prems by simp
      moreover have "add_deltas wrap bn dn base buf (i # js) d = add_deltas wrap bn dn base buf js ?d"
        using Cons.prems True sum by simp
      ultimately show ?thesis
        using Cons.IH [of ?d] Cons.prems(2) True by (auto split: option.splits)
    next
      case False
      then show ?thesis
        using Cons.prems sum by simp
    qed
  qed simp
  then show "(\<exists>d'. add_deltas wrap bn dn base buf js d = Some d' \<and> length d' = 64) \<longleftrightarrow>
      wrap \<or> list_all (\<lambda>i. in_range TYPE('a) (word_sum TYPE('a) bn dn buf i)) js"
    "add_deltas wrap bn dn base buf js d = Some d' \<Longrightarrow> length d' = 64"
    by (auto split: option.splits)
qed

lemma expand_deltas_defined:
  fixes ty :: "'a::len itself"
  assumes "comp_size \<le> length buf" and "length dest = 64" and "0 < bn" and "bn * (64 div bn) = 64"
    and "need = 1 + bn + dn * (64 div bn - 1)"
  shows "(\<exists>r d. expand_deltas wrap ty need bn dn buf comp_size dest = Some (r, d) \<and> length d = 64) \<longleftrightarrow>
    wrap \<or> comp_size < need \<or> sums_in_range TYPE('a) bn dn buf"
proof (cases "comp_size < need")
  case True
  with assms(2) show ?thesis
    by (auto simp: expand_deltas_def)
next
  case False
  have bn: "bn \<le> 64"
    using assms(3,4) by (metis dvd_imp_le dvd_triv_left zero_less_numeral)
  have fits: "need \<le> length buf"
    using False assms(1) by simp
  then have c1: "array_copy (replicate bn 0) 0 buf 1 bn = Some (take bn (drop 1 buf))"
    using assms(5) by simp
  define base where "base = (le_word (take bn (drop 1 buf)) :: 'a word)"
  have c2: "array_copy dest 0 (le_bytes bn base) 0 bn = Some (le_bytes bn base @ drop bn dest)"
    using bn assms(2) by simp
  have "bn * i + bn \<le> 64 \<and> 1 + bn + (i - 1) * dn + dn \<le> length buf" if "1 \<le> i" "i < 64 div bn" for i
  proof
    have "bn * Suc i \<le> bn * (64 div bn)"
      using that by (intro mult_le_mono2) simp
    then show "bn * i + bn \<le> 64"
      using assms(4) by simp
    have "Suc (i - 1) * dn \<le> (64 div bn - 1) * dn"
      using that by (intro mult_le_mono1) linarith
    then show "1 + bn + (i - 1) * dn + dn \<le> length buf"
      using fits assms(5) by (simp add: mult.commute)
  qed
  then have places: "list_all (\<lambda>i. bn * i + bn \<le> 64 \<and> 1 + bn + (i - 1) * dn + dn \<le> length buf) [1..<64 div bn]"
    by (simp add: list_all_iff)
  have "length (le_bytes bn base @ drop bn dest) = 64"
    using bn assms(2) by simp
  from add_deltas_defined(1) [OF this places, where ?'a = 'a, of wrap, folded base_def]
  have "(\<exists>d. add_deltas wrap bn dn base buf [1..<64 div bn] (le_bytes bn base @ drop bn dest) = Some d \<and> length d = 64) \<longleftrightarrow>
      wrap \<or> sums_in_range TYPE('a) bn dn buf"
    by (simp add: sums_in_range_def)
  moreover have "expand_deltas wrap ty need bn dn buf comp_size dest =
      do { d \<leftarrow> add_deltas wrap bn dn base buf [1..<64 div bn] (le_bytes bn base @ drop bn dest); Some (True, d) }"
    using False unfolding expand_deltas_def by (simp only: c1 c2 Let_def base_def [symmetric] Option.bind.bind_lunit if_False)
  ultimately show ?thesis
    using False by (auto simp: Option.bind_eq_Some_conv)
qed

text \<open>The pattern of a buffer, and whether its sums overflow.\<close>

definition pattern_in :: "byte list \<Rightarrow> BDIPattern option \<Rightarrow> BDIPattern" where
  "pattern_in buf explicit_pattern = (case explicit_pattern of Some p \<Rightarrow> p | None \<Rightarrow> pattern_of (hd buf))"

fun sums_overflow :: "BDIPattern \<Rightarrow> byte list \<Rightarrow> nat \<Rightarrow> bool" where
  "sums_overflow BASE8_DELTA1 buf n \<longleftrightarrow> 16 \<le> n \<and> \<not> sums_in_range TYPE(64) 8 1 buf"
| "sums_overflow BASE8_DELTA2 buf n \<longleftrightarrow> 23 \<le> n \<and> \<not> sums_in_range TYPE(64) 8 2 buf"
| "sums_overflow BASE8_DELTA4 buf n \<longleftrightarrow> 37 \<le> n \<and> \<not> sums_in_range TYPE(64) 8 4 buf"
| "sums_overflow BASE4_DELTA1 buf n \<longleftrightarrow> 20 \<le> n \<and> \<not> sums_in_range TYPE(32) 4 1 buf"
| "sums_overflow BASE4_DELTA2 buf n \<longleftrightarrow> 35 \<le> n \<and> \<not> sums_in_range TYPE(32) 4 2 buf"
| "sums_overflow p buf n \<longleftrightarrow> False"

lemma DecompressRaw_pattern:
  assumes "0 < comp_size" and "comp_size \<le> length buf"
  shows "DecompressRaw wrap (Some buf) comp_size (Some dest) explicit_pattern =
    DecompressRaw wrap (Some buf) comp_size (Some dest) (Some (pattern_in buf explicit_pattern))"
proof (cases explicit_pattern)
  case None
  obtain b bs where "buf = b # bs"
    using assms by (cases buf) auto
  with None assms(1) show ?thesis
    by (simp add: DecompressRaw_def pattern_in_def)
qed (simp add: pattern_in_def)

lemma put_copies_word:
  assumes "length dest = 64"
  shows "\<exists>d. put_copies w [0..<8] dest = Some d \<and> length d = 64"
proof -
  have "put_copies w [0..<8] dest = Some (concat (replicate 8 (le_bytes 8 w)) @ drop 64 dest)"
    using put_copies_result [of 0 8 dest w] assms by simp
  moreover have "length (concat (replicate 8 (le_bytes 8 w)) @ drop 64 dest) = 64"
    using assms by (simp add: length_concat sum_list_replicate)
  ultimately show ?thesis
    by blast
qed

lemma DecompressRaw_defined_iff:
  assumes "comp_size \<le> length buf" and "length dest = 64"
  shows "(\<exists>r d. DecompressRaw wrap (Some buf) comp_size (Some dest) explicit_pattern = Some (r, d) \<and> length d = 64) \<longleftrightarrow>
    comp_size = 0 \<or>
    (pattern_in buf explicit_pattern = UNCOMPRESSED \<longrightarrow> 64 \<le> length buf) \<and>
    (wrap \<or> \<not> sums_overflow (pattern_in buf explicit_pattern) buf comp_size)"
proof (cases "comp_size = 0")
  case True
  with assms(2) show ?thesis
    by (auto simp: DecompressRaw_def)
next
  case False
  then have pos: "0 < comp_size"
    by simp
  have raw: "(\<exists>d. array_copy dest 0 buf 0 64 = Some d \<and> length d = 64) \<longleftrightarrow> 64 \<le> length buf"
    using assms(2) by (auto simp: array_copy_def)
  have rep: "\<not> comp_size < 9 \<Longrightarrow> array_copy (replicate 8 0) 0 buf 1 8 = Some (take 8 (drop 1 buf))"
    using assms(1) by simp
  obtain d8 where copies: "put_copies (le_word (take 8 (drop 1 buf))) [0..<8] dest = Some d8" "length d8 = 64"
    using put_copies_word [OF assms(2)] by blast
  note ex = expand_deltas_defined [OF assms]
  show ?thesis
    unfolding DecompressRaw_pattern [OF pos assms(1), of wrap dest explicit_pattern]
    by (cases "pattern_in buf explicit_pattern")
      (use pos raw rep copies assms(2) in
        \<open>auto simp: DecompressRaw_Some ex not_less split: bind_splits\<close>)
qed

text \<open>No call changes the size of the destination.\<close>

lemma add_deltas_length: "add_deltas wrap bn dn base buf js d = Some d' \<Longrightarrow> length d' = length d"
  by (induction js arbitrary: d) (fastforce dest: array_copy_length simp: Option.bind_eq_Some_conv)+

lemma expand_deltas_length: "expand_deltas wrap ty need bn dn buf n dest = Some (r, d) \<Longrightarrow> length d = length dest"
  by (auto simp: expand_deltas_def Let_def Option.bind_eq_Some_conv dest!: array_copy_length add_deltas_length split: if_splits)

lemma put_copies_length: "put_copies w js d = Some d' \<Longrightarrow> length d' = length d"
  by (induction js arbitrary: d) (fastforce dest: array_copy_length simp: Option.bind_eq_Some_conv)+

lemma DecompressRaw_length:
  assumes "DecompressRaw wrap (Some buf) n (Some dest) explicit_pattern = Some (r, d)" and "length dest = 64"
  shows "length d = 64"
proof (cases "n = 0")
  case True
  with assms show ?thesis
    by (simp add: DecompressRaw_def)
next
  case False
  then obtain p where "DecompressRaw wrap (Some buf) n (Some dest) (Some p) = Some (r, d)"
    using assms(1) by (cases explicit_pattern) (auto simp: DecompressRaw_def Option.bind_eq_Some_conv)
  with False assms(2) show ?thesis
    by (cases p) (auto simp: DecompressRaw_Some array_fill_def Option.bind_eq_Some_conv split: if_splits
      dest!: array_copy_length put_copies_length expand_deltas_length)
qed

section \<open>Properties\<close>

text \<open>C14: The engine is lossless. If the compiler lets signed arithmetic wrap around, or no difference
  of the words of the line overflows, compression returns a line of 1 to 64 bytes, which decompresses to
  the line it was made from; only a line of zeros gets the pattern for it.\<close>

theorem BDI_roundtrip:
  assumes "length src = 64" and "length dest = 64"
    and "wrap \<or> no_overflow (words_of 8 src :: 64 word list) \<and> no_overflow (words_of 4 src :: 32 word list)"
  shows "\<exists>l. BDI_Compress wrap (Some src) = Some l \<and> BDI_Decompress wrap l (Some dest) = Some (True, src) \<and>
           1 \<le> unat (l_size l) \<and> unat (l_size l) \<le> 64 \<and> (l_pattern l = ZEROS \<longleftrightarrow> src = replicate 64 0)"
proof -
  from BDI_Compress_returns [OF assms(1,3)] obtain l where l: "BDI_Compress wrap (Some src) = Some l"
    by blast
  from Compress_expands [OF l assms(1)] have "expands wrap l src" .
  then have "BDI_Decompress wrap l (Some dest) = Some (True, src)" "1 \<le> unat (l_size l)" "unat (l_size l) \<le> 64"
    "l_pattern l = ZEROS \<longleftrightarrow> src = replicate 64 0"
    using Decompress_expands assms(2) by (auto simp: expands_def)
  with l show ?thesis
    by blast
qed

theorem BDI_roundtrip_witness:
  "\<exists>l. BDI_Compress True (Some (replicate 64 7)) = Some l \<and>
     BDI_Decompress True l (Some (replicate 64 0)) = Some (True, replicate 64 7) \<and>
     1 \<le> unat (l_size l) \<and> unat (l_size l) \<le> 64 \<and>
     (l_pattern l = ZEROS \<longleftrightarrow> replicate 64 (7 :: byte) = replicate 64 0)"
  by (rule BDI_roundtrip [OF length_replicate length_replicate]) simp

text \<open>C37: Without wrap-around compression is undefined for every line with a 64-bit word whose difference to the first
  word overflows, if the test of the differences comes to it: if all words before it differ from the first by a
  signed byte. With wrap-around the same line is compressed.\<close>

theorem BDI_Compress_overflows:
  fixes src :: "byte list"
  defines "ws \<equiv> words_of 8 src :: 64 word list"
  assumes "length src = 64" and "0 < k" and "k < 8"
    and "\<forall>j. 0 < j \<and> j < k \<longrightarrow> - 128 \<le> sint (ws ! j) - sint (ws ! 0) \<and> sint (ws ! j) - sint (ws ! 0) < 128"
    and "sint (ws ! k) - sint (ws ! 0) < - (2 ^ 63) \<or> 2 ^ 63 \<le> sint (ws ! k) - sint (ws ! 0)"
  shows "BDI_Compress False (Some src) = None \<and> (\<exists>l. BDI_Compress True (Some src) = Some l)"
proof
  have len: "length ws = 8"
    by (simp add: ws_def length_words_of)
  then have hd: "hd ws = ws ! 0" and tl: "length (tl ws) = 7" "\<And>j. j < 7 \<Longrightarrow> tl ws ! j = ws ! Suc j"
    by (cases ws; simp)+
  have range: "\<not> in_range TYPE(64) (sint (ws ! k) - sint (ws ! 0))"
    using assms(6) by (auto simp: in_range_def)
  then have differs: "ws ! k \<noteq> ws ! 0"
    by (auto simp: in_range_def)
  have "deltas_fit False 1 (hd ws) (tl ws) = None"
    unfolding hd by (rule deltas_fit_overflows [of "k - 1"]) (use assms(3-5) range tl in auto)
  then have base: "try_base8_delta1 False ws = None"
    by (simp add: try_base8_delta1_def base_delta_def)
  have "\<not> list_all (\<lambda>w. w = hd ws) (tl ws)"
    using differs assms(3,4) tl hd by (auto simp: list_all_length intro!: exI [of _ "k - 1"])
  moreover have "\<not> list_all (\<lambda>w. w = 0) ws"
    using differs assms(3,4) len by (auto simp: list_all_length) (metis less_trans)
  ultimately show "BDI_Compress False (Some src) = None"
    unfolding BDI_Compress_tries [OF assms(2)] ws_def [symmetric] using base
    by (simp add: try_zeros_def try_rep_word_def)
  show "\<exists>l. BDI_Compress True (Some src) = Some l"
    by (rule BDI_Compress_returns [OF assms(2)]) simp
qed

text \<open>The least 64-bit integer, one more, and 1.\<close>

abbreviation least_line :: "byte list" where
  "least_line \<equiv> replicate 7 0 @ [128] @ [1] @ replicate 6 0 @ [128] @ [1] @ replicate 47 0"

lemma least_line_words:
  "sint ((words_of 8 least_line :: 64 word list) ! 0) = - (2 ^ 63)"
  "sint ((words_of 8 least_line :: 64 word list) ! 1) = - (2 ^ 63) + 1"
  "sint ((words_of 8 least_line :: 64 word list) ! 2) = 1"
  by (code_simp, code_simp, code_simp)

theorem BDI_Compress_overflows_witness:
  "BDI_Compress False (Some least_line) = None \<and> (\<exists>l. BDI_Compress True (Some least_line) = Some l)"
proof (rule BDI_Compress_overflows [of _ 2])
  have "- 128 \<le> sint ((words_of 8 least_line :: 64 word list) ! j) - sint ((words_of 8 least_line :: 64 word list) ! 0) \<and>
      sint ((words_of 8 least_line :: 64 word list) ! j) - sint ((words_of 8 least_line :: 64 word list) ! 0) < 128"
    if "0 < j \<and> j < 2" for j
  proof -
    have j: "j = 1"
      using that by simp
    show ?thesis
      unfolding j least_line_words by simp
  qed
  then show "\<forall>j. 0 < j \<and> j < 2 \<longrightarrow>
      - 128 \<le> sint ((words_of 8 least_line :: 64 word list) ! j) - sint ((words_of 8 least_line :: 64 word list) ! 0) \<and>
      sint ((words_of 8 least_line :: 64 word list) ! j) - sint ((words_of 8 least_line :: 64 word list) ! 0) < 128"
    by blast
  show "sint ((words_of 8 least_line :: 64 word list) ! 2) - sint ((words_of 8 least_line :: 64 word list) ! 0) < - (2 ^ 63) \<or>
      2 ^ 63 \<le> sint ((words_of 8 least_line :: 64 word list) ! 2) - sint ((words_of 8 least_line :: 64 word list) ! 0)"
    unfolding least_line_words by simp
qed simp_all

text \<open>C31: Exactly when the decoder is defined, on any buffer of at least the size it is told, corrupted or not, with the
  pattern given or read from the buffer: unless the pattern says uncompressed and the buffer has less than 64 bytes, whatever
  the size says, or, without wrap-around, one of the sums of the base and a delta overflows. Then it returns
  and the destination keeps its 64 bytes; otherwise its behaviour is undefined.\<close>

theorem DecompressRaw_defined:
  assumes "comp_size \<le> length buf" and "length dest = 64"
  shows "if comp_size = 0 \<or>
      (pattern_in buf explicit_pattern = UNCOMPRESSED \<longrightarrow> 64 \<le> length buf) \<and>
      (wrap \<or> \<not> sums_overflow (pattern_in buf explicit_pattern) buf comp_size)
    then \<exists>r d. DecompressRaw wrap (Some buf) comp_size (Some dest) explicit_pattern = Some (r, d) \<and> length d = 64
    else DecompressRaw wrap (Some buf) comp_size (Some dest) explicit_pattern = None"
  using DecompressRaw_defined_iff [OF assms, of wrap explicit_pattern]
    DecompressRaw_length [of wrap buf comp_size dest explicit_pattern] assms(2)
  by (cases "DecompressRaw wrap (Some buf) comp_size (Some dest) explicit_pattern") auto

text \<open>The greatest 64-bit integer as the base, and deltas of 1.\<close>

abbreviation overflow_buf :: "byte list" where
  "overflow_buf \<equiv> [2, 255, 255, 255, 255, 255, 255, 255, 127, 1, 1, 1, 1, 1, 1, 1]"

lemma overflow_buf_facts:
  "pattern_in overflow_buf None = BASE8_DELTA1" "sums_overflow BASE8_DELTA1 overflow_buf 16"
  by (code_simp, code_simp)

theorem DecompressRaw_defined_witness:
  "DecompressRaw False (Some overflow_buf) 16 (Some (replicate 64 0)) None = None \<and>
   DecompressRaw True (Some [0xF]) 1 (Some (replicate 64 0)) None = None \<and>
   (\<exists>r d. DecompressRaw True (Some overflow_buf) 16 (Some (replicate 64 0)) None = Some (r, d) \<and> length d = 64)"
  using DecompressRaw_defined [of 16 overflow_buf "replicate 64 0" None False]
    DecompressRaw_defined [of 16 overflow_buf "replicate 64 0" None True]
    DecompressRaw_defined [of 1 "[0xF]" "replicate 64 0" None True] overflow_buf_facts
  by (simp add: pattern_in_def pattern_of_def)

end
