(* ===== verification/Line_Alloc.thy ===== *)
theory Line_Alloc
  imports Line_Table Bdi_Props
begin

text \<open>
  The chunk allocator of the line table: the stretches of chunks that lines hold and the ones on
  the free lists never overlap, and the number of stretches of each size is bounded by the number
  of lines. A set of lines that are being changed is left out.
\<close>

section \<open>Stretches of chunks\<close>

definition free_list :: "MemoryLineTable \<Rightarrow> nat \<Rightarrow> 32 word list" where
  "free_list t k =
     (if k = 1 then free_chunks_16b t else if k = 2 then free_chunks_32b t
      else if k = 3 then free_chunks_48b t else if k = 4 then free_chunks_64b t else [])"

datatype holder = Line nat | Free nat nat

definition line_holds :: "MemoryLineTable \<Rightarrow> nat \<Rightarrow> nat" where
  "line_holds t i = (if e_valid (entries t ! i) = 0 then 0 else unat (allocated_chunks (entries t ! i)))"

text \<open>The first chunk and the number of chunks of each holder.\<close>

fun held :: "nat set \<Rightarrow> MemoryLineTable \<Rightarrow> holder \<Rightarrow> (nat \<times> nat) option" where
  "held X t (Line i) =
     (if i < length (entries t) \<and> i \<notin> X \<and> line_holds t i \<noteq> 0
      then Some (unat (phys_chunk_offset (entries t ! i)), line_holds t i) else None)"
| "held X t (Free k j) = (if j < length (free_list t k) then Some (unat (free_list t k ! j), k) else None)"

definition apart :: "nat \<times> nat \<Rightarrow> nat \<times> nat \<Rightarrow> bool" where
  "apart r s \<longleftrightarrow> fst r + snd r \<le> fst s \<or> fst s + snd s \<le> fst r"

lemma apart_sym: "apart r s = apart s r"
  by (auto simp: apart_def)

definition chunks_ok :: "nat set \<Rightarrow> MemoryLineTable \<Rightarrow> bool" where
  "chunks_ok X t \<longleftrightarrow>
     (\<forall>h r. held X t h = Some r \<longrightarrow> 0 < snd r \<and> snd r \<le> 4 \<and> fst r + snd r \<le> next_unpartitioned_chunk t) \<and>
     (\<forall>h h' r r'. h \<noteq> h' \<and> held X t h = Some r \<and> held X t h' = Some r' \<longrightarrow> apart r r')"

lemma chunks_okD:
  assumes "chunks_ok X t"
  shows "held X t h = Some r \<Longrightarrow> 0 < snd r" "held X t h = Some r \<Longrightarrow> snd r \<le> 4"
    "held X t h = Some r \<Longrightarrow> fst r + snd r \<le> next_unpartitioned_chunk t"
    "held X t h = Some r \<Longrightarrow> held X t h' = Some r' \<Longrightarrow> h \<noteq> h' \<Longrightarrow> apart r r'"
  using assms unfolding chunks_ok_def by blast+

lemma chunks_okI:
  assumes "\<And>h r. held X t h = Some r \<Longrightarrow> 0 < snd r \<and> snd r \<le> 4 \<and> fst r + snd r \<le> next_unpartitioned_chunk t"
    and "\<And>h h' r r'. held X t h = Some r \<Longrightarrow> held X t h' = Some r' \<Longrightarrow> h \<noteq> h' \<Longrightarrow> apart r r'"
  shows "chunks_ok X t"
  using assms unfolding chunks_ok_def by blast

definition vacant :: "nat set \<Rightarrow> MemoryLineTable \<Rightarrow> nat \<times> nat \<Rightarrow> bool" where
  "vacant X t r \<longleftrightarrow> fst r + snd r \<le> next_unpartitioned_chunk t \<and> (\<forall>h s. held X t h = Some s \<longrightarrow> apart r s)"

definition table_ok :: "MemoryLineTable \<Rightarrow> bool" where
  "table_ok t \<longleftrightarrow> total_logical_lines t = length (entries t) \<and>
     next_unpartitioned_chunk t \<le> total_physical_chunks t \<and>
     SLOT_CHUNK_SIZE * total_physical_chunks t \<le> length (physical_dram t) \<and> total_physical_chunks t \<le> 2 ^ 24"

text \<open>The number of stretches of \<open>k\<close> chunks, one of which may be on its way from the allocator to a
  line.\<close>

definition stretches :: "nat set \<Rightarrow> nat \<Rightarrow> MemoryLineTable \<Rightarrow> nat \<Rightarrow> nat" where
  "stretches X pending t k =
     card {i. i < length (entries t) \<and> i \<notin> X \<and> line_holds t i = k} + length (free_list t k) +
     (if pending = k then 1 else 0)"

definition counted :: "nat set \<Rightarrow> nat \<Rightarrow> MemoryLineTable \<Rightarrow> bool" where
  "counted X pending t \<longleftrightarrow>
     next_unpartitioned_chunk t = (\<Sum>k\<in>{1, 2, 3, 4}. k * stretches X pending t k) \<and>
     (\<forall>k\<in>{1, 2, 3, 4}. stretches X pending t k \<le> length (entries t))"

section \<open>The allocator by cases\<close>

text \<open>The fields the allocator keeps.\<close>

definition same_lines :: "MemoryLineTable \<Rightarrow> MemoryLineTable \<Rightarrow> bool" where
  "same_lines t t' \<longleftrightarrow> entries t' = entries t \<and> physical_dram t' = physical_dram t \<and>
     total_logical_lines t' = total_logical_lines t \<and> total_physical_chunks t' = total_physical_chunks t"

lemma chunk_numbers:
  assumes "0 < unat (n :: 8 word)" and "unat n \<le> 4"
  obtains "n = 1" | "n = 2" | "n = 3" | "n = 4"
proof -
  from assms have "unat n = 1 \<or> unat n = 2 \<or> unat n = 3 \<or> unat n = 4"
    by linarith
  then show thesis
    using that by (auto simp: word_unat_eq_iff)
qed

lemma AllocateChunks_cases:
  assumes run: "AllocateChunks n t = (off, t')" and n: "0 < unat n" "unat n \<le> 4"
  obtains
    (reused) "free_list t (unat n) \<noteq> []" "off = last (free_list t (unat n))" "same_lines t t'"
      "free_list t' = (free_list t)(unat n := butlast (free_list t (unat n)))"
      "next_unpartitioned_chunk t' = next_unpartitioned_chunk t"
  | (bumped) "free_list t (unat n) = []" "off = word_of_nat (next_unpartitioned_chunk t)" "same_lines t t'"
      "free_list t' = free_list t" "next_unpartitioned_chunk t' = next_unpartitioned_chunk t + unat n"
      "next_unpartitioned_chunk t' \<le> total_physical_chunks t"
  | (full) "free_list t (unat n) = []" "off = UINT32_MAX" "t' = t"
      "total_physical_chunks t < next_unpartitioned_chunk t + unat n"
proof -
  from n show thesis
    by (rule chunk_numbers)
      (use run reused bumped full in \<open>auto simp: AllocateChunks_def free_list_def same_lines_def fun_eq_iff split: if_splits\<close>)
qed

lemma FreeChunks_law:
  assumes n: "0 < unat n" "unat n \<le> 4" and off: "off \<noteq> UINT32_MAX"
  shows "same_lines t (FreeChunks off n t)"
    and "free_list (FreeChunks off n t) = (free_list t)(unat n := free_list t (unat n) @ [off])"
    and "next_unpartitioned_chunk (FreeChunks off n t) = next_unpartitioned_chunk t"
proof -
  have "same_lines t (FreeChunks off n t) \<and>
      free_list (FreeChunks off n t) = (free_list t)(unat n := free_list t (unat n) @ [off]) \<and>
      next_unpartitioned_chunk (FreeChunks off n t) = next_unpartitioned_chunk t"
    using n by (rule chunk_numbers)
      (use off in \<open>auto simp: FreeChunks_def free_list_def same_lines_def fun_eq_iff Let_def\<close>)
  then show "same_lines t (FreeChunks off n t)"
    "free_list (FreeChunks off n t) = (free_list t)(unat n := free_list t (unat n) @ [off])"
    "next_unpartitioned_chunk (FreeChunks off n t) = next_unpartitioned_chunk t"
    by simp_all
qed

lemma same_lines_holds: "same_lines t t' \<Longrightarrow> line_holds t' = line_holds t"
  by (simp add: same_lines_def line_holds_def fun_eq_iff)

lemma same_lines_held: "same_lines t t' \<Longrightarrow> held X t' (Line i) = held X t (Line i)"
  using same_lines_holds [of t t'] by (simp add: same_lines_def)

lemma same_lines_trans: "same_lines a b \<Longrightarrow> same_lines b c \<Longrightarrow> same_lines a c"
  by (simp add: same_lines_def)

section \<open>Freeing\<close>

lemma FreeChunks_ok:
  assumes n: "0 < unat n" "unat n \<le> 4" and off: "off \<noteq> UINT32_MAX"
    and ok: "chunks_ok X t" and vac: "vacant X t (unat off, unat n)"
  shows "chunks_ok X (FreeChunks off n t)"
proof -
  let ?t = "FreeChunks off n t" and ?k = "unat n"
  note law = FreeChunks_law [OF n off, of t]
  have held: "held X ?t h = (if h = Free ?k (length (free_list t ?k)) then Some (unat off, ?k) else held X t h)" for h
  proof (cases h)
    case (Line i)
    with same_lines_held [OF law(1)] show ?thesis
      by simp
  next
    case (Free k j)
    then show ?thesis
      by (auto simp: law(2) nth_append)
  qed
  have new: "apart (unat off, ?k) r" if "held X t h = Some r" for h r
    using vac that unfolding vacant_def by blast
  show ?thesis
  proof (rule chunks_okI)
    fix h r
    assume "held X ?t h = Some r"
    then show "0 < snd r \<and> snd r \<le> 4 \<and> fst r + snd r \<le> next_unpartitioned_chunk ?t"
      using chunks_okD(1-3) [OF ok, of h r] vac n unfolding held law(3) by (auto simp: vacant_def split: if_splits)
  next
    fix h h' r r'
    assume "held X ?t h = Some r" "held X ?t h' = Some r'" "h \<noteq> h'"
    then show "apart r r'"
      using chunks_okD(4) [OF ok, of h r h' r'] new [of h r] new [of h' r'] unfolding held
      by (auto simp: apart_sym split: if_splits)
  qed
qed

lemma stretches_eq:
  "same_lines t t' \<Longrightarrow> stretches X p t' k = card {i. i < length (entries t) \<and> i \<notin> X \<and> line_holds t i = k} +
     length (free_list t' k) + (if p = k then 1 else 0)"
  using same_lines_holds [of t t'] by (simp add: stretches_def same_lines_def)

text \<open>A line gives its chunks to the free list: the stretch is counted there from then on.\<close>

lemma count_without:
  assumes "i < length (entries t)"
  shows "card {j. j < length (entries t) \<and> j \<notin> {i} \<and> line_holds t j = k} + (if line_holds t i = k then 1 else 0) =
    card {j. j < length (entries t) \<and> j \<notin> {} \<and> line_holds t j = k}"
proof (cases "line_holds t i = k")
  case True
  have "{j. j < length (entries t) \<and> j \<notin> {} \<and> line_holds t j = k} =
      insert i {j. j < length (entries t) \<and> j \<notin> {i} \<and> line_holds t j = k}"
    using assms True by auto
  then show ?thesis
    using True by simp
next
  case False
  then have "{j. j < length (entries t) \<and> j \<notin> {i} \<and> line_holds t j = k} =
      {j. j < length (entries t) \<and> j \<notin> {} \<and> line_holds t j = k}"
    by auto
  with False show ?thesis
    by simp
qed

lemma FreeChunks_counted:
  assumes n: "0 < unat n" "unat n \<le> 4" and off: "off \<noteq> UINT32_MAX" and i: "i < length (entries t)"
    and holds: "line_holds t i = unat n" and cnt: "counted {} 0 t"
  shows "counted {i} 0 (FreeChunks off n t)"
proof -
  let ?t = "FreeChunks off n t"
  note law = FreeChunks_law [OF n off, of t]
  have "stretches {i} 0 ?t k = stretches {} 0 t k" for k
    using count_without [OF i, of k] holds unfolding stretches_eq [OF law(1)] by (auto simp: stretches_def law(2))
  then show ?thesis
    using cnt law(1,3) by (simp add: counted_def same_lines_def)
qed

section \<open>Allocating\<close>

lemma AllocateChunks_ok:
  assumes run: "AllocateChunks n t = (off, t')" and n: "0 < unat n" "unat n \<le> 4"
    and ok: "chunks_ok X t" and tab: "table_ok t" and off: "off \<noteq> UINT32_MAX"
  shows "chunks_ok X t'" and "table_ok t'" and "vacant X t' (unat off, unat n)" and "same_lines t t'"
proof -
  let ?k = "unat n"
  have "chunks_ok X t' \<and> table_ok t' \<and> vacant X t' (unat off, ?k) \<and> same_lines t t'"
    using run n
  proof (cases rule: AllocateChunks_cases)
    case reused
    let ?h = "Free ?k (length (free_list t ?k) - 1)"
    have top: "held X t ?h = Some (unat off, ?k)"
      using reused(1,2) by (simp add: last_conv_nth)
    have held: "held X t' h = (if h = ?h then None else held X t h)" for h
    proof (cases h)
      case (Line i)
      with same_lines_held [OF reused(3)] show ?thesis
        by simp
    next
      case (Free k j)
      then show ?thesis
        using reused(1) by (auto simp: reused(4) nth_butlast)
    qed
    have old: "held X t' h = Some r \<Longrightarrow> held X t h = Some r \<and> h \<noteq> ?h" for h r
      unfolding held by (simp split: if_splits)
    have "chunks_ok X t'"
      by (rule chunks_okI) (use old chunks_okD [OF ok] reused(5) in metis)+
    moreover have "vacant X t' (unat off, ?k)"
      unfolding vacant_def reused(5)
      using chunks_okD(3) [OF ok top] chunks_okD(4) [OF ok top] old by fastforce
    ultimately show ?thesis
      using tab reused(3,5) by (simp add: table_ok_def same_lines_def)
  next
    case bumped
    have small: "unat off = next_unpartitioned_chunk t"
      using bumped(2,5,6) tab by (simp add: table_ok_def unsigned_of_nat take_bit_nat_eq_self)
    have held: "held X t' h = held X t h" for h
      using same_lines_held [OF bumped(3)] bumped(4) by (cases h) simp_all
    have "chunks_ok X t'"
      by (rule chunks_okI) (use chunks_okD [OF ok] bumped(5) in \<open>auto simp: held trans_le_add1\<close>)
    moreover have "vacant X t' (unat off, ?k)"
      unfolding vacant_def held using chunks_okD(3) [OF ok] bumped(5) small by (auto simp: apart_def)
    ultimately show ?thesis
      using tab bumped(3,6) by (simp add: table_ok_def same_lines_def)
  next
    case full
    with off show ?thesis
      by simp
  qed
  then show "chunks_ok X t'" "table_ok t'" "vacant X t' (unat off, ?k)" "same_lines t t'"
    by simp_all
qed

text \<open>The stretch an allocation returns is counted as pending; a line is left out, so there is room for
  one more stretch of any size.\<close>

lemma stretches_room:
  assumes "counted {i} 0 t" and "i < length (entries t)" and "free_list t k = []"
  shows "stretches {i} 0 t k < length (entries t) \<or> k = 0"
proof (cases "k = 0")
  case False
  have "{j. j < length (entries t) \<and> j \<notin> {i} \<and> line_holds t j = k} \<subseteq> {..<length (entries t)} - {i}"
    by auto
  then have "card {j. j < length (entries t) \<and> j \<notin> {i} \<and> line_holds t j = k} \<le> card ({..<length (entries t)} - {i})"
    by (intro card_mono) auto
  also have "\<dots> < length (entries t)"
    using assms(2) by simp
  finally show ?thesis
    using assms(3) False by (simp add: stretches_def)
qed simp

lemma sum_bump:
  assumes "finite A" and "m \<in> A"
  shows "(\<Sum>k\<in>A. k * (f k + (if m = k then 1 else 0))) = (\<Sum>k\<in>A. k * f k) + (m :: nat)"
  using assms by (simp add: distrib_left sum.distrib if_distrib [of "\<lambda>x. k * x" for k] sum.delta cong: if_cong)

lemma AllocateChunks_counted:
  assumes run: "AllocateChunks n t = (off, t')" and n: "0 < unat n" "unat n \<le> 4" and off: "off \<noteq> UINT32_MAX"
    and cnt: "counted {i} 0 t" and i: "i < length (entries t)"
  shows "counted {i} (unat n) t'"
proof -
  let ?k = "unat n" and ?S = "{1, 2, 3, 4 :: nat}"
  have k: "?k \<in> ?S"
    using n by auto
  show ?thesis
    using run n
  proof (cases rule: AllocateChunks_cases)
    case reused
    have "stretches {i} ?k t' j = stretches {i} 0 t j" if "j \<in> ?S" for j
      using that reused(1) unfolding stretches_eq [OF reused(3)] by (auto simp: stretches_def reused(4))
    then show ?thesis
      using cnt reused(3,5) by (simp add: counted_def same_lines_def)
  next
    case bumped
    have str: "stretches {i} ?k t' j = stretches {i} 0 t j + (if ?k = j then 1 else 0)" if "j \<in> ?S" for j
      using that unfolding stretches_eq [OF bumped(3)] by (auto simp: stretches_def bumped(4))
    have "(\<Sum>j\<in>?S. j * stretches {i} ?k t' j) = (\<Sum>j\<in>?S. j * (stretches {i} 0 t j + (if ?k = j then 1 else 0)))"
      by (rule sum.cong [OF refl]) (simp only: str)
    also have "\<dots> = (\<Sum>j\<in>?S. j * stretches {i} 0 t j) + ?k"
      by (rule sum_bump [OF _ k]) simp
    finally have "next_unpartitioned_chunk t' = (\<Sum>j\<in>?S. j * stretches {i} ?k t' j)"
      using cnt bumped(5) by (simp add: counted_def)
    moreover have "stretches {i} ?k t' j \<le> length (entries t')" if "j \<in> ?S" for j
    proof -
      have "stretches {i} 0 t j \<le> length (entries t)" "stretches {i} 0 t ?k < length (entries t)"
        using cnt that stretches_room [OF cnt i bumped(1)] n by (auto simp: counted_def)
      then show ?thesis
        using str [OF that] bumped(3) by (auto simp: same_lines_def)
    qed
    ultimately show ?thesis
      unfolding counted_def by blast
  next
    case full
    with off show ?thesis
      by simp
  qed
qed

text \<open>With ten chunks for each line the allocator never fails.\<close>

lemma AllocateChunks_succeeds:
  assumes run: "AllocateChunks n t = (off, t')" and n: "0 < unat n" "unat n \<le> 4" and cnt: "counted {i} 0 t"
    and i: "i < length (entries t)" and tab: "table_ok t" and ok: "chunks_ok X t"
    and room: "10 * length (entries t) \<le> total_physical_chunks t"
  shows "off \<noteq> UINT32_MAX"
  using run n
proof (cases rule: AllocateChunks_cases)
  case reused
  have "held X t (Free (unat n) (length (free_list t (unat n)) - 1)) = Some (unat off, unat n)"
    using reused(1,2) by (simp add: last_conv_nth)
  from chunks_okD(3) [OF ok this] have "unat off \<le> 2 ^ 24"
    using tab by (simp add: table_ok_def)
  then show ?thesis
    by (auto simp: UINT32_MAX_def)
next
  case bumped
  then have "unat off = next_unpartitioned_chunk t" "unat off \<le> 2 ^ 24"
    using tab by (simp_all add: table_ok_def unsigned_of_nat take_bit_nat_eq_self)
  then show ?thesis
    by (auto simp: UINT32_MAX_def)
next
  case full
  let ?N = "length (entries t)"
  have le: "stretches {i} 0 t 1 \<le> ?N" "stretches {i} 0 t 2 \<le> ?N" "stretches {i} 0 t 3 \<le> ?N" "stretches {i} 0 t 4 \<le> ?N"
    and sum: "next_unpartitioned_chunk t = stretches {i} 0 t 1 + 2 * stretches {i} 0 t 2 + 3 * stretches {i} 0 t 3 +
      4 * stretches {i} 0 t 4"
    using cnt by (simp_all add: counted_def)
  have "unat n = 1 \<or> unat n = 2 \<or> unat n = 3 \<or> unat n = 4"
    using n by linarith
  moreover have "stretches {i} 0 t (unat n) < ?N"
    using stretches_room [OF cnt i full(1)] n by auto
  ultimately have "next_unpartitioned_chunk t + unat n \<le> 10 * ?N"
    using le sum by auto
  with full(4) room show ?thesis
    by simp
qed

section \<open>Placing a line\<close>

lemma leave_out:
  assumes "chunks_ok {} t"
  shows "chunks_ok {i} t"
    and "i < length (entries t) \<Longrightarrow> line_holds t i \<noteq> 0 \<Longrightarrow>
      vacant {i} t (unat (phys_chunk_offset (entries t ! i)), line_holds t i)"
proof -
  have sub: "held {i} t h = Some r \<Longrightarrow> held {} t h = Some r \<and> h \<noteq> Line i" for h r
    by (cases h) (auto split: if_splits)
  show "chunks_ok {i} t"
    by (rule chunks_okI) (use sub chunks_okD [OF assms] in metis)+
  assume i: "i < length (entries t)" "line_holds t i \<noteq> 0"
  then have mine: "held {} t (Line i) = Some (unat (phys_chunk_offset (entries t ! i)), line_holds t i)"
    by simp
  show "vacant {i} t (unat (phys_chunk_offset (entries t ! i)), line_holds t i)"
    unfolding vacant_def using chunks_okD(3) [OF assms mine] chunks_okD(4) [OF assms mine] sub by fastforce
qed

lemma counted_leave_out:
  assumes "counted {} 0 t" and "i < length (entries t)"
  shows "counted {i} (line_holds t i) t"
proof -
  have "stretches {i} (line_holds t i) t k = stretches {} 0 t k" if "k \<in> {1, 2, 3, 4}" for k
    using count_without [OF assms(2), of k] that by (auto simp: stretches_def)
  with assms(1) show ?thesis
    by (simp add: counted_def)
qed

definition line_table_ok :: "MemoryLineTable \<Rightarrow> bool" where
  "line_table_ok t \<longleftrightarrow> table_ok t \<and> chunks_ok {} t \<and> counted {} 0 t"

lemma unat_offset: "unat (ucast (off :: 24 word) :: 32 word) = unat off"
proof -
  have "unat off < 2 ^ 24"
    using unsigned_less [of off, where ?'a = nat] by simp
  then show ?thesis
    by (simp add: unsigned_ucast_eq take_bit_nat_eq_self)
qed

lemma unat_chunks: "unat (ucast (n :: 3 word) :: 8 word) = unat n"
proof -
  have "unat n < 2 ^ 3"
    using unsigned_less [of n, where ?'a = nat] by simp
  then show ?thesis
    by (simp add: unsigned_ucast_eq take_bit_nat_eq_self)
qed

lemma small_offset: "(ucast (off :: 24 word) :: 32 word) \<noteq> UINT32_MAX"
proof
  assume "(ucast off :: 32 word) = UINT32_MAX"
  then have "unat off = unat UINT32_MAX"
    using unat_offset [of off] by simp
  moreover have "unat off < 2 ^ 24"
    using unsigned_less [of off, where ?'a = nat] by simp
  ultimately show False
    by (simp add: UINT32_MAX_def)
qed

text \<open>The state in which the allocator is called for line \<open>i\<close>.\<close>

definition alloc_ready :: "nat \<Rightarrow> MemoryLineTable \<Rightarrow> bool" where
  "alloc_ready i t \<longleftrightarrow> table_ok t \<and> chunks_ok {i} t \<and> counted {i} 0 t \<and> i < length (entries t)"

lemma alloc_ready_law:
  assumes ready: "alloc_ready i t" and run: "AllocateChunks needed t = (off, t')" and needed: "unat needed \<le> 4"
  shows "same_lines t t' \<and> table_ok t' \<and> chunks_ok {i} t' \<and>
    (if 0 < needed \<and> off = UINT32_MAX then t' = t \<and> total_physical_chunks t < 10 * length (entries t)
     else counted {i} (unat needed) t' \<and> (0 < unat needed \<longrightarrow> vacant {i} t' (unat off, unat needed)))"
proof (cases "needed = 0")
  case True
  with run ready show ?thesis
    by (simp add: AllocateChunks_def alloc_ready_def same_lines_def)
next
  case False
  then have pos: "0 < unat needed"
    by (simp add: unat_gt_0)
  have r: "table_ok t" "chunks_ok {i} t" "counted {i} 0 t" "i < length (entries t)"
    using ready by (simp_all add: alloc_ready_def)
  show ?thesis
  proof (cases "off = UINT32_MAX")
    case True
    have same: "t' = t"
      using run pos needed
    proof (cases rule: AllocateChunks_cases)
      case reused
      have "held {i} t (Free (unat needed) (length (free_list t (unat needed)) - 1)) = Some (unat off, unat needed)"
        using reused(1,2) by (simp add: last_conv_nth)
      from chunks_okD(3) [OF r(2) this] have "unat off \<le> 2 ^ 24"
        using r(1) by (simp add: table_ok_def)
      with True show ?thesis
        by (simp add: UINT32_MAX_def)
    next
      case bumped
      then have "unat off = next_unpartitioned_chunk t" "unat off \<le> 2 ^ 24"
        using r(1) by (simp_all add: table_ok_def unsigned_of_nat take_bit_nat_eq_self)
      with True show ?thesis
        by (simp add: UINT32_MAX_def)
    qed simp
    moreover have "\<not> 10 * length (entries t) \<le> total_physical_chunks t"
      using AllocateChunks_succeeds [OF run pos needed r(3,4,1,2)] True by blast
    ultimately show ?thesis
      using True False r by (auto simp: same_lines_def word_gt_0)
  next
    case off: False
    from AllocateChunks_ok [OF run pos needed r(2,1) off] AllocateChunks_counted [OF run pos needed off r(3,4)] off
    show ?thesis
      by simp
  qed
qed

text \<open>What \<open>place_line\<close> leaves: stretches for everything but the line itself, and a vacant stretch for
  it; or nothing was found.\<close>

lemma place_line_law:
  assumes run: "place_line i needed t = (ro, t')" and ok: "line_table_ok t" and i: "i < length (entries t)"
    and needed: "unat needed \<le> 4"
  shows "same_lines t t' \<and> table_ok t' \<and> chunks_ok {i} t' \<and>
    (case ro of
       Some off \<Rightarrow> counted {i} (unat needed) t' \<and> (0 < unat needed \<longrightarrow> vacant {i} t' (unat off, unat needed))
     | None \<Rightarrow> total_physical_chunks t < 10 * length (entries t) \<and> (e_valid (entries t ! i) = 0 \<longrightarrow> t' = t))"
proof -
  let ?e = "entries t ! i"
  have t: "table_ok t" "chunks_ok {} t" "counted {} 0 t"
    using ok by (simp_all add: line_table_ok_def)
  note out = leave_out(1) [OF t(2), of i] leave_out(2) [OF t(2) i] counted_leave_out [OF t(3) i]
  show ?thesis
  proof (cases "e_valid ?e = 0")
    case True
    obtain off t1 where al: "AllocateChunks needed t = (off, t1)"
      by force
    have "alloc_ready i t"
      using out(1,3) True t i by (simp add: alloc_ready_def line_holds_def)
    note law = alloc_ready_law [OF this al needed]
    show ?thesis
    proof (cases "needed > 0 \<and> off = UINT32_MAX")
      case no: True
      then have "ro = None" "t' = t1"
        using run True al by (auto simp: place_line_def Let_def)
      with law no show ?thesis
        by auto
    next
      case yes: False
      then have r: "ro = Some off" "t' = t1\<lparr>total_uncompressed_bytes_stored := total_uncompressed_bytes_stored t1 + 64\<rparr>"
        using run True al by (auto simp: place_line_def Let_def split: if_splits)
      have flds: "line_holds (t1\<lparr>total_uncompressed_bytes_stored := x\<rparr>) = line_holds t1"
        "free_list (t1\<lparr>total_uncompressed_bytes_stored := x\<rparr>) = free_list t1" for x
        by (simp_all add: line_holds_def free_list_def fun_eq_iff)
      have upd: "held X (t1\<lparr>total_uncompressed_bytes_stored := x\<rparr>) h = held X t1 h"
        "stretches X p (t1\<lparr>total_uncompressed_bytes_stored := x\<rparr>) = stretches X p t1" for X p x h
        by (cases h; simp add: flds) (simp add: stretches_def flds fun_eq_iff)
      have "same_lines t (t1\<lparr>total_uncompressed_bytes_stored := x\<rparr>) = same_lines t t1"
        "table_ok (t1\<lparr>total_uncompressed_bytes_stored := x\<rparr>) = table_ok t1"
        "chunks_ok X (t1\<lparr>total_uncompressed_bytes_stored := x\<rparr>) = chunks_ok X t1"
        "counted X p (t1\<lparr>total_uncompressed_bytes_stored := x\<rparr>) = counted X p t1"
        "vacant X (t1\<lparr>total_uncompressed_bytes_stored := x\<rparr>) s = vacant X t1 s" for x X p s
        by (simp_all add: same_lines_def table_ok_def chunks_ok_def counted_def vacant_def upd)
      with law yes show ?thesis
        unfolding r by simp
    qed
  next
    case valid: False
    then have holds: "line_holds t i = unat (allocated_chunks ?e)"
      by (simp add: line_holds_def)
    show ?thesis
    proof (cases "ucast (allocated_chunks ?e) = needed")
      case True
      then have "ro = Some (ucast (phys_chunk_offset ?e))" "t' = t" "line_holds t i = unat needed"
        using run valid holds unat_chunks [of "allocated_chunks ?e"] by (auto simp: place_line_def Let_def)
      then show ?thesis
        using out t(1) by (simp add: same_lines_def unat_offset)
    next
      case False
      let ?t = "FreeChunks (ucast (phys_chunk_offset ?e)) (ucast (allocated_chunks ?e)) t"
      obtain off t1 where al: "AllocateChunks needed ?t = (off, t1)"
        by force
      have free: "alloc_ready i ?t \<and> same_lines t ?t"
      proof (cases "allocated_chunks ?e = 0")
        case True
        then have "?t = t"
          by (simp add: FreeChunks_def)
        then show ?thesis
          using out(1,3) holds True t(1) i by (simp add: alloc_ready_def same_lines_def)
      next
        case False
        then have nz: "line_holds t i \<noteq> 0" "0 < unat (ucast (allocated_chunks ?e) :: 8 word)"
          using holds by (simp_all add: unat_chunks unat_gt_0)
        then have "held {} t (Line i) = Some (unat (phys_chunk_offset ?e), line_holds t i)"
          using i by simp
        from chunks_okD(2) [OF t(2) this] have le: "unat (ucast (allocated_chunks ?e) :: 8 word) \<le> 4"
          using holds by (simp add: unat_chunks)
        have vac: "vacant {i} t (unat (ucast (phys_chunk_offset ?e) :: 32 word), unat (ucast (allocated_chunks ?e) :: 8 word))"
          using out(2) [OF nz(1)] holds by (simp add: unat_offset unat_chunks)
        have h: "line_holds t i = unat (ucast (allocated_chunks ?e) :: 8 word)"
          using holds by (simp add: unat_chunks)
        note law = FreeChunks_law [OF nz(2) le small_offset]
        show ?thesis
          using FreeChunks_ok [OF nz(2) le small_offset out(1) vac] FreeChunks_counted [OF nz(2) le small_offset i h t(3)]
            law(1) [of t "phys_chunk_offset ?e"] law(3) [of "phys_chunk_offset ?e" t] t(1) i
          by (simp add: alloc_ready_def table_ok_def same_lines_def)
      qed
      note law = alloc_ready_law [OF conjunct1 [OF free] al needed]
      have lines: "same_lines t t1"
        using same_lines_trans free law by blast
      show ?thesis
      proof (cases "needed > 0 \<and> off = UINT32_MAX")
        case no: True
        then have "ro = None" "t' = t1"
          using run valid False al by (auto simp: place_line_def Let_def)
        with law no lines valid free show ?thesis
          by (auto simp: same_lines_def)
      next
        case yes: False
        then have "ro = Some off" "t' = t1"
          using run valid False al by (auto simp: place_line_def Let_def split: if_splits)
        with law yes lines show ?thesis
          by simp
      qed
    qed
  qed
qed

end
