(* ===== verification/Line_Props.thy ===== *)
theory Line_Props
  imports Line_Alloc
begin

text \<open>
  The line table as a map from lines to their 64 bytes: a load returns what was stored last, and
  stores to different lines do not disturb each other.
\<close>

section \<open>What an entry stands for\<close>

definition line_stands :: "bool \<Rightarrow> MemoryLineTable \<Rightarrow> nat \<Rightarrow> byte list \<Rightarrow> bool" where
  "line_stands wrap t i src \<longleftrightarrow>
     (let e = entries t ! i in
      if e_valid e = 0 \<or> allocated_chunks e = 0 \<or> pattern_tag e = 0 then src = replicate 64 0
      else \<exists>l. expands wrap l src \<and> unat (pattern_tag e) = unat (pattern_value (l_pattern l)) \<and>
        unat (l_size l) \<le> SLOT_CHUNK_SIZE * unat (allocated_chunks e) \<and>
        take (unat (l_size l)) (drop (SLOT_CHUNK_SIZE * unat (phys_chunk_offset e)) (physical_dram t)) =
        take (unat (l_size l)) (l_data l))"

definition lines_stand :: "bool \<Rightarrow> MemoryLineTable \<Rightarrow> (nat \<Rightarrow> byte list) \<Rightarrow> bool" where
  "lines_stand wrap t M \<longleftrightarrow> (\<forall>i < length (entries t). line_stands wrap t i (M i))"

lemma slot_in_dram:
  assumes ok: "line_table_ok t" and i: "i < length (entries t)" and v: "e_valid (entries t ! i) \<noteq> 0"
    and a: "allocated_chunks (entries t ! i) \<noteq> 0"
  shows "SLOT_CHUNK_SIZE * (unat (phys_chunk_offset (entries t ! i)) + unat (allocated_chunks (entries t ! i))) \<le>
    length (physical_dram t)"
proof -
  have "held {} t (Line i) = Some (unat (phys_chunk_offset (entries t ! i)), unat (allocated_chunks (entries t ! i)))"
    using i v a by (simp add: line_holds_def unat_gt_0)
  moreover have c: "chunks_ok {} t" and tab: "table_ok t"
    using ok by (simp_all add: line_table_ok_def)
  ultimately have "unat (phys_chunk_offset (entries t ! i)) + unat (allocated_chunks (entries t ! i)) \<le> total_physical_chunks t"
    using chunks_okD(3) [OF c] by (fastforce simp: table_ok_def)
  then have "SLOT_CHUNK_SIZE * (unat (phys_chunk_offset (entries t ! i)) + unat (allocated_chunks (entries t ! i))) \<le>
      SLOT_CHUNK_SIZE * total_physical_chunks t"
    by (rule mult_le_mono2)
  then show ?thesis
    using tab by (simp add: table_ok_def)
qed

lemma tag_of_pattern:
  assumes "unat (tag :: 4 word) = unat v" and "pattern_of v = p"
  shows "pattern_of (ucast tag) = p"
proof -
  have "unat tag < 2 ^ 4"
    using unsigned_less [of tag, where ?'a = nat] by simp
  then have "unat (ucast tag :: 8 word) = unat v"
    using assms(1) by (simp add: unsigned_ucast_eq take_bit_nat_eq_self)
  then have "(ucast tag :: 8 word) = v"
    by (simp add: word_unat_eq_iff)
  with assms(2) show ?thesis
    by simp
qed

text \<open>A line keeps its contents when its entry and the bytes of its stretch are the same.\<close>

lemma line_stands_same:
  assumes st: "line_stands wrap t i src" and e: "entries t' ! i = entries t ! i"
    and b: "\<And>n. \<lbrakk>n \<le> SLOT_CHUNK_SIZE * unat (allocated_chunks (entries t ! i)); e_valid (entries t ! i) \<noteq> 0;
        allocated_chunks (entries t ! i) \<noteq> 0\<rbrakk> \<Longrightarrow>
      take n (drop (SLOT_CHUNK_SIZE * unat (phys_chunk_offset (entries t ! i))) (physical_dram t')) =
      take n (drop (SLOT_CHUNK_SIZE * unat (phys_chunk_offset (entries t ! i))) (physical_dram t))"
  shows "line_stands wrap t' i src"
proof (cases "e_valid (entries t ! i) = 0 \<or> allocated_chunks (entries t ! i) = 0 \<or> pattern_tag (entries t ! i) = 0")
  case True
  with st show ?thesis
    by (simp add: line_stands_def e)
next
  case False
  with st obtain l where "expands wrap l src" "unat (pattern_tag (entries t ! i)) = unat (pattern_value (l_pattern l))"
    and n: "unat (l_size l) \<le> SLOT_CHUNK_SIZE * unat (allocated_chunks (entries t ! i))"
    and "take (unat (l_size l)) (drop (SLOT_CHUNK_SIZE * unat (phys_chunk_offset (entries t ! i))) (physical_dram t)) =
      take (unat (l_size l)) (l_data l)"
    by (auto simp: line_stands_def Let_def)
  moreover from False b [OF n] have "take (unat (l_size l)) (drop (SLOT_CHUNK_SIZE * unat (phys_chunk_offset (entries t ! i))) (physical_dram t')) =
      take (unat (l_size l)) (drop (SLOT_CHUNK_SIZE * unat (phys_chunk_offset (entries t ! i))) (physical_dram t))"
    by simp
  ultimately have "\<exists>l. expands wrap l src \<and> unat (pattern_tag (entries t ! i)) = unat (pattern_value (l_pattern l)) \<and>
        unat (l_size l) \<le> SLOT_CHUNK_SIZE * unat (allocated_chunks (entries t ! i)) \<and>
        take (unat (l_size l)) (drop (SLOT_CHUNK_SIZE * unat (phys_chunk_offset (entries t ! i))) (physical_dram t')) =
        take (unat (l_size l)) (l_data l)"
    by (intro exI [of _ l]) simp
  with False show ?thesis
    by (simp add: line_stands_def Let_def e)
qed

lemma LoadLine_stands:
  assumes ok: "line_table_ok t" and i: "i < length (entries t)" and st: "line_stands wrap t i src"
    and dest: "length dest = 64"
  shows "LoadLine wrap i (Some dest) t = Some (True, src)"
proof -
  let ?e = "entries t ! i"
  have lines: "total_logical_lines t = length (entries t)"
    using ok by (simp add: line_table_ok_def table_ok_def)
  show ?thesis
  proof (cases "e_valid ?e = 0 \<or> allocated_chunks ?e = 0 \<or> pattern_tag ?e = 0")
    case True
    with st dest lines i show ?thesis
      by (auto simp: LoadLine_def line_stands_def Let_def)
  next
    case False
    let ?off = "SLOT_CHUNK_SIZE * unat (phys_chunk_offset ?e)" and ?n = "SLOT_CHUNK_SIZE * unat (allocated_chunks ?e)"
    from st False obtain l where l: "expands wrap l src" "unat (pattern_tag ?e) = unat (pattern_value (l_pattern l))"
      "unat (l_size l) \<le> ?n" "take (unat (l_size l)) (drop ?off (physical_dram t)) = take (unat (l_size l)) (l_data l)"
      by (auto simp: line_stands_def Let_def)
    have "?off + ?n \<le> length (physical_dram t)"
      using slot_in_dram [OF ok i] False by (simp add: algebra_simps)
    then have len: "unat (l_size l) \<le> length (drop ?off (physical_dram t))"
      using l(3) by simp
    have pat: "pattern_of (ucast (pattern_tag ?e)) = l_pattern l"
      by (rule tag_of_pattern [OF l(2)]) (use l(1) in \<open>simp add: expands_def\<close>)
    have "DecompressRaw wrap (Some (drop ?off (physical_dram t))) ?n (Some dest) (Some (l_pattern l)) = Some (True, src)"
      using l(1,3,4) len dest unfolding expands_def by blast
    then show ?thesis
      using False lines i pat by (simp add: LoadLine_def Let_def mult.commute)
  qed
qed

section \<open>Storing\<close>

lemma take_drop_apart:
  assumes "length ys = m" and "d + m \<le> length xs" and "a + n \<le> d \<or> d + m \<le> a"
  shows "take n (drop a (take d xs @ ys @ drop (d + m) xs)) = take n (drop a xs)"
  using assms(3)
proof
  assume "a + n \<le> d"
  then show ?thesis
    using assms(1,2) by (auto simp: min_def drop_take)
next
  assume "d + m \<le> a"
  then show ?thesis
    using assms(1,2) by simp
qed

lemma needed_chunks_bound:
  assumes "expands wrap l src"
  shows "unat (needed_chunks l) \<le> 4" and "l_pattern l = ZEROS \<longleftrightarrow> needed_chunks l = 0"
    and "l_pattern l \<noteq> ZEROS \<Longrightarrow> unat (l_size l) \<le> SLOT_CHUNK_SIZE * unat (needed_chunks l)"
proof -
  have size: "unat (l_size l) \<le> 64"
    using assms by (simp add: expands_def)
  have "unat (needed_chunks l) \<le> 4 \<and> (l_pattern l = ZEROS \<longleftrightarrow> needed_chunks l = 0) \<and>
      (l_pattern l \<noteq> ZEROS \<longrightarrow> unat (l_size l) \<le> SLOT_CHUNK_SIZE * unat (needed_chunks l))"
    using size by (auto simp: needed_chunks_def GetQuantizedSlotSize_def word_le_nat_alt)
  then show "unat (needed_chunks l) \<le> 4" "l_pattern l = ZEROS \<longleftrightarrow> needed_chunks l = 0"
    "l_pattern l \<noteq> ZEROS \<Longrightarrow> unat (l_size l) \<le> SLOT_CHUNK_SIZE * unat (needed_chunks l)"
    by blast+
qed

text \<open>The entry is set to a vacant stretch: the stretches of the table are in order again.\<close>

lemma set_line_ok:
  assumes tab: "table_ok t1" and ok: "chunks_ok {i} t1" and cnt: "counted {i} k t1" and i: "i < length (entries t1)"
    and vac: "0 < k \<Longrightarrow> vacant {i} t1 (o1, k)" and k: "k \<le> 4"
    and e: "e_valid e \<noteq> 0" "unat (allocated_chunks e) = k" "0 < k \<Longrightarrow> unat (phys_chunk_offset e) = o1"
    and t': "t' = t1\<lparr>physical_dram := dram, entries := (entries t1)[i := e]\<rparr>" "length dram = length (physical_dram t1)"
  shows "line_table_ok t'"
proof -
  have ent: "entries t' = (entries t1)[i := e]" "length (entries t') = length (entries t1)"
    by (simp_all add: t'(1))
  have holds: "line_holds t' j = (if j = i then k else line_holds t1 j)" for j
    using e i by (simp add: line_holds_def ent)
  have free: "free_list t' = free_list t1"
    by (simp add: free_list_def t'(1) fun_eq_iff)
  have held: "held {} t' h = (if h = Line i then (if k = 0 then None else Some (o1, k)) else held {i} t1 h)" for h
  proof (cases h)
    case (Line j)
    then show ?thesis
      using i e(3) by (auto simp: holds ent)
  next
    case (Free m j)
    then show ?thesis
      by (simp add: free)
  qed
  have nxt: "next_unpartitioned_chunk t' = next_unpartitioned_chunk t1"
    by (simp add: t'(1))
  have "chunks_ok {} t'"
  proof (rule chunks_okI)
    fix h r
    assume "held {} t' h = Some r"
    then show "0 < snd r \<and> snd r \<le> 4 \<and> fst r + snd r \<le> next_unpartitioned_chunk t'"
      using chunks_okD(1-3) [OF ok, of h r] vac k unfolding held nxt by (auto simp: vacant_def split: if_splits)
  next
    fix h h' r r'
    assume "held {} t' h = Some r" "held {} t' h' = Some r'" "h \<noteq> h'"
    moreover have "apart (o1, k) s \<and> apart s (o1, k)" if "held {i} t1 g = Some s" "k \<noteq> 0" for g s
    proof -
      have "apart (o1, k) s"
        using vac that unfolding vacant_def by blast
      then show ?thesis
        using apart_sym by blast
    qed
    ultimately show "apart r r'"
      using chunks_okD(4) [OF ok, of h r h' r'] unfolding held by (auto split: if_splits)
  qed
  moreover have "table_ok t'"
    using tab t' by (simp add: table_ok_def)
  moreover have "counted {} 0 t'"
  proof -
    have "stretches {} 0 t' j = stretches {i} k t1 j" if "j \<in> {1, 2, 3, 4}" for j
    proof -
      have "{x. x < length (entries t') \<and> x \<notin> {i} \<and> line_holds t' x = j} =
          {x. x < length (entries t1) \<and> x \<notin> {i} \<and> line_holds t1 x = j}"
        by (auto simp: holds ent)
      note sets = this
      have "line_holds t' i = k" "i < length (entries t')" "0 \<noteq> j"
        using that i by (auto simp: holds ent)
      note count = count_without [OF this(2), of j, unfolded this(1) sets] and \<open>0 \<noteq> j\<close>
      then show ?thesis
        unfolding stretches_def free by simp
    qed
    with cnt show ?thesis
      by (simp add: counted_def nxt ent)
  qed
  ultimately show ?thesis
    by (simp add: line_table_ok_def)
qed

lemma StoreLine_law:
  assumes ok: "line_table_ok t" and i: "i < length (entries t)" and M: "lines_stand wrap t M" and l: "expands wrap l src"
  shows "\<exists>r t'. StoreLine i l t = Some (r, t') \<and> length (entries t') = length (entries t) \<and>
    total_physical_chunks t' = total_physical_chunks t \<and>
    (if r then line_table_ok t' \<and> lines_stand wrap t' (M(i := src))
     else total_physical_chunks t < 10 * length (entries t) \<and> (e_valid (entries t ! i) = 0 \<longrightarrow> t' = t))"
proof -
  let ?needed = "needed_chunks l" and ?k = "unat (needed_chunks l)" and ?s = "unat (l_size l)"
  note nb = needed_chunks_bound [OF l]
  obtain ro t1 where pl: "place_line i ?needed t = (ro, t1)"
    by force
  note law = place_line_law [OF pl ok i nb(1)]
  have lines: "total_logical_lines t = length (entries t)"
    using ok by (simp add: line_table_ok_def table_ok_def)
  have same: "entries t1 = entries t" "physical_dram t1 = physical_dram t" "total_physical_chunks t1 = total_physical_chunks t"
    using law by (simp_all add: same_lines_def)
  show ?thesis
  proof (cases ro)
    case None
    then have "StoreLine i l t = Some (False, t1)"
      using i lines pl by (simp add: StoreLine_def Let_def)
    with law None same show ?thesis
      by auto
  next
    case (Some off)
    define dram where "dram = (if ?needed > 0
      then take (unat off * SLOT_CHUNK_SIZE) (physical_dram t) @ take ?s (l_data l) @
        drop (unat off * SLOT_CHUNK_SIZE + ?s) (physical_dram t) else physical_dram t)"
    define e where "e = (entries t ! i)\<lparr>phys_chunk_offset := (if ?needed > 0 then ucast off else 0),
      allocated_chunks := ucast ?needed, pattern_tag := ucast (pattern_value (l_pattern l)), e_valid := 1\<rparr>"
    let ?t = "t1\<lparr>physical_dram := dram, entries := (entries t1)[i := e]\<rparr>"
    have pos: "0 < ?needed \<longleftrightarrow> 0 < ?k"
      by (simp add: word_gt_0 unat_gt_0)
    have s: "?s \<le> 64" "length (l_data l) = 65" "unat (pattern_value (l_pattern l)) < 16"
      using l by (simp_all add: expands_def)
    have tab: "table_ok t1" and ok1: "chunks_ok {i} t1" and cnt: "counted {i} ?k t1"
      and vac: "0 < ?k \<Longrightarrow> vacant {i} t1 (unat off, ?k)"
      using law by (simp_all add: Some)
    have fits: "unat off * SLOT_CHUNK_SIZE + SLOT_CHUNK_SIZE * ?k \<le> length (physical_dram t)" "unat off < 2 ^ 24" if "0 < ?k"
    proof -
      have "unat off + ?k \<le> total_physical_chunks t1"
        using vac [OF that] tab by (simp add: vacant_def table_ok_def)
      moreover have "SLOT_CHUNK_SIZE * total_physical_chunks t1 \<le> length (physical_dram t)" "total_physical_chunks t1 \<le> 2 ^ 24"
        using tab same by (simp_all add: table_ok_def)
      ultimately show "unat off * SLOT_CHUNK_SIZE + SLOT_CHUNK_SIZE * ?k \<le> length (physical_dram t)" "unat off < 2 ^ 24"
        using that by linarith+
    qed
    have size: "0 < ?k \<Longrightarrow> ?s \<le> SLOT_CHUNK_SIZE * ?k"
      using nb(2,3) by (auto simp: unat_gt_0)
    have room: "0 < ?k \<Longrightarrow> unat off * SLOT_CHUNK_SIZE + ?s \<le> length (physical_dram t)"
      using fits(1) size by fastforce
    have "(if ?needed > 0
        then array_copy (physical_dram t1) (unat off * SLOT_CHUNK_SIZE) (l_data l) 0 ?s else Some (physical_dram t1)) = Some dram"
      using room s pos unfolding dram_def same by (auto simp: array_copy_def)
    then have run: "StoreLine i l t = Some (True, ?t)"
      using i lines pl Some by (simp add: StoreLine_def Let_def same e_def)
    have len: "length dram = length (physical_dram t)"
      using room s pos by (auto simp: dram_def)
    have e: "e_valid e \<noteq> 0" "unat (allocated_chunks e) = ?k" "0 < ?k \<Longrightarrow> unat (phys_chunk_offset e) = unat off"
      "unat (pattern_tag e) = unat (pattern_value (l_pattern l))"
      using nb(1) s(3) fits(2) pos
      by (auto simp: e_def unsigned_ucast_eq take_bit_nat_eq_self)
    have "line_table_ok ?t"
      by (rule set_line_ok [OF tab ok1 cnt _ vac nb(1) e(1-3) refl]) (use i same len in simp_all)
    moreover have "lines_stand wrap ?t (M(i := src))"
      unfolding lines_stand_def
    proof (intro allI impI)
      fix j assume "j < length (entries ?t)"
      then have j: "j < length (entries t)"
        by (simp add: same)
      show "line_stands wrap ?t j ((M(i := src)) j)"
      proof (cases "j = i")
        case True
        show ?thesis
        proof (cases "?k = 0")
          case True
          then have "l_pattern l = ZEROS"
            using nb(2) by (simp add: unat_eq_0)
          then have "src = replicate 64 0"
            using l by (simp add: expands_def)
          moreover have "allocated_chunks e = 0"
            using e(2) True by (simp add: unat_eq_0)
          ultimately show ?thesis
            using \<open>j = i\<close> i by (simp add: line_stands_def same Let_def)
        next
          case False
          then have nz: "l_pattern l \<noteq> ZEROS" "0 < ?k"
            using nb(2) by (auto simp: unat_gt_0)
          have "take ?s (drop (SLOT_CHUNK_SIZE * unat off) dram) = take ?s (l_data l)"
            using fits(1) [OF nz(2)] size [OF nz(2)] s pos nz(2) by (simp add: dram_def mult.commute min_def)
          then have "unat (pattern_tag e) = unat (pattern_value (l_pattern l)) \<and> ?s \<le> SLOT_CHUNK_SIZE * unat (allocated_chunks e) \<and>
              take ?s (drop (SLOT_CHUNK_SIZE * unat (phys_chunk_offset e)) dram) = take ?s (l_data l)"
            using e size [OF nz(2)] nz(2) by simp
          moreover have "pattern_tag e \<noteq> 0"
          proof
            assume "pattern_tag e = 0"
            then have "pattern_value (l_pattern l) = 0"
              using e(4) by (simp add: unat_eq_0)
            then have "pattern_of (pattern_value (l_pattern l)) = ZEROS"
              by (simp add: pattern_of_def)
            with l nz(1) show False
              by (simp add: expands_def)
          qed
          moreover have "allocated_chunks e \<noteq> 0"
            using e(2) nz(2) by (auto simp: unat_eq_0)
          ultimately show ?thesis
            using l e(1) \<open>j = i\<close> i by (auto simp: line_stands_def same Let_def)
        qed
      next
        case False
        let ?e = "entries t ! j"
        have old: "line_stands wrap t j (M j)"
          using M j by (simp add: lines_stand_def)
        have dram: "take n (drop (SLOT_CHUNK_SIZE * unat (phys_chunk_offset ?e)) dram) =
            take n (drop (SLOT_CHUNK_SIZE * unat (phys_chunk_offset ?e)) (physical_dram t))"
          if n: "n \<le> SLOT_CHUNK_SIZE * unat (allocated_chunks ?e)" and v: "e_valid ?e \<noteq> 0" "allocated_chunks ?e \<noteq> 0" for n
        proof (cases "0 < ?k")
          case True
          have "held {i} t1 (Line j) = Some (unat (phys_chunk_offset ?e), unat (allocated_chunks ?e))"
            using j v False by (simp add: same line_holds_def unat_gt_0)
          then have "apart (unat off, ?k) (unat (phys_chunk_offset ?e), unat (allocated_chunks ?e))"
            using vac [OF True] unfolding vacant_def by blast
          then have "SLOT_CHUNK_SIZE * unat (phys_chunk_offset ?e) + n \<le> unat off * SLOT_CHUNK_SIZE \<or>
              unat off * SLOT_CHUNK_SIZE + ?s \<le> SLOT_CHUNK_SIZE * unat (phys_chunk_offset ?e)"
            using n size [OF True] by (auto simp: apart_def)
          moreover have "length (take ?s (l_data l)) = ?s" "unat off * SLOT_CHUNK_SIZE + ?s \<le> length (physical_dram t)"
            using s fits(1) [OF True] size [OF True] by simp_all
          ultimately have "take n (drop (SLOT_CHUNK_SIZE * unat (phys_chunk_offset ?e))
                (take (unat off * SLOT_CHUNK_SIZE) (physical_dram t) @ take ?s (l_data l) @
                  drop (unat off * SLOT_CHUNK_SIZE + ?s) (physical_dram t))) =
              take n (drop (SLOT_CHUNK_SIZE * unat (phys_chunk_offset ?e)) (physical_dram t))"
            by (intro take_drop_apart)
          then show ?thesis
            using True pos by (simp only: dram_def if_True)
        qed (use pos in \<open>simp add: dram_def\<close>)
        have ent: "entries ?t ! j = ?e" "physical_dram ?t = dram"
          using False by (simp_all add: same)
        have "line_stands wrap ?t j (M j)"
          by (rule line_stands_same [OF old ent(1)]) (unfold ent(2), rule dram, assumption+)
        then show ?thesis
          using False by simp
      qed
    qed
    ultimately show ?thesis
      using run same by auto
  qed
qed

section \<open>The interface of the table\<close>

text \<open>What the memory controller relies on: lines that are loaded and saved as 64 bytes, and a memory of
  bytes that is laid out in lines.\<close>

definition line_of :: "(nat \<Rightarrow> byte) \<Rightarrow> nat \<Rightarrow> byte list" where
  "line_of m i = map m [64 * i..<64 * i + 64]"

definition patch :: "(nat \<Rightarrow> byte) \<Rightarrow> nat \<Rightarrow> byte list \<Rightarrow> nat \<Rightarrow> byte" where
  "patch m a bs x = (if a \<le> x \<and> x < a + length bs then bs ! (x - a) else m x)"

lemma length_line_of [simp]: "length (line_of m i) = 64"
  by (simp add: line_of_def)

lemma nth_line_of [simp]: "k < 64 \<Longrightarrow> line_of m i ! k = m (64 * i + k)"
  by (simp add: line_of_def)

lemma line_of_zero: "line_of (\<lambda>_. 0) i = replicate 64 0"
  by (rule nth_equalityI) simp_all

lemma slice_line_of: "off + n \<le> 64 \<Longrightarrow> take n (drop off (line_of m i)) = map m [64 * i + off..<64 * i + off + n]"
  by (rule nth_equalityI) (simp_all add: add.assoc)

lemma patch_nil [simp]: "patch m a [] = m"
  by (auto simp: patch_def fun_eq_iff)

lemma patch_append: "patch m a (xs @ ys) = patch (patch m a xs) (a + length xs) ys"
  by (auto simp: patch_def fun_eq_iff nth_append)

lemma line_of_patch:
  assumes "off + length bs \<le> 64"
  shows "(line_of m)(i := take off (line_of m i) @ bs @ drop (off + length bs) (line_of m i)) =
    line_of (patch m (64 * i + off) bs)"
proof
  fix j
  show "((line_of m)(i := take off (line_of m i) @ bs @ drop (off + length bs) (line_of m i))) j =
      line_of (patch m (64 * i + off) bs) j"
  proof (cases "j = i")
    case True
    then show ?thesis
      using assms by (intro nth_equalityI) (auto simp: patch_def nth_append min_def)
  next
    case False
    then have "64 * i + 64 \<le> 64 * j \<or> 64 * j + 64 \<le> 64 * i"
      by linarith
    then have "patch m (64 * i + off) bs (64 * j + k) = m (64 * j + k)" if "k < 64" for k
      using assms that by (auto simp: patch_def)
    with False show ?thesis
      by (intro nth_equalityI) simp_all
  qed
qed

locale line_memory =
  fixes num_lines :: "'t \<Rightarrow> nat"
    and holds_lines :: "'t \<Rightarrow> (nat \<Rightarrow> byte list) \<Rightarrow> bool"
    and load :: "nat \<Rightarrow> byte list \<Rightarrow> 't \<Rightarrow> (bool \<times> byte list) option"
    and save :: "nat \<Rightarrow> byte list \<Rightarrow> 't \<Rightarrow> (bool \<times> 't) option"
  assumes load: "holds_lines t M \<Longrightarrow> i < num_lines t \<Longrightarrow> length buf = 64 \<Longrightarrow> load i buf t = Some (True, M i)"
    and save: "holds_lines t M \<Longrightarrow> i < num_lines t \<Longrightarrow> length src = 64 \<Longrightarrow>
      \<exists>t'. save i src t = Some (True, t') \<and> num_lines t' = num_lines t \<and> holds_lines t' (M(i := src))"
begin

lemma save_load:
  assumes "holds_lines t M" and "i < num_lines t" and "length src = 64" and "j < num_lines t" and "length buf = 64"
  shows "\<exists>t'. save i src t = Some (True, t') \<and> load j buf t' = Some (True, if j = i then src else M j)"
proof -
  from save [OF assms(1-3)] obtain t' where t': "save i src t = Some (True, t')" "num_lines t' = num_lines t"
    "holds_lines t' (M(i := src))"
    by blast
  from load [OF t'(3), of j buf] t'(1,2) assms(4,5) show ?thesis
    by simp
qed

lemma save_patch:
  assumes "holds_lines t (line_of m)" and "i < num_lines t" and "off + length bs \<le> 64"
  shows "\<exists>t'. save i (take off (line_of m i) @ bs @ drop (off + length bs) (line_of m i)) t = Some (True, t') \<and>
    num_lines t' = num_lines t \<and> holds_lines t' (line_of (patch m (64 * i + off) bs))"
  using save [OF assms(1,2), of "take off (line_of m i) @ bs @ drop (off + length bs) (line_of m i)"] assms(3)
  by (simp add: line_of_patch)

end

text \<open>The table with room for ten chunks for each line provides it: the lines are compressed on the way
  in. A chunk that was freed is only used for a line of the same size, so there may be a stretch of
  each of the four sizes for every line, which is ten chunks.\<close>

definition table_stands :: "MemoryLineTable \<Rightarrow> (nat \<Rightarrow> byte list) \<Rightarrow> bool" where
  "table_stands t M \<longleftrightarrow>
     line_table_ok t \<and> lines_stand True t M \<and> 10 * length (entries t) \<le> total_physical_chunks t"

definition save_line :: "nat \<Rightarrow> byte list \<Rightarrow> MemoryLineTable \<Rightarrow> (bool \<times> MemoryLineTable) option" where
  "save_line i src t = do { l \<leftarrow> BDI_Compress True (Some src); StoreLine i l t }"

interpretation lt: line_memory "\<lambda>t. length (entries t)" table_stands "\<lambda>i buf. LoadLine True i (Some buf)" save_line
proof unfold_locales
  fix t M i buf
  assume "table_stands t M" "i < length (entries t)" "length (buf :: byte list) = 64"
  then show "LoadLine True i (Some buf) t = Some (True, M i)"
    by (intro LoadLine_stands) (simp_all add: table_stands_def lines_stand_def)
next
  fix t M i and src :: "byte list"
  assume t: "table_stands t M" and i: "i < length (entries t)" and src: "length src = 64"
  from BDI_Compress_returns [OF src, of True] obtain l where l: "BDI_Compress True (Some src) = Some l"
    by blast
  from t i have "line_table_ok t" "lines_stand True t M" "\<not> total_physical_chunks t < 10 * length (entries t)"
    by (simp_all add: table_stands_def)
  with StoreLine_law [of t i True M l src] Compress_expands [OF l src] i
  obtain t' where "StoreLine i l t = Some (True, t')" "length (entries t') = length (entries t)"
    "total_physical_chunks t' = total_physical_chunks t" "line_table_ok t'" "lines_stand True t' (M(i := src))"
    by (metis (full_types))
  with t l show "\<exists>t'. save_line i src t = Some (True, t') \<and> length (entries t') = length (entries t) \<and>
      table_stands t' (M(i := src))"
    by (simp add: save_line_def table_stands_def)
qed

section \<open>The new table\<close>

lemma new_MemoryLineTable_fields:
  fixes vcap pcap :: nat
  assumes "vcap + 63 < 2 ^ 64"
  defines "t \<equiv> new_MemoryLineTable vcap pcap"
  shows "entries t = replicate ((vcap + 63) div 64) new_LineTableEntry" "total_logical_lines t = (vcap + 63) div 64"
    "total_physical_chunks t = pcap div SLOT_CHUNK_SIZE" "physical_dram t = replicate pcap 0" "free_list t k = []"
    "next_unpartitioned_chunk t = 0"
  using assms(1) by (simp_all add: t_def new_MemoryLineTable_def LT_Reset_def free_list_def Let_def)

lemma new_MemoryLineTable_stands:
  assumes "vcap + 63 < 2 ^ 64" and "pcap div SLOT_CHUNK_SIZE \<le> 2 ^ 24"
  shows "line_table_ok (new_MemoryLineTable vcap pcap)"
    and "lines_stand wrap (new_MemoryLineTable vcap pcap) (\<lambda>_. replicate 64 0)"
proof -
  let ?t = "new_MemoryLineTable vcap pcap"
  note flds = new_MemoryLineTable_fields [OF assms(1), of pcap]
  have holds: "line_holds ?t i = 0" if "i < length (entries ?t)" for i
    using that by (simp add: line_holds_def flds new_LineTableEntry_def)
  have held: "held {} ?t h = None" for h
    by (cases h) (auto simp: holds flds(5))
  have "chunks_ok {} ?t"
    by (rule chunks_okI) (simp_all add: held)
  moreover have "table_ok ?t"
    using assms(2) by (simp add: table_ok_def flds)
  moreover have "stretches {} 0 ?t k = 0" if "0 < k" for k
    using that holds by (auto simp: stretches_def flds(5))
  then have "counted {} 0 ?t"
    by (simp add: counted_def flds(6))
  ultimately show "line_table_ok ?t"
    by (simp add: line_table_ok_def)
  show "lines_stand wrap ?t (\<lambda>_. replicate 64 0)"
    by (simp add: lines_stand_def line_stands_def flds new_LineTableEntry_def)
qed

section \<open>The counters\<close>

text \<open>What the counters should say: the chunks that the lines hold, and 64 bytes for each valid line.\<close>

definition accounted :: "MemoryLineTable \<Rightarrow> bool" where
  "accounted t \<longleftrightarrow>
     allocated_chunks_count t = (\<Sum>i<length (entries t). word_of_nat (line_holds t i)) \<and>
     total_uncompressed_bytes_stored t = (\<Sum>i<length (entries t). if e_valid (entries t ! i) = 0 then 0 else 64)"

lemma needed_chunks_cases: "needed_chunks l \<in> {0, 1, 2, 3, 4}"
  by (auto simp: needed_chunks_def GetQuantizedSlotSize_def)

lemma AllocateChunks_counts:
  assumes "AllocateChunks n t = (off, t')" and "off \<noteq> UINT32_MAX \<or> n = 0"
  shows "same_lines t t'" "total_uncompressed_bytes_stored t' = total_uncompressed_bytes_stored t"
    "allocated_chunks_count t' = allocated_chunks_count t + ucast n"
  using assms by (auto simp: AllocateChunks_def same_lines_def split: if_splits)

lemma FreeChunks_counts:
  assumes "off \<noteq> UINT32_MAX"
  shows "same_lines t (FreeChunks off n t)" "total_uncompressed_bytes_stored (FreeChunks off n t) = total_uncompressed_bytes_stored t"
    "allocated_chunks_count (FreeChunks off n t) = allocated_chunks_count t - ucast n"
  using assms by (auto simp: FreeChunks_def same_lines_def Let_def)

lemma place_line_counts:
  assumes "place_line i n t = (Some off, t')"
  shows "same_lines t t' \<and>
    allocated_chunks_count t' = allocated_chunks_count t + ucast n - word_of_nat (line_holds t i) \<and>
    total_uncompressed_bytes_stored t' =
      total_uncompressed_bytes_stored t + 64 - (if e_valid (entries t ! i) = 0 then 0 else 64)"
proof -
  let ?e = "entries t ! i"
  have "unat (phys_chunk_offset ?e) < 2 ^ 24"
    using unsigned_less [of "phys_chunk_offset ?e", where ?'a = nat] by simp
  then have "unat (ucast (phys_chunk_offset ?e) :: 32 word) < 2 ^ 24"
    by (simp add: unsigned_ucast_eq take_bit_nat_eq_self)
  then have small: "ucast (phys_chunk_offset ?e) \<noteq> UINT32_MAX"
    by (auto simp: UINT32_MAX_def)
  have wide: "ucast (ucast (allocated_chunks ?e) :: 8 word) = (ucast (allocated_chunks ?e) :: 64 word)"
    by (rule bit_word_eqI) (auto simp: bit_simps dest: bit_imp_le_length)
  show ?thesis
  proof (cases "e_valid ?e = 0")
    case True
    then obtain t1 where "AllocateChunks n t = (off, t1)" "off \<noteq> UINT32_MAX \<or> n = 0"
      "t' = t1\<lparr>total_uncompressed_bytes_stored := total_uncompressed_bytes_stored t1 + 64\<rparr>"
      using assms by (auto simp: place_line_def Let_def word_gt_0 split: prod.splits if_splits)
    with True AllocateChunks_counts [OF this(1,2)] show ?thesis
      by (simp add: same_lines_def line_holds_def)
  next
    case False
    let ?a = "ucast (allocated_chunks ?e) :: 8 word"
    show ?thesis
    proof (cases "?a = n")
      case True
      then have "t' = t"
        using assms False by (auto simp: place_line_def Let_def)
      moreover have "ucast n = (ucast (allocated_chunks ?e) :: 64 word)"
        using wide True by simp
      ultimately show ?thesis
        using False by (simp add: same_lines_def line_holds_def)
    next
      case differs: False
      let ?t = "FreeChunks (ucast (phys_chunk_offset ?e)) ?a t"
      note freed = FreeChunks_counts [OF small, where t = t and n = ?a]
      have "AllocateChunks n ?t = (off, t')" "off \<noteq> UINT32_MAX \<or> n = 0"
        using assms False differs by (auto simp: place_line_def Let_def word_gt_0 split: prod.splits if_splits)
      from AllocateChunks_counts [OF this] freed False show ?thesis
        by (simp add: same_lines_def line_holds_def wide)
    qed
  qed
qed

lemma sum_update:
  fixes f g :: "nat \<Rightarrow> 'a::ab_group_add"
  assumes "i < n" and "\<And>j. j \<noteq> i \<Longrightarrow> g j = f j"
  shows "(\<Sum>j<n. g j) = (\<Sum>j<n. f j) - f i + g i"
proof -
  have "(\<Sum>j<n. h j) = h i + (\<Sum>j\<in>{..<n} - {i}. h j)" for h :: "nat \<Rightarrow> 'a"
    using assms(1) by (simp add: sum.remove)
  moreover have "(\<Sum>j\<in>{..<n} - {i}. g j) = (\<Sum>j\<in>{..<n} - {i}. f j)"
    by (rule sum.cong) (use assms(2) in auto)
  ultimately show ?thesis
    by (metis (no_types, opaque_lifting) add.commute add_diff_cancel_left')
qed

lemma new_MemoryLineTable_accounted:
  assumes "vcap + 63 < 2 ^ 64"
  shows "accounted (new_MemoryLineTable vcap pcap)"
  by (simp add: accounted_def new_MemoryLineTable_fields [OF assms] line_holds_def new_LineTableEntry_def)
    (simp add: new_MemoryLineTable_def LT_Reset_def Let_def)

lemma StoreLine_accounted:
  assumes run: "StoreLine i l t = Some (True, t')" and acc: "accounted t"
  shows "accounted t'"
proof -
  have i: "i < length (entries t)"
    using run by (auto simp: StoreLine_def split: if_splits)
  let ?n = "needed_chunks l"
  obtain off t1 dram where pl: "place_line i ?n t = (Some off, t1)" and e: "entries t' =
      (entries t1)[i := (entries t1 ! i)\<lparr>phys_chunk_offset := (if ?n > 0 then ucast off else 0),
        allocated_chunks := ucast ?n, pattern_tag := ucast (pattern_value (l_pattern l)), e_valid := 1\<rparr>]"
    and cnt: "allocated_chunks_count t' = allocated_chunks_count t1"
      "total_uncompressed_bytes_stored t' = total_uncompressed_bytes_stored t1"
    using run by (auto simp: StoreLine_def Let_def Option.bind_eq_Some_conv split: if_splits prod.splits option.splits)
  note law = place_line_counts [OF pl]
  have len: "length (entries t') = length (entries t)" and other: "j \<noteq> i \<Longrightarrow> entries t' ! j = entries t ! j"
    and entry: "e_valid (entries t' ! i) = 1" "allocated_chunks (entries t' ! i) = ucast ?n" for j
    using law e i by (simp_all add: same_lines_def)
  have "unat ?n < 8"
    using needed_chunks_cases [of l] by auto
  then have holds: "line_holds t' i = unat ?n"
    by (simp add: line_holds_def entry unsigned_ucast_eq take_bit_nat_eq_self)
  have same: "line_holds t' j = line_holds t j" if "j \<noteq> i" for j
    using other [OF that] by (simp add: line_holds_def)
  have "(\<Sum>j<length (entries t). word_of_nat (line_holds t' j) :: 64 word) =
      (\<Sum>j<length (entries t). word_of_nat (line_holds t j)) - word_of_nat (line_holds t i) + ucast ?n"
    using sum_update [OF i, of "\<lambda>j. word_of_nat (line_holds t' j)" "\<lambda>j. word_of_nat (line_holds t j)"] same
    by (simp add: holds)
  moreover have "(\<Sum>j<length (entries t). if e_valid (entries t' ! j) = 0 then 0 else 64 :: 64 word) =
      (\<Sum>j<length (entries t). if e_valid (entries t ! j) = 0 then 0 else 64) - (if e_valid (entries t ! i) = 0 then 0 else 64) + 64"
    using sum_update [OF i, of "\<lambda>j. if e_valid (entries t' ! j) = 0 then 0 else 64" "\<lambda>j. if e_valid (entries t ! j) = 0 then 0 else 64"] other
    by (simp add: entry)
  ultimately show ?thesis
    using acc law cnt unfolding accounted_def len by simp
qed

text \<open>The tables after stores that have all succeeded.\<close>

inductive line_stores :: "nat \<Rightarrow> nat \<Rightarrow> MemoryLineTable \<Rightarrow> bool" for vcap pcap where
  start: "line_stores vcap pcap (new_MemoryLineTable vcap pcap)"
| stored: "line_stores vcap pcap t \<Longrightarrow> StoreLine i l t = Some (True, t') \<Longrightarrow> line_stores vcap pcap t'"
| was_reset: "line_stores vcap pcap t \<Longrightarrow> line_stores vcap pcap (LT_Reset t)"

lemma line_stores_accounted:
  assumes "line_stores vcap pcap t" and "vcap + 63 < 2 ^ 64"
  shows "accounted t"
  using assms(1)
proof induction
  case start
  show ?case
    by (rule new_MemoryLineTable_accounted [OF assms(2)])
next
  case (stored t i l t')
  then show ?case
    using StoreLine_accounted by blast
next
  case (was_reset t)
  then show ?case
    by (simp add: accounted_def LT_Reset_def line_holds_def new_LineTableEntry_def)
qed

section \<open>Example lines\<close>

text \<open>Lines of one and of four chunks.\<close>

lemma equal_bytes_line:
  assumes "b \<noteq> 0"
  shows "\<exists>l. expands wrap l (replicate 64 b) \<and> l_pattern l = REP_WORD \<and> needed_chunks l = 1"
proof -
  have "words_of 8 (replicate 64 b) = (replicate 8 (le_word (replicate 8 b)) :: 64 word list)"
    by (rule nth_equalityI) (auto simp: words_of_def min_def)
  then have "\<exists>l. try_rep_word (words_of 8 (replicate 64 b)) = Some (Some l) \<and> l_pattern l = REP_WORD \<and> l_size l = 9"
    by (auto simp: try_rep_word_def new_CompressedLine_def list_all_iff)
  then obtain l where l: "try_rep_word (words_of 8 (replicate 64 b)) = Some (Some l)" "l_pattern l = REP_WORD" "l_size l = 9"
    by blast
  have "replicate 64 b \<noteq> replicate 64 0"
    using assms by (metis replicate_eq_replicate zero_neq_numeral)
  from rep_word_expands [OF l(1) _ this] have "expands wrap l (replicate 64 b)"
    by simp
  moreover have "needed_chunks l = 1"
    using l(2,3) by (simp add: needed_chunks_def GetQuantizedSlotSize_def)
  ultimately show ?thesis
    using l(2) by blast
qed

lemma raw_line:
  assumes "length src = 64" and "src \<noteq> replicate 64 0"
  shows "\<exists>l. expands wrap l src \<and> needed_chunks l = 4"
proof -
  from assms have "\<exists>l. store_raw src = Some l \<and> l_pattern l = UNCOMPRESSED \<and> l_size l = 64"
    by (simp add: store_raw_def new_CompressedLine_def)
  with raw_expands assms show ?thesis
    by (fastforce simp: needed_chunks_def GetQuantizedSlotSize_def)
qed

text \<open>The load of a line whose first chunk is chunk 0.\<close>

lemma LoadLine_first_chunk:
  assumes l: "expands wrap l src" "needed_chunks l = 1" and t: "entries t = e # es" "total_logical_lines t = Suc n"
    and e: "e = new_LineTableEntry\<lparr>allocated_chunks := 1, pattern_tag := ucast (pattern_value (l_pattern l)), e_valid := 1\<rparr>"
    and dram: "take (unat (l_size l)) (physical_dram t) = take (unat (l_size l)) (l_data l)" "16 \<le> length (physical_dram t)"
    and dest: "length dest = 64"
  shows "LoadLine wrap 0 (Some dest) t = Some (True, src)"
proof -
  have size: "unat (l_size l) \<le> 16" and nz: "l_pattern l \<noteq> ZEROS"
    using needed_chunks_bound(2,3) [OF l(1)] l(2) by simp_all
  have pv: "unat (pattern_value (l_pattern l)) < 2 ^ 4" "pattern_of (pattern_value (l_pattern l)) = l_pattern l"
    using l(1) by (simp_all add: expands_def)
  have tag: "unat (pattern_tag e) = unat (pattern_value (l_pattern l))"
    using pv(1) by (simp add: e unsigned_ucast_eq take_bit_nat_eq_self)
  from tag_of_pattern [OF this pv(2)] have pat: "pattern_of (ucast (pattern_tag e)) = l_pattern l" .
  have "pattern_tag e \<noteq> 0"
    using pat nz by (auto simp: pattern_of_def)
  moreover have "DecompressRaw wrap (Some (physical_dram t)) 16 (Some dest) (Some (l_pattern l)) = Some (True, src)"
    using l(1) dram dest size unfolding expands_def by (meson le_trans)
  ultimately show ?thesis
    using pat t by (simp add: LoadLine_def new_LineTableEntry_def e)
qed

section \<open>Properties\<close>

text \<open>C13: A line that is stored is loaded back and no other line changes: the table is a map from lines to
  their 64 bytes, whatever the order of stores and the patterns the lines compress to, as long as the
  physical memory has ten chunks for each line, and at most \<open>2 ^ 24\<close> of them, which is what the 24 bits of
  an entry can number (a part of \<open>line_table_ok\<close>; beyond it lines are mixed up). The table stays well
  formed, so this holds for every sequence of stores.\<close>

theorem StoreLine_LoadLine:
  assumes "line_table_ok t" and "lines_stand wrap t M" and "10 * length (entries t) \<le> total_physical_chunks t"
    and "i < length (entries t)" and "j < length (entries t)" and "length src = 64" and "length dest = 64"
    and "BDI_Compress wrap (Some src) = Some l"
  shows "\<exists>t'. StoreLine i l t = Some (True, t') \<and> line_table_ok t' \<and> lines_stand wrap t' (M(i := src)) \<and>
    LoadLine wrap j (Some dest) t' = Some (True, if j = i then src else M j)"
proof -
  from StoreLine_law [OF assms(1,4,2) Compress_expands [OF assms(8,6)]] assms(3)
  obtain t' where t': "StoreLine i l t = Some (True, t')" "length (entries t') = length (entries t)"
    "line_table_ok t'" "lines_stand wrap t' (M(i := src))"
    by (metis (full_types) not_le)
  then have "line_stands wrap t' j ((M(i := src)) j)"
    using assms(5) by (simp add: lines_stand_def)
  from LoadLine_stands [OF t'(3) _ this assms(7)] t' assms(5) show ?thesis
    by simp
qed

theorem StoreLine_LoadLine_witness:
  "\<exists>l t'. BDI_Compress True (Some (replicate 64 7)) = Some l \<and>
     StoreLine 1 l (new_MemoryLineTable 128 320) = Some (True, t') \<and>
     LoadLine True 1 (Some (replicate 64 0)) t' = Some (True, replicate 64 7)"
proof -
  have flds: "length (entries (new_MemoryLineTable 128 320)) = 2" "total_physical_chunks (new_MemoryLineTable 128 320) = 20"
    by (simp_all add: new_MemoryLineTable_fields)
  from BDI_Compress_returns [of "replicate 64 7" True] obtain l where l: "BDI_Compress True (Some (replicate 64 7)) = Some l"
    by auto
  have "line_table_ok (new_MemoryLineTable 128 320)" "lines_stand True (new_MemoryLineTable 128 320) (\<lambda>_. replicate 64 0)"
    by (rule new_MemoryLineTable_stands; simp)+
  from StoreLine_LoadLine [OF this _ _ _ _ _ l, of 1 1 "replicate 64 0"] flds l show ?thesis
    by auto
qed

text \<open>C32: As long as every store succeeds, the counters of the table are right: the physical bytes in use are those of
  the chunks of the valid lines, and the bytes stored are 64 for each of them. The lines may be anything, in any order, with
  resets in between. A store that is refused breaks this if its line was stored before: its chunks are freed and
  counted off, but the entry keeps them.\<close>

theorem StoreLine_accounts:
  assumes "line_stores vcap pcap t" and "vcap + 63 < 2 ^ 64"
  shows "GetAllocatedPhysicalBytes t = 16 * (\<Sum>i<length (entries t). word_of_nat (line_holds t i)) \<and>
    total_uncompressed_bytes_stored t = (\<Sum>i<length (entries t). if e_valid (entries t ! i) = 0 then 0 else 64)"
  using line_stores_accounted [OF assms] by (simp add: accounted_def GetAllocatedPhysicalBytes_def)

theorem StoreLine_accounts_witness:
  "\<exists>l t. expands True l (replicate 64 7) \<and> StoreLine 1 l (new_MemoryLineTable 128 320) = Some (True, t) \<and>
     GetAllocatedPhysicalBytes t = 16 * (\<Sum>i<length (entries t). word_of_nat (line_holds t i)) \<and>
     total_uncompressed_bytes_stored t = (\<Sum>i<length (entries t). if e_valid (entries t ! i) = 0 then 0 else 64)"
proof -
  let ?t = "new_MemoryLineTable 128 320"
  from equal_bytes_line [of 7 True] obtain l where l: "expands True l (replicate 64 7)"
    by auto
  have "line_table_ok ?t" "lines_stand True ?t (\<lambda>_. replicate 64 0)"
    by (rule new_MemoryLineTable_stands; simp)+
  moreover have "length (entries ?t) = 2" "total_physical_chunks ?t = 20"
    by (simp_all add: new_MemoryLineTable_fields)
  ultimately obtain t where t: "StoreLine 1 l ?t = Some (True, t)"
    using StoreLine_law [of ?t 1 True _ l "replicate 64 7"] l by fastforce
  have "line_stores 128 320 t"
    by (rule line_stores.stored [OF line_stores.start t])
  from StoreLine_accounts [OF this] t l show ?thesis
    by (intro exI [of _ l] exI [of _ t]) simp
qed

text \<open>C36: The chunk number of an entry has 24 bits. A line whose chunks begin at chunk \<open>2 ^ 24\<close>, 256 MB into
  the physical memory, is written there but its entry says chunk 0, which belongs to another line:
  the comment in the header speaks of 256 GB, and the default configuration has 8 GB.\<close>

theorem StoreLine_offset_wraps:
  assumes "i < length (entries t)" and "total_logical_lines t = length (entries t)" and "e_valid (entries t ! i) = 0"
    and "free_chunks_64b t = []" and "next_unpartitioned_chunk t = 2 ^ 24" and "2 ^ 24 + 4 \<le> total_physical_chunks t"
    and "2 ^ 28 + 64 \<le> length (physical_dram t)" and "length (l_data l) = 65" and "needed_chunks l = 4" and "unat (l_size l) \<le> 64"
  shows "\<exists>t'. StoreLine i l t = Some (True, t') \<and> phys_chunk_offset (entries t' ! i) = 0 \<and>
    take (unat (l_size l)) (drop (2 ^ 28) (physical_dram t')) = take (unat (l_size l)) (l_data l) \<and>
    take (2 ^ 28) (physical_dram t') = take (2 ^ 28) (physical_dram t)"
proof -
  have "place_line i 4 t = (Some 0x1000000, t\<lparr>next_unpartitioned_chunk := 0x1000004,
      allocated_chunks_count := allocated_chunks_count t + 4,
      total_uncompressed_bytes_stored := total_uncompressed_bytes_stored t + 64\<rparr>)"
    using assms(3-6) by (simp add: place_line_def AllocateChunks_def UINT32_MAX_def)
  then show ?thesis
    using assms(1,2,7-10) by (simp add: StoreLine_def Let_def min_def)
qed

theorem StoreLine_offset_wraps_witness:
  "\<exists>t'. StoreLine 0 \<lparr>l_pattern = UNCOMPRESSED, l_size = 64, l_data = replicate 65 7\<rparr>
       ((new_MemoryLineTable 64 0x10000040)\<lparr>next_unpartitioned_chunk := 0x1000000\<rparr>) = Some (True, t') \<and>
     phys_chunk_offset (entries t' ! 0) = 0"
proof -
  let ?t = "(new_MemoryLineTable 64 0x10000040)\<lparr>next_unpartitioned_chunk := 0x1000000\<rparr>"
    and ?l = "\<lparr>l_pattern = UNCOMPRESSED, l_size = 64, l_data = replicate 65 7\<rparr>"
  have "(64::nat) + 63 < 2 ^ 64"
    by simp
  note flds = new_MemoryLineTable_fields [OF this, where pcap = "0x10000040"]
  have "entries ?t \<noteq> []" "length (entries ?t) = 1" "total_logical_lines ?t = 1" "e_valid (entries ?t ! 0) = 0" "free_chunks_64b ?t = []"
    "total_physical_chunks ?t = 2 ^ 24 + 4" "length (physical_dram ?t) = 2 ^ 28 + 64"
    using flds(5) [of 4] by (simp_all add: flds(1-4) new_LineTableEntry_def free_list_def)
  with StoreLine_offset_wraps [of 0 ?t ?l] show ?thesis
    by (auto simp: needed_chunks_def GetQuantizedSlotSize_def)
qed

text \<open>C35: A line may not fit into physical memory of its own size: in 64 bytes for one line, a line that
  compresses to one chunk takes it, and the line of four chunks that replaces it is refused, because the
  chunk that was freed is only used for lines of one chunk.\<close>

theorem StoreLine_fragments:
  assumes "expands wrap l src" and "needed_chunks l = 1" and "expands wrap l' src'" and "needed_chunks l' = 4"
  shows "\<exists>t t'. StoreLine 0 l (new_MemoryLineTable 64 64) = Some (True, t) \<and> StoreLine 0 l' t = Some (False, t')"
proof -
  have nt: "new_MemoryLineTable 64 64 = \<lparr>virtual_capacity = 64, physical_capacity = 64, total_logical_lines = 1,
      total_physical_chunks = 4, entries = [new_LineTableEntry], physical_dram = replicate 64 0,
      free_chunks_16b = [], free_chunks_32b = [], free_chunks_48b = [], free_chunks_64b = [],
      next_unpartitioned_chunk = 0, allocated_chunks_count = 0, total_uncompressed_bytes_stored = 0\<rparr>"
    by (simp add: new_MemoryLineTable_def LT_Reset_def Let_def)
  have "length (l_data l) = 65" "unat (l_size l) \<le> 16"
    using assms(1,2) needed_chunks_bound(3) [OF assms(1)] needed_chunks_bound(2) [OF assms(1)] by (simp_all add: expands_def)
  then show ?thesis
    using assms(2,4) unfolding nt
    by (simp add: StoreLine_def place_line_def AllocateChunks_def FreeChunks_def UINT32_MAX_def new_LineTableEntry_def)
qed

theorem StoreLine_fragments_witness:
  "\<exists>l l' t t'. expands True l (replicate 64 7) \<and> StoreLine 0 l (new_MemoryLineTable 64 64) = Some (True, t) \<and>
     StoreLine 0 l' t = Some (False, t')"
proof -
  from equal_bytes_line [of 7 True] obtain l where l: "expands True l (replicate 64 7)" "needed_chunks l = 1"
    by auto
  from raw_line [of "replicate 64 1" True] obtain l' where "expands True l' (replicate 64 1)" "needed_chunks l' = 4"
    by fastforce
  from StoreLine_fragments [OF l this] l(1) show ?thesis
    by blast
qed

text \<open>C34: A refused store may lose a line: the line keeps its chunk in the table although \<open>StoreLine\<close> has
  given it back, so the next line that needs one chunk gets the same, and the old line reads as the new
  one.\<close>

theorem StoreLine_failure_shares_chunk:
  assumes a: "expands wrap l src" "needed_chunks l = 1" and b: "expands wrap lx srcx" "needed_chunks lx = 4"
    and c: "expands wrap l' src'" "needed_chunks l' = 1" and pat: "l_pattern l' = l_pattern l" and dest: "length dest = 64"
  shows "\<exists>t1 t2 t3 t4. StoreLine 0 l (new_MemoryLineTable 192 80) = Some (True, t1) \<and> StoreLine 1 lx t1 = Some (True, t2) \<and>
    StoreLine 0 lx t2 = Some (False, t3) \<and> LoadLine wrap 0 (Some dest) t3 = Some (True, src) \<and>
    StoreLine 2 l' t3 = Some (True, t4) \<and> LoadLine wrap 0 (Some dest) t4 = Some (True, src')"
proof -
  have sz: "length (l_data l) = 65" "unat (l_size l) \<le> 16" "length (l_data l') = 65" "unat (l_size l') \<le> 16"
    "length (l_data lx) = 65" "unat (l_size lx) \<le> 64"
    using a b c needed_chunks_bound(3,2) [OF a(1)] needed_chunks_bound(3,2) [OF c(1)] by (simp_all add: expands_def)
  define d1 d2 d4 where
    "d1 = take 0 (replicate 80 0) @ take (unat (l_size l)) (l_data l) @ drop (0 + unat (l_size l)) (replicate 80 0)"
    and "d2 = take 16 d1 @ take (unat (l_size lx)) (l_data lx) @ drop (16 + unat (l_size lx)) d1"
    and "d4 = take 0 d2 @ take (unat (l_size l')) (l_data l') @ drop (0 + unat (l_size l')) d2"
  define e1 ex e4 where
    "e1 = new_LineTableEntry\<lparr>allocated_chunks := 1, pattern_tag := ucast (pattern_value (l_pattern l)), e_valid := 1\<rparr>"
    and "ex = new_LineTableEntry\<lparr>phys_chunk_offset := 1, allocated_chunks := 4,
      pattern_tag := ucast (pattern_value (l_pattern lx)), e_valid := 1\<rparr>"
    and "e4 = new_LineTableEntry\<lparr>allocated_chunks := 1, pattern_tag := ucast (pattern_value (l_pattern l')), e_valid := 1\<rparr>"
  let ?e = new_LineTableEntry
  let ?T = "\<lambda>es dram free nxt n u. \<lparr>virtual_capacity = 192, physical_capacity = 80, total_logical_lines = 3,
      total_physical_chunks = 5, entries = es, physical_dram = dram,
      free_chunks_16b = free, free_chunks_32b = [], free_chunks_48b = [], free_chunks_64b = [],
      next_unpartitioned_chunk = nxt, allocated_chunks_count = n, total_uncompressed_bytes_stored = u\<rparr>"
  let ?t0 = "?T [?e, ?e, ?e] (replicate 80 0) [] 0 0 0" and ?t1 = "?T [e1, ?e, ?e] d1 [] 1 1 64"
    and ?t2 = "?T [e1, ex, ?e] d2 [] 5 5 128" and ?t3 = "?T [e1, ex, ?e] d2 [0] 5 4 128"
    and ?t4 = "?T [e1, ex, e4] d4 [] 5 5 192"
  note run = StoreLine_def place_line_def AllocateChunks_def FreeChunks_def UINT32_MAX_def Let_def
  have d: "length d1 = 80" "length d2 = 80" "length d4 = 80"
    using sz by (simp_all add: d1_def d2_def d4_def)
  have "replicate 3 ?e = [?e, ?e, ?e]"
    by (simp only: numeral_3_eq_3 replicate_Suc replicate_0)
  then have "new_MemoryLineTable 192 80 = ?t0"
    by (simp add: new_MemoryLineTable_def LT_Reset_def Let_def)
  moreover have "StoreLine 0 l ?t0 = Some (True, ?t1)"
    using a(2) sz by (simp add: run new_LineTableEntry_def e1_def d1_def)
  moreover have "StoreLine 1 lx ?t1 = Some (True, ?t2)"
    using b(2) sz d by (simp add: run new_LineTableEntry_def ex_def d2_def)
  moreover have "StoreLine 0 lx ?t2 = Some (False, ?t3)"
    using b(2) by (simp add: run new_LineTableEntry_def e1_def)
  moreover have "StoreLine 2 l' ?t3 = Some (True, ?t4)"
    using c(2) sz d by (simp add: run new_LineTableEntry_def e4_def d4_def)
  moreover have "LoadLine wrap 0 (Some dest) ?t3 = Some (True, src)"
    by (rule LoadLine_first_chunk [OF a _ _ e1_def _ _ dest]) (use sz d in \<open>simp_all add: d2_def d1_def min_def\<close>)
  moreover have "LoadLine wrap 0 (Some dest) ?t4 = Some (True, src')"
    by (rule LoadLine_first_chunk [OF c _ _ _ _ _ dest]) (use sz d in \<open>simp_all add: d4_def e1_def pat min_def\<close>)
  ultimately show ?thesis
    by auto
qed

theorem StoreLine_failure_shares_chunk_witness:
  "\<exists>l lx l' t1 t2 t3 t4. StoreLine 0 l (new_MemoryLineTable 192 80) = Some (True, t1) \<and> StoreLine 1 lx t1 = Some (True, t2) \<and>
    StoreLine 0 lx t2 = Some (False, t3) \<and> LoadLine True 0 (Some (replicate 64 0)) t3 = Some (True, replicate 64 7) \<and>
    StoreLine 2 l' t3 = Some (True, t4) \<and> LoadLine True 0 (Some (replicate 64 0)) t4 = Some (True, replicate 64 9)"
proof -
  from equal_bytes_line [of 7 True] obtain l where l: "expands True l (replicate 64 7)" "needed_chunks l = 1" "l_pattern l = REP_WORD"
    by auto
  from equal_bytes_line [of 9 True] obtain l' where l': "expands True l' (replicate 64 9)" "needed_chunks l' = 1" "l_pattern l' = REP_WORD"
    by auto
  from raw_line [of "replicate 64 1" True] obtain lx where "expands True lx (replicate 64 1)" "needed_chunks lx = 4"
    by fastforce
  from StoreLine_failure_shares_chunk [OF l(1,2) this l'(1,2), of "replicate 64 0"] l(3) l'(3) show ?thesis
    by (simp only: length_replicate simp_thms) blast
qed

end
