(* ===== verification/Hyper_Ram.thy ===== *)
theory Hyper_Ram
  imports Line_Props
begin

text \<open>
  The memory controller of the legacy library (legacy/src/hyper_ram_controller.cpp,
  legacy/include/hyper_ram_controller.hpp, legacy/include/telemetry.hpp): reads and writes of byte
  ranges over the line table. Addresses and sizes are natural numbers: a range is only used after the
  check that it ends inside the virtual capacity, so \<open>byte_address + size\<close> does not wrap. The
  counters are 64-bit words. A \<open>double\<close> is a real number, rounding is not modelled.
\<close>

section \<open>Data\<close>

record ControllerConfig =
  virtual_capacity_bytes :: nat
  physical_dram_bytes :: nat
  dram_base_latency_ns :: real
  decompression_latency_ns :: real
  compression_latency_ns :: real
  enable_latency_injection :: bool

text \<open>The values the structure is initialised with.\<close>

definition default_ControllerConfig :: ControllerConfig where
  "default_ControllerConfig =
     \<lparr>virtual_capacity_bytes = 16 * 1024 * 1024 * 1024, physical_dram_bytes = 8 * 1024 * 1024 * 1024,
      dram_base_latency_ns = 45, decompression_latency_ns = 5, compression_latency_ns = 8,
      enable_latency_injection = False\<rparr>"

record MemoryTelemetry =
  total_reads :: "64 word"
  total_writes :: "64 word"
  total_bytes_read :: "64 word"
  total_bytes_written :: "64 word"
  physical_bytes_stored :: "64 word"
  virtual_bytes_mapped :: "64 word"
  compression_ratio :: real
  memory_savings_pct :: real
  avg_read_latency_ns :: real
  avg_write_latency_ns :: real
  pattern_distribution :: "64 word list"

record HyperRAMController =
  c_config :: ControllerConfig
  c_table :: MemoryLineTable
  c_reads :: "64 word"
  c_writes :: "64 word"
  c_bytes_read :: "64 word"
  c_bytes_written :: "64 word"
  c_read_latency :: "64 word"
  c_write_latency :: "64 word"
  c_patterns :: "64 word list"

definition HyperRAM_ResetTelemetry :: "HyperRAMController \<Rightarrow> HyperRAMController" where
  "HyperRAM_ResetTelemetry c =
     c\<lparr>c_reads := 0, c_writes := 0, c_bytes_read := 0, c_bytes_written := 0, c_read_latency := 0,
       c_write_latency := 0, c_patterns := replicate (length (c_patterns c)) 0\<rparr>"

definition new_HyperRAMController :: "ControllerConfig \<Rightarrow> HyperRAMController" where
  "new_HyperRAMController config =
     HyperRAM_ResetTelemetry
       \<lparr>c_config = config,
        c_table = new_MemoryLineTable (virtual_capacity_bytes config) (physical_dram_bytes config),
        c_reads = 0, c_writes = 0, c_bytes_read = 0, c_bytes_written = 0, c_read_latency = 0,
        c_write_latency = 0, c_patterns = replicate 16 0\<rparr>"

section \<open>Reads and writes\<close>

text \<open>The conversion of a \<open>double\<close> truncates; outside the range of the type it is undefined.\<close>

definition to_u64 :: "real \<Rightarrow> 64 word option" where
  "to_u64 x = (if -1 < x \<and> x < 2 ^ 64 then Some (word_of_nat (nat \<lfloor>x\<rfloor>)) else None)"

definition bad_range :: "HyperRAMController \<Rightarrow> nat \<Rightarrow> nat \<Rightarrow> bool" where
  "bad_range c byte_address size' \<longleftrightarrow>
     byte_address > virtual_capacity_bytes (c_config c) \<or>
     size' > virtual_capacity_bytes (c_config c) - byte_address"

text \<open>The loop of \<open>Read\<close> over the lines from \<open>start_addr\<close> to \<open>end_addr\<close>.\<close>

function read_loop ::
  "bool \<Rightarrow> nat \<Rightarrow> nat \<Rightarrow> nat \<Rightarrow> byte list \<Rightarrow> byte list \<Rightarrow> HyperRAMController \<Rightarrow>
   (bool \<times> byte list \<times> HyperRAMController) option" where
  "read_loop wrap start_addr end_addr dest_offset line_buf dest c =
     (if start_addr < end_addr then
        do { let line_idx = start_addr div CACHE_LINE_SIZE;
             let line_offset = start_addr mod CACHE_LINE_SIZE;
             let to_copy = min (end_addr - start_addr) (CACHE_LINE_SIZE - line_offset);
             (ok, line_buf) \<leftarrow> LoadLine wrap line_idx (Some line_buf) (c_table c);
             if \<not> ok then Some (False, dest, c)
             else do {
               dest \<leftarrow> array_copy dest dest_offset line_buf line_offset to_copy;
               lat \<leftarrow> to_u64 (dram_base_latency_ns (c_config c) + decompression_latency_ns (c_config c));
               read_loop wrap (start_addr + to_copy) end_addr (dest_offset + to_copy) line_buf dest
                 (c\<lparr>c_read_latency := c_read_latency c + lat\<rparr>) } }
      else Some (True, dest, c))"
  by pat_completeness auto
termination
  by (relation "measure (\<lambda>(wrap, start_addr, end_addr, rest). end_addr - start_addr)") auto

declare read_loop.simps [simp del]

text \<open>The value returned, the destination and the controller.\<close>

definition Read ::
  "bool \<Rightarrow> nat \<Rightarrow> byte list option \<Rightarrow> nat \<Rightarrow> HyperRAMController \<Rightarrow>
   (bool \<times> byte list \<times> HyperRAMController) option" where
  "Read wrap byte_address dest size' c =
     (case dest of
        None \<Rightarrow> Some (False, [], c)
      | Some dest_bytes \<Rightarrow>
          if size' = 0 then Some (False, dest_bytes, c)
          else if bad_range c byte_address size' then Some (False, dest_bytes, c)
          else do {
            (ok, dest_bytes, c) \<leftarrow>
              read_loop wrap byte_address (byte_address + size') 0 (replicate CACHE_LINE_SIZE 0) dest_bytes c;
            if \<not> ok then Some (False, dest_bytes, c)
            else Some (True, dest_bytes,
              c\<lparr>c_reads := c_reads c + 1, c_bytes_read := c_bytes_read c + word_of_nat size'\<rparr>) })"

text \<open>The line to be stored: the whole line from the source, or the old line changed in part.\<close>

definition fill_line ::
  "bool \<Rightarrow> nat \<Rightarrow> nat \<Rightarrow> nat \<Rightarrow> nat \<Rightarrow> byte list \<Rightarrow> byte list \<Rightarrow> MemoryLineTable \<Rightarrow> (bool \<times> byte list) option" where
  "fill_line wrap line_idx line_offset src_offset to_write line_buf src t =
     (if line_offset = 0 \<and> to_write = CACHE_LINE_SIZE then
        do { line_buf \<leftarrow> array_copy line_buf 0 src src_offset CACHE_LINE_SIZE; Some (True, line_buf) }
      else
        do { (ok, line_buf) \<leftarrow> LoadLine wrap line_idx (Some line_buf) t;
             if \<not> ok then Some (False, line_buf)
             else do {
               line_buf \<leftarrow> array_copy line_buf line_offset src src_offset to_write;
               Some (True, line_buf) } })"

definition count_pattern :: "BDIPattern \<Rightarrow> HyperRAMController \<Rightarrow> HyperRAMController option" where
  "count_pattern p c =
     (let pat_idx = unat (pattern_value p AND 0xF) in
      if pat_idx < length (c_patterns c)
      then Some (c\<lparr>c_patterns := (c_patterns c)[pat_idx := c_patterns c ! pat_idx + 1]\<rparr>) else None)"

function write_loop ::
  "bool \<Rightarrow> nat \<Rightarrow> nat \<Rightarrow> nat \<Rightarrow> byte list \<Rightarrow> byte list \<Rightarrow> HyperRAMController \<Rightarrow>
   (bool \<times> HyperRAMController) option" where
  "write_loop wrap start_addr end_addr src_offset line_buf src c =
     (if start_addr < end_addr then
        do { let line_idx = start_addr div CACHE_LINE_SIZE;
             let line_offset = start_addr mod CACHE_LINE_SIZE;
             let to_write = min (end_addr - start_addr) (CACHE_LINE_SIZE - line_offset);
             (ok, line_buf) \<leftarrow> fill_line wrap line_idx line_offset src_offset to_write line_buf src (c_table c);
             if \<not> ok then Some (False, c)
             else do {
               l \<leftarrow> BDI_Compress wrap (Some line_buf);
               c \<leftarrow> count_pattern (l_pattern l) c;
               (stored, t) \<leftarrow> StoreLine line_idx l (c_table c);
               let c = c\<lparr>c_table := t\<rparr>;
               if \<not> stored then Some (False, c)
               else do {
                 lat \<leftarrow> to_u64 (dram_base_latency_ns (c_config c) + compression_latency_ns (c_config c));
                 write_loop wrap (start_addr + to_write) end_addr (src_offset + to_write) line_buf src
                   (c\<lparr>c_write_latency := c_write_latency c + lat\<rparr>) } } }
      else Some (True, c))"
  by pat_completeness auto
termination
  by (relation "measure (\<lambda>(wrap, start_addr, end_addr, rest). end_addr - start_addr)") auto

declare write_loop.simps [simp del]

definition Write ::
  "bool \<Rightarrow> nat \<Rightarrow> byte list option \<Rightarrow> nat \<Rightarrow> HyperRAMController \<Rightarrow> (bool \<times> HyperRAMController) option" where
  "Write wrap byte_address src size' c =
     (case src of
        None \<Rightarrow> Some (False, c)
      | Some src_bytes \<Rightarrow>
          if size' = 0 then Some (False, c)
          else if bad_range c byte_address size' then Some (False, c)
          else do {
            (ok, c) \<leftarrow> write_loop wrap byte_address (byte_address + size') 0 (replicate CACHE_LINE_SIZE 0) src_bytes c;
            if \<not> ok then Some (False, c)
            else Some (True,
              c\<lparr>c_writes := c_writes c + 1, c_bytes_written := c_bytes_written c + word_of_nat size'\<rparr>) })"

definition HyperRAM_GetTelemetry :: "HyperRAMController \<Rightarrow> MemoryTelemetry" where
  "HyperRAM_GetTelemetry c =
     \<lparr>total_reads = c_reads c, total_writes = c_writes c, total_bytes_read = c_bytes_read c,
      total_bytes_written = c_bytes_written c,
      physical_bytes_stored = GetAllocatedPhysicalBytes (c_table c),
      virtual_bytes_mapped = word_of_nat (total_logical_lines (c_table c)) * 64,
      compression_ratio = GetCurrentCompressionRatio (c_table c),
      memory_savings_pct = GetMemorySavingPercentage (c_table c),
      avg_read_latency_ns =
        (if c_reads c > 0 then real (unat (c_read_latency c)) / real (unat (c_reads c)) else 0),
      avg_write_latency_ns =
        (if c_writes c > 0 then real (unat (c_write_latency c)) / real (unat (c_writes c)) else 0),
      pattern_distribution = map (\<lambda>i. c_patterns c ! i) [0..<16]\<rparr>"

end
