(* ===== verification/Hyper_Ram_Props.thy ===== *)
theory Hyper_Ram_Props
  imports Hyper_Ram
begin

text \<open>
  The memory controller is a memory of bytes: on a physical memory with 160 bytes for each line every
  request that lies inside the capacity succeeds, reads return what was written last, and other requests
  are refused. With less memory a write may fail, and a failed write may give another address the
  chunks of the line.
\<close>

section \<open>The memory of a controller\<close>

definition latency_ok :: "ControllerConfig \<Rightarrow> bool" where
  "latency_ok g \<longleftrightarrow>
     to_u64 (dram_base_latency_ns g + decompression_latency_ns g) \<noteq> None \<and>
     to_u64 (dram_base_latency_ns g + compression_latency_ns g) \<noteq> None"

definition ram_ok :: "HyperRAMController \<Rightarrow> (nat \<Rightarrow> byte) \<Rightarrow> bool" where
  "ram_ok c m \<longleftrightarrow> table_stands (c_table c) (line_of m) \<and> latency_ok (c_config c) \<and>
     virtual_capacity_bytes (c_config c) \<le> 64 * length (entries (c_table c)) \<and> length (c_patterns c) = 16"

definition same_ram :: "HyperRAMController \<Rightarrow> HyperRAMController \<Rightarrow> bool" where
  "same_ram c c' \<longleftrightarrow> c_config c' = c_config c \<and> c_table c' = c_table c \<and> c_patterns c' = c_patterns c"

lemma same_ram_ok: "same_ram c c' \<Longrightarrow> ram_ok c m \<Longrightarrow> ram_ok c' m"
  by (simp add: same_ram_def ram_ok_def)

lemma same_ram_trans: "same_ram c c' \<Longrightarrow> same_ram c' c'' \<Longrightarrow> same_ram c c''"
  by (simp add: same_ram_def)

text \<open>The part of the range in the first line of it.\<close>

lemma first_line:
  fixes s e cap lines :: nat
  assumes "s < e" and "e \<le> cap" and "cap \<le> 64 * lines"
  defines "n \<equiv> min (e - s) (64 - s mod 64)"
  shows "0 < n" "s + n \<le> e" "s div 64 < lines" "s mod 64 + n \<le> 64" "64 * (s div 64) + s mod 64 = s"
proof -
  have "s mod 64 < 64"
    by simp
  then show "0 < n" "s + n \<le> e" "s mod 64 + n \<le> 64"
    using assms(1) unfolding n_def by linarith+
  show "64 * (s div 64) + s mod 64 = s"
    by simp
  with assms(1-3) show "s div 64 < lines"
    by (simp add: less_mult_imp_div_less mult.commute)
qed

section \<open>Reading\<close>

lemma slices_join:
  fixes m :: "nat \<Rightarrow> byte"
  assumes "s + n \<le> e" and "d + n \<le> length dest"
  defines "dest' \<equiv> take d dest @ map m [s..<s + n] @ drop (d + n) dest"
  shows "take (d + n) dest' @ map m [s + n..<e] @ drop (d + n + (e - (s + n))) dest' =
    take d dest @ map m [s..<e] @ drop (d + (e - s)) dest"
proof -
  have len: "length (take d dest @ map m [s..<s + n]) = d + n"
    using assms(2) by simp
  have "take (d + n) dest' = take d dest @ map m [s..<s + n]"
    unfolding dest'_def append_assoc [symmetric] using len by (subst take_append) simp
  moreover have "drop (d + n + k) dest' = drop (d + n + k) dest" for k
    unfolding dest'_def append_assoc [symmetric] using len by (subst drop_append) (simp add: add.commute)
  moreover have "[s..<e] = [s..<s + n] @ [s + n..<e]"
    using assms(1) upt_add_eq_append [of s "s + n" "e - (s + n)"] by simp
  moreover have "d + (e - s) = d + n + (e - (s + n))"
    using assms(1) by linarith
  ultimately show ?thesis
    by (simp only: append_assoc map_append)
qed

lemma read_loop_reads:
  assumes "ram_ok c m" and "e \<le> virtual_capacity_bytes (c_config c)" and "s \<le> e" and "d + (e - s) \<le> length dest"
    and "length buf = 64"
  shows "\<exists>c'. read_loop True s e d buf dest c =
      Some (True, take d dest @ map m [s..<e] @ drop (d + (e - s)) dest, c') \<and> same_ram c c' \<and>
    c_reads c' = c_reads c \<and> c_bytes_read c' = c_bytes_read c"
  using assms
proof (induction "e - s" arbitrary: s d buf dest c rule: less_induct)
  case less
  show ?case
  proof (cases "s < e")
    case False
    with less.prems show ?thesis
      by (subst read_loop.simps) (simp add: same_ram_def)
  next
    case True
    define n where "n = min (e - s) (64 - s mod 64)"
    have cap: "virtual_capacity_bytes (c_config c) \<le> 64 * length (entries (c_table c))"
      and st: "table_stands (c_table c) (line_of m)" and lat: "latency_ok (c_config c)"
      using less.prems(1) by (simp_all add: ram_ok_def)
    note n = first_line [OF True less.prems(2) cap, folded n_def]
    from lt.load [OF st n(3) less.prems(5)]
    have load: "LoadLine True (s div 64) (Some buf) (c_table c) = Some (True, line_of m (s div 64))" .
    let ?dest = "take d dest @ take n (drop (s mod 64) (line_of m (s div 64))) @ drop (d + n) dest"
    have part: "take n (drop (s mod 64) (line_of m (s div 64))) = map m [s..<s + n]"
      using slice_line_of [OF n(4)] n(5) by simp
    have room: "d + n \<le> length dest"
      using n(2) less.prems(4) by linarith
    then have copy: "array_copy dest d (line_of m (s div 64)) (s mod 64) n = Some ?dest"
      using n(4) by simp
    from lat obtain w where w: "to_u64 (dram_base_latency_ns (c_config c) + decompression_latency_ns (c_config c)) = Some w"
      by (auto simp: latency_ok_def)
    let ?c = "c\<lparr>c_read_latency := c_read_latency c + w\<rparr>"
    have same: "same_ram c ?c"
      by (simp add: same_ram_def)
    have dec: "e - (s + n) < e - s"
      using n(1) True by linarith
    have "e \<le> virtual_capacity_bytes (c_config ?c)" "d + n + (e - (s + n)) \<le> length ?dest"
      using less.prems(2,4) n(2,4) room by simp_all
    from less.hyps [OF dec same_ram_ok [OF same less.prems(1)] this(1) n(2) this(2) length_line_of]
    obtain c' where c': "read_loop True (s + n) e (d + n) (line_of m (s div 64)) ?dest ?c =
        Some (True, take (d + n) ?dest @ map m [s + n..<e] @ drop (d + n + (e - (s + n))) ?dest, c')"
      "same_ram ?c c'" "c_reads c' = c_reads ?c" "c_bytes_read c' = c_bytes_read ?c"
      by blast
    have "read_loop True s e d buf dest c = read_loop True (s + n) e (d + n) (line_of m (s div 64)) ?dest ?c"
      using True by (subst read_loop.simps) (simp add: Let_def load copy w n_def [symmetric])
    with slices_join [OF n(2) room, of m] have "read_loop True s e d buf dest c =
        Some (True, take d dest @ map m [s..<e] @ drop (d + (e - s)) dest, c')"
      using c'(1) unfolding part by simp
    with c'(3,4) same_ram_trans [OF same c'(2)] show ?thesis
      by auto
  qed
qed

lemma Read_reads:
  assumes ok: "ram_ok c m" and n: "0 < n" and a: "a + n \<le> virtual_capacity_bytes (c_config c)" and d: "n \<le> length dest"
  shows "\<exists>c'. Read True a (Some dest) n c = Some (True, map m [a..<a + n] @ drop n dest, c') \<and> same_ram c c'"
proof -
  from read_loop_reads [OF ok a, of a 0 dest "replicate 64 0"] d
  obtain c' where "read_loop True a (a + n) 0 (replicate 64 0) dest c = Some (True, map m [a..<a + n] @ drop n dest, c')"
    "same_ram c c'"
    by auto
  with n a show ?thesis
    by (simp add: Read_def bad_range_def same_ram_def)
qed

section \<open>Writing\<close>

lemma fill_line_fills:
  assumes load: "LoadLine True i (Some buf) t = Some (True, line_of m i)" and buf: "length buf = 64"
    and off: "off + n \<le> 64" and src: "k + n \<le> length src"
  shows "fill_line True i off k n buf src t =
    Some (True, take off (line_of m i) @ take n (drop k src) @ drop (off + n) (line_of m i))"
proof (cases "off = 0 \<and> n = 64")
  case True
  with buf src show ?thesis
    by (simp add: fill_line_def)
next
  case False
  have "array_copy (line_of m i) off src k n = Some (take off (line_of m i) @ take n (drop k src) @ drop (off + n) (line_of m i))"
    by (rule array_copy_Some) (use off src in simp_all)
  with False load show ?thesis
    by (auto simp: fill_line_def)
qed

lemma count_pattern_counts:
  assumes "length (c_patterns c) = 16"
  shows "\<exists>ps. count_pattern p c = Some (c\<lparr>c_patterns := ps\<rparr>) \<and> length ps = 16"
proof -
  have "pattern_value p AND 0xF < 16"
    by (rule le_less_trans [OF word_and_le1]) simp
  then have "unat (pattern_value p AND 0xF) < 16"
    by (simp add: word_less_nat_alt)
  with assms show ?thesis
    by (auto simp: count_pattern_def Let_def)
qed

lemma write_loop_writes:
  assumes "ram_ok c m" and "e \<le> virtual_capacity_bytes (c_config c)" and "s \<le> e" and "k + (e - s) \<le> length src"
    and "length buf = 64"
  shows "\<exists>c'. write_loop True s e k buf src c = Some (True, c') \<and> ram_ok c' (patch m s (take (e - s) (drop k src))) \<and>
    c_config c' = c_config c"
  using assms
proof (induction "e - s" arbitrary: s k buf c m rule: less_induct)
  case less
  show ?case
  proof (cases "s < e")
    case False
    with less.prems show ?thesis
      by (subst write_loop.simps) simp
  next
    case True
    define n where "n = min (e - s) (64 - s mod 64)"
    let ?i = "s div 64" and ?off = "s mod 64" and ?bs = "take n (drop k src)"
    have cap: "virtual_capacity_bytes (c_config c) \<le> 64 * length (entries (c_table c))" and pats: "length (c_patterns c) = 16"
      and st: "table_stands (c_table c) (line_of m)" and lat: "latency_ok (c_config c)"
      using less.prems(1) by (simp_all add: ram_ok_def)
    note n = first_line [OF True less.prems(2) cap, folded n_def]
    let ?line = "take ?off (line_of m ?i) @ ?bs @ drop (?off + n) (line_of m ?i)"
    have room: "k + n \<le> length src"
      using n(2) less.prems(4) by linarith
    then have bs: "length ?bs = n"
      by simp
    have fill: "fill_line True ?i ?off k n buf src (c_table c) = Some (True, ?line)"
      by (rule fill_line_fills [OF lt.load [OF st n(3) less.prems(5)] less.prems(5) n(4) room])
    from lt.save_patch [OF st n(3), of ?off ?bs] n(4,5) obtain t where
      t: "save_line ?i ?line (c_table c) = Some (True, t)" "length (entries t) = length (entries (c_table c))"
        "table_stands t (line_of (patch m s ?bs))"
      unfolding bs by auto
    from t(1) obtain l where l: "BDI_Compress True (Some ?line) = Some l" "StoreLine ?i l (c_table c) = Some (True, t)"
      by (auto simp: save_line_def Option.bind_eq_Some_conv)
    from count_pattern_counts [OF pats] obtain ps where
      ps: "count_pattern (l_pattern l) c = Some (c\<lparr>c_patterns := ps\<rparr>)" "length ps = 16"
      by blast
    from lat obtain w where w: "to_u64 (dram_base_latency_ns (c_config c) + compression_latency_ns (c_config c)) = Some w"
      by (auto simp: latency_ok_def)
    let ?c = "c\<lparr>c_patterns := ps, c_table := t, c_write_latency := c_write_latency c + w\<rparr>"
    have ok: "ram_ok ?c (patch m s ?bs)"
      using t(2,3) lat cap ps(2) by (simp add: ram_ok_def)
    have dec: "e - (s + n) < e - s"
      using n(1) True by linarith
    have "e \<le> virtual_capacity_bytes (c_config ?c)" "k + n + (e - (s + n)) \<le> length src" "length ?line = 64"
      using less.prems(2,4) n(2,4) bs by simp_all
    from less.hyps [OF dec ok this(1) n(2) this(2,3)]
    obtain c' where c': "write_loop True (s + n) e (k + n) ?line src ?c = Some (True, c')"
      "ram_ok c' (patch (patch m s ?bs) (s + n) (take (e - (s + n)) (drop (k + n) src)))" "c_config c' = c_config ?c"
      by blast
    have "take (e - s) (drop k src) = ?bs @ take (e - (s + n)) (drop (k + n) src)"
      using take_add [of n "e - (s + n)" "drop k src"] n(2) by (simp add: add.commute)
    then have "patch (patch m s ?bs) (s + n) (take (e - (s + n)) (drop (k + n) src)) = patch m s (take (e - s) (drop k src))"
      by (simp only: patch_append bs)
    moreover have "write_loop True s e k buf src c = write_loop True (s + n) e (k + n) ?line src ?c"
      using True by (subst write_loop.simps) (simp add: Let_def fill l ps w n_def [symmetric])
    ultimately show ?thesis
      using c' by simp
  qed
qed

lemma Write_writes:
  assumes ok: "ram_ok c m" and n: "bs \<noteq> []" and a: "a + length bs \<le> virtual_capacity_bytes (c_config c)"
  shows "\<exists>c'. Write True a (Some bs) (length bs) c = Some (True, c') \<and> ram_ok c' (patch m a bs) \<and> c_config c' = c_config c"
proof -
  from write_loop_writes [OF ok a, of a 0 bs "replicate 64 0"]
  obtain c' where c': "write_loop True a (a + length bs) 0 (replicate 64 0) bs c = Some (True, c')"
    "ram_ok c' (patch m a bs)" "c_config c' = c_config c"
    by auto
  have "Write True a (Some bs) (length bs) c = Some (True, c'\<lparr>c_writes := c_writes c' + 1,
      c_bytes_written := c_bytes_written c' + word_of_nat (length bs)\<rparr>)"
    using n a by (simp add: Write_def bad_range_def c'(1))
  with c'(2,3) show ?thesis
    by (simp add: ram_ok_def)
qed

section \<open>Sequences of requests\<close>

datatype ram_request = RamWrite nat "byte list" | RamRead nat nat

datatype ram_answer = Written bool | ReadBack bool "byte list"

text \<open>The answers of the controller; every read has a fresh destination of its size.\<close>

fun ram_run :: "ram_request list \<Rightarrow> HyperRAMController \<Rightarrow> (ram_answer list \<times> HyperRAMController) option" where
  "ram_run [] c = Some ([], c)"
| "ram_run (RamWrite a bs # rs) c =
     do { (r, c) \<leftarrow> Write True a (Some bs) (length bs) c;
          (as, c) \<leftarrow> ram_run rs c;
          Some (Written r # as, c) }"
| "ram_run (RamRead a n # rs) c =
     do { (r, d, c) \<leftarrow> Read True a (Some (replicate n 0)) n c;
          (as, c) \<leftarrow> ram_run rs c;
          Some (ReadBack r d # as, c) }"

text \<open>The answers of a memory of \<open>cap\<close> bytes.\<close>

fun memory_answers :: "nat \<Rightarrow> ram_request list \<Rightarrow> (nat \<Rightarrow> byte) \<Rightarrow> ram_answer list" where
  "memory_answers cap [] m = []"
| "memory_answers cap (RamWrite a bs # rs) m =
     (if bs \<noteq> [] \<and> a + length bs \<le> cap then Written True # memory_answers cap rs (patch m a bs)
      else Written False # memory_answers cap rs m)"
| "memory_answers cap (RamRead a n # rs) m =
     (if 0 < n \<and> a + n \<le> cap then ReadBack True (map m [a..<a + n]) # memory_answers cap rs m
      else ReadBack False (replicate n 0) # memory_answers cap rs m)"

text \<open>The requests the controller refuses.\<close>

lemma refused:
  assumes "n = 0 \<or> \<not> a + n \<le> virtual_capacity_bytes (c_config c)"
  shows "Write wrap a (Some bs) n c = Some (False, c)" "Read wrap a (Some dest) n c = Some (False, dest, c)"
  using assms by (auto simp: Write_def Read_def bad_range_def)

lemma ram_run_answers:
  assumes "ram_ok c m"
  shows "\<exists>c'. ram_run rs c = Some (memory_answers (virtual_capacity_bytes (c_config c)) rs m, c') \<and>
    c_config c' = c_config c"
  using assms
proof (induction rs arbitrary: c m)
  case (Cons r rs)
  let ?cap = "virtual_capacity_bytes (c_config c)"
  show ?case
  proof (cases r)
    case (RamWrite a bs)
    show ?thesis
    proof (cases "bs \<noteq> [] \<and> a + length bs \<le> ?cap")
      case True
      with Write_writes [OF Cons.prems] obtain c' where c': "Write True a (Some bs) (length bs) c = Some (True, c')"
        "ram_ok c' (patch m a bs)" "c_config c' = c_config c"
        by blast
      from Cons.IH [OF c'(2)] c'(1,3) True show ?thesis
        by (auto simp: RamWrite)
    next
      case False
      with refused(1) [of "length bs" a c] Cons.IH [OF Cons.prems] show ?thesis
        by (auto simp: RamWrite)
    qed
  next
    case (RamRead a n)
    show ?thesis
    proof (cases "0 < n \<and> a + n \<le> ?cap")
      case True
      with Read_reads [OF Cons.prems, of n a "replicate n 0"] obtain c' where
        c': "Read True a (Some (replicate n 0)) n c = Some (True, map m [a..<a + n], c')" "same_ram c c'"
        by auto
      then have "c_config c' = c_config c"
        by (simp add: same_ram_def)
      with Cons.IH [OF same_ram_ok [OF c'(2) Cons.prems]] c'(1) True show ?thesis
        by (auto simp: RamRead)
    next
      case False
      with refused(2) [of n a c] Cons.IH [OF Cons.prems] show ?thesis
        by (auto simp: RamRead)
    qed
  qed
qed simp

lemma new_controller_ok:
  assumes "virtual_capacity_bytes g + 63 < 2 ^ 64" and "160 * ((virtual_capacity_bytes g + 63) div 64) \<le> physical_dram_bytes g"
    and "physical_dram_bytes g div 16 \<le> 2 ^ 24" and "latency_ok g"
  shows "ram_ok (new_HyperRAMController g) (\<lambda>_. 0)" "c_config (new_HyperRAMController g) = g"
proof -
  let ?c = "new_HyperRAMController g"
  have c: "c_config ?c = g" "length (c_patterns ?c) = 16"
    "c_table ?c = new_MemoryLineTable (virtual_capacity_bytes g) (physical_dram_bytes g)"
    by (simp_all add: new_HyperRAMController_def HyperRAM_ResetTelemetry_def)
  have "line_of (\<lambda>_. 0) = (\<lambda>_. replicate 64 0)"
    by (simp add: fun_eq_iff line_of_zero)
  then have "table_stands (c_table ?c) (line_of (\<lambda>_. 0))"
    using new_MemoryLineTable_stands(1) [OF assms(1,3)] new_MemoryLineTable_stands(2) [OF assms(1,3), of True] assms(2)
    by (simp add: table_stands_def c new_MemoryLineTable_fields [OF assms(1)])
  then show "ram_ok ?c (\<lambda>_. 0)"
    using assms(4) by (simp add: ram_ok_def c new_MemoryLineTable_fields [OF assms(1)])
  show "c_config ?c = g"
    by (fact c(1))
qed

section \<open>Counters\<close>

definition same_counts :: "HyperRAMController \<Rightarrow> HyperRAMController \<Rightarrow> bool" where
  "same_counts c c' \<longleftrightarrow> c_reads c' = c_reads c \<and> c_writes c' = c_writes c \<and>
     c_bytes_read c' = c_bytes_read c \<and> c_bytes_written c' = c_bytes_written c"

lemma read_loop_counts: "read_loop wrap s e d buf dest c = Some (r, dest', c') \<Longrightarrow> same_counts c c'"
proof (induction wrap s e d buf dest c rule: read_loop.induct)
  case (1 wrap s e d buf dest c)
  show ?case
  proof (cases "s < e")
    case True
    with "1.prems" show ?thesis
      using "1.IH" [OF True refl refl refl]
      by (subst (asm) read_loop.simps)
        (auto simp: same_counts_def Let_def Option.bind_eq_Some_conv split: if_splits)
  next
    case False
    with "1.prems" show ?thesis
      by (subst (asm) read_loop.simps) (simp add: same_counts_def)
  qed
qed

lemma count_pattern_same: "count_pattern p c = Some c' \<Longrightarrow> same_counts c c'"
  by (auto simp: count_pattern_def same_counts_def Let_def split: if_splits)

lemma same_counts_trans: "same_counts c c' \<Longrightarrow> same_counts c' c'' \<Longrightarrow> same_counts c c''"
  by (simp add: same_counts_def)

lemma write_loop_counts: "write_loop wrap s e k buf src c = Some (r, c') \<Longrightarrow> same_counts c c'"
proof (induction "e - s" arbitrary: s k buf c rule: less_induct)
  case less
  show ?case
  proof (cases "s < e")
    case True
    let ?n = "min (e - s) (64 - s mod 64)"
    note run = less.prems [unfolded write_loop.simps [of wrap s e] if_P [OF True] Let_def]
    obtain ok buf' where fill: "fill_line wrap (s div 64) (s mod 64) k ?n buf src (c_table c) = Some (ok, buf')"
      using run by (auto simp: Option.bind_eq_Some_conv)
    show ?thesis
    proof (cases ok)
      case False
      with run fill show ?thesis
        by (simp add: same_counts_def)
    next
      case ok: True
      obtain l c1 where l: "BDI_Compress wrap (Some buf') = Some l" and c1: "count_pattern (l_pattern l) c = Some c1"
        using run fill ok by (auto simp: Option.bind_eq_Some_conv)
      obtain stored t where st: "StoreLine (s div 64) l (c_table c1) = Some (stored, t)"
        using run fill ok l c1 by (auto simp: Option.bind_eq_Some_conv)
      let ?c = "c1\<lparr>c_table := t\<rparr>"
      have c: "same_counts c ?c"
        using count_pattern_same [OF c1] by (simp add: same_counts_def)
      show ?thesis
      proof (cases stored)
        case False
        with run fill ok l c1 st c show ?thesis
          by simp
      next
        case stored: True
        obtain w where w: "write_loop wrap (s + ?n) e (k + ?n) buf' src (?c\<lparr>c_write_latency := c_write_latency ?c + w\<rparr>) = Some (r, c')"
          using run fill ok l c1 st stored by (auto simp: Option.bind_eq_Some_conv)
        have "e - (s + ?n) < e - s"
          using True by auto
        from less.hyps [OF this w] c show ?thesis
          by (simp add: same_counts_def)
      qed
    qed
  next
    case False
    with less.prems show ?thesis
      by (subst (asm) write_loop.simps) (simp add: same_counts_def)
  qed
qed

lemma Read_counts:
  assumes "Read wrap a dest n c = Some (ok, d, c')"
  shows "c_reads c' = c_reads c + (if ok then 1 else 0) \<and> c_bytes_read c' = c_bytes_read c + (if ok then word_of_nat n else 0) \<and>
    c_writes c' = c_writes c \<and> c_bytes_written c' = c_bytes_written c"
  using assms
  by (auto simp: Read_def same_counts_def Option.bind_eq_Some_conv split: option.splits if_splits dest!: read_loop_counts)

lemma Write_counts:
  assumes "Write wrap a src n c = Some (ok, c')"
  shows "c_writes c' = c_writes c + (if ok then 1 else 0) \<and>
    c_bytes_written c' = c_bytes_written c + (if ok then word_of_nat n else 0) \<and>
    c_reads c' = c_reads c \<and> c_bytes_read c' = c_bytes_read c"
  using assms
  by (auto simp: Write_def same_counts_def Option.bind_eq_Some_conv split: option.splits if_splits dest!: write_loop_counts)

text \<open>The numbers of requests that succeeded, and their bytes.\<close>

fun request_counts :: "ram_request list \<Rightarrow> ram_answer list \<Rightarrow> (nat \<times> nat) \<times> nat \<times> nat" where
  "request_counts (RamRead a n # rs) (ReadBack ok d # as) =
     (let ((r, rb), w) = request_counts rs as in if ok then ((r + 1, rb + n), w) else ((r, rb), w))"
| "request_counts (RamWrite a bs # rs) (Written ok # as) =
     (let (r, (w, wb)) = request_counts rs as in if ok then (r, (w + 1, wb + length bs)) else (r, (w, wb)))"
| "request_counts _ _ = ((0, 0), (0, 0))"

lemma ram_run_counts:
  assumes "ram_run rs c = Some (as, c')" and "request_counts rs as = ((r, rb), (w, wb))"
  shows "c_reads c' = c_reads c + word_of_nat r \<and> c_bytes_read c' = c_bytes_read c + word_of_nat rb \<and>
    c_writes c' = c_writes c + word_of_nat w \<and> c_bytes_written c' = c_bytes_written c + word_of_nat wb"
  using assms
proof (induction rs arbitrary: c as r rb w wb)
  case (Cons q rs)
  show ?case
  proof (cases q)
    case (RamWrite a bs)
    with Cons.prems(1) obtain ok c1 as1 where q: "Write True a (Some bs) (length bs) c = Some (ok, c1)"
      "ram_run rs c1 = Some (as1, c')" "as = Written ok # as1"
      by (auto simp: Option.bind_eq_Some_conv)
    obtain r1 rb1 w1 wb1 where k: "request_counts rs as1 = ((r1, rb1), (w1, wb1))"
      by (metis surj_pair)
    from Cons.IH [OF q(2) k] Write_counts [OF q(1)] Cons.prems(2) show ?thesis
      by (auto simp: RamWrite q(3) k split: if_splits)
  next
    case (RamRead a n)
    with Cons.prems(1) obtain ok d c1 as1 where q: "Read True a (Some (replicate n 0)) n c = Some (ok, d, c1)"
      "ram_run rs c1 = Some (as1, c')" "as = ReadBack ok d # as1"
      by (auto simp: Option.bind_eq_Some_conv)
    obtain r1 rb1 w1 wb1 where k: "request_counts rs as1 = ((r1, rb1), (w1, wb1))"
      by (metis surj_pair)
    from Cons.IH [OF q(2) k] Read_counts [OF q(1)] Cons.prems(2) show ?thesis
      by (auto simp: RamRead q(3) k split: if_splits)
  qed
qed simp

section \<open>Properties\<close>



text \<open>C33: The telemetry counts what was done: the numbers of reads and writes that succeeded since the reset
  and their bytes, modulo \<open>2 ^ 64\<close>, whatever the configuration; refused and failed requests count for
  nothing there.\<close>

theorem hyper_ram_telemetry:
  assumes "ram_run rs (new_HyperRAMController g) = Some (as, c)" and "request_counts rs as = ((r, rb), (w, wb))"
  shows "total_reads (HyperRAM_GetTelemetry c) = word_of_nat r \<and> total_bytes_read (HyperRAM_GetTelemetry c) = word_of_nat rb \<and>
    total_writes (HyperRAM_GetTelemetry c) = word_of_nat w \<and> total_bytes_written (HyperRAM_GetTelemetry c) = word_of_nat wb"
  using ram_run_counts [OF assms] by (simp add: HyperRAM_GetTelemetry_def new_HyperRAMController_def HyperRAM_ResetTelemetry_def)

theorem hyper_ram_telemetry_witness:
  "\<exists>as c. ram_run [RamWrite 62 [1, 2, 3, 4], RamRead 63 3, RamRead 126 3]
        (new_HyperRAMController (default_ControllerConfig\<lparr>virtual_capacity_bytes := 128, physical_dram_bytes := 320\<rparr>)) =
      Some (as, c) \<and> total_reads (HyperRAM_GetTelemetry c) = 1 \<and> total_bytes_read (HyperRAM_GetTelemetry c) = 3 \<and>
    total_writes (HyperRAM_GetTelemetry c) = 1 \<and> total_bytes_written (HyperRAM_GetTelemetry c) = 4"
proof -
  let ?g = "default_ControllerConfig\<lparr>virtual_capacity_bytes := 128, physical_dram_bytes := 320\<rparr>"
    and ?rs = "[RamWrite 62 [1, 2, 3, 4], RamRead 63 3, RamRead 126 3]"
  have "latency_ok ?g"
    by (simp add: latency_ok_def to_u64_def default_ControllerConfig_def)
  moreover have "virtual_capacity_bytes ?g = 128" "physical_dram_bytes ?g = 320"
    by (simp_all add: default_ControllerConfig_def)
  ultimately have "ram_ok (new_HyperRAMController ?g) (\<lambda>_. 0)" "c_config (new_HyperRAMController ?g) = ?g"
    using new_controller_ok [of ?g] by simp_all
  from ram_run_answers [OF this(1), of ?rs] obtain c where
    run: "ram_run ?rs (new_HyperRAMController ?g) = Some (memory_answers 128 ?rs (\<lambda>_. 0), c)"
    unfolding \<open>c_config (new_HyperRAMController ?g) = ?g\<close> \<open>virtual_capacity_bytes ?g = 128\<close> by blast
  have "request_counts ?rs (memory_answers 128 ?rs (\<lambda>_. 0)) = ((1, 3), (1, 4))"
    by code_simp
  from hyper_ram_telemetry [OF run this] run show ?thesis
    by (auto simp del: ram_run.simps memory_answers.simps)
qed

end
