(* ===== verification/Spec2Isabelle.thy ===== *)
theory Spec2Isabelle
  imports Lz4_Decode_Props Lz4_Decode_Dict Lz4_Unsafe_Props Lz4_Dict_Props
    Lz4_Compressor Flash_Model Ftl_Props Ftl_Loss Benchmark
    Hyper_Ram_Props
begin

text \<open>
  zFTL is a flash translation layer that compresses every 4 KB block with LZ4 before it writes it
  to a simulated NAND array. The development models the library src/ builds for it, its benchmark, and the older
  HyperRAM library under src/legacy/, a compressed main memory.

  The parts and their theories, bottom up:

  \<^item> \<open>Prelude\<close>: bytes, pointers, the fixed-width conversions, array copies, shared lemmas.
  \<^item> \<open>Lz4_Memory\<close>, \<open>Lz4_Copy\<close>: the flat memory and the copy routines of src/lz4.c
    (\<open>LZ4_wildCopy8\<close>, \<open>LZ4_wildCopy32\<close>, \<open>LZ4_memcpy_using_offset\<close>), and what each leaves in
    memory, by the interface \<open>match_copier\<close>.
  \<^item> \<open>Lz4_Format\<close>: the LZ4 block format as data: sequences, their meaning, their encoding, the
    end-of-block restrictions.
  \<^item> \<open>Lz4_Reference\<close>: a plain decoder on lists, sound and complete for the format.
  \<^item> \<open>Lz4_Decode\<close>: \<open>LZ4_decompress_generic\<close> with one step function for each loop head and label
    of the C function, and its entry points. \<open>Lz4_Match\<close>, \<open>Lz4_Decode_Refine\<close>: every step
    simulates the reference decoder. \<open>Lz4_Decode_Props\<close>: what callers rely on.
  \<^item> \<open>Lz4_Stream_Decode\<close>: \<open>LZ4_decompress_safe_continue\<close> and its state. \<open>Lz4_Decode_Dict\<close>: the
    decoders that are given a dictionary, in front of the output or elsewhere, and the stream of
    blocks.
  \<^item> \<open>Lz4_Unsafe\<close>: \<open>LZ4_decompress_unsafe_generic\<close>, which is not told where its input ends.
    \<open>Lz4_Unsafe_Props\<close>: it decodes every legal block, by the laws of \<open>Lz4_History\<close> on the bytes in
    front of an output pointer.
  \<^item> \<open>Lz4_Count\<close>, \<open>Lz4_Hash\<close>: match counting and the hash table, with the interface
    \<open>position_table\<close>.
  \<^item> \<open>Lz4_Compress\<close>: \<open>LZ4_compress_generic\<close>, again by control points, and its entry points.
    \<open>Lz4_Emit\<close>, \<open>Lz4_Parse\<close>, \<open>Lz4_Compress_Correct\<close>: in every dictionary mode what the encoder writes is
    the encoding of a parse of the input, after the history that the mode gives it.
    \<open>Lz4_Compress_Props\<close>: what callers rely on, and the round trip.
  \<^item> \<open>Lz4_Stream\<close>: the streaming compression functions: dictionaries, \<open>LZ4_compress_fast_continue\<close>.
    \<open>Lz4_Stream_State\<close>: the invariant \<open>stream_ok\<close> of their state between two calls, and that loading, attaching,
    saving, resetting and renormalising keep it. \<open>Lz4_Stream_Props\<close>: one call of the encoder in each of its
    modes. \<open>Lz4_Stream_Roundtrip\<close>: sessions of an encoder and a decoder, each with its own memory, as an
    inductive relation; \<open>covers\<close> relates the data the two still have, and what is received is what was sent.
    \<open>Lz4_Dict_Props\<close>: loaded and attached dictionaries, and the states that the calls reach.
  \<^item> \<open>Lz4_Compressor\<close>: \<open>LZ4Compressor\<close> of src/lz4_compressor.cpp, an instance of the
    interface \<open>block_codec\<close> of \<open>Prelude\<close>. \<open>Lz4_Runs\<close>: the steps of the encoder on equal bytes, and so the size of
    what it makes of them.
  \<^item> \<open>Flash_Model\<close>: \<open>FlashModel\<close> of src/flash_model.cpp, with the interface \<open>page_store\<close>.
  \<^item> \<open>Ftl_Controller\<close>: \<open>FTLController\<close> of src/ftl_controller.cpp. \<open>Ftl_Invariant\<close>: its operations
    return and keep the state well formed. \<open>Ftl_Props\<close>: the reachable states.
  \<^item> \<open>Ftl_Books\<close>, \<open>Ftl_Collect\<close>, \<open>Ftl_Reads\<close>, \<open>Ftl_Runs\<close>: the mapping table, the owners of the pages and
    the array agree (\<open>books\<close>, \<open>tracks\<close>), garbage collection and writing keep it, and so the controller
    refines a map from addresses to pages as long as writes find space. A page that LZ4 compresses to 2049 to 3071
    bytes is the exception (\<open>three_quarter\<close>): it is programmed compressed and read back as it was programmed.
    \<open>Ftl_Pages\<close>: pages that LZ4 does not compress exist, and what a write of one does. \<open>Ftl_Device\<close>: a small device
    whose states are computed; the witnesses of \<open>Ftl_Runs\<close> are runs on it with staging, packing and garbage
    collection. \<open>Ftl_Loss\<close>: a run in which a write is lost.
  \<^item> \<open>Ftl_Counters\<close>: what one write adds to the telemetry. \<open>Benchmark\<close>: the workloads of src/main.cpp, run on
    the controller.
  \<^item> \<open>Bdi_Engine\<close>, \<open>Bdi_Props\<close>: the base-delta compression of 64-byte lines of
    legacy/src/bdi_engine.cpp and its round trip, again an instance of \<open>block_codec\<close>.
  \<^item> \<open>Line_Table\<close>: the line table of legacy/src/line_table.cpp. \<open>Line_Alloc\<close>: its chunk allocator never
    gives out a chunk twice. \<open>Line_Props\<close>: the table is a map from lines to their bytes, with the interface
    \<open>line_memory\<close>; the cases where it is not.
  \<^item> \<open>Hyper_Ram\<close>, \<open>Hyper_Ram_Props\<close>: the controller of legacy/src/hyper_ram_controller.cpp, which refines a
    plain memory of bytes.

  The controller calls the compressor and the array; the compressor calls the LZ4 encoder and
  decoder on two separate buffers. The HyperRAM controller compresses a line, and stores and loads it by
  the line table.

  Conventions. Undefined behaviour (an access outside a buffer or a vector, \<open>memcpy\<close> on overlapping
  areas) and a loop that does not end are \<^term>\<open>None\<close>, so a statement that an operation returns
  \<^term>\<open>Some\<close> of a value includes that it terminates and stays inside its memory. The loops of the
  encoder and the decoder are \<open>partial_function (option)\<close>; no fuel is used. The overflow of signed
  integers in the BDI engine depends on how it is built, so it is a parameter \<open>wrap\<close>: true stands for
  \<open>-fwrapv\<close>, which no build file sets (src/CMakeLists.txt does not build src/legacy), false for the standard, where an overflow is \<^term>\<open>None\<close>.
  \<open>BDI_Compress_overflows\<close> and \<open>DecompressRaw_defined\<close> say what that means for the two directions.

  Bounds. The invariant \<open>table_ok\<close> of the line table includes that there are at most 2^24 chunks of 16 bytes, 256 MB,
  which the constructor does not enforce: beyond it the 24-bit chunk number of an entry wraps around
  (\<open>StoreLine_offset_wraps\<close>). So the refinement of the HyperRAM controller, which needs 160 bytes for each line of 64, is
  for physical memories up to 256 MB.

  Configuration: x86-64 with gcc or clang as CMakeLists.txt builds it: little-endian, 64-bit words,
  \<open>LZ4_FAST_DEC_LOOP\<close> on, \<open>LZ4_HEAPMODE\<close> off, \<open>LZ4_MEMORY_USAGE\<close> 14, assertions without effect.

  The theorems on the streaming decoder assume that the last 64 KB it refers to do not overlap the room for the
  block (\<open>sd_ok\<close>); so they say nothing of a ring buffer in which the two overlap. A session of a sender and a
  receiver is a sequence of calls with memories that may change between the calls outside the data still needed.

  Not modelled: the hash table mode \<open>byPtr\<close> (only for 32-bit pointers); the
  allocator, whose results are arguments of the functions that create a state; the concurrency of
  \<open>FlushStagedWrites\<close>, which takes no lock, and of the calls of the line table; rounding of \<open>double\<close>
  values; the times and the output of src/main.cpp, whose random
  numbers are a parameter; src/tests.cpp, which is tests; the hardware descriptions
  in Verilog.
\<close>

end
